(* ===== verification/Prelude.thy ===== *)
theory Prelude
  imports
    Main
    "HOL-Library.Word"
    "HOL-Library.Monad_Syntax"
    "HOL-Library.State_Monad"
    "HOL-Library.More_List"
begin

unbundle bit_operations_syntax

text \<open>
  Shared vocabulary of the development: the machine types of the C sources, the wrap-around of a
  signed 32-bit \<open>int\<close>, the memory-access convention, a small Hoare logic for the state monad that
  threads a reader or a context through the source's calls, and the list, option and word lemmas
  that several components use.

  Conventions. A C integer whose width matters is a word, or an \<open>int\<close> passed through \<open>i32\<close> where
  the source adds or subtracts; an array or a string is the list of its elements from the pointer
  on, and a read outside of the list is not given a value: it is \<open>None\<close>, or it raises the fault
  flag of the state it happens in.
\<close>

type_synonym u8 = "8 word"
type_synonym u16 = "16 word"
type_synonym u32 = "32 word"
type_synonym u64 = "64 word"
type_synonym vbyte = u8
type_synonym uchar = u16

named_theorems hoare_rules \<open>rules of the Hoare logic of the state monad\<close>
named_theorems word_facts \<open>word and integer facts used to evaluate bit fields\<close>

subsection \<open>Signed 32-bit integers\<close>

text \<open>The value a 32-bit signed \<open>int\<close> holds after an operation whose exact result is \<open>x\<close>.\<close>

definition i32 :: "int \<Rightarrow> int" where
  "i32 x = (x + 2 ^ 31) mod 2 ^ 32 - 2 ^ 31"

definition INT_MAX :: int where
  "INT_MAX = 2147483647"

lemma i32_id [simp]: "- (2 ^ 31) \<le> x \<Longrightarrow> x < 2 ^ 31 \<Longrightarrow> i32 x = x"
  by (simp add: i32_def)

lemma i32_range: "- (2 ^ 31) \<le> i32 x \<and> i32 x < 2 ^ 31"
proof -
  have "0 \<le> (x + 2 ^ 31) mod (2 ^ 32 :: int)" "(x + 2 ^ 31) mod (2 ^ 32 :: int) < 2 ^ 32"
    by simp_all
  then show ?thesis by (simp add: i32_def)
qed

lemma i32_above: "2 ^ 31 \<le> x \<Longrightarrow> x < 2 ^ 31 + 2 ^ 32 \<Longrightarrow> i32 x = x - 2 ^ 32"
proof -
  assume *: "2 ^ 31 \<le> x" "x < 2 ^ 31 + 2 ^ 32"
  have "(x + 2 ^ 31) mod 2 ^ 32 = (x + 2 ^ 31 - 2 ^ 32) mod (2 ^ 32 :: int)"
    by (simp only: minus_mod_self2)
  also have "\<dots> = x + 2 ^ 31 - 2 ^ 32"
    using * by (simp add: mod_pos_pos_trivial)
  finally show ?thesis by (simp add: i32_def)
qed

lemma i32_sint: "i32 x = sint (word_of_int x :: u32)"
proof -
  have "sint (word_of_int x :: u32) = signed_take_bit 31 x"
    by (simp add: sint_sbintrunc')
  also have "\<dots> = take_bit 32 (x + 2 ^ 31) - 2 ^ 31"
    using signed_take_bit_eq_take_bit_shift [of 31 x] by simp
  also have "\<dots> = i32 x"
    by (simp add: i32_def take_bit_eq_mod)
  finally show ?thesis by simp
qed

subsection \<open>Bit fields of integers\<close>

lemma and_exp_mod: "(x :: int) AND (2 ^ n - 1) = x mod 2 ^ n"
  by (simp only: take_bit_eq_mask [symmetric] mask_eq_exp_minus_1 [symmetric] take_bit_eq_mod)

lemma and_mask_mod [word_facts]:
  fixes x :: int
  shows "x AND 1 = x mod 2" "x AND 3 = x mod 4" "x AND 7 = x mod 8" "x AND 15 = x mod 16"
    "x AND 31 = x mod 32" "x AND 63 = x mod 64" "x AND 127 = x mod 128" "x AND 255 = x mod 256"
    "x AND 1023 = x mod 1024"
  by (rule and_exp_mod [where n = 1, simplified], rule and_exp_mod [where n = 2, simplified],
      rule and_exp_mod [where n = 3, simplified], rule and_exp_mod [where n = 4, simplified],
      rule and_exp_mod [where n = 5, simplified], rule and_exp_mod [where n = 6, simplified],
      rule and_exp_mod [where n = 7, simplified], rule and_exp_mod [where n = 8, simplified],
      rule and_exp_mod [where n = 10, simplified])

lemma or_push_bit_add:
  fixes x y :: int
  assumes "0 \<le> x" "x < 2 ^ n"
  shows "x OR push_bit n y = x + push_bit n y"
  using assms concat_bit_eq [of n x y] concat_bit_def [of n x y]
  by (simp add: take_bit_int_eq_self)

lemma push_bit_or_add:
  fixes x y :: int
  assumes "0 \<le> x" "x < 2 ^ n"
  shows "push_bit n y OR x = push_bit n y + x"
  using or_push_bit_add [OF assms, of y] by (simp add: or.commute add.commute)

subsection \<open>A Hoare logic for the state monad\<close>

text \<open>
  \<open>hoare P m Q\<close>: run from a state with \<open>P\<close>, the action \<open>m\<close> ends with a result and a state
  related by \<open>Q\<close>. The rules in \<open>hoare_rules\<close> follow the shape of the monadic code, so that a fact
  about a reader is proved by applying them and closing the leaves with \<open>auto\<close>.
\<close>

definition hoare :: "('s \<Rightarrow> bool) \<Rightarrow> ('s, 'a) state \<Rightarrow> ('a \<Rightarrow> 's \<Rightarrow> bool) \<Rightarrow> bool" where
  "hoare P m Q \<longleftrightarrow> (\<forall>s. P s \<longrightarrow> (case run_state m s of (a, s') \<Rightarrow> Q a s'))"

abbreviation keeps :: "('s \<Rightarrow> bool) \<Rightarrow> ('s, 'a) state \<Rightarrow> bool" where
  "keeps P m \<equiv> hoare P m (\<lambda>_. P)"

lemma hoareD: "hoare P m Q \<Longrightarrow> P s \<Longrightarrow> run_state m s = (a, s') \<Longrightarrow> Q a s'"
  by (auto simp: hoare_def)

lemma hoareI: "(\<And>s a s'. P s \<Longrightarrow> run_state m s = (a, s') \<Longrightarrow> Q a s') \<Longrightarrow> hoare P m Q"
  by (auto simp: hoare_def)

lemma hoare_return [hoare_rules]: "(\<And>s. P s \<Longrightarrow> Q x s) \<Longrightarrow> hoare P (State_Monad.return x) Q"
  by (simp add: hoare_def)

lemma hoare_bind [hoare_rules]:
  assumes "hoare P m R" and "\<And>a. hoare (R a) (f a) Q"
  shows "hoare P (m \<bind> f) Q"
  using assms by (fastforce simp: hoare_def split: prod.splits)

lemma hoare_get [hoare_rules]: "(\<And>s. P s \<Longrightarrow> Q s s) \<Longrightarrow> hoare P State_Monad.get Q"
  by (simp add: hoare_def)

lemma hoare_set [hoare_rules]: "(\<And>s. P s \<Longrightarrow> Q () t) \<Longrightarrow> hoare P (State_Monad.set t) Q"
  by (simp add: hoare_def)

lemma hoare_update [hoare_rules]: "(\<And>s. P s \<Longrightarrow> Q () (f s)) \<Longrightarrow> hoare P (State_Monad.update f) Q"
  by (simp add: hoare_def State_Monad.update_def)

lemma hoare_if [hoare_rules]:
  assumes "c \<Longrightarrow> hoare P m Q" and "\<not> c \<Longrightarrow> hoare P n Q"
  shows "hoare P (if c then m else n) Q"
  using assms by simp

lemma hoare_conseq:
  assumes "hoare P' m Q'" and "\<And>s. P s \<Longrightarrow> P' s" and "\<And>a s. Q' a s \<Longrightarrow> Q a s"
  shows "hoare P m Q"
  using assms by (fastforce simp: hoare_def split: prod.splits)

lemma hoare_conj: "hoare P m Q \<Longrightarrow> hoare P m R \<Longrightarrow> hoare P m (\<lambda>a s. Q a s \<and> R a s)"
  by (fastforce simp: hoare_def split: prod.splits)

subsection \<open>Counted loops\<close>

text \<open>\<open>for( i=0; i<n; i++ ) out[i] = m\<close>: run an action \<open>n\<close> times and collect its results.\<close>

primrec repeatM :: "nat \<Rightarrow> ('s, 'a) state \<Rightarrow> ('s, 'a list) state" where
  "repeatM 0 m = State_Monad.return []"
| "repeatM (Suc n) m = do { x \<leftarrow> m; xs \<leftarrow> repeatM n m; State_Monad.return (x # xs) }"

text \<open>A loop whose body uses the index: the indices in order.\<close>

primrec forM :: "'i list \<Rightarrow> ('i \<Rightarrow> ('s, unit) state) \<Rightarrow> ('s, unit) state" where
  "forM [] f = State_Monad.return ()"
| "forM (i # is) f = do { f i; forM is f }"

lemma hoare_repeatM [hoare_rules]:
  assumes "hoare P m (\<lambda>x s. P s \<and> Q x)"
  shows "hoare P (repeatM n m) (\<lambda>xs s. P s \<and> length xs = n \<and> (\<forall>x\<in>set xs. Q x))"
proof (induction n)
  case 0
  then show ?case by (auto intro!: hoare_return)
next
  case (Suc n)
  show ?case
  proof (rule hoareI)
    fix s ys s''
    assume "P s" "run_state (repeatM (Suc n) m) s = (ys, s'')"
    then obtain x s' xs where *: "run_state m s = (x, s')" "run_state (repeatM n m) s' = (xs, s'')"
      "ys = x # xs"
      by (auto split: prod.splits)
    with hoareD [OF assms \<open>P s\<close> *(1)] hoareD [OF Suc, of s' xs s'']
    show "P s'' \<and> length ys = Suc n \<and> (\<forall>x\<in>set ys. Q x)" by auto
  qed
qed

lemma keeps_forM [hoare_rules]:
  assumes "\<And>i. i \<in> set is \<Longrightarrow> keeps P (f i)"
  shows "keeps P (forM is f)"
  using assms
proof (induction "is")
  case Nil
  then show ?case by (auto intro!: hoare_return)
next
  case (Cons i "is")
  then show ?case by (auto intro!: hoare_bind)
qed

subsection \<open>Binary search\<close>

text \<open>
  The three-way binary search loop that \<^verbatim>\<open>data_struct.c\<close> and \<^verbatim>\<open>std/obj.c\<close> repeat in every
  lookup: \<open>side mid\<close> is negative where the element at \<open>mid\<close> is before the key, positive where it is
  after it and 0 on a match.
\<close>

datatype search = Found nat | Missing nat

function bsearch :: "(nat \<Rightarrow> int) \<Rightarrow> nat \<Rightarrow> nat \<Rightarrow> search" where
  "bsearch side lo hi =
    (if lo < hi then
       (let mid = (lo + hi) div 2 in
        if side mid < 0 then bsearch side (mid + 1) hi
        else if side mid > 0 then bsearch side lo mid
        else Found mid)
     else Missing ((lo + hi) div 2))"
  by pat_completeness auto
termination
  by (relation "measure (\<lambda>(side, lo, hi). hi - lo)") auto

declare bsearch.simps [simp del]

text \<open>\<open>side\<close> is ordered on the first \<open>n\<close> positions: at most one match, after the smaller elements.\<close>

definition ordered_side :: "(nat \<Rightarrow> int) \<Rightarrow> nat \<Rightarrow> bool" where
  "ordered_side side n \<longleftrightarrow> (\<forall>i j. i < j \<longrightarrow> j < n \<longrightarrow> (side i \<ge> 0 \<longrightarrow> side j > 0))"

lemma ordered_sideD: "ordered_side side n \<Longrightarrow> i < j \<Longrightarrow> j < n \<Longrightarrow> side i \<ge> 0 \<Longrightarrow> side j > 0"
  by (auto simp: ordered_side_def)

lemma bsearch_Found: "bsearch side lo hi = Found m \<Longrightarrow> lo \<le> m \<and> m < hi \<and> side m = 0"
proof (induction side lo hi rule: bsearch.induct)
  case (1 side lo hi)
  show ?case
  proof (cases "lo < hi")
    case True
    with 1 show ?thesis
      by (auto simp: bsearch.simps [of side lo hi] Let_def split: if_splits)
  next
    case False
    with 1(3) show ?thesis by (simp add: bsearch.simps [of side lo hi])
  qed
qed

lemma bsearch_Missing:
  assumes "bsearch side lo hi = Missing p" "lo \<le> hi" "hi \<le> n" "ordered_side side n"
    "\<And>i. i < lo \<Longrightarrow> side i < 0" "\<And>i. hi \<le> i \<Longrightarrow> i < n \<Longrightarrow> side i > 0"
  shows "p \<le> n \<and> (\<forall>i<p. side i < 0) \<and> (\<forall>i. p \<le> i \<longrightarrow> i < n \<longrightarrow> side i > 0)"
  using assms
proof (induction side lo hi rule: bsearch.induct)
  case (1 side lo hi)
  let ?mid = "(lo + hi) div 2"
  show ?case
  proof (cases "lo < hi")
    case False
    with 1(3-) show ?thesis by (auto simp: bsearch.simps [of side lo hi])
  next
    case True
    then have mid: "lo \<le> ?mid" "?mid < hi" by auto
    consider "side ?mid < 0" | "side ?mid > 0" using 1(3) True
      by (auto simp: bsearch.simps [of side lo hi] Let_def split: if_splits)
    then show ?thesis
    proof cases
      case 1
      have "side i < 0" if "i < ?mid + 1" for i
        using ordered_sideD [OF "1.prems"(4), of i ?mid] that mid 1 "1.prems"(3)
        by (cases "i = ?mid") fastforce+
      with "1.IH"(1) [OF True refl 1] "1.prems" 1 True mid show ?thesis
        by (simp add: bsearch.simps [of side lo hi] Let_def)
    next
      case 2
      have "side i > 0" if "?mid \<le> i" "i < n" for i
        using ordered_sideD [OF "1.prems"(4), of ?mid i] that 2 by (cases "i = ?mid") auto
      moreover have "bsearch side lo ?mid = Missing p"
        using "1.prems"(1) True 2 by (auto simp: bsearch.simps [of side lo hi] Let_def split: if_splits)
      moreover have "?mid \<le> n" using mid "1.prems"(3) by linarith
      moreover have "\<not> side ?mid < 0" using 2 by linarith
      ultimately show ?thesis
        by (intro "1.IH"(2) [OF True refl _ 2]) (use mid "1.prems"(4,5) in blast)+
    qed
  qed
qed

lemmas bsearch_Missing_all = bsearch_Missing [where lo = 0 and hi = n and n = n for n, simplified]

lemma bsearch_match:
  assumes "ordered_side side n" "m < n" "side m = 0"
  shows "bsearch side 0 n = Found m"
proof (cases "bsearch side 0 n")
  case (Found k)
  then have "k < n" "side k = 0" using bsearch_Found [of side 0 n k] by auto
  with assms have "k = m"
    using ordered_sideD [of side n k m] ordered_sideD [of side n m k] by (metis less_irrefl nat_neq_iff order_refl)
  with Found show ?thesis by simp
next
  case (Missing p)
  with bsearch_Missing_all [OF Missing assms(1)] assms(2,3) show ?thesis
    by (metis less_irrefl not_le)
qed

text \<open>Shifting the tail up by one and storing at \<open>pos\<close>, as a \<open>memmove\<close> and an assignment do.\<close>

definition insert_at :: "nat \<Rightarrow> 'a \<Rightarrow> 'a list \<Rightarrow> 'a list" where
  "insert_at pos x xs = take pos xs @ x # drop pos xs"

definition remove_at :: "nat \<Rightarrow> 'a list \<Rightarrow> 'a list" where
  "remove_at pos xs = take pos xs @ drop (pos + 1) xs"

lemma set_insert_at [simp]: "set (insert_at p x xs) = insert x (set xs)"
  by (auto simp: insert_at_def) (metis Un_iff append_take_drop_id set_append)+

lemma length_insert_at [simp]: "length (insert_at p x xs) = length xs + 1"
  by (simp add: insert_at_def)

lemma map_insert_at [simp]: "map f (insert_at p x xs) = insert_at p (f x) (map f xs)"
  by (simp add: insert_at_def take_map drop_map)

lemma map_remove_at [simp]: "map f (remove_at p xs) = remove_at p (map f xs)"
  by (simp add: remove_at_def take_map drop_map)

lemma sorted_wrt_insert_at:
  assumes "sorted_wrt R xs" "\<And>i. i < p \<Longrightarrow> i < length xs \<Longrightarrow> R (xs ! i) x"
    "\<And>i. p \<le> i \<Longrightarrow> i < length xs \<Longrightarrow> R x (xs ! i)" "transp R"
  shows "sorted_wrt R (insert_at p x xs)"
proof -
  have "sorted_wrt R (take p xs @ drop p xs)" using assms(1) by simp
  then have s: "sorted_wrt R (take p xs)" "sorted_wrt R (drop p xs)"
    "\<forall>a\<in>set (take p xs). \<forall>b\<in>set (drop p xs). R a b"
    unfolding sorted_wrt_append by auto
  have "R a x" if "a \<in> set (take p xs)" for a
    using that assms(2) by (auto simp: in_set_conv_nth)
  moreover have "R x b" if "b \<in> set (drop p xs)" for b
    using that assms(3) by (auto simp: in_set_conv_nth)
  ultimately show ?thesis
    using s by (auto simp: insert_at_def sorted_wrt_append)
qed

end
