(* ===== verification/Utf.thy ===== *)
theory Utf
  imports Prelude
begin

text \<open>
  The string encodings of \<^verbatim>\<open>src/src/std/ucs2.c\<close> and \<^verbatim>\<open>src/src/std/string.c\<close>: the
  UCS-2 helpers and the conversions between UTF-8 and UTF-16.

  A \<open>const char*\<close> or \<open>const uchar*\<close> is the list of units from the pointer to the end of the
  memory it points into, terminator included. A function that reads outside of that memory has the
  value \<open>None\<close>. Characters are promoted to \<open>int\<close> or \<open>unsigned\<close> as in C, so the
  bit operations are those of \<open>int\<close> and a store truncates with \<open>word_of_int\<close>.
\<close>

subsection \<open>ucs2.c: lengths, comparison, UTF-8 output\<close>

fun ustrlen :: "uchar list \<Rightarrow> nat option" where
  "ustrlen [] = None"
| "ustrlen (c # p) = (if c = 0 then Some 0 else map_option Suc (ustrlen p))"

fun ustrlen_utf8 :: "uchar list \<Rightarrow> nat \<Rightarrow> nat option" where
  "ustrlen_utf8 [] sz = None"
| "ustrlen_utf8 (c # str) sz =
    (if c = 0 then Some sz
     else if c < 0x80 then ustrlen_utf8 str (sz + 1)
     else if c < 0x800 then ustrlen_utf8 str (sz + 2)
     else if c \<ge> 0xD800 \<and> c \<le> 0xDFFF then ustrlen_utf8 (drop 1 str) (sz + 4)
     else ustrlen_utf8 str (sz + 3))"

fun ustrdup :: "uchar list \<Rightarrow> uchar list option" where
  "ustrdup str = map_option (\<lambda>len. take (len + 1) str) (ustrlen str)"

fun ucmp :: "uchar list \<Rightarrow> uchar list \<Rightarrow> int option" where
  "ucmp (a # as) (b # bs) =
    (let d = uint a - uint b in if d \<noteq> 0 then Some d else if a = 0 then Some 0 else ucmp as bs)"
| "ucmp _ _ = None"

text \<open>
  \<open>utostr\<close> writes UTF-8 into a buffer of \<open>out_size\<close> bytes: the list is what has been written,
  \<open>room\<close> is \<open>end - out\<close>.
\<close>

fun utostr_loop :: "int \<Rightarrow> uchar list \<Rightarrow> u8 list option" where
  "utostr_loop room str =
    (if room \<le> 0 then Some []
     else case str of [] \<Rightarrow> None | u # str1 \<Rightarrow>
       let c = uint u in
       if c = 0 then Some []
       else if c < 0x80 then map_option ((@) [word_of_int c]) (utostr_loop (room - 1) str1)
       else if c < 0x800 then
         (if 2 > room then Some []
          else map_option ((@) [word_of_int (0xC0 OR drop_bit 6 c), word_of_int (0x80 OR (c AND 63))])
                 (utostr_loop (room - 2) str1))
       else if c \<ge> 0xD800 \<and> c \<le> 0xDFFF then
         (if 4 > room then Some []
          else case str1 of [] \<Rightarrow> None | w # str2 \<Rightarrow>
            let full = ((push_bit 10 (c - 0xD800) OR ((uint w - 0xDC00) mod 2 ^ 32)) + 0x10000) mod 2 ^ 32 in
            map_option ((@) [word_of_int (0xF0 OR drop_bit 18 full), word_of_int (0x80 OR (drop_bit 12 full AND 63)),
                word_of_int (0x80 OR (drop_bit 6 full AND 63)), word_of_int (0x80 OR (full AND 63))])
              (utostr_loop (room - 4) str2))
       else if 3 > room then Some []
       else map_option ((@) [word_of_int (0xE0 OR drop_bit 12 c), word_of_int (0x80 OR (drop_bit 6 c AND 63)),
                word_of_int (0x80 OR (c AND 63))]) (utostr_loop (room - 3) str1))"

declare utostr_loop.simps [simp del]

text \<open>The bytes stored in \<open>out\<close> and the returned length.\<close>

definition utostr :: "int \<Rightarrow> uchar list \<Rightarrow> (u8 list \<times> nat) option" where
  "utostr out_size str =
    (if out_size \<le> 0 then Some ([], 0)
     else map_option (\<lambda>out. (out @ [0], length out)) (utostr_loop (out_size - 1) str))"

definition utos :: "uchar list \<Rightarrow> u8 list option" where
  "utos s = do {
     len \<leftarrow> ustrlen_utf8 s 0;
     (out, n) \<leftarrow> utostr (int len + 1) s;
     Some out }"

subsection \<open>string.c: UTF-8 to UTF-16\<close>

fun hl_ucs2length :: "uchar list \<Rightarrow> nat \<Rightarrow> nat option" where
  "hl_ucs2length str pos = ustrlen (drop pos str)"

fun utf8_length_loop :: "vbyte list \<Rightarrow> nat \<Rightarrow> nat option" where
  "utf8_length_loop [] len0 = None"
| "utf8_length_loop (c # s1) len0 =
    (let len = len0 + 1 in
     if c < 0x80 then (if c = 0 then Some (len - 1) else utf8_length_loop s1 len)
     else if c < 0xC0 then Some (len - 1)
     else if c < 0xE0 then
       (case s1 of d1 # s2 \<Rightarrow> if d1 AND 0x80 = 0 then Some (len - 1) else utf8_length_loop s2 len
        | _ \<Rightarrow> None)
     else if c < 0xF0 then
       (case s1 of d1 # d2 # s3 \<Rightarrow>
            if (d1 AND d2) AND 0x80 = 0 then Some (len - 1) else utf8_length_loop s3 len
        | _ \<Rightarrow> None)
     else if c < 0xF8 then
       (case s1 of d1 # d2 # d3 # s4 \<Rightarrow>
            if (d1 AND d2 AND d3) AND 0x80 = 0 then Some (len - 1) else utf8_length_loop s4 (len + 1)
        | _ \<Rightarrow> None)
     else Some len)"

definition hl_utf8_length :: "vbyte list \<Rightarrow> nat \<Rightarrow> nat option" where
  "hl_utf8_length s pos = utf8_length_loop (drop pos s) 0"

text \<open>
  The loop of \<open>hl_from_utf8\<close>: what it writes to \<open>out\<close> before the final terminator, and the value of
  \<open>p\<close> on exit.
\<close>

function from_utf8_loop :: "nat \<Rightarrow> nat \<Rightarrow> vbyte list \<Rightarrow> (uchar list \<times> nat) option" where
  "from_utf8_loop outLen p0 str =
    (if \<not> p0 < outLen then Some ([], p0 + 1)
     else let p = p0 + 1 in
      case str of [] \<Rightarrow> None | c0 # str1 \<Rightarrow>
        let c = uint c0 in
        if c < 0x80 then
          (if c = 0 then Some ([], p)
           else map_option (apfst ((#) (word_of_int c))) (from_utf8_loop outLen p str1))
        else if c < 0xE0 then
          (case str1 of d1 # str2 \<Rightarrow>
             map_option (apfst ((#) (word_of_int (push_bit 6 (c AND 0x3F) OR (uint d1 AND 0x7F)))))
               (from_utf8_loop outLen p str2)
           | _ \<Rightarrow> None)
        else if c < 0xF0 then
          (case str1 of c2 # d # str3 \<Rightarrow>
             map_option (apfst ((#) (word_of_int
                 (push_bit 12 (c AND 0x1F) OR push_bit 6 (uint c2 AND 0x7F) OR (uint d AND 0x7F)))))
               (from_utf8_loop outLen p str3)
           | _ \<Rightarrow> None)
        else
          (case str1 of c2 # c3 # d # str4 \<Rightarrow>
             let k = ((push_bit 18 (c AND 0x0F) OR push_bit 12 (uint c2 AND 0x7F) OR
                       push_bit 6 (uint c3 AND 0x7F) OR (uint d AND 0x7F)) - 0x10000) mod 2 ^ 32 in
             if p = outLen then Some ([], p + 1)
             else map_option (apfst ((@) [word_of_int (drop_bit 10 k + 0xD800), word_of_int ((k AND 0x3FF) OR 0xDC00)]))
                    (from_utf8_loop outLen (p + 1) str4)
           | _ \<Rightarrow> None))"
  by pat_completeness auto
termination
  by (relation "measure (\<lambda>(outLen, p, str). outLen - p)") auto

declare from_utf8_loop.simps [simp del]

text \<open>What is stored in \<open>out\<close> and the returned length.\<close>

definition hl_from_utf8 :: "nat \<Rightarrow> vbyte list \<Rightarrow> (uchar list \<times> nat) option" where
  "hl_from_utf8 outLen str = map_option (\<lambda>(out, p). (out @ [0], p - 1)) (from_utf8_loop outLen 0 str)"

definition hl_to_utf16 :: "vbyte list \<Rightarrow> uchar list option" where
  "hl_to_utf16 str = do {
     len \<leftarrow> hl_utf8_length str 0;
     (out, _) \<leftarrow> hl_from_utf8 len str;
     Some out }"

text \<open>The converted string and its size in bytes.\<close>

definition hl_utf8_to_utf16 :: "vbyte list \<Rightarrow> nat \<Rightarrow> (uchar list \<times> nat) option" where
  "hl_utf8_to_utf16 str pos = do {
     ulen \<leftarrow> hl_utf8_length str pos;
     (s, _) \<leftarrow> hl_from_utf8 ulen (drop pos str);
     Some (s, 2 * ulen) }"

subsection \<open>string.c: UTF-16 to UTF-8\<close>

text \<open>
  The loops run until \<open>c == end\<close>: \<open>None\<close> stands for the \<open>NULL\<close> end of a terminated
  string, \<open>Some k\<close> for an end \<open>k\<close> units ahead.
\<close>

definition ahead :: "int \<Rightarrow> int option \<Rightarrow> int option" where
  "ahead n e = map_option (\<lambda>k. k - n) e"

fun utf16_count :: "int option \<Rightarrow> uchar list \<Rightarrow> nat \<Rightarrow> nat option" where
  "utf16_count e s utf8bytes =
    (if e = Some 0 then Some utf8bytes
     else case s of [] \<Rightarrow> None | v # s1 \<Rightarrow>
       if v = 0 \<and> e = None then Some utf8bytes
       else if v < 0x80 then utf16_count (ahead 1 e) s1 (utf8bytes + 1)
       else if v < 0x800 then utf16_count (ahead 1 e) s1 (utf8bytes + 2)
       else if v \<ge> 0xD800 \<and> v \<le> 0xDFFF then utf16_count (ahead 2 e) (drop 1 s1) (utf8bytes + 4)
       else utf16_count (ahead 1 e) s1 (utf8bytes + 3))"

declare utf16_count.simps [simp del]

fun utf16_emit :: "int option \<Rightarrow> uchar list \<Rightarrow> vbyte list option" where
  "utf16_emit e s =
    (if e = Some 0 then Some []
     else case s of [] \<Rightarrow> None | u # s1 \<Rightarrow>
       let v = uint u in
       if v < 0x80 then
         (if v = 0 \<and> e = None then Some [word_of_int v]
          else map_option ((@) [word_of_int v]) (utf16_emit (ahead 1 e) s1))
       else if v < 0x800 then
         map_option ((@) [word_of_int (0xC0 OR drop_bit 6 v), word_of_int (0x80 OR (v AND 63))])
           (utf16_emit (ahead 1 e) s1)
       else if v \<ge> 0xD800 \<and> v \<le> 0xDFFF then
         (case s1 of [] \<Rightarrow> None | w # s2 \<Rightarrow>
            let k = (push_bit 10 (v - 0xD800) OR (uint w - 0xDC00)) + 0x10000 in
            map_option ((@) [word_of_int (0xF0 OR drop_bit 18 k), word_of_int (0x80 OR (drop_bit 12 k AND 63)),
                word_of_int (0x80 OR (drop_bit 6 k AND 63)), word_of_int (0x80 OR (k AND 63))])
              (utf16_emit (ahead 2 e) s2))
       else
         map_option ((@) [word_of_int (0xE0 OR drop_bit 12 v), word_of_int (0x80 OR (drop_bit 6 v AND 63)),
             word_of_int (0x80 OR (v AND 63))]) (utf16_emit (ahead 1 e) s1))"

declare utf16_emit.simps [simp del]

text \<open>The bytes stored in \<open>out\<close> and the size, which is also what has been allocated less one.\<close>

definition hl_utf16_to_utf8 :: "uchar list \<Rightarrow> int \<Rightarrow> (vbyte list \<times> nat) option" where
  "hl_utf16_to_utf8 str len = do {
     let e = (if len = 0 then None else Some len);
     utf8bytes \<leftarrow> utf16_count e str 0;
     out \<leftarrow> utf16_emit e str;
     Some (out, utf8bytes) }"

definition hl_to_utf8 :: "uchar list \<Rightarrow> vbyte list option" where
  "hl_to_utf8 bytes = map_option fst (hl_utf16_to_utf8 bytes 0)"

subsection \<open>Well-formed UTF-16 and the round trip\<close>

text \<open>
  No terminator inside, every high surrogate followed by a low one and no low surrogate alone.
\<close>

fun wf_utf16 :: "uchar list \<Rightarrow> bool" where
  "wf_utf16 [] = True"
| "wf_utf16 (u # s) =
    (if u = 0 then False
     else if 0xD800 \<le> u \<and> u \<le> 0xDBFF then
       (case s of w # s' \<Rightarrow> 0xDC00 \<le> w \<and> w \<le> 0xDFFF \<and> wf_utf16 s' | [] \<Rightarrow> False)
     else \<not> (0xDC00 \<le> u \<and> u \<le> 0xDFFF) \<and> wf_utf16 s)"

definition decodes_as :: "vbyte list \<Rightarrow> uchar list \<Rightarrow> bool" where
  "decodes_as bs us \<longleftrightarrow>
    (\<forall>len rest. utf8_length_loop (bs @ rest) len = utf8_length_loop rest (len + length us)) \<and>
    (\<forall>outLen p rest. p + length us \<le> outLen \<longrightarrow>
       from_utf8_loop outLen p (bs @ rest) =
         map_option (apfst ((@) us)) (from_utf8_loop outLen (p + length us) rest))"

lemma or_add_low:
  fixes x :: int
  shows "0 \<le> x \<Longrightarrow> x < 128 \<Longrightarrow> 0x80 OR x = 0x80 + x"
    and "0 \<le> x \<Longrightarrow> x < 64 \<Longrightarrow> 0xC0 OR x = 0xC0 + x"
    and "0 \<le> x \<Longrightarrow> x < 32 \<Longrightarrow> 0xE0 OR x = 0xE0 + x"
    and "0 \<le> x \<Longrightarrow> x < 16 \<Longrightarrow> 0xF0 OR x = 0xF0 + x"
  using push_bit_or_add [of x 7 1] push_bit_or_add [of x 6 3] push_bit_or_add [of x 5 7]
    push_bit_or_add [of x 4 15]
  by (simp_all add: push_bit_eq_mult)

lemma drop_bit_div:
  fixes x :: int
  shows "drop_bit 6 x = x div 64" "drop_bit 12 x = x div 4096" "drop_bit 18 x = x div 262144"
    "drop_bit 10 x = x div 1024"
  by (simp_all add: drop_bit_eq_div)

lemma word8_cmp: "(a < b) = (uint a < uint b)" "(a \<le> b) = (uint a \<le> uint b)" "(a = b) = (uint a = uint b)" for a b :: u8
  by (simp_all add: word_less_def word_le_def word_uint_eq_iff)
lemma word16_cmp: "(a < b) = (uint a < uint b)" "(a \<le> b) = (uint a \<le> uint b)" "(a = b) = (uint a = uint b)" for a b :: u16
  by (simp_all add: word_less_def word_le_def word_uint_eq_iff)

lemma uint_byte: "0 \<le> x \<Longrightarrow> x < 256 \<Longrightarrow> uint (word_of_int x :: u8) = x"
  by (simp add: uint_word_of_int)

lemma lead_payload:
  fixes a :: int
  shows "0 \<le> a \<Longrightarrow> a < 64 \<Longrightarrow> (0xC0 + a) AND 0x3F = a"
    and "0 \<le> a \<Longrightarrow> a < 32 \<Longrightarrow> (0xE0 + a) AND 0x1F = a"
    and "0 \<le> a \<Longrightarrow> a < 16 \<Longrightarrow> (0xF0 + a) AND 0x0F = a"
    and "0 \<le> a \<Longrightarrow> a < 128 \<Longrightarrow> (0x80 + a) AND 0x7F = a"
  using mod_mult_self1 [of a 3 64] mod_mult_self1 [of a 7 32] mod_mult_self1 [of a 15 16]
    mod_mult_self1 [of a 1 128]
  by (simp_all only: and_mask_mod add.commute [of _ a]) (simp_all add: mod_pos_pos_trivial)

lemma append_single: "(@) [x] = (#) x"
  by (simp add: fun_eq_iff)

lemma and80: "(w AND 0x80 = 0) \<longleftrightarrow> \<not> bit w 7" for w :: u8
  using and_exp_eq_0_iff_not_bit [of w 7] by simp

lemma decodes_as_1:
  assumes "0 < v" "v < 0x80"
  shows "decodes_as [word_of_int v] [word_of_int v]"
  using assms unfolding decodes_as_def
  by (auto simp: append_single word8_cmp uint_byte from_utf8_loop.simps [of _ _ "_ # _"])

text \<open>A continuation byte and the lead bytes with their payload.\<close>

definition tagged :: "int \<Rightarrow> int \<Rightarrow> u8" where
  "tagged t x = word_of_int (t + x)"

lemma uint_tagged: "0 \<le> t \<Longrightarrow> 0 \<le> x \<Longrightarrow> t + x < 256 \<Longrightarrow> uint (tagged t x) = t + x"
  unfolding tagged_def by (rule uint_byte) simp_all

lemma bit_tagged_cont: "0 \<le> x \<Longrightarrow> x < 64 \<Longrightarrow> bit (tagged 0x80 x) 7"
  unfolding tagged_def by (simp only: bit_word_of_int_iff) (simp add: bit_iff_odd div_add_self1)

lemmas tagged_simps = uint_tagged bit_tagged_cont lead_payload

lemma decodes_as_2:
  assumes "0x80 \<le> v" "v < 0x800"
  shows "decodes_as [word_of_int (0xC0 OR drop_bit 6 v), word_of_int (0x80 OR (v AND 63))] [word_of_int v]"
proof -
  define x y where "x = v div 64" and "y = v mod 64"
  have v: "push_bit 6 x OR y = v" and r: "0 \<le> x" "x < 32" "0 \<le> y" "y < 64"
    using assms push_bit_or_add [of "v mod 64" 6 "v div 64"] by (auto simp: x_def y_def push_bit_eq_mult)
  have "decodes_as [tagged 0xC0 x, tagged 0x80 y] [word_of_int v]"
    unfolding decodes_as_def using r
    by (simp add: word8_cmp(1,2) and80 from_utf8_loop.simps [of _ _ "_ # _"] tagged_simps v append_single)
  moreover have "0xC0 OR drop_bit 6 v = 0xC0 + x" "0x80 OR (v AND 63) = 0x80 + y"
    using r by (simp_all add: x_def y_def drop_bit_div and_mask_mod or_add_low)
  ultimately show ?thesis by (simp only: tagged_def)
qed

lemma decodes_as_3:
  assumes "0x800 \<le> v" "v < 0x10000"
  shows "decodes_as [word_of_int (0xE0 OR drop_bit 12 v), word_of_int (0x80 OR (drop_bit 6 v AND 63)),
      word_of_int (0x80 OR (v AND 63))] [word_of_int v]"
proof -
  define x y z where "x = v div 4096" and "y = v div 64 mod 64" and "z = v mod 64"
  have r: "0 \<le> x" "x < 16" "0 \<le> y" "y < 64" "0 \<le> z" "z < 64"
    using assms by (auto simp: x_def y_def z_def)
  have "v = 4096 * x + (64 * y + z)"
    unfolding x_def y_def z_def by (simp add: minus_div_mult_eq_mod [symmetric] zdiv_zmult2_eq [symmetric])
  then have v: "push_bit 12 x OR push_bit 6 y OR z = v"
    using r push_bit_or_add [of z 6 y] push_bit_or_add [of "push_bit 6 y + z" 12 x]
    by (simp add: push_bit_eq_mult or.assoc)
  have "decodes_as [tagged 0xE0 x, tagged 0x80 y, tagged 0x80 z] [word_of_int v]"
    unfolding decodes_as_def using r
    by (simp add: word8_cmp(1,2) and80 bit_and_iff from_utf8_loop.simps [of _ _ "_ # _"] tagged_simps v append_single)
  moreover have "0xE0 OR drop_bit 12 v = 0xE0 + x" "0x80 OR (drop_bit 6 v AND 63) = 0x80 + y"
      "0x80 OR (v AND 63) = 0x80 + z"
    using r by (simp_all add: x_def y_def z_def drop_bit_div and_mask_mod or_add_low)
  ultimately show ?thesis by (simp only: tagged_def)
qed

lemma decodes_as_4:
  assumes "0x10000 \<le> k" "k < 0x110000"
  shows "decodes_as [word_of_int (0xF0 OR drop_bit 18 k), word_of_int (0x80 OR (drop_bit 12 k AND 63)),
      word_of_int (0x80 OR (drop_bit 6 k AND 63)), word_of_int (0x80 OR (k AND 63))]
    [word_of_int (drop_bit 10 (k - 0x10000) + 0xD800), word_of_int (((k - 0x10000) AND 0x3FF) OR 0xDC00)]"
proof -
  define x y z t where "x = k div 262144" and "y = k div 4096 mod 64" and "z = k div 64 mod 64" and "t = k mod 64"
  have r: "0 \<le> x" "x < 8" "0 \<le> y" "y < 64" "0 \<le> z" "z < 64" "0 \<le> t" "t < 64"
    using assms by (auto simp: x_def y_def z_def t_def)
  have "k = 262144 * x + (4096 * y + (64 * z + t))"
    unfolding x_def y_def z_def t_def by (simp add: minus_div_mult_eq_mod [symmetric] zdiv_zmult2_eq [symmetric])
  then have v: "push_bit 18 x OR push_bit 12 y OR push_bit 6 z OR t = k"
    using r push_bit_or_add [of t 6 z] push_bit_or_add [of "push_bit 6 z + t" 12 y]
      push_bit_or_add [of "push_bit 12 y + (push_bit 6 z + t)" 18 x]
    by (simp add: push_bit_eq_mult or.assoc)
  have m: "(k - 0x10000) mod 4294967296 = k - 0x10000" using assms by simp
  have "decodes_as [tagged 0xF0 x, tagged 0x80 y, tagged 0x80 z, tagged 0x80 t]
      [word_of_int (drop_bit 10 (k - 0x10000) + 0xD800), word_of_int (((k - 0x10000) AND 0x3FF) OR 0xDC00)]"
    unfolding decodes_as_def using r
    by (simp add: word8_cmp(1,2) and80 bit_and_iff from_utf8_loop.simps [of _ _ "_ # _"] tagged_simps v m Let_def
        option.map_comp comp_def apfst_def map_prod_def case_prod_beta' del: of_int_add of_int_diff push_bit_and)
  moreover have "0xF0 OR drop_bit 18 k = 0xF0 + x" "0x80 OR (drop_bit 12 k AND 63) = 0x80 + y"
      "0x80 OR (drop_bit 6 k AND 63) = 0x80 + z" "0x80 OR (k AND 63) = 0x80 + t"
    using r by (simp_all add: x_def y_def z_def t_def drop_bit_div and_mask_mod or_add_low)
  ultimately show ?thesis by (simp only: tagged_def)
qed

lemma decodes_as_Nil: "decodes_as [] []"
  by (simp add: decodes_as_def option.map_comp comp_def apfst_def map_prod_def option.map_id)

lemma decodes_as_append:
  assumes "decodes_as bs us" "decodes_as bs' us'"
  shows "decodes_as (bs @ bs') (us @ us')"
  using assms unfolding decodes_as_def
  by (simp add: option.map_comp comp_def apfst_def map_prod_def case_prod_beta' add.assoc [symmetric])

lemma surrogate_code:
  fixes v w :: int
  assumes "0xD800 \<le> v" "v \<le> 0xDBFF" "0xDC00 \<le> w" "w \<le> 0xDFFF"
  defines "k \<equiv> (push_bit 10 (v - 0xD800) OR (w - 0xDC00)) + 0x10000"
  shows "0x10000 \<le> k" "k < 0x110000" "drop_bit 10 (k - 0x10000) + 0xD800 = v"
    "((k - 0x10000) AND 0x3FF) OR 0xDC00 = w"
proof -
  define a b where "a = v - 0xD800" and "b = w - 0xDC00"
  have r: "0 \<le> a" "a < 1024" "0 \<le> b" "b < 1024" using assms(1-4) by (simp_all add: a_def b_def)
  have k: "k - 0x10000 = b + a * 1024"
    using r push_bit_or_add [of b 10 a] by (simp add: k_def a_def b_def push_bit_eq_mult)
  show "0x10000 \<le> k" "k < 0x110000" using k r by linarith+
  show "drop_bit 10 (k - 0x10000) + 0xD800 = v"
    unfolding k drop_bit_div using r by (simp add: a_def)
  have "((k - 0x10000) AND 0x3FF) = b"
    unfolding k and_mask_mod using r by simp
  then show "((k - 0x10000) AND 0x3FF) OR 0xDC00 = w"
    using r or_push_bit_add [of b 10 55] by (simp add: push_bit_eq_mult b_def)
qed

lemma utf16_encode_decodes:
  assumes "wf_utf16 s"
  shows "\<exists>bs. utf16_emit None (s @ 0 # t) = Some (bs @ [0]) \<and>
    (\<forall>n. utf16_count None (s @ 0 # t) n = Some (n + length bs)) \<and> decodes_as bs s"
  using assms
proof (induction s rule: wf_utf16.induct)
  case 1
  show ?case
    by (rule exI [of _ "[]"]) (simp add: decodes_as_Nil utf16_emit.simps utf16_count.simps)
next
  case (2 u s)
  note step = utf16_emit.simps [of None "u # _"] utf16_count.simps [of None "u # _"] ahead_def
  show ?case
  proof (cases "0xD800 \<le> u \<and> u \<le> 0xDBFF")
    case True
    with 2(3) obtain w s' where s: "s = w # s'" "0xDC00 \<le> w" "w \<le> 0xDFFF" "wf_utf16 s'"
      by (auto split: if_splits list.splits)
    with 2(1) True 2(3) obtain bs where bs: "utf16_emit None (s' @ 0 # t) = Some (bs @ [0])"
      "\<forall>n. utf16_count None (s' @ 0 # t) n = Some (n + length bs)" "decodes_as bs s'"
      by (auto split: if_splits)
    have r: "0xD800 \<le> uint u" "uint u \<le> 0xDBFF" "0xDC00 \<le> uint w" "uint w \<le> 0xDFFF"
      using True s by (simp_all add: word16_cmp(2))
    note k = surrogate_code [OF r]
    show ?thesis
      using decodes_as_append [OF decodes_as_4 [OF k(1,2), unfolded k(3,4) word_of_int_uint] bs(3)]
        bs(1,2) r True
      by (intro exI conjI) (auto simp: step s(1) word16_cmp Let_def)
  next
    case False
    with 2(2,3) obtain bs where bs: "utf16_emit None (s @ 0 # t) = Some (bs @ [0])"
      "\<forall>n. utf16_count None (s @ 0 # t) n = Some (n + length bs)" "decodes_as bs s"
      by (auto split: if_splits)
    have v: "uint u \<noteq> 0" "\<not> (0xD800 \<le> uint u \<and> uint u \<le> 0xDFFF)" "0 \<le> uint u" "uint u < 0x10000"
      using 2(3) False uint_lt2p [of u] by (auto simp: word16_cmp split: if_splits)
    consider "uint u < 0x80" | "0x80 \<le> uint u" "uint u < 0x800" | "0x800 \<le> uint u" by linarith
    then show ?thesis
    proof cases
      case 1
      with v have "0 < uint u" by linarith
      with 1 decodes_as_append [OF decodes_as_1 [of "uint u"] bs(3)] bs(1,2)
      show ?thesis by (intro exI conjI) (auto simp: step word16_cmp Let_def)
    next
      case 2
      with v decodes_as_append [OF decodes_as_2 [of "uint u"] bs(3)] bs(1,2)
      show ?thesis by (intro exI conjI) (auto simp: step word16_cmp Let_def)
    next
      case 3
      with v decodes_as_append [OF decodes_as_3 [of "uint u"] bs(3)] bs(1,2)
      show ?thesis by (intro exI conjI) (auto simp: step word16_cmp Let_def)
    qed
  qed
qed

text \<open>Bounds and memory safety of the decoder.\<close>

lemma from_utf8_loop_bound:
  "from_utf8_loop outLen p str = Some (out, q) \<Longrightarrow> length out \<le> outLen - p"
proof (induction p arbitrary: str out q rule: measure_induct_rule [where f = "\<lambda>p. outLen - p"])
  case (less p)
  show ?case
  proof (cases "p < outLen")
    case False
    with less.prems show ?thesis by (simp add: from_utf8_loop.simps [of outLen p])
  next
    case True
    have IH: "from_utf8_loop outLen p' str' = Some (out', q') \<Longrightarrow> p < p' \<Longrightarrow> length out' \<le> outLen - p'"
      for p' str' out' q'
      using less.IH [of p' str' out' q'] True by linarith
    from True less.prems show ?thesis
      by (auto simp: from_utf8_loop.simps [of outLen p] Let_def dest!: IH
          split: list.splits if_splits prod.splits)
  qed
qed

text \<open>
  \<open>decodable s m p\<close>: from position \<open>p\<close>, the decoder turns \<open>s\<close> into exactly \<open>m - p\<close> units
  without reading outside of \<open>s\<close>.
\<close>

definition decodable :: "vbyte list \<Rightarrow> nat \<Rightarrow> nat \<Rightarrow> bool" where
  "decodable s m p \<longleftrightarrow>
    p \<le> m \<and> (\<exists>out. from_utf8_loop m p s = Some (out, m + 1) \<and> length out = m - p)"

lemma decodable_end: "decodable s m m"
  by (simp add: decodable_def from_utf8_loop.simps)

lemma decodable_1: "c < 0x80 \<Longrightarrow> c \<noteq> 0 \<Longrightarrow> decodable s m (p + 1) \<Longrightarrow> decodable (c # s) m p"
  by (auto simp: decodable_def from_utf8_loop.simps [of m p] word8_cmp)

lemma decodable_2: "0xC0 \<le> c \<Longrightarrow> c < 0xE0 \<Longrightarrow> decodable s m (p + 1) \<Longrightarrow> decodable (c # d # s) m p"
  by (auto simp: decodable_def from_utf8_loop.simps [of m p] word8_cmp)

lemma decodable_3: "0xE0 \<le> c \<Longrightarrow> c < 0xF0 \<Longrightarrow> decodable s m (p + 1) \<Longrightarrow> decodable (c # d # d2 # s) m p"
  by (auto simp: decodable_def from_utf8_loop.simps [of m p] word8_cmp)

lemma decodable_4: "0xF0 \<le> c \<Longrightarrow> decodable s m (p + 2) \<Longrightarrow> decodable (c # d # d2 # d3 # s) m p"
  by (auto simp: decodable_def from_utf8_loop.simps [of m p] word8_cmp Let_def)

lemma length_decodable:
  assumes "utf8_length_loop s len = Some m" "\<forall>c\<in>set s. c < 0xF8"
  shows "decodable s m len"
  using assms
proof (induction s len rule: utf8_length_loop.induct)
  case (1 len0)
  then show ?case by simp
next
  case (2 c s1 len0)
  consider "c = 0" | "c < 0x80" "c \<noteq> 0" | "0x80 \<le> c" "c < 0xC0" | "0xC0 \<le> c" "c < 0xE0"
    | "0xE0 \<le> c" "c < 0xF0" | "0xF0 \<le> c" "c < 0xF8"
    using 2(6) by (auto simp: word8_cmp) linarith
  then show ?case
  proof cases
    case 2
    then show ?thesis using "2.prems" by (auto intro!: decodable_1 "2.IH")
  next
    case 4
    then show ?thesis using "2.prems"
      by (auto intro!: decodable_2 decodable_end "2.IH"(2) split: list.splits if_splits simp: word8_cmp(1,2))
  next
    case 5
    then show ?thesis using "2.prems"
      by (auto intro!: decodable_3 decodable_end "2.IH"(3) split: list.splits if_splits simp: word8_cmp(1,2))
  next
    case 6
    with "2.prems" obtain d1 d2 d3 s4 where s1: "s1 = d1 # d2 # d3 # s4"
      by (auto simp: word8_cmp(1,2) split: list.splits)
    show ?thesis
    proof (cases "(d1 AND d2 AND d3) AND 0x80 = 0")
      case False
      with 6 s1 "2.prems" have "decodable s4 m (len0 + 1 + 1)"
        by (intro "2.IH"(4) [OF refl _ _ _ _ _ s1 refl refl]) (auto simp: word8_cmp(1,2))
      with 6 s1 show ?thesis by (simp add: decodable_4)
    qed (use 6 s1 "2.prems" in \<open>auto simp: decodable_end word8_cmp(1,2)\<close>)
  qed (use "2.prems" in \<open>auto simp: decodable_end word8_cmp\<close>)
qed

text \<open>
  C4: a well-formed UTF-16 string (no terminator inside, surrogates paired) survives the conversion
  to UTF-8 and back, and the sizes both functions report are the sizes of what they store.
\<close>

theorem utf16_utf8_roundtrip:
  assumes "wf_utf16 s"
  shows "\<exists>bs. hl_utf16_to_utf8 (s @ [0]) 0 = Some (bs @ [0], length bs) \<and>
    hl_utf8_to_utf16 (bs @ [0]) 0 = Some (s @ [0], 2 * length s)"
proof -
  obtain bs where bs: "utf16_emit None (s @ [0]) = Some (bs @ [0])"
    "utf16_count None (s @ [0]) 0 = Some (length bs)" "decodes_as bs s"
    using utf16_encode_decodes [OF assms, of "[]"] by auto
  have "hl_utf8_length (bs @ [0]) 0 = Some (length s)"
    using bs(3) by (simp add: decodes_as_def hl_utf8_length_def)
  moreover have "from_utf8_loop (length s) 0 (bs @ [0]) = Some (s, length s + 1)"
    using bs(3) by (simp add: decodes_as_def from_utf8_loop.simps [of _ "length s"])
  ultimately show ?thesis
    using bs(1,2) by (auto simp: hl_utf16_to_utf8_def hl_utf8_to_utf16_def hl_from_utf8_def)
qed

theorem utf16_utf8_roundtrip_witness:
  "wf_utf16 [0x48, 0xE9, 0x20AC, 0xD83D, 0xDE00] \<and>
   (\<exists>bs. hl_utf16_to_utf8 ([0x48, 0xE9, 0x20AC, 0xD83D, 0xDE00] @ [0]) 0 = Some (bs @ [0], length bs) \<and>
    hl_utf8_to_utf16 (bs @ [0]) 0 = Some ([0x48, 0xE9, 0x20AC, 0xD83D, 0xDE00] @ [0], 2 * length [0x48, 0xE9, 0x20AC, 0xD83D, 0xDE00 :: uchar]))"
proof -
  have h: "wf_utf16 [0x48, 0xE9, 0x20AC, 0xD83D, 0xDE00]" by simp
  show ?thesis using h utf16_utf8_roundtrip [OF h] by blast
qed



text \<open>
  C0: the buffer bound of \<open>hl_from_utf8\<close>: whatever the bytes, it never stores more than
  \<open>outLen + 1\<close> units.
\<close>

theorem hl_from_utf8_bound:
  "hl_from_utf8 outLen str = Some (out, n) \<Longrightarrow> length out \<le> outLen + 1"
  by (auto simp: hl_from_utf8_def dest: from_utf8_loop_bound)

theorem hl_from_utf8_bound_witness:
  "hl_from_utf8 1 [0xF0, 0x9F, 0x98, 0x80, 0] = Some ([0], 1) \<and> length [0 :: uchar] \<le> 1 + 1"
proof -
  have h: "hl_from_utf8 1 [0xF0, 0x9F, 0x98, 0x80, 0] = Some ([0], 1)"
    by (simp add: hl_from_utf8_def from_utf8_loop.simps Let_def)
  show ?thesis using h hl_from_utf8_bound [OF h] by blast
qed

text \<open>
  C0: a lead byte above 0xF7 is counted by \<open>hl_utf8_length\<close> and then decoded as the start of a
  four byte sequence, so that the decoder reads past the terminator.
\<close>

theorem utf8_length_counts_invalid_lead:
  "hl_utf8_length [0xFF, 0] 0 = Some 1 \<and> hl_from_utf8 1 [0xFF, 0] = None"
  by (simp add: hl_utf8_length_def hl_from_utf8_def from_utf8_loop.simps)

lemma utf16_count_overrun: "k < 0 \<Longrightarrow> utf16_count (Some k) s n = None"
proof (induction "Some k" s n arbitrary: k rule: utf16_count.induct)
  case (1 s n k)
  show ?case
    by (subst utf16_count.simps) (use 1 in \<open>auto simp: ahead_def split: list.splits\<close>)
qed

text \<open>
  C0: the counted form of \<open>hl_utf16_to_utf8\<close> steps over its end when the last unit is a
  surrogate: it stops inside of no memory, however long.
\<close>

theorem utf16_to_utf8_overruns_lone_surrogate:
  assumes "0xD800 \<le> u" and "u \<le> 0xDFFF"
  shows "hl_utf16_to_utf8 (u # memory) 1 = None"
proof -
  have "0x800 \<le> u" "u \<noteq> 0" using assms(1) by (auto simp: word16_cmp)
  with assms have "utf16_count (Some 1) (u # memory) 0 = utf16_count (Some (-1)) (drop 1 memory) 4"
    by (subst utf16_count.simps) (auto simp: ahead_def word16_cmp)
  then show ?thesis by (simp add: hl_utf16_to_utf8_def utf16_count_overrun)
qed

theorem utf16_to_utf8_overruns_witness:
  "(0xD800 :: uchar) \<le> 0xD83D \<and> hl_utf16_to_utf8 [0xD83D, 0, 0] 1 = None"
  using utf16_to_utf8_overruns_lone_surrogate [of "0xD83D" "[0, 0]"] by simp

end
