(* ===== verification/FieldHash.thy ===== *)
theory FieldHash
  imports Utf "HOL-Library.Signed_Division"
begin

text \<open>
  The field tables and the global field-name cache of \<^verbatim>\<open>src/src/std/obj.c\<close>: the sorted arrays of
  \<open>hl_field_lookup\<close>, the hash of a field name, and the cache that gives every name its own hash and
  every hash its name. Also the table of typed method slots.

  An array of lookups is the list of its used entries; \<open>hl_cache_size\<close> is the allocated length. The
  mutex around the cache is not modelled: every operation is one atomic step.
\<close>

record 't hl_field_lookup =
  fl_t :: 't
  hashed_name :: int
  field_index :: int

subsection \<open>Sorted field tables\<close>

text \<open>The loop of \<open>hl_lookup_insert\<close>: it never stops on a match, equal hashes go to the left.\<close>

function lookup_insert_pos :: "'t hl_field_lookup list \<Rightarrow> int \<Rightarrow> nat \<Rightarrow> nat \<Rightarrow> nat" where
  "lookup_insert_pos l hash lo hi =
    (if lo < hi then
       (let mid = (lo + hi) div 2; h = hashed_name (l ! mid) in
        if h < hash then lookup_insert_pos l hash (mid + 1) hi
        else lookup_insert_pos l hash lo mid)
     else (lo + hi) div 2)"
  by pat_completeness auto
termination
  by (relation "measure (\<lambda>(l, hash, min, hi). hi - min)") auto

declare lookup_insert_pos.simps [simp del]

definition hl_lookup_insert ::
    "'t hl_field_lookup list \<Rightarrow> nat \<Rightarrow> int \<Rightarrow> 't \<Rightarrow> int \<Rightarrow> 't hl_field_lookup list \<times> nat" where
  "hl_lookup_insert l n hash t index =
    (let pos = lookup_insert_pos l hash 0 n in
     (insert_at pos \<lparr>fl_t = t, hashed_name = hash, field_index = index\<rparr> l, pos))"

text \<open>The comparison every lookup makes with the entry at \<open>mid\<close>.\<close>

definition lookup_side :: "'t hl_field_lookup list \<Rightarrow> int \<Rightarrow> nat \<Rightarrow> int" where
  "lookup_side l hash mid =
    (let h = hashed_name (l ! mid) in if h < hash then - 1 else if h > hash then 1 else 0)"

definition hl_lookup_find :: "'t hl_field_lookup list \<Rightarrow> nat \<Rightarrow> int \<Rightarrow> 't hl_field_lookup option" where
  "hl_lookup_find l n hash =
    (case bsearch (lookup_side l hash) 0 n of Found mid \<Rightarrow> Some (l ! mid) | Missing _ \<Rightarrow> None)"

definition hl_lookup_find_index :: "'t hl_field_lookup list \<Rightarrow> nat \<Rightarrow> int \<Rightarrow> nat" where
  "hl_lookup_find_index l n hash =
    (case bsearch (lookup_side l hash) 0 n of Found mid \<Rightarrow> mid | Missing pos \<Rightarrow> pos)"

text \<open>A runtime object and its parents, nearest first, each given by its lookup table.\<close>

fun obj_resolve_field :: "'t hl_field_lookup list list \<Rightarrow> int \<Rightarrow> 't hl_field_lookup option" where
  "obj_resolve_field [] hfield = None"
| "obj_resolve_field (lookup # parents) hfield =
    (case hl_lookup_find lookup (length lookup) hfield of
       Some f \<Rightarrow> Some f
     | None \<Rightarrow> obj_resolve_field parents hfield)"

subsection \<open>Hashing of names\<close>

fun hash_loop :: "int \<Rightarrow> uchar list \<Rightarrow> int option" where
  "hash_loop h [] = None"
| "hash_loop h (c # name) = (if c = 0 then Some h else hash_loop (i32 (223 * h + uint c)) name)"

fun hash_loop_utf8 :: "int \<Rightarrow> u8 list \<Rightarrow> int option" where
  "hash_loop_utf8 h [] = None"
| "hash_loop_utf8 h (c # name) =
    (if c = 0 then Some h else hash_loop_utf8 (i32 (223 * h + sint c)) name)"

definition hl_hash_utf8 :: "u8 list \<Rightarrow> int option" where
  "hl_hash_utf8 name = map_option (\<lambda>h. h smod 0x1FFFFF7B) (hash_loop_utf8 0 name)"

text \<open>The part of \<open>hl_hash_gen\<close> before the cache.\<close>

definition hash_name :: "uchar list \<Rightarrow> int option" where
  "hash_name name = map_option (\<lambda>h. h smod 0x1FFFFF7B) (hash_loop 0 name)"

subsection \<open>The cache\<close>

record hl_cache =
  entries :: "uchar list hl_field_lookup list"
  cache_size :: nat

abbreviation hl_cache_count :: "hl_cache \<Rightarrow> nat" where
  "hl_cache_count ca \<equiv> length (entries ca)"

definition hl_cache_init :: hl_cache where
  "hl_cache_init = \<lparr>entries = [], cache_size = 0\<rparr>"

lemma hl_lookup_find_hash: "hl_lookup_find l n h = Some e \<Longrightarrow> n \<le> length l \<Longrightarrow> e \<in> set l \<and> hashed_name e = h"
  by (auto simp: hl_lookup_find_def lookup_side_def Let_def split: search.splits if_splits
      dest!: bsearch_Found)

text \<open>
  The probing loop: while the entry at \<open>h\<close> has another name, try \<open>h + 1\<close>. The result is the hash
  and the entry found there, if any.
\<close>

function probe :: "uchar list hl_field_lookup list \<Rightarrow> uchar list \<Rightarrow> int \<Rightarrow>
    (int \<times> uchar list hl_field_lookup option) option" where
  "probe cache oname h =
    (case hl_lookup_find cache (length cache) h of
       None \<Rightarrow> Some (h, None)
     | Some l \<Rightarrow>
        (case ucmp (fl_t l) oname of
           None \<Rightarrow> None
         | Some d \<Rightarrow> if d \<noteq> 0 then probe cache oname (h + 1) else Some (h, Some l)))"
  by pat_completeness auto
termination
proof (relation "measure (\<lambda>(cache, oname, h). length (filter (\<lambda>e. h \<le> hashed_name e) cache))")
  fix cache :: "uchar list hl_field_lookup list" and oname h e d
  assume "hl_lookup_find cache (length cache) h = Some e"
  then have e: "e \<in> set cache" "hashed_name e = h" by (auto dest: hl_lookup_find_hash)
  have "filter (\<lambda>e. h + 1 \<le> hashed_name e) cache =
      filter (\<lambda>e. h + 1 \<le> hashed_name e) (filter (\<lambda>e. h \<le> hashed_name e) cache)"
    by (simp add: conj_commute) (rule filter_cong, auto)
  moreover have "length (filter (\<lambda>e. h + 1 \<le> hashed_name e) (filter (\<lambda>e. h \<le> hashed_name e) cache))
      < length (filter (\<lambda>e. h \<le> hashed_name e) cache)"
    by (rule length_filter_less [of e]) (use e in auto)
  ultimately show "((cache, oname, h + 1), cache, oname, h)
      \<in> measure (\<lambda>(cache, oname, h). length (filter (\<lambda>e. h \<le> hashed_name e) cache))"
    by simp
qed simp

declare probe.simps [simp del]

definition cache_insert :: "hl_cache \<Rightarrow> int \<Rightarrow> uchar list \<Rightarrow> hl_cache" where
  "cache_insert ca h name =
    (let newsize = (if cache_size ca = hl_cache_count ca
                    then (if cache_size ca \<noteq> 0 then cache_size ca * 3 div 2 else 16)
                    else cache_size ca)
     in \<lparr>entries = fst (hl_lookup_insert (entries ca) (hl_cache_count ca) h name 0), cache_size = newsize\<rparr>)"

definition hl_hash_gen :: "hl_cache \<Rightarrow> uchar list \<Rightarrow> bool \<Rightarrow> (int \<times> hl_cache) option" where
  "hl_hash_gen ca name cache_name = do {
     h \<leftarrow> hash_name name;
     if cache_name then do {
       (h', l) \<leftarrow> probe (entries ca) name h;
       case l of
         Some _ \<Rightarrow> Some (h', ca)
       | None \<Rightarrow> do { dup \<leftarrow> ustrdup name; Some (h', cache_insert ca h' dup) }
     } else Some (h, ca) }"

definition hl_hash :: "hl_cache \<Rightarrow> uchar list \<Rightarrow> (int \<times> hl_cache) option" where
  "hl_hash ca b = hl_hash_gen ca b True"

definition unknown_field :: "uchar list" where
  "unknown_field = [0x3F, 0x3F, 0x3F, 0]"

definition hl_field_name :: "hl_cache \<Rightarrow> int \<Rightarrow> uchar list" where
  "hl_field_name ca hash =
    (case hl_lookup_find (entries ca) (hl_cache_count ca) hash of
       Some l \<Rightarrow> fl_t l
     | None \<Rightarrow> unknown_field)"

subsection \<open>Typed method slots\<close>

record hl_typed_slot =
  slot_key :: "uchar list"
  slot_index :: int

record typed_slot_table =
  typed_slots :: "hl_typed_slot list"
  typed_slot_count :: int

fun find_slot :: "hl_typed_slot list \<Rightarrow> uchar list \<Rightarrow> hl_typed_slot option option" where
  "find_slot [] key = Some None"
| "find_slot (slot # next) key =
    (case ucmp (slot_key slot) key of
       None \<Rightarrow> None
     | Some d \<Rightarrow> if d = 0 then Some (Some slot) else find_slot next key)"

definition typed_slot_locked ::
    "typed_slot_table \<Rightarrow> uchar list \<Rightarrow> (hl_typed_slot \<times> typed_slot_table) option" where
  "typed_slot_locked tab key = do {
     found \<leftarrow> find_slot (typed_slots tab) key;
     case found of
       Some slot \<Rightarrow> Some (slot, tab)
     | None \<Rightarrow> do {
         copy \<leftarrow> ustrdup key;
         let slot = \<lparr>slot_key = copy, slot_index = typed_slot_count tab\<rparr>;
         Some (slot, \<lparr>typed_slots = slot # typed_slots tab, typed_slot_count = typed_slot_count tab + 1\<rparr>)
       } }"

definition hl_cache_free :: "hl_cache \<times> typed_slot_table \<Rightarrow> hl_cache \<times> typed_slot_table" where
  "hl_cache_free st = (\<lparr>entries = [], cache_size = 0\<rparr>, \<lparr>typed_slots = [], typed_slot_count = 0\<rparr>)"

subsection \<open>Correctness of the sorted tables\<close>

definition sorted_lookup :: "'t hl_field_lookup list \<Rightarrow> bool" where
  "sorted_lookup l \<longleftrightarrow> sorted_wrt (<) (map hashed_name l)"

lemma sorted_lookup_nth: "sorted_lookup l \<Longrightarrow> i < j \<Longrightarrow> j < length l \<Longrightarrow> hashed_name (l ! i) < hashed_name (l ! j)"
  by (auto simp: sorted_lookup_def sorted_wrt_iff_nth_less)

lemma ordered_lookup_side: "sorted_lookup l \<Longrightarrow> ordered_side (lookup_side l h) (length l)"
  unfolding ordered_side_def
  by (auto simp: lookup_side_def Let_def dest: sorted_lookup_nth split: if_splits)

lemma lookup_side_eq [simp]: "lookup_side l h m = 0 \<longleftrightarrow> hashed_name (l ! m) = h"
  "lookup_side l h m < 0 \<longleftrightarrow> hashed_name (l ! m) < h" "lookup_side l h m > 0 \<longleftrightarrow> hashed_name (l ! m) > h"
  by (auto simp: lookup_side_def Let_def)

lemma hl_lookup_find_mem:
  assumes "sorted_lookup l" "e \<in> set l"
  shows "hl_lookup_find l (length l) (hashed_name e) = Some e"
proof -
  from assms(2) obtain m where m: "m < length l" "l ! m = e" by (auto simp: in_set_conv_nth)
  then have "bsearch (lookup_side l (hashed_name e)) 0 (length l) = Found m"
    by (intro bsearch_match ordered_lookup_side assms(1)) auto
  then show ?thesis by (simp add: hl_lookup_find_def m)
qed

lemma hl_lookup_find_iff:
  assumes "sorted_lookup l"
  shows "hl_lookup_find l (length l) h = Some e \<longleftrightarrow> e \<in> set l \<and> hashed_name e = h"
  using hl_lookup_find_mem [OF assms] hl_lookup_find_hash [of l "length l"] by auto

text \<open>
  C24: on a table sorted by hash, the binary search of \<open>hl_lookup_find\<close> returns what a linear scan
  for the hash returns, found or not.
\<close>

theorem hl_lookup_find_linear:
  assumes "sorted_lookup l"
  shows "hl_lookup_find l (length l) hash = find (\<lambda>e. hashed_name e = hash) l"
proof (cases "find (\<lambda>e. hashed_name e = hash) l")
  case None
  then show ?thesis
  proof -
    have "\<forall>e\<in>set l. hashed_name e \<noteq> hash" using None by (auto simp: find_None_iff)
    then have "hl_lookup_find l (length l) hash = None"
      using hl_lookup_find_iff [OF assms, of hash] by (cases "hl_lookup_find l (length l) hash") auto
    with None show ?thesis by simp
  qed
next
  case (Some e)
  then have "e \<in> set l" "hashed_name e = hash" by (auto simp: find_Some_iff)
  then show ?thesis using Some hl_lookup_find_iff [OF assms, of hash e] by simp
qed

theorem hl_lookup_find_linear_witness:
  "let l = [\<lparr>fl_t = (), hashed_name = - 7, field_index = 2\<rparr>, \<lparr>fl_t = (), hashed_name = 4, field_index = 0\<rparr>,
     \<lparr>fl_t = (), hashed_name = 9, field_index = 1\<rparr>] in
   sorted_lookup l \<and> hl_lookup_find l 3 9 = Some (l ! 2) \<and> hl_lookup_find l 3 5 = None"
  using
    hl_lookup_find_linear [of "[\<lparr>fl_t = (), hashed_name = - 7, field_index = 2\<rparr>,
      \<lparr>fl_t = (), hashed_name = 4, field_index = 0\<rparr>, \<lparr>fl_t = (), hashed_name = 9, field_index = 1\<rparr>]" 9]
    hl_lookup_find_linear [of "[\<lparr>fl_t = (), hashed_name = - 7, field_index = 2\<rparr>,
      \<lparr>fl_t = (), hashed_name = 4, field_index = 0\<rparr>, \<lparr>fl_t = (), hashed_name = 9, field_index = 1\<rparr>]" 5]
  by (simp add: sorted_lookup_def numeral_eq_Suc)

lemma lookup_insert_pos_spec:
  assumes "sorted_lookup l" "lo \<le> hi" "hi \<le> length l" "\<And>i. i < lo \<Longrightarrow> hashed_name (l ! i) < h"
    "\<And>i. hi \<le> i \<Longrightarrow> i < length l \<Longrightarrow> h \<le> hashed_name (l ! i)"
  shows "lookup_insert_pos l h lo hi \<le> length l \<and> (\<forall>i<lookup_insert_pos l h lo hi. hashed_name (l ! i) < h) \<and>
    (\<forall>i. lookup_insert_pos l h lo hi \<le> i \<longrightarrow> i < length l \<longrightarrow> h \<le> hashed_name (l ! i))"
  using assms
proof (induction l h lo hi rule: lookup_insert_pos.induct)
  case (1 l h lo hi)
  let ?mid = "(lo + hi) div 2"
  show ?case
  proof (cases "lo < hi")
    case False
    with 1(4) have "lookup_insert_pos l h lo hi = hi" "lo = hi"
      by (simp_all add: lookup_insert_pos.simps [of l h _ hi])
    with 1(3-) show ?thesis by simp
  next
    case True
    then have mid: "lo \<le> ?mid" "?mid < hi" by auto
    have len: "?mid < length l" using mid 1(5) by linarith
    show ?thesis
    proof (cases "hashed_name (l ! ?mid) < h")
      case less: True
      have "hashed_name (l ! i) < h" if "i < ?mid + 1" for i
        using sorted_lookup_nth [OF 1(3), of i ?mid] that less len by (cases "i = ?mid") auto
      then show ?thesis
        using 1(1) [OF True refl refl less 1(3)] 1(5,7) less True mid
        by (simp add: lookup_insert_pos.simps [of l h lo hi] Let_def)
    next
      case ge: False
      have "h \<le> hashed_name (l ! i)" if "?mid \<le> i" "i < length l" for i
        using sorted_lookup_nth [OF 1(3), of ?mid i] that ge by (cases "i = ?mid") auto
      moreover have "?mid \<le> length l" using len by simp
      moreover have "lookup_insert_pos l h lo hi = lookup_insert_pos l h lo ?mid"
        using True ge by (simp add: lookup_insert_pos.simps [of l h lo hi] Let_def)
      ultimately show ?thesis
        using 1(2) [OF True refl refl ge 1(3) mid(1) _ 1(6)] by presburger
    qed
  qed
qed

lemma hl_lookup_insert_sorted:
  assumes "sorted_lookup l" "hl_lookup_find l (length l) h = None"
  shows "sorted_lookup (fst (hl_lookup_insert l (length l) h t i))"
proof -
  let ?p = "lookup_insert_pos l h 0 (length l)"
  have p: "\<forall>i<?p. hashed_name (l ! i) < h" "\<forall>i. ?p \<le> i \<longrightarrow> i < length l \<longrightarrow> h \<le> hashed_name (l ! i)"
    using lookup_insert_pos_spec [OF assms(1), of 0 "length l" h] by auto
  have "hashed_name (l ! i) \<noteq> h" if "i < length l" for i
    using assms(2) hl_lookup_find_mem [OF assms(1), of "l ! i"] that by auto
  then have "\<forall>i. ?p \<le> i \<longrightarrow> i < length l \<longrightarrow> h < hashed_name (l ! i)"
    using p(2) by (simp add: order_less_le) metis
  with p(1) show ?thesis using assms(1)
    unfolding hl_lookup_insert_def sorted_lookup_def Let_def fst_conv map_insert_at
    by (intro sorted_wrt_insert_at) (simp_all add: transp_on_def)
qed

lemma set_hl_lookup_insert [simp]:
  "set (fst (hl_lookup_insert l n h t i)) = insert \<lparr>fl_t = t, hashed_name = h, field_index = i\<rparr> (set l)"
  by (simp add: hl_lookup_insert_def Let_def)

subsection \<open>Terminated strings\<close>

text \<open>The contents of a string up to its terminator, and the facts of the string functions on it.\<close>

definition cstr :: "uchar list \<Rightarrow> uchar list" where
  "cstr s = takeWhile (\<lambda>c. c \<noteq> 0) s @ [0]"

abbreviation terminated :: "uchar list \<Rightarrow> bool" where
  "terminated s \<equiv> 0 \<in> set s"

lemma cstr_Cons [simp]: "cstr (c # s) = (if c = 0 then [0] else c # cstr s)"
  by (simp add: cstr_def)

lemma terminated_cstr [simp]: "terminated (cstr s)"
  by (simp add: cstr_def)

lemma cstr_cstr [simp]: "cstr (cstr s) = cstr s"
  by (induction s) (auto simp: cstr_def)

lemma ucmp_cstr: "terminated a \<Longrightarrow> terminated b \<Longrightarrow> \<exists>d. ucmp a b = Some d \<and> (d = 0 \<longleftrightarrow> cstr a = cstr b)"
proof (induction a b rule: ucmp.induct)
  case (1 a as b bs)
  then show ?case
    by (cases "a = b") (auto simp: Let_def word_uint_eq_iff)
qed auto

lemma ustrlen_cstr: "terminated s \<Longrightarrow> ustrlen s = Some (length (cstr s) - 1)"
proof (induction s)
  case (Cons c s)
  then show ?case by (cases "c = 0") (auto simp: cstr_def)
qed simp

lemma ustrdup_cstr: "terminated s \<Longrightarrow> ustrdup s = Some (cstr s)"
proof -
  assume t: "terminated s"
  have "take (length (takeWhile (\<lambda>c. c \<noteq> 0) s) + 1) s = cstr s"
    using t by (induction s) (auto simp: cstr_def)
  then show ?thesis using ustrlen_cstr [OF t] by (simp add: cstr_def)
qed

lemma hash_loop_total: "terminated s \<Longrightarrow> \<exists>h'. hash_loop h s = Some h' \<and> hash_loop h (cstr s) = Some h'"
  by (induction s arbitrary: h) (auto simp: cstr_def)

lemma hash_name_cstr: "terminated s \<Longrightarrow> \<exists>b. hash_name s = Some b \<and> hash_name (cstr s) = Some b"
  using hash_loop_total [of s 0] by (auto simp: hash_name_def)


subsection \<open>The invariant of the cache\<close>

text \<open>
  \<open>taken l name b h\<close>: every hash from \<open>b\<close> up to \<open>h\<close> is held by an entry with another name, so that
  probing for \<open>name\<close> from \<open>b\<close> gets to \<open>h\<close>. The cache is sorted, fits its allocation and every entry
  sits where probing from the hash of its name finds it.
\<close>

definition taken :: "uchar list hl_field_lookup list \<Rightarrow> uchar list \<Rightarrow> int \<Rightarrow> int \<Rightarrow> bool" where
  "taken l name b h \<longleftrightarrow> b \<le> h \<and> (\<forall>k. b \<le> k \<longrightarrow> k < h \<longrightarrow> (\<exists>e\<in>set l. hashed_name e = k \<and> fl_t e \<noteq> name))"

definition cache_inv :: "hl_cache \<Rightarrow> bool" where
  "cache_inv ca \<longleftrightarrow>
    sorted_lookup (entries ca) \<and> hl_cache_count ca \<le> cache_size ca \<and>
    (cache_size ca = 0 \<or> 16 \<le> cache_size ca) \<and>
    (\<forall>e\<in>set (entries ca). terminated (fl_t e) \<and> cstr (fl_t e) = fl_t e \<and>
       (\<exists>b. hash_name (fl_t e) = Some b \<and> taken (entries ca) (fl_t e) b (hashed_name e)))"

lemma takenD: "taken l name b h \<Longrightarrow> b \<le> k \<Longrightarrow> k < h \<Longrightarrow> \<exists>e\<in>set l. hashed_name e = k \<and> fl_t e \<noteq> name"
  by (auto simp: taken_def)

lemma taken_mono: "taken l name b h \<Longrightarrow> set l \<subseteq> set l' \<Longrightarrow> taken l' name b h"
  unfolding taken_def by (meson subsetD)

lemma taken_step:
  "taken l name b h \<Longrightarrow> e \<in> set l \<Longrightarrow> hashed_name e = h \<Longrightarrow> fl_t e \<noteq> name \<Longrightarrow> taken l name b (h + 1)"
  unfolding taken_def by (metis add_increasing2 linorder_not_less order_le_less zle_add1_eq_le zero_le_one)

lemma cache_inv_unique:
  assumes "cache_inv ca" "e \<in> set (entries ca)" "e' \<in> set (entries ca)" "fl_t e = fl_t e'"
  shows "e = e'"
proof -
  have s: "sorted_lookup (entries ca)" using assms(1) by (simp add: cache_inv_def)
  have no: "\<not> hashed_name x < hashed_name y"
    if "x \<in> set (entries ca)" "y \<in> set (entries ca)" "fl_t x = fl_t y" for x y
  proof
    assume lt: "hashed_name x < hashed_name y"
    from assms(1) that(1,2) obtain b c where b: "hash_name (fl_t x) = Some b" "taken (entries ca) (fl_t x) b (hashed_name x)"
      and c: "hash_name (fl_t y) = Some c" "taken (entries ca) (fl_t y) c (hashed_name y)"
      unfolding cache_inv_def by blast
    then have "c \<le> hashed_name x" using that(3) by (simp add: taken_def)
    from takenD [OF c(2) this lt] obtain z where z: "z \<in> set (entries ca)" "hashed_name z = hashed_name x" "fl_t z \<noteq> fl_t y"
      by blast
    then have "z = x" using hl_lookup_find_iff [OF s] that(1) by (metis option.inject)
    with z that(3) show False by simp
  qed
  then have "hashed_name e = hashed_name e'" using no [OF assms(2,3,4)] no [OF assms(3,2) assms(4) [symmetric]] by linarith
  then show ?thesis using hl_lookup_find_iff [OF s] assms(2,3) by (metis option.inject)
qed

lemma probe_spec:
  assumes "cache_inv ca" "terminated name" "taken (entries ca) (cstr name) b h"
  shows "\<exists>h' l. probe (entries ca) name h = Some (h', l) \<and> taken (entries ca) (cstr name) b h' \<and>
    (case l of None \<Rightarrow> hl_lookup_find (entries ca) (hl_cache_count ca) h' = None
     | Some e \<Rightarrow> e \<in> set (entries ca) \<and> hashed_name e = h' \<and> fl_t e = cstr name)"
  using assms
proof (induction "entries ca" name h rule: probe.induct)
  case (1 name h)
  have s: "sorted_lookup (entries ca)" using 1(2) by (simp add: cache_inv_def)
  show ?case
  proof (cases "hl_lookup_find (entries ca) (hl_cache_count ca) h")
    case None
    with 1(4) show ?thesis by (simp add: probe.simps [of "entries ca"])
  next
    case (Some e)
    then have e: "e \<in> set (entries ca)" "hashed_name e = h" using hl_lookup_find_iff [OF s] by auto
    then have te: "terminated (fl_t e)" "cstr (fl_t e) = fl_t e" using 1(2) by (auto simp: cache_inv_def)
    from ucmp_cstr [OF te(1) 1(3)] obtain d where d: "ucmp (fl_t e) name = Some d" "d = 0 \<longleftrightarrow> fl_t e = cstr name"
      using te(2) by auto
    show ?thesis
    proof (cases "d = 0")
      case True
      with Some d e 1(4) show ?thesis by (simp add: probe.simps [of "entries ca"])
    next
      case False
      then have "taken (entries ca) (cstr name) b (h + 1)" using taken_step [OF 1(4) e] d(2) by simp
      from 1(1) [OF Some d(1) False 1(2,3) this] False Some d(1) show ?thesis
        by (simp add: probe.simps [of "entries ca" name h])
    qed
  qed
qed

lemma cache_insert_inv:
  assumes "cache_inv ca" "terminated name" "hash_name name = Some b" "taken (entries ca) (cstr name) b h"
    "hl_lookup_find (entries ca) (hl_cache_count ca) h = None"
  shows "cache_inv (cache_insert ca h (cstr name))"
proof -
  let ?l = "fst (hl_lookup_insert (entries ca) (hl_cache_count ca) h (cstr name) 0)"
  have s: "sorted_lookup ?l" using assms(1,5) by (simp add: cache_inv_def hl_lookup_insert_sorted)
  have sub: "set (entries ca) \<subseteq> set ?l" by auto
  have len: "length ?l = Suc (hl_cache_count ca)" by (simp add: hl_lookup_insert_def Let_def)
  have "hl_cache_count ca \<le> cache_size ca" "cache_size ca = 0 \<or> 16 \<le> cache_size ca"
    using assms(1) by (auto simp: cache_inv_def)
  then have cap: "Suc (hl_cache_count ca) \<le> cache_size (cache_insert ca h (cstr name))"
      "16 \<le> cache_size (cache_insert ca h (cstr name))"
    by (auto simp: cache_insert_def Let_def)
  have ok: "terminated (fl_t e) \<and> cstr (fl_t e) = fl_t e \<and>
      (\<exists>b. hash_name (fl_t e) = Some b \<and> taken ?l (fl_t e) b (hashed_name e))" if "e \<in> set ?l" for e
  proof (cases "e \<in> set (entries ca)")
    case True
    with assms(1) show ?thesis unfolding cache_inv_def by (meson taken_mono sub)
  next
    case False
    with that have "e = \<lparr>fl_t = cstr name, hashed_name = h, field_index = 0\<rparr>" by simp
    with assms(2,3,4) hash_name_cstr [OF assms(2)] taken_mono [OF assms(4) sub] show ?thesis by auto
  qed
  show ?thesis
    using s ok len cap unfolding cache_inv_def by (simp add: cache_insert_def Let_def)
qed

lemma option_eqI: "(\<And>x. a = Some x \<longleftrightarrow> b = Some x) \<Longrightarrow> a = b"
  by (cases a; cases b) auto

definition known_names :: "hl_cache \<Rightarrow> int \<Rightarrow> uchar list option" where
  "known_names ca h = map_option fl_t (hl_lookup_find (entries ca) (hl_cache_count ca) h)"

lemma known_names_iff:
  "cache_inv ca \<Longrightarrow> known_names ca h = Some n \<longleftrightarrow> (\<exists>e\<in>set (entries ca). hashed_name e = h \<and> fl_t e = n)"
  by (auto simp: known_names_def cache_inv_def hl_lookup_find_iff)

lemma known_names_insert:
  assumes "cache_inv ca" "cache_inv (cache_insert ca h n)"
    "hl_lookup_find (entries ca) (hl_cache_count ca) h = None"
  shows "known_names (cache_insert ca h n) = (known_names ca)(h \<mapsto> n)"
proof (rule ext, rule option_eqI)
  fix k m
  have "known_names ca h = None" using assms(3) by (simp add: known_names_def)
  then have "\<forall>e\<in>set (entries ca). hashed_name e \<noteq> h" using known_names_iff [OF assms(1), of h] by auto
  then show "known_names (cache_insert ca h n) k = Some m \<longleftrightarrow> ((known_names ca)(h \<mapsto> n)) k = Some m"
    unfolding known_names_iff [OF assms(2)] using known_names_iff [OF assms(1), of k m]
    by (auto simp: cache_insert_def Let_def)
qed

lemma hl_hash_gen_spec:
  assumes "cache_inv ca" "terminated name"
  shows "\<exists>h ca'. hl_hash_gen ca name True = Some (h, ca') \<and> cache_inv ca' \<and>
    known_names ca' = (known_names ca)(h \<mapsto> cstr name) \<and> (known_names ca h \<in> {None, Some (cstr name)})"
proof -
  obtain b where b: "hash_name name = Some b" using hash_name_cstr [OF assms(2)] by auto
  have "taken (entries ca) (cstr name) b b" by (simp add: taken_def)
  from probe_spec [OF assms this] obtain h l where p: "probe (entries ca) name b = Some (h, l)"
    "taken (entries ca) (cstr name) b h"
    "case l of None \<Rightarrow> hl_lookup_find (entries ca) (hl_cache_count ca) h = None
     | Some e \<Rightarrow> e \<in> set (entries ca) \<and> hashed_name e = h \<and> fl_t e = cstr name" by blast
  show ?thesis
  proof (cases l)
    case None
    with p(3) have f: "hl_lookup_find (entries ca) (hl_cache_count ca) h = None" by simp
    have i: "cache_inv (cache_insert ca h (cstr name))"
      by (rule cache_insert_inv [OF assms b p(2) f])
    from None f p(1) b ustrdup_cstr [OF assms(2)] i known_names_insert [OF assms(1) i f] show ?thesis
      by (simp add: hl_hash_gen_def known_names_def del: ustrdup.simps)
  next
    case (Some e)
    with p(3) have "known_names ca h = Some (cstr name)" using known_names_iff [OF assms(1)] by auto
    with Some p(1) b assms(1) show ?thesis by (auto simp: hl_hash_gen_def fun_upd_idem_iff)
  qed
qed

lemma known_names_inj:
  assumes "cache_inv ca" "known_names ca h = Some n" "known_names ca h' = Some n"
  shows "h = h'"
  using assms cache_inv_unique [OF assms(1)] by (auto simp: known_names_iff [OF assms(1)])

lemma cache_inv_init: "cache_inv hl_cache_init"
  by (simp add: cache_inv_def hl_cache_init_def sorted_lookup_def)

subsection \<open>The contract of a name table\<close>

text \<open>
  What the callers of the cache rely on: a name is always given a number, the number is its own, and
  no later name takes it away. \<open>names\<close> is what the table knows, \<open>key\<close> what two spellings of a
  name have in common.
\<close>

text \<open>Interning a list of names, each in the table the one before left.\<close>

fun intern_all :: "('c \<Rightarrow> 'n \<Rightarrow> (int \<times> 'c) option) \<Rightarrow> 'c \<Rightarrow> 'n list \<Rightarrow> (int list \<times> 'c) option" where
  "intern_all intern c [] = Some ([], c)"
| "intern_all intern c (n # ns) = do {
     (h, c1) \<leftarrow> intern c n;
     (hs, c2) \<leftarrow> intern_all intern c1 ns;
     Some (h # hs, c2) }"


locale name_table =
  fixes inv :: "'c \<Rightarrow> bool"
    and intern :: "'c \<Rightarrow> 'n \<Rightarrow> (int \<times> 'c) option"
    and names :: "'c \<Rightarrow> int \<Rightarrow> 'k option"
    and key :: "'n \<Rightarrow> 'k"
    and ok :: "'n \<Rightarrow> bool"
  assumes intern_total: "inv c \<Longrightarrow> ok n \<Longrightarrow> \<exists>h c'. intern c n = Some (h, c') \<and> inv c' \<and>
      names c' = (names c)(h \<mapsto> key n) \<and> (names c h \<in> {None, Some (key n)})"
    and names_inj: "inv c \<Longrightarrow> names c h = Some k \<Longrightarrow> names c h' = Some k \<Longrightarrow> h = h'"
begin

lemma intern_law:
  assumes "inv c" "ok n" "intern c n = Some (h, c')"
  shows "inv c'" "names c' = (names c)(h \<mapsto> key n)" "names c h \<in> {None, Some (key n)}"
  using intern_total [OF assms(1,2)] assms(3) by auto

lemma intern_grows: "inv c \<Longrightarrow> ok n \<Longrightarrow> intern c n = Some (h, c') \<Longrightarrow> names c \<subseteq>\<^sub>m names c'"
  using intern_law [of c n h c'] by (auto simp: map_le_def dom_def)

lemma intern_again:
  assumes "inv c" "ok n" "names c h = Some (key n)"
  shows "\<exists>c'. intern c n = Some (h, c') \<and> names c' = names c"
proof -
  obtain h' c' where i: "intern c n = Some (h', c')" using intern_total [OF assms(1,2)] by blast
  note l = intern_law [OF assms(1,2) i]
  have "names c' h = Some (key n)" using l(2) assms(3) by simp
  moreover have "names c' h' = Some (key n)" using l(2) by simp
  ultimately have "h = h'" by (rule names_inj [OF l(1)])
  moreover from this have "names c' = names c" using l(2) assms(3) by (simp add: fun_upd_idem)
  ultimately show ?thesis using i by blast
qed

lemma intern_all_spec:
  assumes "inv c" "\<forall>n\<in>set ns. ok n"
  shows "\<exists>hs c'. intern_all intern c ns = Some (hs, c') \<and> inv c' \<and> names c \<subseteq>\<^sub>m names c' \<and>
    length hs = length ns \<and> (\<forall>i<length ns. names c' (hs ! i) = Some (key (ns ! i)))"
  using assms
proof (induction ns arbitrary: c)
  case Nil
  then show ?case by simp
next
  case (Cons n ns)
  then obtain h c1 where i: "intern c n = Some (h, c1)" using intern_total [of c n] by auto
  note l = intern_law [OF Cons.prems(1) _ i]
  from Cons.IH [of c1] l(1) Cons.prems obtain hs c2 where r: "intern_all intern c1 ns = Some (hs, c2)" "inv c2"
    "names c1 \<subseteq>\<^sub>m names c2" "length hs = length ns" "\<forall>i<length ns. names c2 (hs ! i) = Some (key (ns ! i))"
    by auto
  have "names c1 h = Some (key n)" using l Cons.prems by simp
  then have "names c2 h = Some (key n)" using r(3) by (metis domI map_le_def)
  with i r intern_grows [OF Cons.prems(1) _ i] Cons.prems(2) show ?case
    by (auto simp: nth_Cons split: nat.splits intro: map_le_trans)
qed

lemma intern_all_distinguishes:
  assumes "inv c" "\<forall>n\<in>set ns. ok n" "intern_all intern c ns = Some (hs, c')" "i < length ns" "j < length ns"
  shows "hs ! i = hs ! j \<longleftrightarrow> key (ns ! i) = key (ns ! j)"
proof -
  have "inv c'" "\<forall>i<length ns. names c' (hs ! i) = Some (key (ns ! i))"
    using intern_all_spec [OF assms(1,2)] assms(3) by auto
  then show ?thesis using assms(4,5) names_inj [of c' "hs ! i" "key (ns ! i)" "hs ! j"]
    by (metis option.inject)
qed

end

interpretation fields: name_table cache_inv hl_hash known_names cstr terminated
  by unfold_locales (auto simp: hl_hash_def hl_hash_gen_spec [simplified] intro: known_names_inj dest: hl_hash_gen_spec)

lemma hl_field_name_known: "hl_field_name ca h = (case known_names ca h of Some n \<Rightarrow> n | None \<Rightarrow> unknown_field)"
  by (simp add: hl_field_name_def known_names_def split: option.splits)

subsection \<open>The typed slots are a name table too\<close>

definition slot_inv :: "typed_slot_table \<Rightarrow> bool" where
  "slot_inv tab \<longleftrightarrow>
    typed_slot_count tab = int (length (typed_slots tab)) \<and>
    (\<forall>s\<in>set (typed_slots tab). terminated (slot_key s) \<and> cstr (slot_key s) = slot_key s \<and>
       0 \<le> slot_index s \<and> slot_index s < typed_slot_count tab) \<and>
    distinct (map slot_index (typed_slots tab)) \<and> distinct (map slot_key (typed_slots tab))"

definition slot_names :: "typed_slot_table \<Rightarrow> int \<Rightarrow> uchar list option" where
  "slot_names tab = map_of (map (\<lambda>s. (slot_index s, slot_key s)) (typed_slots tab))"

definition slot_of :: "typed_slot_table \<Rightarrow> uchar list \<Rightarrow> (int \<times> typed_slot_table) option" where
  "slot_of tab key = map_option (apfst slot_index) (typed_slot_locked tab key)"

lemma find_slot_spec:
  assumes "\<forall>s\<in>set l. terminated (slot_key s) \<and> cstr (slot_key s) = slot_key s" "terminated key"
  shows "\<exists>r. find_slot l key = Some r \<and>
    (case r of None \<Rightarrow> cstr key \<notin> slot_key ` set l | Some s \<Rightarrow> s \<in> set l \<and> slot_key s = cstr key)"
  using assms(1)
proof (induction l)
  case Nil
  then show ?case by simp
next
  case (Cons a l)
  then obtain d where "ucmp (slot_key a) key = Some d" "d = 0 \<longleftrightarrow> slot_key a = cstr key"
    using ucmp_cstr [of "slot_key a" key] assms(2) by auto
  with Cons show ?case by (auto split: option.splits)
qed

lemma slot_of_total:
  assumes "slot_inv tab" "terminated key"
  shows "\<exists>h tab'. slot_of tab key = Some (h, tab') \<and> slot_inv tab' \<and>
    slot_names tab' = (slot_names tab)(h \<mapsto> cstr key) \<and> slot_names tab h \<in> {None, Some (cstr key)}"
proof -
  obtain r where r: "find_slot (typed_slots tab) key = Some r"
    "case r of None \<Rightarrow> cstr key \<notin> slot_key ` set (typed_slots tab)
     | Some s \<Rightarrow> s \<in> set (typed_slots tab) \<and> slot_key s = cstr key"
    using find_slot_spec [of "typed_slots tab" key] assms by (auto simp: slot_inv_def)
  show ?thesis
  proof (cases r)
    case None
    have "typed_slot_count tab \<notin> slot_index ` set (typed_slots tab)"
      using assms(1) by (auto simp: slot_inv_def)
    then have "slot_names tab (typed_slot_count tab) = None"
      by (simp add: slot_names_def map_of_eq_None_iff image_image)
    with None r assms ustrdup_cstr [OF assms(2)] \<open>typed_slot_count tab \<notin> _\<close> show ?thesis
      by (auto simp: slot_of_def typed_slot_locked_def slot_names_def slot_inv_def Let_def simp del: ustrdup.simps)
  next
    case (Some s)
    with r have s: "s \<in> set (typed_slots tab)" "slot_key s = cstr key" by auto
    have "slot_names tab (slot_index s) = Some (cstr key)"
      using assms(1) s unfolding slot_names_def slot_inv_def
      by (intro map_of_is_SomeI) (auto simp: comp_def image_iff)
    with Some r assms show ?thesis
      by (auto simp: slot_of_def typed_slot_locked_def fun_upd_idem_iff)
  qed
qed

lemma slot_names_inj:
  assumes "slot_inv tab" "slot_names tab h = Some k" "slot_names tab h' = Some k"
  shows "h = h'"
proof -
  from assms(2,3) obtain s t where st: "s \<in> set (typed_slots tab)" "slot_index s = h" "slot_key s = k"
    "t \<in> set (typed_slots tab)" "slot_index t = h'" "slot_key t = k"
    unfolding slot_names_def by (auto dest!: map_of_SomeD)
  moreover have "inj_on slot_key (set (typed_slots tab))"
    using assms(1) by (simp add: slot_inv_def distinct_map)
  ultimately show ?thesis by (auto dest: inj_onD)
qed

interpretation slots: name_table slot_inv slot_of slot_names cstr terminated
  by unfold_locales (rule slot_of_total slot_names_inj; assumption)+

subsection \<open>Properties\<close>

text \<open>
  C23: \<open>hl_hash\<close> of a terminated name always returns a hash whose \<open>hl_field_name\<close> is that name; the
  cache invariant is kept and no other hash changes its name.
\<close>

theorem hl_hash_field_name:
  assumes "cache_inv ca" and "terminated name"
  shows "\<exists>h ca'. hl_hash ca name = Some (h, ca') \<and> cache_inv ca' \<and> hl_field_name ca' h = cstr name \<and>
    (\<forall>k. k \<noteq> h \<longrightarrow> hl_field_name ca' k = hl_field_name ca k)"
  using fields.intern_total [OF assms] by (auto simp: hl_field_name_known)

theorem hl_hash_field_name_witness:
  "cache_inv hl_cache_init \<and>
   (\<exists>h ca'. hl_hash hl_cache_init [0x61, 0x62, 0] = Some (h, ca') \<and> cache_inv ca' \<and>
      hl_field_name ca' h = cstr [0x61, 0x62, 0] \<and>
      (\<forall>k. k \<noteq> h \<longrightarrow> hl_field_name ca' k = hl_field_name hl_cache_init k))"
  using hl_hash_field_name [of hl_cache_init "[0x61, 0x62, 0]"] cache_inv_init by simp

text \<open>
  C22: hashing any list of terminated names one after the other from the empty cache gives equal hashes
  to equal names and different hashes to different names, collisions of the raw hash included.
\<close>

theorem hl_hash_distinguishes:
  assumes "\<forall>n\<in>set ns. terminated n"
  shows "\<exists>hs ca. intern_all hl_hash hl_cache_init ns = Some (hs, ca) \<and> length hs = length ns \<and>
    (\<forall>i<length ns. \<forall>j<length ns. hs ! i = hs ! j \<longleftrightarrow> cstr (ns ! i) = cstr (ns ! j))"
  using fields.intern_all_spec [OF cache_inv_init assms]
    fields.intern_all_distinguishes [OF cache_inv_init assms] by auto

theorem hl_hash_distinguishes_witness:
  "\<exists>hs ca. intern_all hl_hash hl_cache_init [[0x62, 0x41, 0], [0x61, 0x120, 0], [0x62, 0x41, 0]] = Some (hs, ca) \<and>
     length hs = 3 \<and> hs ! 0 = hs ! 2 \<and> hs ! 0 \<noteq> hs ! 1"
proof -
  have "\<exists>hs ca. intern_all hl_hash hl_cache_init [[0x62, 0x41, 0], [0x61, 0x120, 0], [0x62, 0x41, 0]] = Some (hs, ca) \<and>
      length hs = 3 \<and> (\<forall>i<3. \<forall>j<3. hs ! i = hs ! j \<longleftrightarrow>
        cstr ([[0x62, 0x41, 0], [0x61, 0x120, 0], [0x62, 0x41, 0]] ! i) =
        cstr ([[0x62, 0x41, 0], [0x61, 0x120, 0], [0x62, 0x41, 0]] ! j))"
    using hl_hash_distinguishes [of "[[0x62, 0x41, 0], [0x61, 0x120, 0], [0x62, 0x41, 0]]"]
    by (simp add: numeral_eq_Suc)
  then obtain hs ca where hs: "intern_all hl_hash hl_cache_init [[0x62, 0x41, 0], [0x61, 0x120, 0], [0x62, 0x41, 0]] = Some (hs, ca)"
    "length hs = 3" "\<forall>i<3. \<forall>j<3. hs ! i = hs ! j \<longleftrightarrow>
        cstr ([[0x62, 0x41, 0], [0x61, 0x120, 0], [0x62, 0x41, 0]] ! i) =
        cstr ([[0x62, 0x41, 0], [0x61, 0x120, 0], [0x62, 0x41, 0]] ! j)"
    by blast
  from hs(3) have "hs ! 0 = hs ! 2" "hs ! 0 \<noteq> hs ! 1" by (auto dest!: spec [of _ 0])
  with hs(1,2) show ?thesis by blast
qed
end
