(* ===== verification/Opcodes.thy ===== *)
theory Opcodes
  imports Prelude
begin

text \<open>
  The opcode table of \<^verbatim>\<open>src/src/opcodes.h\<close>. The X-macro list is the list \<open>op_table\<close> of its rows, in
  order, so that an opcode is its position in the list; the two expansions of the list that
  \<^verbatim>\<open>code.c\<close> makes, the argument counts \<open>hl_op_nargs\<close> and the names \<open>hl_op_names\<close>, are maps over it.
\<close>

subsection \<open>Operand classes\<close>

abbreviation (input) arg_X :: int where "arg_X \<equiv> 0"
abbreviation (input) arg_R :: int where "arg_R \<equiv> 1"
abbreviation (input) arg_R_NW :: int where "arg_R_NW \<equiv> 2"
abbreviation (input) arg_C :: int where "arg_C \<equiv> 3"
abbreviation (input) arg_G :: int where "arg_G \<equiv> 4"
abbreviation (input) arg_AR :: int where "arg_AR \<equiv> 5"
abbreviation (input) arg_J :: int where "arg_J \<equiv> 6"
abbreviation (input) VAR_ARGS :: int where "VAR_ARGS \<equiv> - 1"

type_synonym op_row = "string \<times> int \<times> int \<times> int"

subsection \<open>The table\<close>

definition op_table :: "op_row list" where
  "op_table = [
    (''OMov'', arg_R, arg_R, arg_X),
    (''OInt'', arg_R, arg_G, arg_X),
    (''OFloat'', arg_R, arg_G, arg_X),
    (''OBool'', arg_R, arg_C, arg_X),
    (''OBytes'', arg_R, arg_G, arg_X),
    (''OString'', arg_R, arg_G, arg_X),
    (''ONull'', arg_R, arg_X, arg_X),
    (''OAdd'', arg_R, arg_R, arg_R),
    (''OSub'', arg_R, arg_R, arg_R),
    (''OMul'', arg_R, arg_R, arg_R),
    (''OSDiv'', arg_R, arg_R, arg_R),
    (''OUDiv'', arg_R, arg_R, arg_R),
    (''OSMod'', arg_R, arg_R, arg_R),
    (''OUMod'', arg_R, arg_R, arg_R),
    (''OShl'', arg_R, arg_R, arg_R),
    (''OSShr'', arg_R, arg_R, arg_R),
    (''OUShr'', arg_R, arg_R, arg_R),
    (''OAnd'', arg_R, arg_R, arg_R),
    (''OOr'', arg_R, arg_R, arg_R),
    (''OXor'', arg_R, arg_R, arg_R),
    (''ONeg'', arg_R, arg_R, arg_X),
    (''ONot'', arg_R, arg_R, arg_X),
    (''OIncr'', arg_R, arg_X, arg_X),
    (''ODecr'', arg_R, arg_X, arg_X),
    (''OCall0'', arg_R, arg_C, arg_X),
    (''OCall1'', arg_R, arg_C, arg_R),
    (''OCall2'', arg_R, arg_AR, 4),
    (''OCall3'', arg_R, arg_AR, 5),
    (''OCall4'', arg_R, arg_AR, 6),
    (''OCallN'', arg_R, arg_AR, VAR_ARGS),
    (''OCallMethod'', arg_R, arg_AR, VAR_ARGS),
    (''OCallThis'', arg_R, arg_AR, VAR_ARGS),
    (''OCallClosure'', arg_R, arg_AR, VAR_ARGS),
    (''OStaticClosure'', arg_R, arg_G, arg_X),
    (''OInstanceClosure'', arg_R, arg_C, arg_R),
    (''OVirtualClosure'', arg_R, arg_R, arg_G),
    (''OGetGlobal'', arg_R, arg_G, arg_X),
    (''OSetGlobal'', arg_G, arg_R, arg_X),
    (''OField'', arg_R, arg_R, arg_G),
    (''OSetField'', arg_R_NW, arg_G, arg_R),
    (''OGetThis'', arg_R, arg_G, arg_X),
    (''OSetThis'', arg_G, arg_R, arg_X),
    (''ODynGet'', arg_R, arg_R, arg_C),
    (''ODynSet'', arg_R_NW, arg_C, arg_R),
    (''OJTrue'', arg_R_NW, arg_J, arg_X),
    (''OJFalse'', arg_R_NW, arg_J, arg_X),
    (''OJNull'', arg_R_NW, arg_J, arg_X),
    (''OJNotNull'', arg_R_NW, arg_J, arg_X),
    (''OJSLt'', arg_R_NW, arg_R, arg_J),
    (''OJSGte'', arg_R_NW, arg_R, arg_J),
    (''OJSGt'', arg_R_NW, arg_R, arg_J),
    (''OJSLte'', arg_R_NW, arg_R, arg_J),
    (''OJULt'', arg_R_NW, arg_R, arg_J),
    (''OJUGte'', arg_R_NW, arg_R, arg_J),
    (''OJNotLt'', arg_R_NW, arg_R, arg_J),
    (''OJNotGte'', arg_R_NW, arg_R, arg_J),
    (''OJEq'', arg_R_NW, arg_R, arg_J),
    (''OJNotEq'', arg_R_NW, arg_R, arg_J),
    (''OJAlways'', arg_J, arg_X, arg_X),
    (''OToDyn'', arg_R, arg_R, arg_X),
    (''OToSFloat'', arg_R, arg_R, arg_X),
    (''OToUFloat'', arg_R, arg_R, arg_X),
    (''OToInt'', arg_R, arg_R, arg_X),
    (''OSafeCast'', arg_R, arg_R, arg_X),
    (''OUnsafeCast'', arg_R, arg_R, arg_X),
    (''OToVirtual'', arg_R, arg_R, arg_X),
    (''OLabel'', arg_X, arg_X, arg_X),
    (''ORet'', arg_R_NW, arg_X, arg_X),
    (''OThrow'', arg_R_NW, arg_X, arg_X),
    (''ORethrow'', arg_R_NW, arg_X, arg_X),
    (''OSwitch'', arg_R_NW, arg_AR, VAR_ARGS),
    (''ONullCheck'', arg_R_NW, arg_X, arg_X),
    (''OTrap'', arg_R_NW, arg_J, arg_X),
    (''OEndTrap'', arg_R, arg_X, arg_X),
    (''OGetI8'', arg_R, arg_R, arg_R),
    (''OGetI16'', arg_R, arg_R, arg_R),
    (''OGetMem'', arg_R, arg_R, arg_R),
    (''OGetArray'', arg_R, arg_R, arg_R),
    (''OSetI8'', arg_R, arg_R, arg_R),
    (''OSetI16'', arg_R, arg_R, arg_R),
    (''OSetMem'', arg_R, arg_R, arg_R),
    (''OSetArray'', arg_R, arg_R, arg_R),
    (''ONew'', arg_R, arg_X, arg_X),
    (''OArraySize'', arg_R, arg_R, arg_X),
    (''OType'', arg_R, arg_G, arg_X),
    (''OGetType'', arg_R, arg_R, arg_X),
    (''OGetTID'', arg_R, arg_R, arg_X),
    (''ORef'', arg_R, arg_R, arg_X),
    (''OUnref'', arg_R, arg_R, arg_X),
    (''OSetref'', arg_R_NW, arg_R, arg_X),
    (''OMakeEnum'', arg_R, arg_AR, VAR_ARGS),
    (''OEnumAlloc'', arg_R, arg_R, arg_X),
    (''OEnumIndex'', arg_R, arg_R, arg_X),
    (''OEnumField'', arg_R, arg_AR, 4),
    (''OSetEnumField'', arg_R_NW, arg_R, arg_C),
    (''OAssert'', arg_X, arg_X, arg_X),
    (''ORefData'', arg_R, arg_R, arg_X),
    (''ORefOffset'', arg_R, arg_R, arg_C),
    (''ONop'', arg_X, arg_X, arg_X),
    (''OPrefetch'', arg_R_NW, arg_C, arg_C),
    (''OAsm'', arg_C, arg_C, arg_C),
    (''OCatch'', arg_J, arg_X, arg_X),
    (''OCleanupTrap'', arg_R_NW, arg_J, arg_X),
    (''OEndCleanupTrap'', arg_R, arg_X, arg_X),
    (''OLast'', arg_X, arg_X, arg_X)
  ]"

subsection \<open>Opcodes by name\<close>

text \<open>The enumerators of \<open>hl_op\<close> that the sources mention, as positions in the table.\<close>

abbreviation (input) OMov :: nat where "OMov \<equiv> 0"
abbreviation (input) OInt :: nat where "OInt \<equiv> 1"
abbreviation (input) OFloat :: nat where "OFloat \<equiv> 2"
abbreviation (input) OBool :: nat where "OBool \<equiv> 3"
abbreviation (input) OBytes :: nat where "OBytes \<equiv> 4"
abbreviation (input) OString :: nat where "OString \<equiv> 5"
abbreviation (input) ONull :: nat where "ONull \<equiv> 6"
abbreviation (input) OAdd :: nat where "OAdd \<equiv> 7"
abbreviation (input) OSub :: nat where "OSub \<equiv> 8"
abbreviation (input) OMul :: nat where "OMul \<equiv> 9"
abbreviation (input) OSDiv :: nat where "OSDiv \<equiv> 10"
abbreviation (input) OUDiv :: nat where "OUDiv \<equiv> 11"
abbreviation (input) OSMod :: nat where "OSMod \<equiv> 12"
abbreviation (input) OUMod :: nat where "OUMod \<equiv> 13"
abbreviation (input) OShl :: nat where "OShl \<equiv> 14"
abbreviation (input) OSShr :: nat where "OSShr \<equiv> 15"
abbreviation (input) OUShr :: nat where "OUShr \<equiv> 16"
abbreviation (input) OAnd :: nat where "OAnd \<equiv> 17"
abbreviation (input) OOr :: nat where "OOr \<equiv> 18"
abbreviation (input) OXor :: nat where "OXor \<equiv> 19"
abbreviation (input) ONeg :: nat where "ONeg \<equiv> 20"
abbreviation (input) ONot :: nat where "ONot \<equiv> 21"
abbreviation (input) OIncr :: nat where "OIncr \<equiv> 22"
abbreviation (input) ODecr :: nat where "ODecr \<equiv> 23"
abbreviation (input) OCall0 :: nat where "OCall0 \<equiv> 24"
abbreviation (input) OCall1 :: nat where "OCall1 \<equiv> 25"
abbreviation (input) OCall2 :: nat where "OCall2 \<equiv> 26"
abbreviation (input) OCall3 :: nat where "OCall3 \<equiv> 27"
abbreviation (input) OCall4 :: nat where "OCall4 \<equiv> 28"
abbreviation (input) OCallN :: nat where "OCallN \<equiv> 29"
abbreviation (input) OCallMethod :: nat where "OCallMethod \<equiv> 30"
abbreviation (input) OCallThis :: nat where "OCallThis \<equiv> 31"
abbreviation (input) OCallClosure :: nat where "OCallClosure \<equiv> 32"
abbreviation (input) OStaticClosure :: nat where "OStaticClosure \<equiv> 33"
abbreviation (input) OInstanceClosure :: nat where "OInstanceClosure \<equiv> 34"
abbreviation (input) OVirtualClosure :: nat where "OVirtualClosure \<equiv> 35"
abbreviation (input) OGetGlobal :: nat where "OGetGlobal \<equiv> 36"
abbreviation (input) OSetGlobal :: nat where "OSetGlobal \<equiv> 37"
abbreviation (input) OField :: nat where "OField \<equiv> 38"
abbreviation (input) OSetField :: nat where "OSetField \<equiv> 39"
abbreviation (input) OGetThis :: nat where "OGetThis \<equiv> 40"
abbreviation (input) OSetThis :: nat where "OSetThis \<equiv> 41"
abbreviation (input) ODynGet :: nat where "ODynGet \<equiv> 42"
abbreviation (input) ODynSet :: nat where "ODynSet \<equiv> 43"
abbreviation (input) OJTrue :: nat where "OJTrue \<equiv> 44"
abbreviation (input) OJFalse :: nat where "OJFalse \<equiv> 45"
abbreviation (input) OJNull :: nat where "OJNull \<equiv> 46"
abbreviation (input) OJNotNull :: nat where "OJNotNull \<equiv> 47"
abbreviation (input) OJSLt :: nat where "OJSLt \<equiv> 48"
abbreviation (input) OJSGte :: nat where "OJSGte \<equiv> 49"
abbreviation (input) OJSGt :: nat where "OJSGt \<equiv> 50"
abbreviation (input) OJSLte :: nat where "OJSLte \<equiv> 51"
abbreviation (input) OJULt :: nat where "OJULt \<equiv> 52"
abbreviation (input) OJUGte :: nat where "OJUGte \<equiv> 53"
abbreviation (input) OJNotLt :: nat where "OJNotLt \<equiv> 54"
abbreviation (input) OJNotGte :: nat where "OJNotGte \<equiv> 55"
abbreviation (input) OJEq :: nat where "OJEq \<equiv> 56"
abbreviation (input) OJNotEq :: nat where "OJNotEq \<equiv> 57"
abbreviation (input) OJAlways :: nat where "OJAlways \<equiv> 58"
abbreviation (input) OToDyn :: nat where "OToDyn \<equiv> 59"
abbreviation (input) OToSFloat :: nat where "OToSFloat \<equiv> 60"
abbreviation (input) OToUFloat :: nat where "OToUFloat \<equiv> 61"
abbreviation (input) OToInt :: nat where "OToInt \<equiv> 62"
abbreviation (input) OSafeCast :: nat where "OSafeCast \<equiv> 63"
abbreviation (input) OUnsafeCast :: nat where "OUnsafeCast \<equiv> 64"
abbreviation (input) OToVirtual :: nat where "OToVirtual \<equiv> 65"
abbreviation (input) OLabel :: nat where "OLabel \<equiv> 66"
abbreviation (input) ORet :: nat where "ORet \<equiv> 67"
abbreviation (input) OThrow :: nat where "OThrow \<equiv> 68"
abbreviation (input) ORethrow :: nat where "ORethrow \<equiv> 69"
abbreviation (input) OSwitch :: nat where "OSwitch \<equiv> 70"
abbreviation (input) ONullCheck :: nat where "ONullCheck \<equiv> 71"
abbreviation (input) OTrap :: nat where "OTrap \<equiv> 72"
abbreviation (input) OEndTrap :: nat where "OEndTrap \<equiv> 73"
abbreviation (input) OGetI8 :: nat where "OGetI8 \<equiv> 74"
abbreviation (input) OGetI16 :: nat where "OGetI16 \<equiv> 75"
abbreviation (input) OGetMem :: nat where "OGetMem \<equiv> 76"
abbreviation (input) OGetArray :: nat where "OGetArray \<equiv> 77"
abbreviation (input) OSetI8 :: nat where "OSetI8 \<equiv> 78"
abbreviation (input) OSetI16 :: nat where "OSetI16 \<equiv> 79"
abbreviation (input) OSetMem :: nat where "OSetMem \<equiv> 80"
abbreviation (input) OSetArray :: nat where "OSetArray \<equiv> 81"
abbreviation (input) ONew :: nat where "ONew \<equiv> 82"
abbreviation (input) OArraySize :: nat where "OArraySize \<equiv> 83"
abbreviation (input) OType :: nat where "OType \<equiv> 84"
abbreviation (input) OGetType :: nat where "OGetType \<equiv> 85"
abbreviation (input) OGetTID :: nat where "OGetTID \<equiv> 86"
abbreviation (input) ORef :: nat where "ORef \<equiv> 87"
abbreviation (input) OUnref :: nat where "OUnref \<equiv> 88"
abbreviation (input) OSetref :: nat where "OSetref \<equiv> 89"
abbreviation (input) OMakeEnum :: nat where "OMakeEnum \<equiv> 90"
abbreviation (input) OEnumAlloc :: nat where "OEnumAlloc \<equiv> 91"
abbreviation (input) OEnumIndex :: nat where "OEnumIndex \<equiv> 92"
abbreviation (input) OEnumField :: nat where "OEnumField \<equiv> 93"
abbreviation (input) OSetEnumField :: nat where "OSetEnumField \<equiv> 94"
abbreviation (input) OAssert :: nat where "OAssert \<equiv> 95"
abbreviation (input) ORefData :: nat where "ORefData \<equiv> 96"
abbreviation (input) ORefOffset :: nat where "ORefOffset \<equiv> 97"
abbreviation (input) ONop :: nat where "ONop \<equiv> 98"
abbreviation (input) OPrefetch :: nat where "OPrefetch \<equiv> 99"
abbreviation (input) OAsm :: nat where "OAsm \<equiv> 100"
abbreviation (input) OCatch :: nat where "OCatch \<equiv> 101"
abbreviation (input) OCleanupTrap :: nat where "OCleanupTrap \<equiv> 102"
abbreviation (input) OEndCleanupTrap :: nat where "OEndCleanupTrap \<equiv> 103"
abbreviation (input) OLast :: nat where "OLast \<equiv> 104"

subsection \<open>The expansions of code.c\<close>

definition op_nargs :: "op_row \<Rightarrow> int" where
  "op_nargs row = (case row of (_, a, b, c) \<Rightarrow>
     if b = arg_AR then c else if c = arg_X then (if b = arg_X then (if a = arg_X then 0 else 1) else 2) else 3)"

definition hl_op_nargs :: "int list" where
  "hl_op_nargs = map op_nargs op_table"

definition hl_op_names :: "string list" where
  "hl_op_names = map fst op_table"

definition hl_op_name :: "int \<Rightarrow> string" where
  "hl_op_name op = (if op < 0 \<or> op \<ge> int OLast then ''UnknownOp'' else hl_op_names ! nat op)"

subsection \<open>Facts of the table\<close>

lemma length_op_table [simp]: "length op_table = Suc OLast"
  by code_simp

lemma length_hl_op_nargs [simp]: "length hl_op_nargs = Suc OLast"
  by (simp add: hl_op_nargs_def)

lemma length_hl_op_names [simp]: "length hl_op_names = Suc OLast"
  by (simp add: hl_op_names_def)

text \<open>The enumerators used by name are the positions the table gives them.\<close>

lemma hl_op_names_enumerators:
  "map ((!) hl_op_names)
    [OJTrue, OJFalse, OJNull, OJNotNull, OJAlways, OJSLt, OJSGte, OJSGt, OJSLte, OJULt, OJUGte, OJNotLt,
    OJNotGte, OJEq, OJNotEq, OTrap, OCleanupTrap, OCatch, OSwitch, OCallN, OCallClosure, OCallMethod,
    OCallThis, OMakeEnum, OLast] =
   [''OJTrue'', ''OJFalse'', ''OJNull'', ''OJNotNull'', ''OJAlways'', ''OJSLt'', ''OJSGte'', ''OJSGt'',
    ''OJSLte'', ''OJULt'', ''OJUGte'', ''OJNotLt'', ''OJNotGte'', ''OJEq'', ''OJNotEq'', ''OTrap'',
    ''OCleanupTrap'', ''OCatch'', ''OSwitch'', ''OCallN'', ''OCallClosure'', ''OCallMethod'', ''OCallThis'',
    ''OMakeEnum'', ''OLast'']"
  by code_simp

text \<open>
  The counts that occur, and the opcodes with a variable number of arguments: the switch of
  \<open>hl_read_opcode\<close> has a case for each of them.
\<close>

lemma hl_op_nargs_cases: "n < length hl_op_nargs \<Longrightarrow> hl_op_nargs ! n \<in> {- 1, 0, 1, 2, 3, 4, 5, 6}"
proof -
  have "list_all (\<lambda>c. c \<in> {- 1, 0, 1, 2, 3, 4, 5, 6}) hl_op_nargs" by code_simp
  then show "n < length hl_op_nargs \<Longrightarrow> ?thesis" unfolding list_all_length by blast
qed

lemma hl_op_nargs_variable:
  assumes "n < OLast" "hl_op_nargs ! n = - 1"
  shows "n \<in> {OCallN, OCallMethod, OCallThis, OCallClosure, OSwitch, OMakeEnum}"
proof -
  have eq: "filter (\<lambda>(n, c). c = - 1) (List.enumerate 0 hl_op_nargs) =
      map (\<lambda>n. (n, - 1)) [OCallN, OCallMethod, OCallThis, OCallClosure, OSwitch, OMakeEnum]"
    by code_simp
  have "(n, - 1) \<in> set (filter (\<lambda>(n, c). c = - 1) (List.enumerate 0 hl_op_nargs))"
    using assms by (simp add: in_set_enumerate_eq)
  then show ?thesis unfolding eq by simp
qed

end
