(* ===== verification/Reader.thy ===== *)
theory Reader
  imports Opcodes FieldHash
begin

text \<open>
  The bytecode reader of \<^verbatim>\<open>src/src/code.c\<close>, up to \<open>hl_read_debug_infos\<close>: the buffer primitives, the
  variable-length indices, types, opcodes, functions, string blocks and debug line tables.

  The \<open>hl_reader\<close> passed by reference everywhere is the state of a state monad. \<open>ERROR\<close> stores a
  message only when none is stored, and reading goes on after it; the checks \<open>CHK_ERROR\<close> are where
  the source has them. A pointer into the type table is its index; a C string is the list of its
  bytes from the pointer to the end of its block. The flag \<open>r_fault\<close> records that the code
  read or wrote outside of an array: from there on the C program has no defined behaviour.
  Memory that the code has allocated and not yet written holds arbitrary values: they are the
  parameter \<open>fresh\<close>. Allocation itself always succeeds. A \<open>double\<close> is its eight bytes.
\<close>

subsection \<open>Type descriptions\<close>

abbreviation (input) HVOID :: int where "HVOID \<equiv> 0"
abbreviation (input) HFUN :: int where "HFUN \<equiv> 10"
abbreviation (input) HOBJ :: int where "HOBJ \<equiv> 11"
abbreviation (input) HREF :: int where "HREF \<equiv> 14"
abbreviation (input) HVIRTUAL :: int where "HVIRTUAL \<equiv> 15"
abbreviation (input) HABSTRACT :: int where "HABSTRACT \<equiv> 17"
abbreviation (input) HENUM :: int where "HENUM \<equiv> 18"
abbreviation (input) HNULL :: int where "HNULL \<equiv> 19"
abbreviation (input) HMETHOD :: int where "HMETHOD \<equiv> 20"
abbreviation (input) HSTRUCT :: int where "HSTRUCT \<equiv> 21"
abbreviation (input) HPACKED :: int where "HPACKED \<equiv> 22"
abbreviation (input) HLAST :: int where "HLAST \<equiv> 24"

type_synonym type_ref = int

record hl_type_fun =
  fun_args :: "type_ref list"
  fun_ret :: type_ref

record hl_obj_field =
  fld_name :: "uchar list"
  fld_hashed_name :: int
  fld_t :: type_ref

record hl_obj_proto =
  pr_name :: "uchar list"
  pr_hashed_name :: int
  pr_findex :: int
  pr_pindex :: int

record hl_type_obj =
  obj_name :: "uchar list"
  obj_super :: "type_ref option"
  obj_global_value :: int
  obj_fields :: "hl_obj_field list"
  obj_proto :: "hl_obj_proto list"
  obj_bindings :: "int list"

record hl_enum_construct =
  ec_name :: "uchar list"
  ec_params :: "type_ref list"

record hl_type_enum =
  enum_name :: "uchar list"
  enum_global_value :: int
  enum_constructs :: "hl_enum_construct list"

text \<open>The union in \<open>hl_type\<close>, by the member that the kind selects.\<close>

datatype hl_type_data =
    TNone
  | TFun hl_type_fun
  | TObj hl_type_obj
  | TVirt "hl_obj_field list"
  | TAbs "uchar list"
  | TEnum hl_type_enum
  | TParam type_ref

record hl_type =
  kind :: int
  tdata :: hl_type_data

subsection \<open>Code\<close>

datatype op_extra = NoExtra | ExtraInt int | ExtraArr "int list"

record hl_opcode =
  op :: int
  p1 :: int
  p2 :: int
  p3 :: int
  extra :: op_extra

record hl_function =
  findex :: int
  nregs :: int
  nops :: int
  ftype :: type_ref
  regs :: "type_ref list"
  ops :: "hl_opcode list"
  debug :: "(int \<times> int) list"
  nassigns :: int
  assigns :: "(int \<times> int \<times> int) list"

record hl_native =
  nat_lib :: "u8 list"
  nat_name :: "u8 list"
  nat_t :: type_ref
  nat_findex :: int

record hl_constant =
  k_global :: int
  k_nfields :: int
  k_fields :: "int list"

record hl_debug_section =
  ds_kind :: int
  ds_version :: int
  ds_flags :: int
  ds_size :: int
  ds_data :: "u8 list"

text \<open>The sizes that the file header announces.\<close>

record hl_counts =
  version :: int
  nints :: int
  nfloats :: int
  nstrings :: int
  nbytes :: int
  ntypes :: int
  nglobals :: int
  nnatives :: int
  nfunctions :: int
  nconstants :: int
  entrypoint :: int
  hasdebug :: bool

text \<open>\<open>hl_code\<close>: the counts, then the tables. An array holds its used entries; the reserve behind them is its capacity.\<close>

record hl_code =
  counts :: hl_counts
  ints :: "int list"
  floats :: "u8 list list"
  strings :: "u8 list list"
  strings_lens :: "int list"
  bytes :: "u8 list"
  bytes_pos :: "int list"
  ndebugfiles :: int
  debugfiles :: "u8 list list"
  debugfiles_lens :: "int list"
  ustrings :: "uchar list option list"
  types :: "hl_type list"
  types_capacity :: int
  globals :: "type_ref list"
  globals_capacity :: int
  natives :: "hl_native list"
  code_functions :: "hl_function list"
  functions_capacity :: int
  npatchfunctions :: int
  function_stable_ids :: "int list"
  function_names :: "u8 list option list"
  function_names_lens :: "int list"
  constants :: "hl_constant list"
  ndebugsections :: int
  debugsections :: "hl_debug_section list"

record hl_reader =
  r_b :: "u8 list"
  r_size :: int
  r_pos :: int
  r_error :: "string option"
  r_fault :: bool
  r_code :: hl_code
  r_cache :: hl_cache

type_synonym 'a reader = "(hl_reader, 'a) state"

subsection \<open>Buffer primitives\<close>

definition ERROR :: "string \<Rightarrow> unit reader" where
  "ERROR msg = State_Monad.update (\<lambda>r. if r_error r = None then r\<lparr>r_error := Some msg\<rparr> else r)"

definition FAULT :: "unit reader" where
  "FAULT = State_Monad.update (\<lambda>r. r\<lparr>r_fault := True\<rparr>)"

text \<open>\<open>r->b[r->pos++]\<close>\<close>

definition next_b :: "u8 reader" where
  "next_b = do {
     r \<leftarrow> State_Monad.get;
     if 0 \<le> r_pos r \<and> r_pos r < int (length (r_b r)) then do {
       State_Monad.set (r\<lparr>r_pos := r_pos r + 1\<rparr>);
       State_Monad.return (r_b r ! nat (r_pos r)) }
     else do { FAULT; State_Monad.return 0 } }"

definition hl_read_b :: "u8 reader" where
  "hl_read_b = do {
     r \<leftarrow> State_Monad.get;
     if r_pos r \<ge> r_size r then do { ERROR ''No more data''; State_Monad.return 0 }
     else next_b }"

abbreviation READ :: "int reader" where
  "READ \<equiv> hl_read_b \<bind> (\<lambda>b. State_Monad.return (uint b))"

text \<open>The destination is left unwritten on an error; otherwise the result is what it holds.\<close>

definition hl_read_bytes :: "int \<Rightarrow> u8 list option reader" where
  "hl_read_bytes sz = do {
     r \<leftarrow> State_Monad.get;
     if sz < 0 then do { ERROR ''Invalid size''; State_Monad.return None }
     else if i32 (r_pos r + sz) > r_size r then do { ERROR ''No more data''; State_Monad.return None }
     else if 0 \<le> r_pos r \<and> r_pos r + sz \<le> int (length (r_b r)) then do {
       State_Monad.set (r\<lparr>r_pos := r_pos r + sz\<rparr>);
       State_Monad.return (Some (take (nat sz) (drop (nat (r_pos r)) (r_b r)))) }
     else do { FAULT; State_Monad.return None } }"

definition hl_read_double :: "u8 list reader" where
  "hl_read_double = do {
     d \<leftarrow> hl_read_bytes 8;
     State_Monad.return (case d of Some bs \<Rightarrow> bs | None \<Rightarrow> replicate 8 0) }"

definition hl_read_i32 :: "int reader" where
  "hl_read_i32 = do {
     r \<leftarrow> State_Monad.get;
     if i32 (r_pos r + 4) > r_size r then do { ERROR ''No more data''; State_Monad.return 0 }
     else do {
       a \<leftarrow> next_b; b \<leftarrow> next_b; c \<leftarrow> next_b; d \<leftarrow> next_b;
       State_Monad.return (sint ((ucast a :: u32) OR push_bit 8 (ucast b) OR push_bit 16 (ucast c)
         OR push_bit 24 (ucast d))) } }"

definition hl_read_index :: "int reader" where
  "hl_read_index = do {
     b \<leftarrow> READ;
     if b AND 0x80 = 0 then State_Monad.return (b AND 0x7F)
     else if b AND 0x40 = 0 then do {
       c \<leftarrow> READ;
       let v = c OR push_bit 8 (b AND 31);
       State_Monad.return (if b AND 0x20 = 0 then v else - v) }
     else do {
       c \<leftarrow> READ; d \<leftarrow> READ; e \<leftarrow> READ;
       let v = push_bit 24 (b AND 31) OR push_bit 16 c OR push_bit 8 d OR e;
       State_Monad.return (if b AND 0x20 = 0 then v else - v) } }"

abbreviation INDEX :: "int reader" where
  "INDEX \<equiv> hl_read_index"

definition hl_read_uindex :: "int reader" where
  "hl_read_uindex = do {
     i \<leftarrow> hl_read_index;
     if i < 0 then do { ERROR ''Negative index''; State_Monad.return 0 }
     else State_Monad.return i }"

abbreviation UINDEX :: "int reader" where
  "UINDEX \<equiv> hl_read_uindex"

subsection \<open>References to the tables\<close>

definition hl_get_type :: "type_ref reader" where
  "hl_get_type = do {
     i \<leftarrow> INDEX;
     r \<leftarrow> State_Monad.get;
     if i < 0 \<or> i \<ge> ntypes (counts (r_code r)) then do { ERROR ''Invalid type index''; State_Monad.return 0 }
     else State_Monad.return i }"

text \<open>An index below \<open>nstrings\<close> is inside of \<open>strings\<close> once the block has been read; the array access is checked all the same.\<close>

definition hl_read_string :: "u8 list reader" where
  "hl_read_string = do {
     i \<leftarrow> INDEX;
     r \<leftarrow> State_Monad.get;
     if i < 0 \<or> i \<ge> nstrings (counts (r_code r)) then do { ERROR ''Invalid string index''; State_Monad.return [0] }
     else if nat i < length (strings (r_code r)) then State_Monad.return (strings (r_code r) ! nat i)
     else do { FAULT; State_Monad.return [0] } }"

definition hl_get_ustring :: "hl_code \<Rightarrow> nat \<Rightarrow> (uchar list \<times> hl_code) option" where
  "hl_get_ustring code index =
    (if index < length (ustrings code) \<and> index < length (strings code) then
       (case ustrings code ! index of
          Some str \<Rightarrow> Some (str, code)
        | None \<Rightarrow> do {
            sz \<leftarrow> hl_utf8_length (strings code ! index) 0;
            (str, _) \<leftarrow> hl_from_utf8 sz (strings code ! index);
            Some (str, code\<lparr>ustrings := (ustrings code)[index := Some str]\<rparr>) })
     else None)"

text \<open>Calls of functions that work on the code or on the field-name cache; a fault there is a fault here.\<close>

definition on_code :: "(hl_code \<Rightarrow> ('a \<times> hl_code) option) \<Rightarrow> 'a \<Rightarrow> 'a reader" where
  "on_code f dflt = do {
     r \<leftarrow> State_Monad.get;
     case f (r_code r) of
       Some x \<Rightarrow> do { State_Monad.set (r\<lparr>r_code := snd x\<rparr>); State_Monad.return (fst x) }
     | None \<Rightarrow> do { FAULT; State_Monad.return dflt } }"

definition on_cache :: "(hl_cache \<Rightarrow> ('a \<times> hl_cache) option) \<Rightarrow> 'a \<Rightarrow> 'a reader" where
  "on_cache f dflt = do {
     r \<leftarrow> State_Monad.get;
     case f (r_cache r) of
       Some x \<Rightarrow> do { State_Monad.set (r\<lparr>r_cache := snd x\<rparr>); State_Monad.return (fst x) }
     | None \<Rightarrow> do { FAULT; State_Monad.return dflt } }"

definition hl_read_ustring :: "uchar list reader" where
  "hl_read_ustring = do {
     i0 \<leftarrow> INDEX;
     r0 \<leftarrow> State_Monad.get;
     i \<leftarrow> (if i0 < 0 \<or> i0 \<ge> nstrings (counts (r_code r0)) then do { ERROR ''Invalid string index''; State_Monad.return 0 }
          else State_Monad.return i0);
     on_code (\<lambda>c. hl_get_ustring c (nat i)) [0] }"

text \<open>\<open>hl_hash_gen(name,true)\<close> on the process-wide cache.\<close>

definition hash_gen :: "uchar list \<Rightarrow> int reader" where
  "hash_gen name = on_cache (\<lambda>ca. hl_hash_gen ca name True) 0"

subsection \<open>Types\<close>

definition read_obj_field :: "hl_obj_field reader" where
  "read_obj_field = do {
     name \<leftarrow> hl_read_ustring;
     h \<leftarrow> hash_gen name;
     t \<leftarrow> hl_get_type;
     State_Monad.return \<lparr>fld_name = name, fld_hashed_name = h, fld_t = t\<rparr> }"

definition read_obj_proto :: "hl_obj_proto reader" where
  "read_obj_proto = do {
     name \<leftarrow> hl_read_ustring;
     h \<leftarrow> hash_gen name;
     fi \<leftarrow> UINDEX;
     pi \<leftarrow> INDEX;
     State_Monad.return \<lparr>pr_name = name, pr_hashed_name = h, pr_findex = fi, pr_pindex = pi\<rparr> }"

definition read_enum_construct :: "hl_enum_construct reader" where
  "read_enum_construct = do {
     name \<leftarrow> hl_read_ustring;
     nparams \<leftarrow> UINDEX;
     params \<leftarrow> repeatM (nat nparams) hl_get_type;
     State_Monad.return \<lparr>ec_name = name, ec_params = params\<rparr> }"

definition read_type_fun :: "hl_type_data reader" where
  "read_type_fun = do {
     nargs \<leftarrow> READ;
     args \<leftarrow> repeatM (nat nargs) hl_get_type;
     ret \<leftarrow> hl_get_type;
     State_Monad.return (TFun \<lparr>fun_args = args, fun_ret = ret\<rparr>) }"

definition read_type_obj :: "hl_type_data reader" where
  "read_type_obj = do {
     name \<leftarrow> hl_read_ustring;
     super \<leftarrow> INDEX;
     global \<leftarrow> UINDEX;
     nfields \<leftarrow> UINDEX;
     nproto \<leftarrow> UINDEX;
     nbindings \<leftarrow> UINDEX;
     fields \<leftarrow> repeatM (nat nfields) read_obj_field;
     proto \<leftarrow> repeatM (nat nproto) read_obj_proto;
     bindings \<leftarrow> repeatM (2 * nat nbindings) UINDEX;
     State_Monad.return (TObj \<lparr>obj_name = name, obj_super = (if super < 0 then None else Some super),
       obj_global_value = global, obj_fields = fields, obj_proto = proto, obj_bindings = bindings\<rparr>) }"

definition read_type_enum :: "hl_type_data reader" where
  "read_type_enum = do {
     name \<leftarrow> hl_read_ustring;
     global \<leftarrow> UINDEX;
     nconstructs \<leftarrow> UINDEX;
     constructs \<leftarrow> repeatM (nat nconstructs) read_enum_construct;
     State_Monad.return (TEnum \<lparr>enum_name = name, enum_global_value = global, enum_constructs = constructs\<rparr>) }"

definition hl_read_type :: "hl_type reader" where
  "hl_read_type = do {
     k \<leftarrow> READ;
     d \<leftarrow> (if k = HFUN \<or> k = HMETHOD then read_type_fun
          else if k = HOBJ \<or> k = HSTRUCT then read_type_obj
          else if k = HVIRTUAL then do {
            nfields \<leftarrow> UINDEX;
            fields \<leftarrow> repeatM (nat nfields) read_obj_field;
            State_Monad.return (TVirt fields) }
          else if k = HABSTRACT then do { name \<leftarrow> hl_read_ustring; State_Monad.return (TAbs name) }
          else if k = HENUM then read_type_enum
          else if k = HREF \<or> k = HNULL \<or> k = HPACKED then do { t \<leftarrow> hl_get_type; State_Monad.return (TParam t) }
          else if k \<ge> HLAST then do { ERROR ''Invalid type''; State_Monad.return TNone }
          else State_Monad.return TNone);
     State_Monad.return \<lparr>kind = k, tdata = d\<rparr> }"

subsection \<open>Opcodes and functions\<close>

text \<open>The argument counts that \<open>hl_read_opcode\<close> treats one by one, then the two variable forms.\<close>

definition read_opcode_call :: "hl_opcode \<Rightarrow> hl_opcode reader" where
  "read_opcode_call o0 = do {
     a \<leftarrow> INDEX; b \<leftarrow> INDEX; c \<leftarrow> READ;
     ex \<leftarrow> repeatM (nat c) INDEX;
     State_Monad.return (o0\<lparr>p1 := a, p2 := b, p3 := c, extra := ExtraArr ex\<rparr>) }"

definition read_opcode_switch :: "hl_opcode \<Rightarrow> hl_opcode reader" where
  "read_opcode_switch o0 = do {
     a \<leftarrow> UINDEX; b \<leftarrow> UINDEX;
     ex \<leftarrow> repeatM (nat b) UINDEX;
     c \<leftarrow> UINDEX;
     State_Monad.return (o0\<lparr>p1 := a, p2 := b, p3 := c, extra := ExtraArr ex\<rparr>) }"

definition read_opcode_args :: "int \<Rightarrow> hl_opcode \<Rightarrow> hl_opcode reader" where
  "read_opcode_args nargs o0 =
    (if nargs = 0 then State_Monad.return o0
     else if nargs = 1 then do { a \<leftarrow> INDEX; State_Monad.return (o0\<lparr>p1 := a\<rparr>) }
     else if nargs = 2 then do { a \<leftarrow> INDEX; b \<leftarrow> INDEX; State_Monad.return (o0\<lparr>p1 := a, p2 := b\<rparr>) }
     else if nargs = 3 then do {
       a \<leftarrow> INDEX; b \<leftarrow> INDEX; c \<leftarrow> INDEX; State_Monad.return (o0\<lparr>p1 := a, p2 := b, p3 := c\<rparr>) }
     else if nargs = 4 then do {
       a \<leftarrow> INDEX; b \<leftarrow> INDEX; c \<leftarrow> INDEX; e \<leftarrow> INDEX;
       State_Monad.return (o0\<lparr>p1 := a, p2 := b, p3 := c, extra := ExtraInt e\<rparr>) }
     else if nargs = - 1 then
       (if op o0 \<in> {int OCallN, int OCallClosure, int OCallMethod, int OCallThis, int OMakeEnum} then read_opcode_call o0
        else if op o0 = int OSwitch then read_opcode_switch o0
        else do { ERROR ''Don't know how to process opcode''; State_Monad.return o0 })
     else do {
       a \<leftarrow> INDEX; b \<leftarrow> INDEX; c \<leftarrow> INDEX;
       ex \<leftarrow> repeatM (nat (nargs - 3)) INDEX;
       State_Monad.return (o0\<lparr>p1 := a, p2 := b, p3 := c, extra := ExtraArr ex\<rparr>) })"

definition hl_read_opcode :: "hl_opcode \<Rightarrow> hl_opcode reader" where
  "hl_read_opcode fresh = do {
     k \<leftarrow> READ;
     let o0 = fresh\<lparr>op := k\<rparr>;
     if k \<ge> int OLast then do { ERROR ''Invalid opcode''; State_Monad.return o0 }
     else read_opcode_args (hl_op_nargs ! nat k) o0 }"

text \<open>A function is read into zeroed memory.\<close>

definition hl_function_init :: hl_function where
  "hl_function_init = \<lparr>findex = 0, nregs = 0, nops = 0, ftype = 0, regs = [], ops = [], debug = [],
     nassigns = 0, assigns = []\<rparr>"

definition hl_read_function :: "hl_opcode \<Rightarrow> hl_function reader" where
  "hl_read_function fresh = do {
     t \<leftarrow> hl_get_type;
     fi \<leftarrow> UINDEX;
     nr \<leftarrow> UINDEX;
     no \<leftarrow> UINDEX;
     rs \<leftarrow> repeatM (nat nr) hl_get_type;
     let f = hl_function_init\<lparr>ftype := t, findex := fi, nregs := nr, nops := no, regs := rs\<rparr>;
     r \<leftarrow> State_Monad.get;
     if r_error r \<noteq> None then State_Monad.return f
     else do {
       os \<leftarrow> repeatM (nat no) (hl_read_opcode fresh);
       State_Monad.return (f\<lparr>ops := os\<rparr>) } }"

definition valid_target :: "int \<Rightarrow> int \<Rightarrow> int \<Rightarrow> bool" where
  "valid_target n i off \<longleftrightarrow> i + 1 + off \<ge> 0 \<and> i + 1 + off < n"

definition validate_op :: "int \<Rightarrow> int \<Rightarrow> hl_opcode \<Rightarrow> string option" where
  "validate_op n i o0 =
    (if op o0 = int OJAlways then
       (if \<not> valid_target n i (p1 o0) then Some ''Invalid jump target'' else None)
     else if op o0 \<in> {int OJTrue, int OJFalse, int OJNull, int OJNotNull} then
       (if \<not> valid_target n i (p2 o0) then Some ''Invalid conditional jump target'' else None)
     else if op o0 \<in> {int OJSLt, int OJSGte, int OJSGt, int OJSLte, int OJULt, int OJUGte, int OJNotLt, int OJNotGte,
         int OJEq, int OJNotEq} then
       (if \<not> valid_target n i (p3 o0) then Some ''Invalid comparison jump target'' else None)
     else if op o0 \<in> {int OTrap, int OCleanupTrap} then
       (if p2 o0 < 0 \<or> \<not> valid_target n i (p2 o0) then Some ''Invalid trap target'' else None)
     else None)"

fun validate_loop :: "int \<Rightarrow> int \<Rightarrow> hl_opcode list \<Rightarrow> string option" where
  "validate_loop n i [] = None"
| "validate_loop n i (o0 # os) =
    (case validate_op n i o0 of Some msg \<Rightarrow> Some msg | None \<Rightarrow> validate_loop n (i + 1) os)"

definition hl_validate_function_control_flow :: "hl_function \<Rightarrow> string option" where
  "hl_validate_function_control_flow f = validate_loop (nops f) 0 (ops f)"

subsection \<open>String blocks\<close>

text \<open>
  The loop over the announced strings: \<open>buf\<close> is the block \<open>sbase\<close>, \<open>sdata\<close> the offset of the
  cursor in it. The comparison with the end comes first, so the byte is read only inside.
\<close>

fun read_strings_loop :: "u8 list \<Rightarrow> int \<Rightarrow> nat \<Rightarrow> int \<Rightarrow> (u8 list \<times> int) list option reader" where
  "read_strings_loop buf bsize 0 sdata = State_Monad.return (Some [])"
| "read_strings_loop buf bsize (Suc n) sdata = do {
     sz \<leftarrow> UINDEX;
     let e = sdata + sz;
     if e \<ge> bsize \<or> buf ! nat e \<noteq> 0 then do { ERROR ''Invalid string''; State_Monad.return None }
     else do {
       rest \<leftarrow> read_strings_loop buf bsize n (e + 1);
       State_Monad.return (map_option ((#) (drop (nat sdata) buf, sz)) rest) } }"

definition hl_read_strings :: "u8 \<Rightarrow> int \<Rightarrow> (u8 list list \<times> int list) option reader" where
  "hl_read_strings fresh n = do {
     bsize \<leftarrow> hl_read_i32;
     data \<leftarrow> hl_read_bytes bsize;
     let buf = (case data of Some bs \<Rightarrow> bs | None \<Rightarrow> replicate (nat bsize) fresh);
     res \<leftarrow> read_strings_loop buf bsize (nat n) 0;
     State_Monad.return (map_option (\<lambda>l. (map fst l, map snd l)) res) }"

subsection \<open>Debug line tables\<close>

lemma hl_read_b_progress:
  "run_state hl_read_b r = (c, r') \<Longrightarrow> nat (r_size r' - r_pos r') \<le> nat (r_size r - r_pos r) \<and>
     (c \<noteq> 0 \<longrightarrow> nat (r_size r' - r_pos r') < nat (r_size r - r_pos r))"
  by (auto simp: hl_read_b_def next_b_def ERROR_def FAULT_def State_Monad.update_def split: if_splits)

text \<open>
  The loop of \<open>hl_read_debug_infos\<close>, on the reader as an explicit state: \<open>i\<close> positions are written,
  and \<open>dbg\<close> is what they hold, latest first. A position at or after \<open>nops\<close> is outside of the
  allocated table.
\<close>

definition wr_debug :: "int \<Rightarrow> int \<Rightarrow> hl_reader \<Rightarrow> hl_reader" where
  "wr_debug n i r = (if i < n then r else r\<lparr>r_fault := True\<rparr>)"

text \<open>Each round of the loop reads a non-zero byte or advances \<open>i\<close>.\<close>

definition debug_measure :: "int \<Rightarrow> int \<Rightarrow> hl_reader \<Rightarrow> nat" where
  "debug_measure n i r = nat (n - i) + nat (r_size r - r_pos r)"

lemma debug_measure_ERROR [simp]:
  "debug_measure n i (snd (run_state (ERROR msg) r)) = debug_measure n i r"
  by (simp add: debug_measure_def ERROR_def State_Monad.update_def)

lemma debug_measure_wr [simp]: "debug_measure n i (wr_debug n j r) = debug_measure n i r"
  by (simp add: debug_measure_def wr_debug_def)

lemma debug_measure_step:
  assumes "run_state hl_read_b r = (c, r')"
  shows "debug_measure n i r' \<le> debug_measure n i r"
    and "c \<noteq> 0 \<Longrightarrow> debug_measure n i r' < debug_measure n i r"
  using hl_read_b_progress [OF assms] by (auto simp: debug_measure_def)

lemma debug_measure_index:
  "i \<le> j \<Longrightarrow> debug_measure n j r \<le> debug_measure n i r"
  "i < n \<Longrightarrow> debug_measure n (i + 1) r < debug_measure n i r"
  by (auto simp: debug_measure_def)

function debug_infos_loop :: "int \<Rightarrow> int \<Rightarrow> int \<Rightarrow> int \<Rightarrow> (int \<times> int) list \<Rightarrow> hl_reader \<Rightarrow> (int \<times> int) list \<times> hl_reader" where
  "debug_infos_loop n i curfile curline dbg r =
    (if i < n then
       (let (cb, r1) = run_state hl_read_b r; c = uint cb in
        if c AND 1 \<noteq> 0 then
          (let (b2, r2) = run_state hl_read_b r1;
               file = push_bit 8 (drop_bit 1 c) OR uint b2;
               r3 = (if file \<ge> ndebugfiles (r_code r2) then snd (run_state (ERROR ''Invalid debug file'') r2) else r2)
           in debug_infos_loop n i file curline dbg r3)
        else if c AND 2 \<noteq> 0 then
          (let delta = drop_bit 6 c; cnt = drop_bit 2 c AND 15;
               r2 = (if i + cnt > n then snd (run_state (ERROR ''Outside range'') r1) else r1);
               r3 = (if cnt > 0 then wr_debug n (i + cnt - 1) r2 else r2)
           in debug_infos_loop n (i + cnt) curfile (i32 (curline + delta)) (replicate (nat cnt) (curfile, curline) @ dbg) r3)
        else if c AND 4 \<noteq> 0 then
          (let line = i32 (curline + drop_bit 3 c)
           in debug_infos_loop n (i + 1) curfile line ((curfile, line) # dbg) r1)
        else
          (let (b2, r2) = run_state hl_read_b r1; (b3, r3) = run_state hl_read_b r2;
               line = drop_bit 3 c OR push_bit 5 (uint b2) OR push_bit 13 (uint b3)
           in debug_infos_loop n (i + 1) curfile line ((curfile, line) # dbg) r3))
     else (rev dbg, r))"
  by pat_completeness auto

termination
proof (relation "measure (\<lambda>(n, i, curfile, curline, dbg, r). debug_measure n i r)", goal_cases)
  case (2 n i curfile curline dbg r x cb r1 c y b2 r2 f r3)
  then have "cb \<noteq> 0" "run_state hl_read_b r = (cb, r1)" "run_state hl_read_b r1 = (b2, r2)" by auto
  then have "debug_measure n i r2 < debug_measure n i r"
    using debug_measure_step(2) [of r cb r1 n i] debug_measure_step(1) [of r1 b2 r2 n i] by linarith
  with 2(9) show ?case by simp
next
  case (3 n i curfile curline dbg r x cb r1 c delta cnt r2 r3)
  then have cb: "cb \<noteq> 0" "run_state hl_read_b r = (cb, r1)" and "0 \<le> cnt" by auto
  then have "debug_measure n (i + cnt) r1 < debug_measure n i r"
    using debug_measure_step(2) [of r cb r1 n i] debug_measure_index(1) [of i "i + cnt" n r1] by linarith
  moreover have "debug_measure n (i + cnt) r3 = debug_measure n (i + cnt) r1" using 3(9,10) by simp
  ultimately show ?case by simp
next
  case (4 n i curfile curline dbg r x cb r1)
  then have "run_state hl_read_b r = (cb, r1)" by auto
  with debug_measure_step(1) [of r cb r1 n i] debug_measure_index(2) [OF 4(1), of r1] show ?case by simp
next
  case (5 n i curfile curline dbg r x cb r1 c y b2 r2 z b3 r3)
  then have "run_state hl_read_b r = (cb, r1)" "run_state hl_read_b r1 = (b2, r2)" "run_state hl_read_b r2 = (b3, r3)"
    by auto
  with debug_measure_step(1) [of r cb r1 n i] debug_measure_step(1) [of r1 b2 r2 n i]
    debug_measure_step(1) [of r2 b3 r3 n i] debug_measure_index(2) [OF 5(1), of r3]
  show ?case by simp
qed simp

declare debug_infos_loop.simps [simp del]

definition hl_read_debug_infos :: "int \<Rightarrow> (int \<times> int) list reader" where
  "hl_read_debug_infos n = State (debug_infos_loop n 0 (- 1) 0 [])"

subsection \<open>What an accepted read guarantees\<close>

text \<open>
  An error or a fault is never cleared (\<open>sticky\<close>), so an action that ends without either has run
  through actions without either.
\<close>

named_theorems sticky_rules \<open>errors and faults are never cleared\<close>
named_theorems yields_rules \<open>what readers return when the read is accepted\<close>

definition good :: "hl_reader \<Rightarrow> bool" where
  "good r \<longleftrightarrow> r_error r = None \<and> \<not> r_fault r"

definition sticky :: "'a reader \<Rightarrow> bool" where
  "sticky m \<longleftrightarrow> (\<forall>s a s'. run_state m s = (a, s') \<longrightarrow> good s' \<longrightarrow> good s)"

lemma stickyI: "(\<And>s a s'. run_state m s = (a, s') \<Longrightarrow> good s' \<Longrightarrow> good s) \<Longrightarrow> sticky m"
  by (auto simp: sticky_def)

lemma stickyD: "sticky m \<Longrightarrow> run_state m s = (a, s') \<Longrightarrow> good s' \<Longrightarrow> good s"
  by (auto simp: sticky_def)

lemma sticky_return [sticky_rules]: "sticky (State_Monad.return x)"
  by (auto simp: sticky_def)

lemma sticky_get [sticky_rules]: "sticky State_Monad.get"
  by (auto simp: sticky_def)

lemma sticky_bind [sticky_rules]:
  assumes "sticky m" "\<And>a. sticky (f a)"
  shows "sticky (m \<bind> f)"
proof (rule stickyI)
  fix s b s''
  assume "run_state (m \<bind> f) s = (b, s'')" and g: "good s''"
  then obtain a s' where "run_state m s = (a, s')" "run_state (f a) s' = (b, s'')"
    by (auto split: prod.splits)
  then show "good s" using stickyD [OF assms(1)] stickyD [OF assms(2) _ g] by blast
qed

lemma sticky_update: "(\<And>s. good (f s) \<Longrightarrow> good s) \<Longrightarrow> sticky (State_Monad.update f)"
  by (auto simp: sticky_def State_Monad.update_def)

lemma sticky_if [sticky_rules]: "sticky m \<Longrightarrow> sticky n \<Longrightarrow> sticky (if b then m else n)"
  by simp

lemma sticky_case_option [sticky_rules]:
  "sticky m \<Longrightarrow> (\<And>y. sticky (n y)) \<Longrightarrow> sticky (case x of None \<Rightarrow> m | Some y \<Rightarrow> n y)"
  by (cases x) auto

lemma sticky_let [sticky_rules]: "(\<And>y. sticky (f y)) \<Longrightarrow> sticky (let y = x in f y)"
  by simp

lemma sticky_repeatM [sticky_rules]: "sticky m \<Longrightarrow> sticky (repeatM n m)"
  by (induction n) (auto intro!: sticky_rules)

lemma sticky_ERROR [sticky_rules]: "sticky (ERROR msg)"
  unfolding ERROR_def by (rule sticky_update) (auto simp: good_def split: if_splits)

lemma sticky_FAULT [sticky_rules]: "sticky FAULT"
  unfolding FAULT_def by (rule sticky_update) (auto simp: good_def)

text \<open>
  Reading leaves the code alone until a step stores a table, except for the decoded strings and the
  function identities: \<open>core\<close> is the code without their values. \<open>yields c m Q\<close>: when \<open>m\<close>, run with
  the code \<open>c\<close>, is accepted, it has kept the code and its result has \<open>Q\<close>. The rules compute
  backwards from \<open>Q\<close>.
\<close>

definition core :: "hl_code \<Rightarrow> hl_code" where
  "core c = c\<lparr>ustrings := map (\<lambda>_. None) (ustrings c),
     function_stable_ids := map (\<lambda>_. 0) (function_stable_ids c),
     function_names := map (\<lambda>_. None) (function_names c),
     function_names_lens := map (\<lambda>_. 0) (function_names_lens c)\<rparr>"

lemma core_simps [simp]: "counts (core c) = counts c" "ndebugfiles (core c) = ndebugfiles c"
  "strings (core c) = strings c" "code_functions (core c) = code_functions c"
  by (simp_all add: core_def)

lemma core_core [simp]: "core (core c) = core c"
  by (simp add: core_def comp_def)

definition yields :: "hl_code \<Rightarrow> 'a reader \<Rightarrow> ('a \<Rightarrow> bool) \<Rightarrow> bool" where
  "yields c m Q \<longleftrightarrow> (\<forall>s a s'. run_state m s = (a, s') \<longrightarrow> good s' \<longrightarrow> core (r_code s) = c \<longrightarrow>
     core (r_code s') = c \<and> Q a)"

lemma yieldsI:
  "(\<And>s a s'. run_state m s = (a, s') \<Longrightarrow> good s' \<Longrightarrow> core (r_code s) = c \<Longrightarrow> core (r_code s') = c \<and> Q a) \<Longrightarrow>
   yields c m Q"
  unfolding yields_def by blast

lemma yieldsD:
  "yields c m Q \<Longrightarrow> run_state m s = (a, s') \<Longrightarrow> good s' \<Longrightarrow> core (r_code s) = c \<Longrightarrow> core (r_code s') = c \<and> Q a"
  unfolding yields_def by blast

lemma yields_weaken: "yields c m Q' \<Longrightarrow> (\<And>a. Q' a \<Longrightarrow> Q a) \<Longrightarrow> yields c m Q"
  unfolding yields_def by blast

lemma yields_return [yields_rules]: "Q x \<Longrightarrow> yields c (State_Monad.return x) Q"
  by (auto simp: yields_def)

lemma yields_bind [yields_rules]:
  assumes "\<And>a. sticky (f a)" "yields c m (\<lambda>a. yields c (f a) Q)"
  shows "yields c (m \<bind> f) Q"
proof (rule yieldsI)
  fix s b s''
  assume *: "run_state (m \<bind> f) s = (b, s'')" "good s''" "core (r_code s) = c"
  then obtain a s' where r: "run_state m s = (a, s')" "run_state (f a) s' = (b, s'')"
    by (auto split: prod.splits)
  then have "good s'" using stickyD [OF assms(1)] *(2) by blast
  with yieldsD [OF assms(2) r(1)] *(3) have "core (r_code s') = c" "yields c (f a) Q" by simp_all
  then show "core (r_code s'') = c \<and> Q b" using yieldsD [of c "f a" Q, OF _ r(2) *(2)] by simp
qed

lemma yields_get [yields_rules]: "(\<And>r. core (r_code r) = c \<Longrightarrow> good r \<Longrightarrow> Q r) \<Longrightarrow> yields c State_Monad.get Q"
  by (auto simp: yields_def)

lemma yields_ERROR [yields_rules]: "yields c (ERROR msg) Q"
  by (auto simp: yields_def ERROR_def State_Monad.update_def good_def)

lemma yields_FAULT [yields_rules]: "yields c FAULT Q"
  by (auto simp: yields_def FAULT_def State_Monad.update_def good_def)

lemma yields_if [yields_rules]:
  "(b \<Longrightarrow> yields c m Q) \<Longrightarrow> (\<not> b \<Longrightarrow> yields c n Q) \<Longrightarrow> yields c (if b then m else n) Q"
  by simp

lemma yields_case_option [yields_rules]:
  "(x = None \<Longrightarrow> yields c m Q) \<Longrightarrow> (\<And>y. x = Some y \<Longrightarrow> yields c (n y) Q) \<Longrightarrow>
   yields c (case x of None \<Rightarrow> m | Some y \<Rightarrow> n y) Q"
  by (cases x) auto

lemma yields_let [yields_rules]: "(\<And>y. y = x \<Longrightarrow> yields c (f y) Q) \<Longrightarrow> yields c (let y = x in f y) Q"
  by simp

lemma yields_repeatM:
  assumes "sticky m" "yields c m P"
  shows "yields c (repeatM n m) (\<lambda>xs. length xs = n \<and> (\<forall>x\<in>set xs. P x))"
proof (induction n)
  case (Suc n)
  show ?case unfolding repeatM.simps
    by (intro yields_bind sticky_rules assms(1) yields_weaken [OF assms(2)] yields_weaken [OF Suc] yields_return) auto
qed (auto intro: yields_return)

subsection \<open>Primitives\<close>

lemma sticky_next_b [sticky_rules]: "sticky next_b"
  by (rule stickyI) (auto simp: next_b_def FAULT_def State_Monad.update_def good_def split: if_splits)

lemma sticky_hl_read_b [sticky_rules]: "sticky hl_read_b"
  unfolding hl_read_b_def by (intro sticky_rules)

lemma sticky_hl_read_bytes [sticky_rules]: "sticky (hl_read_bytes sz)"
  by (rule stickyI)
    (auto simp: hl_read_bytes_def ERROR_def FAULT_def State_Monad.update_def good_def split: if_splits)

lemma sticky_hl_read_double [sticky_rules]: "sticky hl_read_double"
  unfolding hl_read_double_def by (intro sticky_rules)

lemma sticky_hl_read_i32 [sticky_rules]: "sticky hl_read_i32"
  unfolding hl_read_i32_def by (intro sticky_rules)

lemma sticky_hl_read_index [sticky_rules]: "sticky hl_read_index"
  unfolding hl_read_index_def by (intro sticky_rules)

lemma sticky_hl_read_uindex [sticky_rules]: "sticky hl_read_uindex"
  unfolding hl_read_uindex_def by (intro sticky_rules)

lemma sticky_hl_get_type [sticky_rules]: "sticky hl_get_type"
  unfolding hl_get_type_def by (intro sticky_rules)

lemma sticky_hl_read_string [sticky_rules]: "sticky hl_read_string"
  unfolding hl_read_string_def by (intro sticky_rules)

lemma yields_next_b [yields_rules]: "(\<And>b. Q b) \<Longrightarrow> yields c next_b Q"
  by (rule yieldsI) (auto simp: next_b_def FAULT_def State_Monad.update_def good_def split: if_splits)

lemma yields_hl_read_b [yields_rules]: "(\<And>b. Q b) \<Longrightarrow> yields c hl_read_b Q"
  unfolding hl_read_b_def by (intro yields_rules sticky_rules) auto

lemma uint_u8: "0 \<le> uint (b :: u8)" "uint b < 256"
  using uint_lt2p [of b] by simp_all

lemma yields_hl_read_bytes [yields_rules]:
  "(\<And>bs. int (length bs) = sz \<Longrightarrow> Q (Some bs)) \<Longrightarrow> yields c (hl_read_bytes sz) Q"
  by (rule yieldsI)
    (auto simp: hl_read_bytes_def ERROR_def FAULT_def State_Monad.update_def good_def split: if_splits)

lemma yields_hl_read_double [yields_rules]:
  "(\<And>bs. length bs = 8 \<Longrightarrow> Q bs) \<Longrightarrow> yields c hl_read_double Q"
  unfolding hl_read_double_def by (intro yields_rules sticky_rules) auto

lemma sint32_range: "- (2 ^ 31) \<le> sint (w :: u32) \<and> sint w < 2 ^ 31"
  using sint_greater_eq [of w] sint_less [of w] by simp

lemma yields_hl_read_i32 [yields_rules]:
  "(\<And>i. - (2 ^ 31) \<le> i \<Longrightarrow> i < 2 ^ 31 \<Longrightarrow> Q i) \<Longrightarrow> yields c hl_read_i32 Q"
  unfolding hl_read_i32_def by (intro yields_rules sticky_rules) (use sint32_range in auto)

lemma index_short_value:
  fixes b c :: int assumes "0 \<le> c" "c < 256"
  shows "c OR push_bit 8 (b AND 31) = c + 256 * (b mod 32)"
  using assms or_push_bit_add [of c 8 "b AND 31"] by (simp add: and_mask_mod push_bit_eq_mult)

lemma index_long_value:
  fixes b c d e :: int
  assumes "0 \<le> c" "c < 256" "0 \<le> d" "d < 256" "0 \<le> e" "e < 256"
  shows "push_bit 24 (b AND 31) OR push_bit 16 c OR push_bit 8 d OR e = 16777216 * (b mod 32) + 65536 * c + 256 * d + e"
proof -
  have 1: "push_bit 8 d OR e = 256 * d + e"
    using push_bit_or_add [of e 8 d] assms by (simp add: push_bit_eq_mult)
  have 2: "push_bit 16 c OR (256 * d + e) = 65536 * c + (256 * d + e)"
    using push_bit_or_add [of "256 * d + e" 16 c] assms by (simp add: push_bit_eq_mult)
  have 3: "push_bit 24 (b AND 31) OR (65536 * c + (256 * d + e)) = 16777216 * (b mod 32) + (65536 * c + (256 * d + e))"
    using push_bit_or_add [of "65536 * c + (256 * d + e)" 24 "b AND 31"] assms
    by (simp add: push_bit_eq_mult and_mask_mod)
  show ?thesis unfolding or.assoc 1 2 3 by simp
qed

lemma hl_read_index_range:
  assumes "run_state hl_read_index s = (i, s')"
  shows "- (2 ^ 29) < i \<and> i < 2 ^ 29"
proof -
  have one: "- 536870912 < b AND 127 \<and> b AND 127 < 536870912" for b :: int
    using pos_mod_bound [of 128 b] pos_mod_sign [of 128 b] unfolding and_mask_mod by auto
  have short: "- 536870912 < v \<and> v < 536870912 \<and> - v < 536870912"
    if "v = uint c OR push_bit 8 (b AND 31)" for v b and c :: u8
  proof -
    have "v = uint c + 256 * (b mod 32)" "0 \<le> b mod 32" "b mod 32 < 32"
      using index_short_value [of "uint c" b] uint_u8 [of c] that by simp_all
    with uint_u8 [of c] show ?thesis by (intro conjI) linarith+
  qed
  have long: "- 536870912 < v \<and> v < 536870912 \<and> - v < 536870912"
    if "v = push_bit 24 (b AND 31) OR push_bit 16 (uint c) OR push_bit 8 (uint d) OR uint e" for v b and c d e :: u8
  proof -
    have "v = 16777216 * (b mod 32) + 65536 * uint c + 256 * uint d + uint e" "0 \<le> b mod 32" "b mod 32 < 32"
      using index_long_value [of "uint c" "uint d" "uint e" b] uint_u8 [of c] uint_u8 [of d] uint_u8 [of e] that by simp_all
    with uint_u8 [of c] uint_u8 [of d] uint_u8 [of e] show ?thesis by (intro conjI) linarith+
  qed
  show ?thesis
    using assms unfolding hl_read_index_def
    by (auto simp: Let_def one short [OF refl] long [OF refl] simp del: push_bit_and split: prod.splits if_splits)
qed

lemma hl_read_uindex_range: "run_state hl_read_uindex s = (i, s') \<Longrightarrow> 0 \<le> i \<and> i < 2 ^ 29"
  using hl_read_index_range [of s]
  by (auto simp: hl_read_uindex_def ERROR_def State_Monad.update_def split: prod.splits if_splits)

lemma yields_hl_read_index [yields_rules]:
  assumes "\<And>i. - (2 ^ 29) < i \<Longrightarrow> i < 2 ^ 29 \<Longrightarrow> Q i"
  shows "yields c hl_read_index Q"
proof -
  have "yields c hl_read_index (\<lambda>_. True)"
    unfolding hl_read_index_def by (intro yields_rules sticky_rules) simp_all
  then show ?thesis using hl_read_index_range assms unfolding yields_def by blast
qed

lemma yields_hl_read_uindex [yields_rules]:
  "(\<And>i. 0 \<le> i \<Longrightarrow> i < 2 ^ 29 \<Longrightarrow> Q i) \<Longrightarrow> yields c hl_read_uindex Q"
  unfolding hl_read_uindex_def by (intro yields_rules sticky_rules) auto

lemma yields_hl_get_type [yields_rules]:
  "(\<And>i. 0 \<le> i \<Longrightarrow> i < ntypes (counts c) \<Longrightarrow> Q i) \<Longrightarrow> yields c hl_get_type Q"
  unfolding hl_get_type_def by (intro yields_rules sticky_rules) auto

lemma yields_hl_read_string [yields_rules]: 
  "(\<And>s. s \<in> set (strings c) \<Longrightarrow> Q s) \<Longrightarrow> yields c hl_read_string Q"
  unfolding hl_read_string_def by (intro yields_rules sticky_rules) auto

lemma hl_get_ustring_core: "hl_get_ustring c i = Some x \<Longrightarrow> core (snd x) = core c"
proof -
  have u: "map (\<lambda>_. None) (xs[i := y]) = map (\<lambda>_. None) xs" for xs :: "uchar list option list" and y
    by (simp add: map_update)
      (metis length_map list_update_beyond list_update_id not_le nth_map)
  show "hl_get_ustring c i = Some x \<Longrightarrow> core (snd x) = core c"
    by (auto simp: hl_get_ustring_def core_def u Option.bind_eq_Some_conv split: if_splits option.splits)
qed

lemma sticky_on_code [sticky_rules]: "sticky (on_code f d)"
  by (rule stickyI) (auto simp: on_code_def FAULT_def State_Monad.update_def good_def split: option.splits)

lemma sticky_on_cache [sticky_rules]: "sticky (on_cache f d)"
  by (rule stickyI) (auto simp: on_cache_def FAULT_def State_Monad.update_def good_def split: option.splits)

lemma yields_on_code:
  assumes "\<And>c' x. core c' = c \<Longrightarrow> f c' = Some x \<Longrightarrow> core (snd x) = c \<and> Q (fst x)"
  shows "yields c (on_code f d) Q"
proof (rule yieldsI)
  fix s a s'
  assume *: "run_state (on_code f d) s = (a, s')" "good s'" "core (r_code s) = c"
  show "core (r_code s') = c \<and> Q a"
  proof (cases "f (r_code s)")
    case None
    with * show ?thesis by (auto simp: on_code_def FAULT_def State_Monad.update_def good_def)
  next
    case (Some x)
    with * have "s' = s\<lparr>r_code := snd x\<rparr>" "a = fst x" by (auto simp: on_code_def)
    with assms [OF *(3) Some] show ?thesis by simp
  qed
qed

lemma yields_on_cache [yields_rules]: "(\<And>x. Q x) \<Longrightarrow> yields c (on_cache f d) Q"
  by (rule yieldsI) (auto simp: on_cache_def FAULT_def State_Monad.update_def good_def split: option.splits)

lemma sticky_hl_read_ustring [sticky_rules]: "sticky hl_read_ustring"
  unfolding hl_read_ustring_def by (intro sticky_rules)

lemma yields_hl_read_ustring [yields_rules]: "(\<And>str. Q str) \<Longrightarrow> yields c hl_read_ustring Q"
  unfolding hl_read_ustring_def
  by (intro yields_rules sticky_rules yields_on_code) (auto dest: hl_get_ustring_core)

lemma sticky_hash_gen [sticky_rules]: "sticky (hash_gen name)"
  unfolding hash_gen_def by (intro sticky_rules)

lemma yields_hash_gen [yields_rules]: "(\<And>h. Q h) \<Longrightarrow> yields c (hash_gen name) Q"
  unfolding hash_gen_def by (intro yields_rules)

lemma unat_u8: "unat (b :: u8) < 256"
proof -
  have "unat b < 2 ^ LENGTH(8)" by (rule unsigned_less)
  then show ?thesis by simp
qed

subsection \<open>Well-formed types and functions\<close>

definition type_ok :: "int \<Rightarrow> type_ref \<Rightarrow> bool" where
  "type_ok n t \<longleftrightarrow> 0 \<le> t \<and> t < n"

definition field_ok :: "int \<Rightarrow> hl_obj_field \<Rightarrow> bool" where
  "field_ok n f \<longleftrightarrow> type_ok n (fld_t f)"

definition proto_ok :: "hl_obj_proto \<Rightarrow> bool" where
  "proto_ok p \<longleftrightarrow> 0 \<le> pr_findex p"

definition construct_ok :: "int \<Rightarrow> hl_enum_construct \<Rightarrow> bool" where
  "construct_ok n k \<longleftrightarrow> (\<forall>t\<in>set (ec_params k). type_ok n t)"

definition obj_ok :: "int \<Rightarrow> hl_type_obj \<Rightarrow> bool" where
  "obj_ok n t \<longleftrightarrow> 0 \<le> obj_global_value t \<and> (\<forall>f\<in>set (obj_fields t). field_ok n f) \<and>
     (\<forall>p\<in>set (obj_proto t). proto_ok p) \<and> even (length (obj_bindings t)) \<and> (\<forall>b\<in>set (obj_bindings t). 0 \<le> b)"

fun data_ok :: "int \<Rightarrow> int \<Rightarrow> hl_type_data \<Rightarrow> bool" where
  "data_ok n k TNone \<longleftrightarrow> k \<notin> {HFUN, HMETHOD, HOBJ, HSTRUCT, HVIRTUAL, HABSTRACT, HENUM, HREF, HNULL, HPACKED}"
| "data_ok n k (TFun f) \<longleftrightarrow> k \<in> {HFUN, HMETHOD} \<and> length (fun_args f) < 256 \<and>
     (\<forall>t\<in>set (fun_args f). type_ok n t) \<and> type_ok n (fun_ret f)"
| "data_ok n k (TObj t) \<longleftrightarrow> k \<in> {HOBJ, HSTRUCT} \<and> obj_ok n t"
| "data_ok n k (TVirt fs) \<longleftrightarrow> k = HVIRTUAL \<and> (\<forall>f\<in>set fs. field_ok n f)"
| "data_ok n k (TAbs name) \<longleftrightarrow> k = HABSTRACT"
| "data_ok n k (TEnum t) \<longleftrightarrow> k = HENUM \<and> 0 \<le> enum_global_value t \<and> (\<forall>c\<in>set (enum_constructs t). construct_ok n c)"
| "data_ok n k (TParam t) \<longleftrightarrow> k \<in> {HREF, HNULL, HPACKED} \<and> type_ok n t"

definition wf_type :: "int \<Rightarrow> hl_type \<Rightarrow> bool" where
  "wf_type n t \<longleftrightarrow> 0 \<le> kind t \<and> kind t < HLAST \<and> data_ok n (kind t) (tdata t)"

lemmas yields_repeat = yields_repeatM [THEN yields_weaken]

lemma sticky_read_type [sticky_rules]:
  "sticky read_obj_field" "sticky read_obj_proto" "sticky read_enum_construct" "sticky read_type_fun"
  "sticky read_type_obj" "sticky read_type_enum"
  unfolding read_obj_field_def read_obj_proto_def read_enum_construct_def read_type_fun_def read_type_obj_def
    read_type_enum_def
  by (intro sticky_rules)+

lemma sticky_hl_read_type [sticky_rules]: "sticky hl_read_type"
  unfolding hl_read_type_def by (intro sticky_rules)

lemma yields_repeat_type [yields_rules]:
  "(\<And>ts. length ts = n \<Longrightarrow> \<forall>t\<in>set ts. type_ok (ntypes (counts c)) t \<Longrightarrow> Q ts) \<Longrightarrow> yields c (repeatM n hl_get_type) Q"
  by (rule yields_repeat [where P = "type_ok (ntypes (counts c))"])
    (auto intro!: sticky_rules yields_hl_get_type simp: type_ok_def)

lemma yields_repeat_uindex [yields_rules]:
  "(\<And>xs. length xs = n \<Longrightarrow> \<forall>x\<in>set xs. 0 \<le> x \<Longrightarrow> Q xs) \<Longrightarrow> yields c (repeatM n hl_read_uindex) Q"
  by (rule yields_repeat [where P = "(\<le>) 0"]) (auto intro!: sticky_rules yields_hl_read_uindex)

lemma yields_repeat_index [yields_rules]:
  "(\<And>xs. length xs = n \<Longrightarrow> Q xs) \<Longrightarrow> yields c (repeatM n hl_read_index) Q"
  by (rule yields_repeat [where P = "\<lambda>_. True"]) (auto intro!: sticky_rules yields_hl_read_index)

lemma yields_read_obj_field: "yields c read_obj_field (field_ok (ntypes (counts c)))"
  unfolding read_obj_field_def by (intro yields_rules sticky_rules) (auto simp: field_ok_def type_ok_def)

lemma yields_read_obj_proto: "yields c read_obj_proto proto_ok"
  unfolding read_obj_proto_def by (intro yields_rules sticky_rules) (auto simp: proto_ok_def)

lemma yields_read_enum_construct: "yields c read_enum_construct (construct_ok (ntypes (counts c)))"
  unfolding read_enum_construct_def by (intro yields_rules sticky_rules) (auto simp: construct_ok_def)

lemma yields_read_type_fun:
  assumes "k \<in> {HFUN, HMETHOD}"
  shows "yields c read_type_fun (data_ok (ntypes (counts c)) k)"
  unfolding read_type_fun_def using assms
  by (intro yields_rules sticky_rules) (auto simp: type_ok_def unat_u8)

lemma yields_read_type_obj:
  assumes "k \<in> {HOBJ, HSTRUCT}"
  shows "yields c read_type_obj (data_ok (ntypes (counts c)) k)"
  unfolding read_type_obj_def using assms
  by (intro yields_rules sticky_rules
      yields_repeat [OF sticky_read_type(1) yields_read_obj_field]
      yields_repeat [OF sticky_read_type(2) yields_read_obj_proto]) (auto simp: obj_ok_def)

lemma yields_read_type_enum: "yields c read_type_enum (data_ok (ntypes (counts c)) HENUM)"
  unfolding read_type_enum_def
  by (intro yields_rules sticky_rules yields_repeat [OF sticky_read_type(3) yields_read_enum_construct]) auto

lemma yields_hl_read_type: "yields c hl_read_type (wf_type (ntypes (counts c)))"
  unfolding hl_read_type_def
  by (intro yields_rules sticky_rules yields_read_type_fun [THEN yields_weaken] yields_read_type_obj [THEN yields_weaken] yields_read_type_enum [THEN yields_weaken]
   yields_repeat [OF sticky_read_type(1) yields_read_obj_field]) 
   (auto simp: wf_type_def type_ok_def uint_u8)

subsection \<open>Well-formed functions\<close>

text \<open>
  The operand that the opcode table marks as a jump offset. In a row with \<open>AR\<close> the third column is
  not an operand class but the number of arguments.
\<close>

definition jump_position :: "op_row \<Rightarrow> nat" where
  "jump_position row = (case row of (_, a, b, c) \<Rightarrow>
     if a = arg_J then 1 else if b = arg_J then 2 else if b \<noteq> arg_AR \<and> c = arg_J then 3 else 0)"

definition jump_operand :: "hl_opcode \<Rightarrow> int option" where
  "jump_operand o0 = [None, Some (p1 o0), Some (p2 o0), Some (p3 o0)] ! jump_position (op_table ! nat (op o0))"

definition op_ok :: "hl_opcode \<Rightarrow> bool" where
  "op_ok o0 \<longleftrightarrow> 0 \<le> op o0 \<and> op o0 < int OLast \<and>
     (op o0 \<in> {int OCallN, int OCallClosure, int OCallMethod, int OCallThis, int OMakeEnum} \<longrightarrow>
        (\<exists>ex. extra o0 = ExtraArr ex \<and> int (length ex) = p3 o0 \<and> p3 o0 < 256)) \<and>
     (op o0 = int OSwitch \<longrightarrow>
        (\<exists>ex. extra o0 = ExtraArr ex \<and> int (length ex) = p2 o0 \<and> (\<forall>t\<in>set ex. 0 \<le> t)))"

definition jumps_ok :: "hl_function \<Rightarrow> bool" where
  "jumps_ok f \<longleftrightarrow> (\<forall>i<length (ops f). op (ops f ! i) \<noteq> int OCatch \<longrightarrow>
     (case jump_operand (ops f ! i) of
        None \<Rightarrow> True
      | Some off \<Rightarrow> 0 \<le> int i + 1 + off \<and> int i + 1 + off < int (length (ops f))))"

definition wf_function :: "int \<Rightarrow> hl_function \<Rightarrow> bool" where
  "wf_function n f \<longleftrightarrow> type_ok n (ftype f) \<and> 0 \<le> findex f \<and>
     int (length (regs f)) = nregs f \<and> (\<forall>t\<in>set (regs f). type_ok n t) \<and>
     int (length (ops f)) = nops f \<and> (\<forall>o0\<in>set (ops f). op_ok o0)"

lemma sticky_read_opcode [sticky_rules]:
  "sticky (read_opcode_call o0)" "sticky (read_opcode_switch o0)" "sticky (read_opcode_args k o0)"
  "sticky (hl_read_opcode o0)" "sticky (hl_read_function o0)"
proof -
  show *: "sticky (read_opcode_call o0)" "sticky (read_opcode_switch o0)" for o0
    unfolding read_opcode_call_def read_opcode_switch_def by (intro sticky_rules)+
  show **: "sticky (read_opcode_args k o0)" for k o0
    unfolding read_opcode_args_def by (intro sticky_rules *)
  show ***: "sticky (hl_read_opcode o0)" for o0
    unfolding hl_read_opcode_def by (intro sticky_rules **)
  show "sticky (hl_read_function o0)"
    unfolding hl_read_function_def by (intro sticky_rules ***)
qed

lemma yields_hl_read_opcode: "yields c (hl_read_opcode fresh) op_ok"
proof -
  have call: "k \<in> {int OCallN, int OCallClosure, int OCallMethod, int OCallThis, int OMakeEnum} \<Longrightarrow>
      hl_op_nargs ! nat k = - 1" for k
    by (auto; code_simp)
  have switch: "hl_op_nargs ! OSwitch = - 1" by code_simp
  have calls: "op o0 \<in> {int OCallN, int OCallClosure, int OCallMethod, int OCallThis, int OMakeEnum} \<Longrightarrow>
      yields c (read_opcode_call o0) op_ok" for o0
    unfolding read_opcode_call_def
    by (intro yields_rules sticky_rules) (auto simp: op_ok_def uint_u8)
  have switches: "op o0 = int OSwitch \<Longrightarrow> yields c (read_opcode_switch o0) op_ok" for o0
    unfolding read_opcode_switch_def by (intro yields_rules sticky_rules) (auto simp: op_ok_def)
  have args: "yields c (read_opcode_args (hl_op_nargs ! nat (op o0)) o0) op_ok"
    if "0 \<le> op o0" "op o0 < int OLast" for o0
  proof (cases "hl_op_nargs ! nat (op o0) = - 1")
    case True
    then show ?thesis
      unfolding read_opcode_args_def by (intro yields_rules sticky_rules calls switches) auto
  next
    case False
    then have "op o1 = op o0 \<Longrightarrow> op_ok o1" for o1
      using that call switch by (auto simp: op_ok_def)
    with False show ?thesis
      unfolding read_opcode_args_def by (intro yields_rules sticky_rules) auto
  qed
  show ?thesis
    unfolding hl_read_opcode_def
    by (intro yields_rules sticky_rules) (use args [of "fresh\<lparr>op := uint b\<rparr>" for b] in \<open>auto simp: not_le\<close>)
qed

lemma yields_hl_read_function: "yields c (hl_read_function fresh) (wf_function (ntypes (counts c)))"
  unfolding hl_read_function_def
  by (intro yields_rules sticky_rules yields_repeat [OF sticky_read_opcode(4) yields_hl_read_opcode])
    (auto simp: wf_function_def hl_function_init_def type_ok_def good_def)

subsection \<open>Control flow\<close>

text \<open>The operand that the switch of the validation looks at, as a position among the three.\<close>

definition checked_operand :: "nat \<Rightarrow> nat" where
  "checked_operand k =
    (if k = OJAlways then 1
     else if k \<in> {OJTrue, OJFalse, OJNull, OJNotNull} then 2
     else if k \<in> {OJSLt, OJSGte, OJSGt, OJSLte, OJULt, OJUGte, OJNotLt, OJNotGte, OJEq, OJNotEq} then 3
     else if k \<in> {OTrap, OCleanupTrap} then 2
     else 0)"

lemma checked_operand_table:
  assumes "k < OLast" "k \<noteq> OCatch"
  shows "checked_operand k = jump_position (op_table ! k)"
proof -
  have "list_all (\<lambda>(k, row). k = OCatch \<or> checked_operand k = jump_position row) (List.enumerate 0 op_table)"
    by code_simp
  moreover have "(k, op_table ! k) \<in> set (List.enumerate 0 op_table)"
    using assms by (simp add: in_set_enumerate_eq)
  ultimately show ?thesis using assms(2) unfolding list_all_iff by fastforce
qed

lemma validate_op_table:
  assumes "0 \<le> op o0" "op o0 < int OLast" "op o0 \<noteq> int OCatch"
  shows "validate_op n i o0 = None \<longleftrightarrow>
    (case jump_operand o0 of None \<Rightarrow> True
     | Some off \<Rightarrow> valid_target n i off \<and> (op o0 \<in> {int OTrap, int OCleanupTrap} \<longrightarrow> 0 \<le> off))"
proof -
  obtain k where k: "op o0 = int k" using assms(1) nonneg_int_cases by blast
  with assms have kk: "k < OLast" "k \<noteq> OCatch" by simp_all
  show ?thesis
    unfolding jump_operand_def k nat_int checked_operand_table [OF kk, symmetric]
    by (simp add: validate_op_def k checked_operand_def)
qed


lemma validate_loop_None:
  "validate_loop n i os = None \<longleftrightarrow> (\<forall>j<length os. validate_op n (i + int j) (os ! j) = None)"
proof (induction os arbitrary: i)
  case (Cons o0 os)
  show ?case
    by (cases "validate_op n i o0") (auto simp: Cons less_Suc_eq_0_disj add.assoc add.commute [of 1])
qed simp

lemma validated_jumps_ok:
  assumes "wf_function n f" "hl_validate_function_control_flow f = None"
  shows "jumps_ok f"
  unfolding jumps_ok_def
proof (intro allI impI)
  fix i
  assume i: "i < length (ops f)" "op (ops f ! i) \<noteq> int OCatch"
  then have "op_ok (ops f ! i)" using assms(1) by (simp add: wf_function_def)
  moreover have "validate_op (nops f) (int i) (ops f ! i) = None"
    using assms(2) i by (simp add: hl_validate_function_control_flow_def validate_loop_None)
  ultimately show "case jump_operand (ops f ! i) of None \<Rightarrow> True
      | Some off \<Rightarrow> 0 \<le> int i + 1 + off \<and> int i + 1 + off < int (length (ops f))"
    using validate_op_table [of "ops f ! i"] i assms(1)
    by (auto simp: op_ok_def wf_function_def valid_target_def split: option.splits)
qed

subsection \<open>String blocks and debug tables\<close>

definition str_ok :: "u8 list \<times> int \<Rightarrow> bool" where
  "str_ok s \<longleftrightarrow> 0 \<le> snd s \<and> snd s < int (length (fst s)) \<and> fst s ! nat (snd s) = 0"

lemma sticky_read_strings_loop [sticky_rules]: "sticky (read_strings_loop buf bsize n sdata)"
  by (induction n arbitrary: sdata) (auto intro!: sticky_rules simp: Let_def)

lemma sticky_hl_read_strings [sticky_rules]: "sticky (hl_read_strings fresh n)"
  unfolding hl_read_strings_def by (intro sticky_rules)

lemma yields_read_strings_loop:
  assumes "bsize = int (length buf)" "0 \<le> sdata"
  shows "yields c (read_strings_loop buf bsize n sdata) (\<lambda>res. \<exists>l. res = Some l \<and> length l = n \<and> (\<forall>s\<in>set l. str_ok s))"
  using assms(2)
proof (induction n arbitrary: sdata)
  case 0
  then show ?case by (auto intro: yields_return)
next
  case (Suc n)
  show ?case
    unfolding read_strings_loop.simps
    apply (intro yields_rules sticky_rules Suc.IH [THEN yields_weaken])
    using Suc.prems assms(1) apply (auto simp: str_ok_def nat_add_distrib)
    done
qed

lemma yields_hl_read_strings:
  "yields c (hl_read_strings fresh n) (\<lambda>res. \<exists>l. res = Some (map fst l, map snd l) \<and> length l = nat n \<and> (\<forall>s\<in>set l. str_ok s))"
  unfolding hl_read_strings_def
  by (intro yields_rules sticky_rules yields_read_strings_loop [THEN yields_weaken]) auto
definition file_ok :: "int \<Rightarrow> int \<times> int \<Rightarrow> bool" where
  "file_ok nd p \<longleftrightarrow> fst p = - 1 \<or> 0 \<le> fst p \<and> fst p < nd"

lemma good_read_b:
  assumes "run_state hl_read_b r = (b, r')" "good r'"
  shows "good r" "r_code r' = r_code r"
  using stickyD [OF sticky_hl_read_b assms] assms
  by (auto simp: hl_read_b_def next_b_def ERROR_def FAULT_def State_Monad.update_def split: if_splits)

lemma good_ERROR: "\<not> good (snd (run_state (ERROR msg) r))"
  by (simp add: good_def ERROR_def State_Monad.update_def)

definition debug_inv :: "hl_code \<Rightarrow> int \<Rightarrow> int \<Rightarrow> int \<Rightarrow> (int \<times> int) list \<Rightarrow> hl_reader \<Rightarrow> bool" where
  "debug_inv c n i curfile dbg r \<longleftrightarrow> core (r_code r) = c \<and> i \<le> n \<and> int (length dbg) = i \<and>
     file_ok (ndebugfiles c) (curfile, 0) \<and> (\<forall>p\<in>set dbg. file_ok (ndebugfiles c) p)"

definition debug_post :: "hl_code \<Rightarrow> int \<Rightarrow> (int \<times> int) list \<Rightarrow> hl_reader \<Rightarrow> bool" where
  "debug_post c n d r \<longleftrightarrow> core (r_code r) = c \<and> int (length d) = n \<and> (\<forall>p\<in>set d. file_ok (ndebugfiles c) p)"

lemma debug_infos_loop_ok:
  assumes "debug_infos_loop n i curfile curline dbg r = (d, r')" "good r'"
  shows "good r \<and> (debug_inv c n i curfile dbg r \<longrightarrow> debug_post c n d r')"
  using assms
proof (induction n i curfile curline dbg r rule: debug_infos_loop.induct)
  case (1 n i curfile curline dbg r)
  note step = "1.prems"(1) [unfolded debug_infos_loop.simps [of n i curfile curline dbg r]]
  show ?case
  proof (cases "i < n")
    case False
    with step "1.prems"(2) show ?thesis by (auto simp: debug_inv_def debug_post_def)
  next
    case True
    obtain cb r1 where r1: "run_state hl_read_b r = (cb, r1)" by fastforce
    obtain b2 r2 where r2: "run_state hl_read_b r1 = (b2, r2)" by fastforce
    obtain b3 r3 where r3: "run_state hl_read_b r2 = (b3, r3)" by fastforce
    note IH = "1.IH" [OF True refl r1 [symmetric] refl]
    note good1 = good_read_b [OF r1] and good2 = good_read_b [OF r2] and good3 = good_read_b [OF r3]
    consider (setfile) "uint cb AND 1 \<noteq> 0" | (again) "uint cb AND 1 = 0" "uint cb AND 2 \<noteq> 0"
      | (delta) "uint cb AND 1 = 0" "uint cb AND 2 = 0" "uint cb AND 4 \<noteq> 0"
      | (full) "uint cb AND 1 = 0" "uint cb AND 2 = 0" "uint cb AND 4 = 0" by blast
    then show ?thesis
    proof cases
      case setfile
      define f where "f = push_bit 8 (drop_bit 1 (uint cb)) OR uint b2"
      define r4 where "r4 = (if f \<ge> ndebugfiles (r_code r2) then snd (run_state (ERROR ''Invalid debug file'') r2) else r2)"
      have "debug_infos_loop n i f curline dbg r4 = (d, r')"
        using step True r1 r2 setfile by (simp add: Let_def f_def r4_def)
      from IH(1) [OF setfile refl r2 [symmetric] f_def r4_def this "1.prems"(2)]
      have 4: "good r4" "debug_inv c n i f dbg r4 \<longrightarrow> debug_post c n d r'" by simp_all
      then have "r4 = r2" "f < ndebugfiles (r_code r2)"
        using good_ERROR by (auto simp: r4_def split: if_splits)
      moreover have "0 \<le> f" by (simp add: f_def)
      ultimately show ?thesis using 4 good1 good2 by (auto simp: debug_inv_def file_ok_def)
    next
      case again
      define cnt where "cnt = drop_bit 2 (uint cb) AND 15"
      define r4 where "r4 = (if i + cnt > n then snd (run_state (ERROR ''Outside range'') r1) else r1)"
      define r5 where "r5 = (if cnt > 0 then wr_debug n (i + cnt - 1) r4 else r4)"
      have "debug_infos_loop n (i + cnt) curfile (i32 (curline + drop_bit 6 (uint cb)))
          (replicate (nat cnt) (curfile, curline) @ dbg) r5 = (d, r')"
        unfolding r5_def r4_def cnt_def using step True r1 again by (simp add: Let_def split del: if_split)
      from IH(2) [OF _ again(2) refl cnt_def r4_def r5_def this "1.prems"(2)]
      have 5: "good r5" "debug_inv c n (i + cnt) curfile (replicate (nat cnt) (curfile, curline) @ dbg) r5 \<longrightarrow>
          debug_post c n d r'" using again(1) by simp_all
      then have "good r4" by (auto simp: r5_def wr_debug_def good_def split: if_splits)
      then have r4: "r4 = r1" "i + cnt \<le> n" using good_ERROR by (auto simp: r4_def split: if_splits)
      then have "r5 = r1" by (simp add: r5_def wr_debug_def)
      moreover have "0 \<le> cnt" by (simp add: cnt_def)
      ultimately show ?thesis using 5 good1 r4 by (auto simp: debug_inv_def file_ok_def)
    next
      case delta
      show ?thesis
        using IH(3) [OF _ _ delta(3) refl] step True r1 delta "1.prems"(2) good1
        by (auto simp: debug_inv_def file_ok_def Let_def)
    next
      case full
      show ?thesis
        using IH(4) [OF _ _ _ refl r2 [symmetric] refl r3 [symmetric] refl] step True r1 r2 r3 full "1.prems"(2)
          good1 good2 good3
        by (auto simp: debug_inv_def file_ok_def Let_def)
    qed
  qed
qed

lemma sticky_hl_read_debug_infos [sticky_rules]: "sticky (hl_read_debug_infos n)"
  by (rule stickyI) (use debug_infos_loop_ok in \<open>auto simp: hl_read_debug_infos_def\<close>)

lemma yields_hl_read_debug_infos:
  assumes "0 \<le> n"
  shows "yields c (hl_read_debug_infos n) (\<lambda>d. int (length d) = n \<and> (\<forall>p\<in>set d. file_ok (ndebugfiles c) p))"
proof (rule yieldsI)
  fix s d s'
  assume *: "run_state (hl_read_debug_infos n) s = (d, s')" "good s'" "core (r_code s) = c"
  then have "debug_infos_loop n 0 (- 1) 0 [] s = (d, s')" by (simp add: hl_read_debug_infos_def)
  from debug_infos_loop_ok [OF this *(2), of c] *(3) assms
  show "core (r_code s') = c \<and> int (length d) = n \<and> (\<forall>p\<in>set d. file_ok (ndebugfiles c) p)"
    by (auto simp: debug_inv_def debug_post_def file_ok_def)
qed
end
