(* ===== verification/CodeRead.thy ===== *)
theory CodeRead
  imports Reader
begin

text \<open>
  \<open>hl_code_read\<close> of \<^verbatim>\<open>src/src/code.c\<close>, the loading of a whole bytecode file, with the function
  identity section, and the operations that free a loaded code or look up a function's name.

  \<open>hl_code_read\<close> is the sequence of its table-reading steps. \<open>CHK_ERROR\<close> frees everything and
  returns \<open>NULL\<close> once an error is stored: \<open>chk\<close> skips the step it guards, so that nothing of the
  rest of the function runs.
\<close>

subsection \<open>Steps\<close>

definition chk :: "unit reader \<Rightarrow> unit reader" where
  "chk m = do { r \<leftarrow> State_Monad.get; if r_error r \<noteq> None then State_Monad.return () else m }"

definition upd_code :: "(hl_code \<Rightarrow> hl_code) \<Rightarrow> unit reader" where
  "upd_code f = State_Monad.update (\<lambda>r. r\<lparr>r_code := f (r_code r)\<rparr>)"

definition get_counts :: "hl_counts reader" where
  "get_counts = do { r \<leftarrow> State_Monad.get; State_Monad.return (counts (r_code r)) }"

text \<open>A loop with \<open>CHK_ERROR\<close> at the end of its body.\<close>

primrec repeat_chk :: "nat \<Rightarrow> 'a reader \<Rightarrow> 'a list reader" where
  "repeat_chk 0 m = State_Monad.return []"
| "repeat_chk (Suc n) m = do {
     x \<leftarrow> m;
     r \<leftarrow> State_Monad.get;
     if r_error r \<noteq> None then State_Monad.return [x]
     else do { xs \<leftarrow> repeat_chk n m; State_Monad.return (x # xs) } }"

definition hl_counts_init :: hl_counts where
  "hl_counts_init = \<lparr>version = 0, nints = 0, nfloats = 0, nstrings = 0, nbytes = 0, ntypes = 0, nglobals = 0,
     nnatives = 0, nfunctions = 0, nconstants = 0, entrypoint = 0, hasdebug = False\<rparr>"

definition hl_code_init :: hl_code where
  "hl_code_init = \<lparr>counts = hl_counts_init, ints = [], floats = [], strings = [], strings_lens = [], bytes = [],
     bytes_pos = [], ndebugfiles = 0, debugfiles = [], debugfiles_lens = [], ustrings = [], types = [],
     types_capacity = 0, globals = [], globals_capacity = 0, natives = [], code_functions = [],
     functions_capacity = 0, npatchfunctions = 0, function_stable_ids = [], function_names = [],
     function_names_lens = [], constants = [], ndebugsections = 0, debugsections = []\<rparr>"

definition read_magic :: "bool reader" where
  "read_magic = do {
     a \<leftarrow> READ;
     if a \<noteq> 72 then State_Monad.return False
     else do {
       b \<leftarrow> READ;
       if b \<noteq> 76 then State_Monad.return False
       else do { c \<leftarrow> READ; State_Monad.return (c = 66) } } }"

definition max_version :: int where
  "max_version = 7"

definition read_counts :: "int \<Rightarrow> hl_counts reader" where
  "read_counts ver = do {
     flags \<leftarrow> UINDEX;
     ni \<leftarrow> UINDEX;
     nf \<leftarrow> UINDEX;
     ns \<leftarrow> UINDEX;
     nb \<leftarrow> (if ver \<ge> 5 then UINDEX else State_Monad.return 0);
     nt \<leftarrow> UINDEX;
     ng \<leftarrow> UINDEX;
     nn \<leftarrow> UINDEX;
     nfun \<leftarrow> UINDEX;
     nc \<leftarrow> (if ver \<ge> 4 then UINDEX else State_Monad.return 0);
     ep \<leftarrow> UINDEX;
     State_Monad.return \<lparr>version = ver, nints = ni, nfloats = nf, nstrings = ns, nbytes = nb, ntypes = nt,
       nglobals = ng, nnatives = nn, nfunctions = nfun, nconstants = nc, entrypoint = ep,
       hasdebug = (flags AND 1 \<noteq> 0)\<rparr> }"

definition read_header :: "unit reader" where
  "read_header = do {
     ok \<leftarrow> read_magic;
     if \<not> ok then ERROR ''Invalid HL bytecode header''
     else do {
       ver \<leftarrow> READ;
       if ver \<le> 1 \<or> ver > max_version then ERROR ''Unsupported bytecode version''
       else do { n \<leftarrow> read_counts ver; upd_code (\<lambda>c. c\<lparr>counts := n\<rparr>) } } }"

definition read_ints :: "unit reader" where
  "read_ints = do {
     n \<leftarrow> get_counts;
     xs \<leftarrow> repeatM (nat (nints n)) hl_read_i32;
     upd_code (\<lambda>c. c\<lparr>ints := xs\<rparr>) }"

definition read_floats :: "unit reader" where
  "read_floats = do {
     n \<leftarrow> get_counts;
     xs \<leftarrow> repeatM (nat (nfloats n)) hl_read_double;
     upd_code (\<lambda>c. c\<lparr>floats := xs\<rparr>) }"

definition read_string_table :: "u8 \<Rightarrow> unit reader" where
  "read_string_table fresh = do {
     n \<leftarrow> get_counts;
     res \<leftarrow> hl_read_strings fresh (nstrings n);
     upd_code (\<lambda>c. c\<lparr>strings := (case res of Some (ss, _) \<Rightarrow> ss | None \<Rightarrow> []),
       strings_lens := (case res of Some (_, ls) \<Rightarrow> ls | None \<Rightarrow> []),
       ustrings := replicate (nat (nstrings n)) None\<rparr>) }"

definition read_bytes_table :: "unit reader" where
  "read_bytes_table = do {
     n \<leftarrow> get_counts;
     if version n \<ge> 5 then do {
       sz \<leftarrow> hl_read_i32;
       data \<leftarrow> hl_read_bytes sz;
       upd_code (\<lambda>c. c\<lparr>bytes := (case data of Some bs \<Rightarrow> bs | None \<Rightarrow> [])\<rparr>);
       chk (do {
         pos \<leftarrow> repeatM (nat (nbytes n)) UINDEX;
         upd_code (\<lambda>c. c\<lparr>bytes_pos := pos\<rparr>) }) }
     else State_Monad.return () }"

definition read_debugfiles :: "u8 \<Rightarrow> unit reader" where
  "read_debugfiles fresh = do {
     n \<leftarrow> get_counts;
     if hasdebug n then do {
       nd \<leftarrow> UINDEX;
       upd_code (\<lambda>c. c\<lparr>ndebugfiles := nd\<rparr>);
       res \<leftarrow> hl_read_strings fresh nd;
       upd_code (\<lambda>c. c\<lparr>debugfiles := (case res of Some (ss, _) \<Rightarrow> ss | None \<Rightarrow> []),
         debugfiles_lens := (case res of Some (_, ls) \<Rightarrow> ls | None \<Rightarrow> [])\<rparr>) }
     else State_Monad.return () }"

definition HL_PATCH_TYPE_RESERVE :: int where
  "HL_PATCH_TYPE_RESERVE = 65536"

definition HL_PATCH_FUNCTION_RESERVE :: int where
  "HL_PATCH_FUNCTION_RESERVE = 4096"

definition types_room :: "hl_counts \<Rightarrow> int" where
  "types_room n = (if ntypes n > INT_MAX - HL_PATCH_TYPE_RESERVE then ntypes n else ntypes n + HL_PATCH_TYPE_RESERVE)"

definition functions_room :: "hl_counts \<Rightarrow> int" where
  "functions_room n =
    (if nfunctions n > INT_MAX - HL_PATCH_FUNCTION_RESERVE - nnatives n then nfunctions n
     else nfunctions n + HL_PATCH_FUNCTION_RESERVE)"

definition read_types :: "unit reader" where
  "read_types = do {
     n \<leftarrow> get_counts;
     upd_code (\<lambda>c. c\<lparr>types_capacity := types_room n\<rparr>);
     ts \<leftarrow> repeat_chk (nat (ntypes n)) hl_read_type;
     upd_code (\<lambda>c. c\<lparr>types := ts\<rparr>) }"

definition read_globals :: "unit reader" where
  "read_globals = do {
     n \<leftarrow> get_counts;
     gs \<leftarrow> repeatM (nat (nglobals n)) hl_get_type;
     upd_code (\<lambda>c. c\<lparr>globals := gs, globals_capacity := nglobals n\<rparr>) }"

definition read_native :: "hl_native reader" where
  "read_native = do {
     lib \<leftarrow> hl_read_string;
     name \<leftarrow> hl_read_string;
     t \<leftarrow> hl_get_type;
     fi \<leftarrow> UINDEX;
     State_Monad.return \<lparr>nat_lib = lib, nat_name = name, nat_t = t, nat_findex = fi\<rparr> }"

definition read_natives :: "unit reader" where
  "read_natives = do {
     n \<leftarrow> get_counts;
     ns \<leftarrow> repeatM (nat (nnatives n)) read_native;
     upd_code (\<lambda>c. c\<lparr>natives := ns\<rparr>) }"

definition read_assign :: "int \<Rightarrow> (int \<times> int \<times> int) reader" where
  "read_assign ver = do {
     a \<leftarrow> UINDEX;
     b \<leftarrow> INDEX;
     c \<leftarrow> (if ver \<ge> 6 then do { e \<leftarrow> INDEX; State_Monad.return (e - 1) } else State_Monad.return (- 1));
     State_Monad.return (a, b - 1, c) }"

definition read_function_debug :: "hl_counts \<Rightarrow> hl_function \<Rightarrow> hl_function reader" where
  "read_function_debug n f =
    (if hasdebug n then do {
       dbg \<leftarrow> hl_read_debug_infos (nops f);
       if version n \<ge> 3 then do {
         na \<leftarrow> UINDEX;
         as \<leftarrow> repeatM (nat na) (read_assign (version n));
         State_Monad.return (f\<lparr>debug := dbg, nassigns := na, assigns := as\<rparr>) }
       else State_Monad.return (f\<lparr>debug := dbg\<rparr>) }
     else State_Monad.return f)"

primrec read_functions_loop :: "hl_opcode \<Rightarrow> hl_counts \<Rightarrow> nat \<Rightarrow> hl_function list reader" where
  "read_functions_loop fresh n 0 = State_Monad.return []"
| "read_functions_loop fresh n (Suc k) = do {
     f \<leftarrow> hl_read_function fresh;
     r \<leftarrow> State_Monad.get;
     if r_error r \<noteq> None then State_Monad.return [f]
     else
       (case hl_validate_function_control_flow f of
          Some msg \<Rightarrow> do { ERROR msg; State_Monad.return [f] }
        | None \<Rightarrow> do {
            f' \<leftarrow> read_function_debug n f;
            fs \<leftarrow> read_functions_loop fresh n k;
            State_Monad.return (f' # fs) }) }"

definition read_functions :: "hl_opcode \<Rightarrow> unit reader" where
  "read_functions fresh = do {
     n \<leftarrow> get_counts;
     upd_code (\<lambda>c. c\<lparr>functions_capacity := functions_room n,
       function_stable_ids := replicate (nat (nfunctions n)) (- 1),
       function_names := replicate (nat (nfunctions n)) None,
       function_names_lens := replicate (nat (nfunctions n)) 0\<rparr>);
     fs \<leftarrow> read_functions_loop fresh n (nat (nfunctions n));
     upd_code (\<lambda>c. c\<lparr>code_functions := fs\<rparr>) }"

definition read_constant :: "hl_constant reader" where
  "read_constant = do {
     g \<leftarrow> UINDEX;
     nf \<leftarrow> UINDEX;
     fs \<leftarrow> repeatM (nat nf) UINDEX;
     State_Monad.return \<lparr>k_global = g, k_nfields = nf, k_fields = fs\<rparr> }"

definition read_constants :: "unit reader" where
  "read_constants = do {
     n \<leftarrow> get_counts;
     ks \<leftarrow> repeat_chk (nat (nconstants n)) read_constant;
     upd_code (\<lambda>c. c\<lparr>constants := ks\<rparr>) }"

subsection \<open>Function identities\<close>

text \<open>The index of the functions by \<open>findex\<close>: the first function with an index wins.\<close>

definition max_findex :: "hl_function list \<Rightarrow> int" where
  "max_findex fs = fold (\<lambda>f m. if findex f > m then findex f else m) fs (- 1)"

definition index_functions :: "hl_function list \<Rightarrow> int list" where
  "index_functions fs =
    fold (\<lambda>(j, f) a. if a ! nat (findex f) < 0 then a[nat (findex f) := int j] else a)
      (List.enumerate 0 fs) (replicate (nat (max_findex fs + 1)) (- 1))"

text \<open>The hash set of the identities seen: a power of two of slots, at least twice the entries.\<close>

function id_set_size :: "int \<Rightarrow> int \<Rightarrow> int" where
  "id_set_size count set_size =
    (if 0 < set_size \<and> set_size < 2 * (if count > 0 then count else 1) then id_set_size count (set_size * 2)
     else set_size)"
  by pat_completeness auto
termination
  by (relation "measure (\<lambda>(count, set_size). nat (2 * (if count > 0 then count else 1) - set_size))") auto

declare id_set_size.simps [simp del]

definition id_mask :: "int list \<Rightarrow> u32" where
  "id_mask seen = word_of_int (int (length seen) - 1)"

text \<open>The probing loop; \<open>None\<close> when every slot holds another identity, where the source never stops.\<close>

fun id_probe :: "nat \<Rightarrow> int list \<Rightarrow> int \<Rightarrow> u32 \<Rightarrow> u32 option" where
  "id_probe 0 seen stable_id slot = None"
| "id_probe (Suc fuel) seen stable_id slot =
    (if seen ! unat slot \<ge> 0 \<and> seen ! unat slot \<noteq> stable_id then
       id_probe fuel seen stable_id ((slot + 1) AND id_mask seen)
     else Some slot)"

definition id_slot :: "int list \<Rightarrow> int \<Rightarrow> u32 option" where
  "id_slot seen stable_id =
    id_probe (length seen) seen stable_id ((word_of_int stable_id * 2654435761) AND id_mask seen)"

text \<open>
  The test for a duplicate and the insertion, for an identity that is not negative: the inner option
  is \<open>None\<close> for a duplicate.
\<close>

definition id_insert :: "int list \<Rightarrow> int \<Rightarrow> int list option option" where
  "id_insert seen stable_id =
    (if stable_id \<ge> 0 then
       map_option (\<lambda>slot. if seen ! unat slot = stable_id then None else Some (seen[unat slot := stable_id]))
         (id_slot seen stable_id)
     else Some (Some seen))"

definition id_target :: "hl_function list \<Rightarrow> int \<Rightarrow> int" where
  "id_target fs fi = (if fi \<ge> 0 \<and> fi \<le> max_findex fs then index_functions fs ! nat fi else - 1)"

text \<open>
  One of the three strings of an entry: its content, none when the length is refused, and the reader
  after it. The comparison is made on \<open>int\<close>; past the end of the section the copy is out of bounds.
\<close>

definition id_string :: "hl_reader \<Rightarrow> u8 list option \<times> hl_reader" where
  "id_string s =
    (let (len, s1) = run_state hl_read_uindex s in
     if len < 0 \<or> i32 (r_pos s1 + len) > r_size s1 then (None, s1)
     else (Some (take (nat len) (drop (nat (r_pos s1)) (r_b s1))),
       s1\<lparr>r_pos := i32 (r_pos s1 + len),
         r_fault := (r_fault s1 \<or> r_pos s1 < 0 \<or> r_pos s1 + len > int (length (r_b s1)))\<rparr>))"

definition id_strings :: "hl_reader \<Rightarrow> u8 list option \<times> hl_reader" where
  "id_strings s =
    (case id_string s of
       (None, s1) \<Rightarrow> (None, s1)
     | (Some qname, s1) \<Rightarrow>
        (case id_string s1 of
           (None, s2) \<Rightarrow> (None, s2)
         | (Some _, s2) \<Rightarrow>
            (case id_string s2 of (None, s3) \<Rightarrow> (None, s3) | (Some _, s3) \<Rightarrow> (Some qname, s3))))"

definition id_positions :: "unit reader" where
  "id_positions = do { _ \<leftarrow> INDEX; _ \<leftarrow> INDEX; _ \<leftarrow> UINDEX; _ \<leftarrow> UINDEX; State_Monad.return () }"

definition set_error :: "string \<Rightarrow> hl_reader \<Rightarrow> hl_reader" where
  "set_error msg r = snd (run_state (ERROR msg) r)"

definition set_identity :: "nat \<Rightarrow> int \<Rightarrow> u8 list \<Rightarrow> hl_code \<Rightarrow> hl_code" where
  "set_identity target stable_id qname c =
    c\<lparr>function_stable_ids := (function_stable_ids c)[target := stable_id],
      function_names := (function_names c)[target := Some (qname @ [0])],
      function_names_lens := (function_names_lens c)[target := int (length qname)]\<rparr>"

text \<open>A fault of the section's reader is a fault of the program.\<close>

definition merge_fault :: "hl_reader \<Rightarrow> hl_reader \<Rightarrow> hl_reader" where
  "merge_fault s r = r\<lparr>r_fault := (r_fault r \<or> r_fault s)\<rparr>"

text \<open>
  One entry, for a function \<open>target_of\<close> that finds functions and a set \<open>seen\<close> with its insertion
  \<open>ins\<close>: either the reading ends there, or it goes on with the next entry.
\<close>

definition identity_entry :: "(int \<Rightarrow> int) \<Rightarrow> ('s \<Rightarrow> int \<Rightarrow> 's option option) \<Rightarrow> hl_reader \<Rightarrow> 's \<Rightarrow> hl_reader \<Rightarrow>
    hl_reader + (hl_reader \<times> 's \<times> hl_reader)" where
  "identity_entry target_of ins s seen r =
    (let (stable_id, s1) = run_state hl_read_uindex s;
         (fi, s2) = run_state hl_read_uindex s1;
         target = target_of fi;
         (qname, s3) = id_strings s2
     in case qname of
       None \<Rightarrow> Inl (merge_fault s3 (set_error ''Invalid function identity string'' r))
     | Some q \<Rightarrow>
        (let s4 = snd (run_state id_positions s3) in
         case ins seen stable_id of
           None \<Rightarrow> Inl (r\<lparr>r_fault := True\<rparr>)
         | Some None \<Rightarrow> Inl (merge_fault s4 (set_error ''Duplicate stable function identity'' r))
         | Some (Some seen') \<Rightarrow>
            if r_error s4 \<noteq> None \<or> target < 0 \<or> function_stable_ids (r_code r) ! nat target \<ge> 0 then
              Inl (merge_fault s4 (set_error ''Invalid function identity'' r))
            else Inr (s4, seen', r\<lparr>r_code := set_identity (nat target) stable_id q (r_code r)\<rparr>)))"

fun identities_loop :: "(int \<Rightarrow> int) \<Rightarrow> ('s \<Rightarrow> int \<Rightarrow> 's option option) \<Rightarrow> nat \<Rightarrow> hl_reader \<Rightarrow> 's \<Rightarrow> hl_reader \<Rightarrow> hl_reader" where
  "identities_loop target_of ins 0 s seen r =
    merge_fault s (if r_pos s \<noteq> r_size s then set_error ''Trailing function identity data'' r else r)"
| "identities_loop target_of ins (Suc n) s seen r =
    (case identity_entry target_of ins s seen r of
       Inl r' \<Rightarrow> r'
     | Inr (s', seen', r') \<Rightarrow> identities_loop target_of ins n s' seen' r')"

definition section_reader :: "hl_reader \<Rightarrow> u8 list \<Rightarrow> int \<Rightarrow> hl_reader" where
  "section_reader r data sz = r\<lparr>r_b := data, r_size := sz, r_pos := 0, r_error := None\<rparr>"

definition hl_read_function_identities :: "u8 list \<Rightarrow> int \<Rightarrow> unit reader" where
  "hl_read_function_identities data sz = State_Monad.update (\<lambda>r.
     let (count, s) = run_state hl_read_uindex (section_reader r data sz);
         seen = replicate (nat (id_set_size count 16)) (- 1)
     in identities_loop (id_target (code_functions (r_code r))) id_insert (nat count) s seen r)"

subsection \<open>Debug sections\<close>

definition read_section :: "hl_debug_section reader" where
  "read_section = do {
     k \<leftarrow> UINDEX;
     v \<leftarrow> UINDEX;
     fl \<leftarrow> UINDEX;
     sz \<leftarrow> UINDEX;
     let s = \<lparr>ds_kind = k, ds_version = v, ds_flags = fl, ds_size = sz, ds_data = []\<rparr>;
     r \<leftarrow> State_Monad.get;
     if r_error r \<noteq> None then State_Monad.return s
     else if k \<le> 0 \<or> v \<le> 0 then do { ERROR ''Invalid debug section header''; State_Monad.return s }
     else do {
       data \<leftarrow> hl_read_bytes sz;
       (case data of
          None \<Rightarrow> State_Monad.return s
        | Some bs \<Rightarrow> do {
            (if k = 1 \<and> v = 1 then hl_read_function_identities bs sz else State_Monad.return ());
            State_Monad.return (s\<lparr>ds_data := bs\<rparr>) }) } }"

definition read_sections :: "unit reader" where
  "read_sections = do {
     n \<leftarrow> get_counts;
     if version n \<ge> 7 then do {
       nd \<leftarrow> UINDEX;
       upd_code (\<lambda>c. c\<lparr>ndebugsections := nd\<rparr>);
       chk (do {
         ss \<leftarrow> repeat_chk (nat nd) read_section;
         upd_code (\<lambda>c. c\<lparr>debugsections := ss\<rparr>) }) }
     else State_Monad.return () }"

text \<open>Functions without an identity keep their index as stable identity.\<close>

definition default_stable_ids :: "unit reader" where
  "default_stable_ids = upd_code (\<lambda>c. c\<lparr>function_stable_ids :=
     map (\<lambda>(i, f). if i < 0 then findex f else i) (zip (function_stable_ids c) (code_functions c))\<rparr>)"

subsection \<open>The file\<close>

record fresh_mem =
  fresh_byte :: u8
  fresh_op :: hl_opcode

definition read_data :: "u8 \<Rightarrow> unit reader" where
  "read_data fresh = do {
     read_header;
     chk read_ints;
     chk read_floats;
     chk (read_string_table fresh);
     chk read_bytes_table;
     chk (read_debugfiles fresh);
     chk read_types;
     chk read_globals;
     chk read_natives }"

definition read_code :: "hl_opcode \<Rightarrow> unit reader" where
  "read_code fresh = do {
     chk (read_functions fresh);
     chk read_constants;
     chk read_sections }"

definition code_read_steps :: "fresh_mem \<Rightarrow> unit reader" where
  "code_read_steps fresh = do {
     read_data (fresh_byte fresh);
     read_code (fresh_op fresh);
     chk default_stable_ids }"

definition init_reader :: "hl_cache \<Rightarrow> u8 list \<Rightarrow> int \<Rightarrow> hl_reader" where
  "init_reader ca data sz = \<lparr>r_b = data, r_size = sz, r_pos = 0, r_error = None, r_fault = False,
     r_code = hl_code_init, r_cache = ca\<rparr>"

text \<open>
  The result: \<open>None\<close> when the code touched memory it does not own, otherwise the error message or
  the code, and the field-name cache after the reading.
\<close>

definition hl_code_read :: "fresh_mem \<Rightarrow> hl_cache \<Rightarrow> u8 list \<Rightarrow> int \<Rightarrow> ((string + hl_code) \<times> hl_cache) option" where
  "hl_code_read fresh ca data sz =
    (let r = snd (run_state (code_read_steps fresh) (init_reader ca data sz)) in
     if r_fault r then None
     else Some (case r_error r of Some e \<Rightarrow> Inl e | None \<Rightarrow> Inr (r_code r), r_cache r))"

subsection \<open>After loading\<close>

text \<open>
  \<open>hl_code_function_name\<close> takes a pointer: \<open>at\<close> is its position in the function table when it points
  there, \<open>fi\<close> the function index it leads to. The names of functions that patches add follow the
  loaded ones in the table.
\<close>

definition hl_code_function_name :: "hl_code option \<Rightarrow> nat option \<Rightarrow> int option \<Rightarrow> u8 list option" where
  "hl_code_function_name code at function = do {
     c \<leftarrow> code;
     fi \<leftarrow> function;
     let n = nat (nfunctions (counts c) + npatchfunctions c);
     case at of
       Some i \<Rightarrow>
         if i < n \<and> findex (code_functions c ! i) = fi then function_names c ! i
         else (case find (\<lambda>j. findex (code_functions c ! j) = fi) [0..<n] of Some j \<Rightarrow> function_names c ! j | None \<Rightarrow> None)
     | None \<Rightarrow> (case find (\<lambda>j. findex (code_functions c ! j) = fi) [0..<n] of Some j \<Rightarrow> function_names c ! j | None \<Rightarrow> None) }"

text \<open>
  Freeing: what lives in \<open>falloc\<close>, the registers and opcodes of the functions and the section
  payloads, is gone after \<open>hl_code_free_function_data\<close>; \<open>hl_code_destroy\<close> releases the rest too.
\<close>

definition hl_code_free_function_data :: "hl_code option \<Rightarrow> hl_code option" where
  "hl_code_free_function_data code = map_option (\<lambda>c.
     c\<lparr>debugsections := map (\<lambda>s. s\<lparr>ds_data := []\<rparr>) (take (nat (ndebugsections c)) (debugsections c)) @
         drop (nat (ndebugsections c)) (debugsections c),
       ndebugsections := 0,
       code_functions := map (\<lambda>f. f\<lparr>regs := [], ops := []\<rparr>) (code_functions c)\<rparr>) code"

definition hl_code_free :: "hl_code option \<Rightarrow> hl_code option" where
  "hl_code_free code = hl_code_free_function_data code"

definition hl_code_destroy :: "hl_code option \<Rightarrow> hl_code option" where
  "hl_code_destroy code = (case hl_code_free_function_data code of None \<Rightarrow> None | Some _ \<Rightarrow> None)"

subsection \<open>Accepted files are well formed\<close>

lemma sticky_upd_code [sticky_rules]: "sticky (upd_code f)"
  unfolding upd_code_def by (rule sticky_update) (simp add: good_def)

lemma sticky_get_counts [sticky_rules]: "sticky get_counts"
  unfolding get_counts_def by (intro sticky_rules)

lemma sticky_chk [sticky_rules]: "sticky m \<Longrightarrow> sticky (chk m)"
  unfolding chk_def by (intro sticky_rules)

lemma sticky_repeat_chk [sticky_rules]: "sticky m \<Longrightarrow> sticky (repeat_chk n m)"
  by (induction n) (auto intro!: sticky_rules)

lemma yields_get_counts [yields_rules]: "Q (counts c) \<Longrightarrow> yields c get_counts Q"
  unfolding get_counts_def by (intro yields_rules sticky_rules) auto

lemma yields_repeat_chk:
  assumes "sticky m" "yields c m P"
  shows "yields c (repeat_chk n m) (\<lambda>xs. length xs = n \<and> (\<forall>x\<in>set xs. P x))"
proof (induction n)
  case (Suc n)
  show ?case unfolding repeat_chk.simps
    by (intro yields_rules sticky_rules assms(1) yields_weaken [OF assms(2)] yields_weaken [OF Suc])
      (auto simp: good_def)
qed (auto intro: yields_return)

text \<open>\<open>stores m Rel\<close>: an accepted run of the step \<open>m\<close> changes the code as \<open>Rel\<close> says.\<close>

definition stores :: "unit reader \<Rightarrow> (hl_code \<Rightarrow> hl_code \<Rightarrow> bool) \<Rightarrow> bool" where
  "stores m Rel \<longleftrightarrow> (\<forall>s s'. run_state m s = ((), s') \<longrightarrow> good s' \<longrightarrow>
     good s \<and> Rel (core (r_code s)) (core (r_code s')))"

lemma storesI:
  "(\<And>s s'. run_state m s = ((), s') \<Longrightarrow> good s' \<Longrightarrow> good s \<and> Rel (core (r_code s)) (core (r_code s'))) \<Longrightarrow> stores m Rel"
  unfolding stores_def by blast

lemma storesD:
  "stores m Rel \<Longrightarrow> run_state m s = ((), s') \<Longrightarrow> good s' \<Longrightarrow> good s \<and> Rel (core (r_code s)) (core (r_code s'))"
  unfolding stores_def by blast

lemma stores_weaken: "stores m Rel \<Longrightarrow> (\<And>c c'. Rel c c' \<Longrightarrow> Rel' c c') \<Longrightarrow> stores m Rel'"
  unfolding stores_def by blast

lemma stores_seq: "stores m Rel \<Longrightarrow> stores n Rel' \<Longrightarrow> stores (m \<bind> (\<lambda>_. n)) (Rel OO Rel')"
  unfolding stores_def by (fastforce split: prod.splits)

lemma stores_chk: "stores m Rel \<Longrightarrow> stores (chk m) Rel"
  unfolding stores_def chk_def by (auto simp: good_def)

lemma stores_upd_code:
  assumes "\<And>c. core (g c) = core (g (core c))"
  shows "stores (upd_code g) (\<lambda>c c'. c' = core (g c))"
  unfolding stores_def upd_code_def State_Monad.update_def using assms by (auto simp: good_def)

lemma stores_upd_seq:
  assumes "\<And>c. core (g c) = core (g (core c))" "stores m Rel'" "\<And>c c'. Rel' (core (g c)) c' \<Longrightarrow> Rel c c'"
  shows "stores (upd_code g \<bind> (\<lambda>_. m)) Rel"
  by (rule stores_weaken [OF stores_seq [OF stores_upd_code assms(2)]]) (use assms(1,3) in auto)

lemma stores_bind:
  assumes "\<And>c. yields c m (Q c)" "\<And>x. stores (f x) (\<lambda>c c'. Q c x \<longrightarrow> Rel c c')" "sticky m"
  shows "stores (m \<bind> f) Rel"
proof (rule storesI)
  fix s s'
  assume *: "run_state (m \<bind> f) s = ((), s')" "good s'"
  then obtain x s1 where 1: "run_state m s = (x, s1)" "run_state (f x) s1 = ((), s')"
    by (auto split: prod.splits)
  from storesD [OF assms(2) 1(2) *(2)] have 2: "good s1" "Q (core (r_code s1)) x \<longrightarrow> Rel (core (r_code s1)) (core (r_code s'))"
    by simp_all
  with stickyD [OF assms(3) 1(1)] yieldsD [OF assms(1) 1(1) 2(1) refl]
  show "good s \<and> Rel (core (r_code s)) (core (r_code s'))" by simp
qed

lemma stores_if: "(b \<Longrightarrow> stores m Rel) \<Longrightarrow> (\<not> b \<Longrightarrow> stores n Rel) \<Longrightarrow> stores (if b then m else n) Rel"
  by simp

lemma stores_ERROR: "stores (ERROR msg) Rel"
  by (auto simp: stores_def ERROR_def State_Monad.update_def good_def)

lemma stores_return: "(\<And>c. core c = c \<Longrightarrow> Rel c c) \<Longrightarrow> stores (State_Monad.return ()) Rel"
  by (auto simp: stores_def)

subsection \<open>Identities, sections, functions\<close>

lemma set_error_bad: "\<not> good (merge_fault s (set_error msg r))"
  by (simp add: good_def set_error_def merge_fault_def ERROR_def State_Monad.update_def)

lemma map_const_update: "map (\<lambda>_. z) (xs[t := y]) = map (\<lambda>_. z) xs"
  by (metis length_list_update map_replicate_const)

lemma core_set_identity [simp]: "core (set_identity t i q c) = core c"
  by (simp add: core_def set_identity_def map_const_update)

lemma identity_entry_bad: "identity_entry target_of ins s seen r = Inl r' \<Longrightarrow> \<not> good r'"
  by (auto simp: identity_entry_def Let_def set_error_bad good_def [of "r\<lparr>r_fault := True\<rparr>"]
      split: prod.splits option.splits if_splits)

lemma identity_entry_core:
  "identity_entry target_of ins s seen r = Inr (s', seen', r') \<Longrightarrow> (good r' \<longleftrightarrow> good r) \<and> core (r_code r') = core (r_code r)"
  by (auto simp: identity_entry_def Let_def good_def split: prod.splits option.splits if_splits)

lemma identities_loop_good:
  "good (identities_loop target_of ins n s seen r) \<Longrightarrow>
    good r \<and> core (r_code (identities_loop target_of ins n s seen r)) = core (r_code r)"
proof (induction n arbitrary: s seen r)
  case 0
  then show ?case
    by (cases "r_pos s = r_size s") (simp_all add: set_error_bad, simp add: merge_fault_def good_def)
next
  case (Suc n)
  show ?case
  proof (cases "identity_entry target_of ins s seen r")
    case (Inl r')
    with Suc.prems identity_entry_bad [OF Inl] show ?thesis by simp
  next
    case (Inr x)
    then obtain s' seen' r' where x: "identity_entry target_of ins s seen r = Inr (s', seen', r')" by (cases x) auto
    with Suc.IH [of s' seen' r'] Suc.prems identity_entry_core [OF x] show ?thesis by simp
  qed
qed

lemma sticky_hl_read_function_identities [sticky_rules]: "sticky (hl_read_function_identities data sz)"
  unfolding hl_read_function_identities_def
  by (rule sticky_update) (auto simp: Let_def dest: identities_loop_good split: prod.splits)

lemma yields_hl_read_function_identities [yields_rules]: "Q () \<Longrightarrow> yields c (hl_read_function_identities data sz) Q"
  by (rule yieldsI)
    (auto simp: hl_read_function_identities_def State_Monad.update_def Let_def dest: identities_loop_good split: prod.splits)

definition section_ok :: "hl_debug_section \<Rightarrow> bool" where
  "section_ok s \<longleftrightarrow> 0 < ds_kind s \<and> 0 < ds_version s \<and> int (length (ds_data s)) = ds_size s"

lemma sticky_read_section [sticky_rules]: "sticky read_section"
  unfolding read_section_def by (intro sticky_rules)

lemma yields_read_section: "yields c read_section section_ok"
  unfolding read_section_def
  by (intro yields_rules sticky_rules) (auto simp: section_ok_def good_def)

definition debug_ok :: "hl_counts \<Rightarrow> int \<Rightarrow> hl_function \<Rightarrow> bool" where
  "debug_ok n nd f \<longleftrightarrow> (hasdebug n \<longrightarrow> int (length (debug f)) = nops f \<and> (\<forall>p\<in>set (debug f). file_ok nd p)) \<and>
     int (length (assigns f)) = nassigns f"

definition function_ok :: "hl_code \<Rightarrow> hl_counts \<Rightarrow> hl_function \<Rightarrow> bool" where
  "function_ok c n f \<longleftrightarrow> wf_function (ntypes (counts c)) f \<and> jumps_ok f \<and> debug_ok n (ndebugfiles c) f"

lemma sticky_read_assign [sticky_rules]: "sticky (read_assign v)"
  unfolding read_assign_def by (intro sticky_rules)

lemma sticky_read_function_debug [sticky_rules]: "sticky (read_function_debug n f)"
  unfolding read_function_debug_def by (intro sticky_rules)

lemma sticky_read_functions_loop [sticky_rules]: "sticky (read_functions_loop fresh n k)"
  by (induction k) (auto intro!: sticky_rules)

lemma yields_read_assign: "yields c (read_assign v) (\<lambda>_. True)"
  unfolding read_assign_def by (intro yields_rules sticky_rules) auto

lemma function_debug_simps [simp]:
  "jumps_ok (f\<lparr>debug := d\<rparr>) = jumps_ok f" "jumps_ok (f\<lparr>nassigns := k\<rparr>) = jumps_ok f"
  "jumps_ok (f\<lparr>assigns := as\<rparr>) = jumps_ok f" "wf_function n (f\<lparr>debug := d\<rparr>) = wf_function n f"
  "wf_function n (f\<lparr>nassigns := k\<rparr>) = wf_function n f" "wf_function n (f\<lparr>assigns := as\<rparr>) = wf_function n f"
  unfolding jumps_ok_def wf_function_def by (simp_all cong: option.case_cong)

lemma yields_read_function_debug:
  assumes "wf_function (ntypes (counts c)) f" "jumps_ok f" "nassigns f = 0" "assigns f = []"
  shows "yields c (read_function_debug n f) (function_ok c n)"
proof -
  have "0 \<le> nops f" using assms(1) by (auto simp: wf_function_def)
  then show ?thesis
    unfolding read_function_debug_def using assms
    by (intro yields_rules sticky_rules yields_hl_read_debug_infos [THEN yields_weaken]
        yields_repeat [OF sticky_read_assign yields_read_assign]) (auto simp: function_ok_def debug_ok_def)
qed

lemma yields_read_functions_loop:
  "yields c (read_functions_loop fresh n k) (\<lambda>fs. length fs = k \<and> (\<forall>f\<in>set fs. function_ok c n f))"
proof (induction k)
  case (Suc k)
  have 1: "yields c (hl_read_function fresh) (\<lambda>f. wf_function (ntypes (counts c)) f \<and> nassigns f = 0 \<and> assigns f = [])"
    unfolding hl_read_function_def
    by (intro yields_rules sticky_rules yields_repeat [OF sticky_read_opcode(4) yields_hl_read_opcode])
      (auto simp: wf_function_def hl_function_init_def type_ok_def good_def)
  show ?case unfolding read_functions_loop.simps
    by (intro yields_rules sticky_rules 1 [THEN yields_weaken] Suc [THEN yields_weaken]
        yields_read_function_debug [THEN yields_weaken]) (auto simp: good_def dest: validated_jumps_ok)
qed (auto intro: yields_return)

subsection \<open>The steps\<close>

definition counts_ok :: "hl_counts \<Rightarrow> bool" where
  "counts_ok n \<longleftrightarrow> 2 \<le> version n \<and> version n \<le> max_version \<and> 0 \<le> nints n \<and> 0 \<le> nfloats n \<and> 0 \<le> nstrings n \<and>
     0 \<le> nbytes n \<and> 0 \<le> ntypes n \<and> 0 \<le> nglobals n \<and> 0 \<le> nnatives n \<and> 0 \<le> nfunctions n \<and> 0 \<le> nconstants n \<and>
     0 \<le> entrypoint n"

definition native_ok :: "int \<Rightarrow> hl_native \<Rightarrow> bool" where
  "native_ok n x \<longleftrightarrow> type_ok n (nat_t x) \<and> 0 \<le> nat_findex x"

definition constant_ok :: "hl_constant \<Rightarrow> bool" where
  "constant_ok k \<longleftrightarrow> 0 \<le> k_global k \<and> int (length (k_fields k)) = k_nfields k \<and> (\<forall>x\<in>set (k_fields k). 0 \<le> x)"

lemma sticky_steps [sticky_rules]:
  "sticky (read_counts ver)" "sticky read_magic" "sticky read_native" "sticky read_constant"
  unfolding read_counts_def read_magic_def read_native_def read_constant_def by (intro sticky_rules)+

lemma yields_read_counts:
  "2 \<le> ver \<Longrightarrow> ver \<le> max_version \<Longrightarrow> yields c (read_counts ver) counts_ok"
  unfolding read_counts_def by (intro yields_rules sticky_rules) (auto simp: counts_ok_def)

lemma yields_read_native: "yields c read_native (native_ok (ntypes (counts c)))"
  unfolding read_native_def by (intro yields_rules sticky_rules) (auto simp: native_ok_def type_ok_def)

lemma yields_read_constant: "yields c read_constant constant_ok"
  unfolding read_constant_def by (intro yields_rules sticky_rules) (auto simp: constant_ok_def)

lemma yields_read_magic: "yields c read_magic (\<lambda>_. True)"
  unfolding read_magic_def by (intro yields_rules sticky_rules) auto

lemma yields_READ: "yields c READ (\<lambda>_. True)"
  by (intro yields_rules sticky_rules) auto

lemma yields_UINDEX: "yields c UINDEX (\<lambda>n. 0 \<le> n)"
  by (intro yields_rules) simp

lemma yields_counts: "yields c get_counts (\<lambda>n. n = counts c)"
  by (rule yields_get_counts) simp

lemma yields_repeat_i32: "yields c (repeatM n hl_read_i32) (\<lambda>xs. length xs = n)"
  by (rule yields_repeat [where P = "\<lambda>_. True"]) (auto intro!: sticky_rules yields_hl_read_i32)

lemma yields_repeat_double: "yields c (repeatM n hl_read_double) (\<lambda>xs. length xs = n \<and> (\<forall>d\<in>set xs. length d = 8))"
  by (rule yields_repeat [where P = "\<lambda>d. length d = 8"]) (auto intro!: sticky_rules yields_hl_read_double)

lemma yields_types:
  "yields c (repeatM n hl_get_type) (\<lambda>ts. length ts = n \<and> (\<forall>t\<in>set ts. type_ok (ntypes (counts c)) t))"
  by (rule yields_repeat_type) simp

lemma yields_uindexes: "yields c (repeatM n hl_read_uindex) (\<lambda>xs. length xs = n \<and> (\<forall>x\<in>set xs. 0 \<le> x))"
  by (rule yields_repeat_uindex) simp

lemma stores_read_header: "stores read_header (\<lambda>c c'. \<exists>n. counts_ok n \<and> c' = core (c\<lparr>counts := n\<rparr>))"
proof -
  have "stores (do { n \<leftarrow> read_counts ver; upd_code (\<lambda>c. c\<lparr>counts := n\<rparr>) })
      (\<lambda>c c'. \<exists>n. counts_ok n \<and> c' = core (c\<lparr>counts := n\<rparr>))" if "2 \<le> ver" "ver \<le> max_version" for ver
    by (rule stores_bind [OF yields_read_counts [OF that]],
        rule stores_upd_code [THEN stores_weaken]) (auto simp: core_def comp_def intro: sticky_rules)
  then show ?thesis
    unfolding read_header_def
    by (intro stores_bind [OF yields_read_magic] stores_bind [OF yields_READ] stores_if stores_ERROR [THEN stores_weaken] sticky_rules)
      (auto intro: stores_weaken stores_ERROR)
qed

lemma stores_read_ints:
  "stores read_ints (\<lambda>c c'. \<exists>xs. length xs = nat (nints (counts c)) \<and> c' = core (c\<lparr>ints := xs\<rparr>))"
  unfolding read_ints_def
  by (rule stores_bind [OF yields_counts], rule stores_bind [OF yields_repeat_i32],
      rule stores_upd_code [THEN stores_weaken]) (auto simp: core_def comp_def intro: sticky_rules)

lemma stores_read_floats:
  "stores read_floats (\<lambda>c c'. \<exists>xs. length xs = nat (nfloats (counts c)) \<and> (\<forall>d\<in>set xs. length d = 8) \<and> c' = core (c\<lparr>floats := xs\<rparr>))"
  unfolding read_floats_def
  by (rule stores_bind [OF yields_counts], rule stores_bind [OF yields_repeat_double],
      rule stores_upd_code [THEN stores_weaken]) (auto simp: core_def comp_def intro: sticky_rules)

lemma stores_read_string_table:
  "stores (read_string_table fresh) (\<lambda>c c'. \<exists>l. length l = nat (nstrings (counts c)) \<and> (\<forall>s\<in>set l. str_ok s) \<and>
     c' = core (c\<lparr>strings := map fst l, strings_lens := map snd l, ustrings := replicate (nat (nstrings (counts c))) None\<rparr>))"
  unfolding read_string_table_def
  by (rule stores_bind [OF yields_counts], rule stores_bind [OF yields_hl_read_strings],
      rule stores_upd_code [THEN stores_weaken]) (auto simp: core_def comp_def intro: sticky_rules)

lemma stores_read_bytes_table:
  "stores read_bytes_table (\<lambda>c c'. version (counts c) \<ge> 5 \<and> (\<exists>bs pos. length pos = nat (nbytes (counts c)) \<and> (\<forall>p\<in>set pos. 0 \<le> p) \<and>
     c' = core (c\<lparr>bytes := bs, bytes_pos := pos\<rparr>)) \<or> version (counts c) < 5 \<and> c' = c)"
proof -
  have rest: "stores (do { pos \<leftarrow> repeatM n UINDEX; upd_code (\<lambda>c. c\<lparr>bytes_pos := pos\<rparr>) })
      (\<lambda>c c'. \<exists>pos. length pos = n \<and> (\<forall>p\<in>set pos. 0 \<le> p) \<and> c' = core (c\<lparr>bytes_pos := pos\<rparr>))" for n
    by (rule stores_bind [OF yields_uindexes], rule stores_upd_code [THEN stores_weaken])
      (auto simp: core_def comp_def intro!: sticky_rules)
  have i32: "yields c hl_read_i32 (\<lambda>_. True)" for c by (intro yields_rules) simp
  have bytes: "yields c (hl_read_bytes n) (\<lambda>_. True)" for c n by (intro yields_rules) simp
  show ?thesis
    unfolding read_bytes_table_def
    by (intro stores_bind [OF yields_counts] stores_if stores_bind [OF i32] stores_bind [OF bytes]
        stores_upd_seq [OF _ stores_chk [OF rest]] sticky_rules stores_return)
      (auto simp: core_def comp_def)
qed

lemma stores_read_debugfiles:
  "stores (read_debugfiles fresh) (\<lambda>c c'. (\<exists>nd l. length l = nat nd \<and> 0 \<le> nd \<and> (\<forall>s\<in>set l. str_ok s) \<and>
     c' = core (c\<lparr>ndebugfiles := nd, debugfiles := map fst l, debugfiles_lens := map snd l\<rparr>)) \<or>
     \<not> hasdebug (counts c) \<and> c' = c)"
proof -
  have rest: "stores (do { res \<leftarrow> hl_read_strings fresh nd;
        upd_code (\<lambda>c. c\<lparr>debugfiles := (case res of Some (ss, _) \<Rightarrow> ss | None \<Rightarrow> []),
          debugfiles_lens := (case res of Some (_, ls) \<Rightarrow> ls | None \<Rightarrow> [])\<rparr>) })
      (\<lambda>c c'. \<exists>l. length l = nat nd \<and> (\<forall>s\<in>set l. str_ok s) \<and>
         c' = core (c\<lparr>debugfiles := map fst l, debugfiles_lens := map snd l\<rparr>))" for nd
    by (rule stores_bind [OF yields_hl_read_strings], rule stores_upd_code [THEN stores_weaken])
      (auto simp: core_def comp_def intro!: sticky_rules)
  show ?thesis
    unfolding read_debugfiles_def
    by (intro stores_bind [OF yields_counts] stores_if stores_bind [OF yields_UINDEX]
        stores_upd_seq [OF _ rest] sticky_rules stores_return)
      (auto simp: core_def comp_def)
qed

lemma stores_read_types:
  "stores read_types (\<lambda>c c'. \<exists>ts. length ts = nat (ntypes (counts c)) \<and> (\<forall>t\<in>set ts. wf_type (ntypes (counts c)) t) \<and>
     c' = core (c\<lparr>types_capacity := types_room (counts c), types := ts\<rparr>))"
proof -
  have rest: "stores (do { ts \<leftarrow> repeat_chk n hl_read_type; upd_code (\<lambda>c. c\<lparr>types := ts\<rparr>) })
      (\<lambda>c c'. \<exists>ts. length ts = n \<and> (\<forall>t\<in>set ts. wf_type (ntypes (counts c)) t) \<and> c' = core (c\<lparr>types := ts\<rparr>))" for n
    by (rule stores_bind [OF yields_repeat_chk [OF sticky_hl_read_type yields_hl_read_type]],
        rule stores_upd_code [THEN stores_weaken]) (auto simp: core_def comp_def intro!: sticky_rules)
  show ?thesis
    unfolding read_types_def
    by (intro stores_bind [OF yields_counts] stores_upd_seq [OF _ rest])
      (auto simp: core_def comp_def intro: sticky_rules)
qed

lemma stores_read_globals:
  "stores read_globals (\<lambda>c c'. \<exists>gs. length gs = nat (nglobals (counts c)) \<and> (\<forall>t\<in>set gs. type_ok (ntypes (counts c)) t) \<and>
     c' = core (c\<lparr>globals := gs, globals_capacity := nglobals (counts c)\<rparr>))"
  unfolding read_globals_def
  by (rule stores_bind [OF yields_counts], rule stores_bind [OF yields_types],
      rule stores_upd_code [THEN stores_weaken]) (auto simp: core_def comp_def intro: sticky_rules)

lemma stores_read_natives:
  "stores read_natives (\<lambda>c c'. \<exists>ns. length ns = nat (nnatives (counts c)) \<and> (\<forall>x\<in>set ns. native_ok (ntypes (counts c)) x) \<and>
     c' = core (c\<lparr>natives := ns\<rparr>))"
  unfolding read_natives_def
  by (rule stores_bind [OF yields_counts], rule stores_bind [OF yields_repeatM [OF sticky_steps(3) yields_read_native]],
      rule stores_upd_code [THEN stores_weaken]) (auto simp: core_def comp_def intro!: sticky_rules)

lemma stores_read_functions:
  "stores (read_functions fresh) (\<lambda>c c'. \<exists>fs. length fs = nat (nfunctions (counts c)) \<and>
     (\<forall>f\<in>set fs. function_ok c (counts c) f) \<and>
     c' = core (c\<lparr>functions_capacity := functions_room (counts c),
       function_stable_ids := replicate (nat (nfunctions (counts c))) (- 1),
       function_names := replicate (nat (nfunctions (counts c))) None,
       function_names_lens := replicate (nat (nfunctions (counts c))) 0, code_functions := fs\<rparr>))"
proof -
  have rest: "stores (do { fs \<leftarrow> read_functions_loop fresh n k; upd_code (\<lambda>c. c\<lparr>code_functions := fs\<rparr>) })
      (\<lambda>c c'. \<exists>fs. length fs = k \<and> (\<forall>f\<in>set fs. function_ok c n f) \<and> c' = core (c\<lparr>code_functions := fs\<rparr>))" for n k
    by (rule stores_bind [OF yields_read_functions_loop], rule stores_upd_code [THEN stores_weaken])
      (auto simp: core_def comp_def intro!: sticky_rules)
  show ?thesis
    unfolding read_functions_def
    by (intro stores_bind [OF yields_counts] stores_upd_seq [OF _ rest])
      (auto simp: core_def comp_def function_ok_def intro: sticky_rules)
qed

lemma stores_read_constants:
  "stores read_constants (\<lambda>c c'. \<exists>ks. length ks = nat (nconstants (counts c)) \<and> (\<forall>k\<in>set ks. constant_ok k) \<and>
     c' = core (c\<lparr>constants := ks\<rparr>))"
  unfolding read_constants_def
  by (rule stores_bind [OF yields_counts], rule stores_bind [OF yields_repeat_chk [OF sticky_steps(4) yields_read_constant]],
      rule stores_upd_code [THEN stores_weaken]) (auto simp: core_def comp_def intro!: sticky_rules)

lemma stores_read_sections:
  "stores read_sections (\<lambda>c c'. (\<exists>nd ss. length ss = nat nd \<and> 0 \<le> nd \<and> (\<forall>s\<in>set ss. section_ok s) \<and>
     c' = core (c\<lparr>ndebugsections := nd, debugsections := ss\<rparr>)) \<or> version (counts c) < 7 \<and> c' = c)"
proof -
  have rest: "stores (do { ss \<leftarrow> repeat_chk n read_section; upd_code (\<lambda>c. c\<lparr>debugsections := ss\<rparr>) })
      (\<lambda>c c'. \<exists>ss. length ss = n \<and> (\<forall>s\<in>set ss. section_ok s) \<and> c' = core (c\<lparr>debugsections := ss\<rparr>))" for n
    by (rule stores_bind [OF yields_repeat_chk [OF sticky_read_section yields_read_section]],
        rule stores_upd_code [THEN stores_weaken]) (auto simp: core_def comp_def intro!: sticky_rules)
  show ?thesis
    unfolding read_sections_def
    by (intro stores_bind [OF yields_counts] stores_if stores_bind [OF yields_UINDEX]
        stores_upd_seq [OF _ stores_chk [OF rest]] sticky_rules stores_return)
      (auto simp: core_def comp_def)
qed

subsection \<open>The whole file\<close>

text \<open>The tables of a loaded code, each against the counts of the header.\<close>

definition tables_ok :: "hl_code \<Rightarrow> bool" where
  "tables_ok c \<longleftrightarrow> counts_ok (counts c) \<and>
     int (length (ints c)) = nints (counts c) \<and>
     int (length (floats c)) = nfloats (counts c) \<and> (\<forall>d\<in>set (floats c). length d = 8) \<and>
     int (length (strings c)) = nstrings (counts c) \<and> length (strings_lens c) = length (strings c) \<and>
     length (ustrings c) = length (strings c) \<and> (\<forall>s\<in>set (zip (strings c) (strings_lens c)). str_ok s) \<and>
     int (length (bytes_pos c)) = (if version (counts c) \<ge> 5 then nbytes (counts c) else 0) \<and>
     int (length (debugfiles c)) = ndebugfiles c \<and> (\<forall>s\<in>set (zip (debugfiles c) (debugfiles_lens c)). str_ok s) \<and>
     int (length (types c)) = ntypes (counts c) \<and> (\<forall>t\<in>set (types c). wf_type (ntypes (counts c)) t) \<and>
     int (length (globals c)) = nglobals (counts c) \<and> (\<forall>t\<in>set (globals c). type_ok (ntypes (counts c)) t) \<and>
     int (length (natives c)) = nnatives (counts c) \<and> (\<forall>x\<in>set (natives c). native_ok (ntypes (counts c)) x)"

definition functions_ok :: "hl_code \<Rightarrow> bool" where
  "functions_ok c \<longleftrightarrow>
     int (length (code_functions c)) = nfunctions (counts c) \<and> (\<forall>f\<in>set (code_functions c). function_ok c (counts c) f) \<and>
     length (function_stable_ids c) = length (code_functions c) \<and>
     length (function_names c) = length (code_functions c) \<and>
     length (function_names_lens c) = length (code_functions c) \<and>
     int (length (constants c)) = nconstants (counts c) \<and> (\<forall>k\<in>set (constants c). constant_ok k) \<and>
     int (length (debugsections c)) = ndebugsections c \<and> (\<forall>s\<in>set (debugsections c). section_ok s)"

text \<open>A loaded code: every table has the announced length and every reference of the tables is valid.\<close>

definition wf_code :: "hl_code \<Rightarrow> bool" where
  "wf_code c \<longleftrightarrow> tables_ok c \<and> functions_ok c \<and> (\<forall>i\<in>set (function_stable_ids c). 0 \<le> i)"

lemma tables_ok_core: "tables_ok (core c) = tables_ok c"
  by (simp add: tables_ok_def core_def)

lemma functions_ok_core: "functions_ok (core c) = functions_ok c"
  by (simp add: functions_ok_def function_ok_def core_def)

lemma stores_read_data:
  "stores (read_data fresh) (\<lambda>c c'. c = core hl_code_init \<longrightarrow> tables_ok c' \<and> debugsections c' = [] \<and> ndebugsections c' = 0)"
proof -
  note chain = stores_seq [OF stores_read_header
    stores_seq [OF stores_chk [OF stores_read_ints]
    stores_seq [OF stores_chk [OF stores_read_floats]
    stores_seq [OF stores_chk [OF stores_read_string_table]
    stores_seq [OF stores_chk [OF stores_read_bytes_table]
    stores_seq [OF stores_chk [OF stores_read_debugfiles]
    stores_seq [OF stores_chk [OF stores_read_types]
    stores_seq [OF stores_chk [OF stores_read_globals]
    stores_chk [OF stores_read_natives]]]]]]]]]
  show ?thesis
    unfolding read_data_def
    apply (rule stores_weaken [OF chain])
    apply (rule impI)
    apply (elim relcomppE exE conjE)
    apply (simp add: core_def comp_def)
    apply (elim disjE exE conjE)
    apply (simp_all add: tables_ok_def hl_code_init_def hl_counts_init_def counts_ok_def zip_map_fst_snd)
    done
qed

lemma stores_read_code:
  "stores (read_code fresh) (\<lambda>c c'. tables_ok c \<and> debugsections c = [] \<and> ndebugsections c = 0 \<longrightarrow>
     tables_ok c' \<and> functions_ok c')"
proof -
  note chain = stores_seq [OF stores_chk [OF stores_read_functions]
    stores_seq [OF stores_chk [OF stores_read_constants] stores_chk [OF stores_read_sections]]]
  show ?thesis
    unfolding read_code_def
    apply (rule stores_weaken [OF chain])
    apply (rule impI)
    apply (elim relcomppE exE conjE)
    apply (simp add: core_def comp_def)
    apply (elim disjE exE conjE)
    apply (simp_all add: tables_ok_def functions_ok_def counts_ok_def function_ok_def)
    done
qed

lemma default_ids_ok:
  assumes "run_state default_stable_ids s = ((), s')" "functions_ok (r_code s)" "tables_ok (r_code s)"
  shows "functions_ok (r_code s') \<and> tables_ok (r_code s') \<and> (\<forall>i\<in>set (function_stable_ids (r_code s')). 0 \<le> i)"
proof -
  have s': "s' = s\<lparr>r_code := r_code s\<lparr>function_stable_ids := map (\<lambda>(i, f). if i < 0 then findex f else i)
      (zip (function_stable_ids (r_code s)) (code_functions (r_code s)))\<rparr>\<rparr>"
    using assms(1) by (auto simp: default_stable_ids_def upd_code_def State_Monad.update_def)
  have "0 \<le> findex f" if "f \<in> set (code_functions (r_code s))" for f
    using assms(2) that by (auto simp: functions_ok_def function_ok_def wf_function_def)
  then show ?thesis
    using assms(2,3) unfolding s'
    by (auto simp: functions_ok_def function_ok_def tables_ok_def dest: set_zip_rightD)
qed

lemma accepted_ok:
  assumes "run_state (code_read_steps fresh) (init_reader ca data sz) = ((), r)" "good r"
  shows "wf_code (r_code r)"
proof -
  obtain r2 where r2: "run_state (read_data (fresh_byte fresh) \<bind> (\<lambda>_. read_code (fresh_op fresh))) (init_reader ca data sz) = ((), r2)"
    "run_state (chk default_stable_ids) r2 = ((), r)"
    using assms(1) by (auto simp: code_read_steps_def split: prod.splits)
  have "sticky (chk default_stable_ids)"
    unfolding default_stable_ids_def by (intro sticky_rules)
  from stickyD [OF this r2(2) assms(2)] have g: "good r2" .
  then have d: "run_state default_stable_ids r2 = ((), r)"
    using r2(2) by (auto simp: chk_def good_def)
  have "tables_ok (core (r_code r2)) \<and> functions_ok (core (r_code r2))"
    using storesD [OF stores_seq [OF stores_read_data stores_read_code] r2(1) g]
    by (auto simp: init_reader_def elim!: relcomppE)
  then show ?thesis
    using default_ids_ok [OF d] by (auto simp: tables_ok_core functions_ok_core wf_code_def)
qed

lemma read_wf:
  assumes "hl_code_read fresh ca data sz = Some (Inr c, ca')"
  shows "wf_code c"
  using assms accepted_ok [of fresh ca data sz]
  by (cases "run_state (code_read_steps fresh) (init_reader ca data sz)")
    (auto simp: hl_code_read_def Let_def good_def split: if_splits option.splits)


text \<open>
  A small file of version 7: two strings, three types (an integer, a function, an object with a
  field), a native, a function of three opcodes with debug lines, a constant and an identity section.
\<close>

definition sample_file :: "u8 list" where
  "sample_file = [0x48, 0x4C, 0x42, 7, 1, 1, 0, 2, 0, 3, 1, 1, 1, 1, 0,
     0xFE, 0xFF, 0xFF, 0xFF,
     5, 0, 0, 0, 0x61, 0, 0x62, 0x63, 0, 1, 2,
     0, 0, 0, 0,
     1, 2, 0, 0, 0, 0x64, 0, 1,
     3, 10, 1, 0, 0, 11, 1, 0xA0, 1, 0, 1, 0, 0, 0, 0,
     0,
     0, 1, 1, 5,
     1, 0, 1, 3, 0, 44, 0, 1, 66, 67, 0, 1, 0, 0x0C, 0x0A, 1, 0, 1, 2,
     0, 1, 3,
     1, 1, 1, 0, 11, 1, 9, 0, 1, 0x66, 0, 0, 0, 0, 0, 0]"

definition sample_fresh :: fresh_mem where
  "sample_fresh = \<lparr>fresh_byte = 7, fresh_op = \<lparr>op = 9, p1 = 99, p2 = 98, p3 = 97, extra = NoExtra\<rparr>\<rparr>"

lemma sample_file_accepted:
  "case hl_code_read sample_fresh hl_cache_init sample_file (int (length sample_file)) of
     Some (Inr c, _) \<Rightarrow> map nops (code_functions c) = [3] \<and> function_stable_ids c = [9] \<and>
       map kind (types c) = [3, 10, 11] \<and> npatchfunctions c = 0 \<and> function_names c = [Some [0x66, 0]]
   | _ \<Rightarrow> False"
  by code_simp


subsection \<open>Names of functions\<close>

text \<open>
  for a loaded code whose functions have different indices, the lookup of a function's name by its
  position in the table and the lookup by scanning for its index give the same name.
\<close>

theorem hl_code_function_name_at:
  assumes "wf_code c" "npatchfunctions c = 0" "distinct (map findex (code_functions c))" "i < length (code_functions c)"
  shows "hl_code_function_name (Some c) (Some i) (Some (findex (code_functions c ! i))) = function_names c ! i \<and>
    hl_code_function_name (Some c) None (Some (findex (code_functions c ! i))) = function_names c ! i"
proof -
  have n: "nat (nfunctions (counts c) + npatchfunctions c) = length (code_functions c)"
    using assms(1,2) by (auto simp: wf_code_def functions_ok_def)
  have inj: "findex (code_functions c ! j) = findex (code_functions c ! i) \<longleftrightarrow> j = i" if "j < length (code_functions c)" for j
    using nth_eq_iff_index_eq [OF assms(3), of j i] that assms(4) by simp
  have "find (\<lambda>j. findex (code_functions c ! j) = findex (code_functions c ! i)) [0..<length (code_functions c)] = Some i"
    using assms(4) inj by (subst find_Some_iff) (auto intro!: exI [of _ i])
  then show ?thesis
    using assms(4) by (simp add: hl_code_function_name_def n)
qed

theorem hl_code_function_name_at_witness:
  "\<exists>c ca'. hl_code_read sample_fresh hl_cache_init sample_file (int (length sample_file)) = Some (Inr c, ca') \<and>
     hl_code_function_name (Some c) None (Some (findex (code_functions c ! 0))) = Some [0x66, 0]"
proof -
  obtain c ca' where c: "hl_code_read sample_fresh hl_cache_init sample_file (int (length sample_file)) = Some (Inr c, ca')"
    "map nops (code_functions c) = [3]" "npatchfunctions c = 0" "function_names c = [Some [0x66, 0]]"
    using sample_file_accepted by (auto split: option.splits prod.splits sum.splits)
  then have "length (code_functions c) = 1" by (metis length_Cons length_map list.size(3) One_nat_def)
  with c hl_code_function_name_at [OF read_wf [OF c(1)], of 0] show ?thesis
    by (auto simp: length_Suc_conv)
qed

lemma hl_code_free_twice: "hl_code_free (hl_code_free code) = hl_code_free code"
  by (cases code) (simp_all add: hl_code_free_def hl_code_free_function_data_def comp_def)

end
