(* ===== verification/Identities.thy ===== *)
theory Identities
  imports CodeRead
begin

text \<open>
  The function identity section of \<^verbatim>\<open>src/src/code.c\<close> (\<open>hl_read_function_identities\<close>) finds a function
  by its index in a table and keeps the identities seen in an open-addressing hash set, \<^emph>\<open>because\<close>, as
  its comment says, scanning for both would be quadratic. Here the optimised reading is proved to
  do what the scanning does. The locale \<open>id_set\<close> is what the loop relies on; the hash set and a plain
  list are its two interpretations.
\<close>

subsection \<open>Sets of identities\<close>

locale id_set =
  fixes ins :: "'s \<Rightarrow> int \<Rightarrow> 's option option"
    and elems :: "'s \<Rightarrow> int set"
    and room :: "nat \<Rightarrow> 's \<Rightarrow> bool"
  assumes ins_old: "room (Suc k) s \<Longrightarrow> 0 \<le> x \<Longrightarrow> x \<in> elems s \<Longrightarrow> ins s x = Some None"
    and ins_new: "room (Suc k) s \<Longrightarrow> 0 \<le> x \<Longrightarrow> x \<notin> elems s \<Longrightarrow>
      \<exists>s'. ins s x = Some (Some s') \<and> elems s' = insert x (elems s) \<and> room k s'"
begin

text \<open>Two such sets with the same elements make the loop read the same identities.\<close>

lemma entry_ins:
  assumes "room (Suc k) seen" "0 \<le> x"
  shows "map_option (map_option elems) (ins seen x) = Some (if x \<in> elems seen then None else Some (insert x (elems seen)))"
  using ins_old [OF assms] ins_new [OF assms] by (cases "x \<in> elems seen") auto

end

definition abstract_insert :: "int set \<Rightarrow> int \<Rightarrow> int set option option" where
  "abstract_insert S x = Some (if x \<in> S then None else Some (insert x S))"

context id_set
begin

lemma entry_abstract:
  assumes "room (Suc k) seen"
  shows "case identity_entry target_of ins s seen r of
      Inl r' \<Rightarrow> identity_entry target_of abstract_insert s (elems seen) r = Inl r'
    | Inr (s', seen', r') \<Rightarrow> room k seen' \<and>
        identity_entry target_of abstract_insert s (elems seen) r = Inr (s', elems seen', r')"
proof -
  obtain x s1 fi s2 qname s3 where s: "run_state hl_read_uindex s = (x, s1)"
    "run_state hl_read_uindex s1 = (fi, s2)" "id_strings s2 = (qname, s3)" by fastforce
  have x: "0 \<le> x" using hl_read_uindex_range [OF s(1)] by simp
  show ?thesis
  proof (cases "x \<in> elems seen")
    case True
    with ins_old [OF assms x True] s show ?thesis
      by (simp add: identity_entry_def abstract_insert_def Let_def split: option.splits)
  next
    case False
    from ins_new [OF assms x False] obtain seen' where
      "ins seen x = Some (Some seen')" "elems seen' = insert x (elems seen)" "room k seen'" by auto
    with False s show ?thesis
      by (simp add: identity_entry_def abstract_insert_def Let_def split: option.splits)
  qed
qed

lemma loop_abstract:
  "room n seen \<Longrightarrow> identities_loop target_of ins n s seen r = identities_loop target_of abstract_insert n s (elems seen) r"
proof (induction n arbitrary: s seen r)
  case (Suc n)
  show ?case
  proof (cases "identity_entry target_of ins s seen r")
    case (Inl r')
    with entry_abstract [OF Suc.prems, of target_of s r] show ?thesis by simp
  next
    case (Inr y)
    obtain s' seen' r' where y: "y = (s', seen', r')" by (cases y)
    with Inr entry_abstract [OF Suc.prems, of target_of s r] Suc.IH [of seen' s' r'] show ?thesis by simp
  qed
qed simp

end

subsection \<open>Scanning\<close>

definition scan_insert :: "int list \<Rightarrow> int \<Rightarrow> int list option option" where
  "scan_insert l x = Some (if x \<in> set l then None else Some (x # l))"

interpretation scanned: id_set scan_insert set "\<lambda>_ _. True"
  by unfold_locales (auto simp: scan_insert_def)

fun scan_target :: "nat \<Rightarrow> hl_function list \<Rightarrow> int \<Rightarrow> int" where
  "scan_target j [] fi = - 1"
| "scan_target j (f # fs) fi = (if findex f = fi then int j else scan_target (j + 1) fs fi)"

subsection \<open>Hashing\<close>

definition home :: "int list \<Rightarrow> int \<Rightarrow> nat" where
  "home seen x = unat ((word_of_int x * 2654435761 :: u32) AND id_mask seen)"

definition pow2_len :: "int list \<Rightarrow> bool" where
  "pow2_len seen \<longleftrightarrow> (\<exists>p\<le>31. length seen = 2 ^ p)"

lemma and_id_mask:
  assumes "pow2_len seen"
  shows "unat (w AND id_mask seen) = unat w mod length seen"
proof -
  obtain p where p: "p \<le> 31" "length seen = 2 ^ p" using assms by (auto simp: pow2_len_def)
  have "id_mask seen = mask p" by (simp add: id_mask_def p mask_eq_exp_minus_1 word_of_int_eq_iff)
  then have "unat (w AND id_mask seen) = unat (take_bit p w)" by (simp add: take_bit_eq_mask)
  also have "\<dots> = take_bit p (unat w)" by (rule unsigned_take_bit_eq)
  finally show ?thesis by (simp add: take_bit_eq_mod p)
qed

lemma next_slot:
  assumes "pow2_len seen" "unat slot < length seen"
  shows "unat ((slot + 1) AND id_mask seen) = (unat slot + 1) mod length seen"
proof -
  obtain p where p: "p \<le> 31" "length seen = 2 ^ p" using assms by (auto simp: pow2_len_def)
  have "(2::nat) ^ p \<le> 2 ^ 31" using p(1) by (intro power_increasing) auto
  then have "unat slot + 1 < 2 ^ 32" using assms(2) p by simp
  then have "unat (slot + 1) = unat slot + 1" by (simp add: unat_word_ariths)
  then show ?thesis using and_id_mask [OF assms(1), of "slot + 1"] by simp
qed

text \<open>The slot that probing for \<open>x\<close> visits at step \<open>j\<close>.\<close>

definition visit :: "int list \<Rightarrow> int \<Rightarrow> nat \<Rightarrow> nat" where
  "visit seen x j = (home seen x + j) mod length seen"

definition stops :: "int list \<Rightarrow> int \<Rightarrow> nat \<Rightarrow> bool" where
  "stops seen x j \<longleftrightarrow> seen ! visit seen x j < 0 \<or> seen ! visit seen x j = x"

lemma home_update [simp]: "home (seen[i := y]) x = home seen x"
  by (simp add: home_def id_mask_def)

lemma visit_update [simp]: "visit (seen[i := y]) x j = visit seen x j"
  by (simp add: visit_def)

lemma visit_less: "seen \<noteq> [] \<Longrightarrow> visit seen x j < length seen"
  by (simp add: visit_def)

lemma pow2_len_nonempty: "pow2_len seen \<Longrightarrow> seen \<noteq> []"
  by (auto simp: pow2_len_def)

lemma visit_inj:
  assumes "visit seen x i = visit seen x j" "i < length seen" "j < length seen"
  shows "i = j"
proof -
  have "i = j" if "visit seen x i = visit seen x j" "i \<le> j" "j < length seen" for i j
  proof -
    have "length seen dvd (home seen x + j) - (home seen x + i)"
      using that by (subst mod_eq_dvd_iff_nat [symmetric]) (auto simp: visit_def)
    then show ?thesis using that(2,3) by (auto dest: dvd_imp_le)
  qed
  with assms show ?thesis by (metis nat_le_linear)
qed

lemma visit_surj:
  assumes "i < length seen"
  shows "\<exists>j<length seen. visit seen x j = i"
proof -
  define h where "h = home seen x mod length seen"
  have h: "h < length seen" unfolding h_def using assms by (intro mod_less_divisor) auto
  have "(home seen x + (i + length seen - h)) mod length seen = (h + (i + length seen - h)) mod length seen"
    by (simp add: h_def mod_add_left_eq)
  also have "\<dots> = i" using h assms by simp
  finally have "visit seen x ((i + length seen - h) mod length seen) = i"
    by (simp add: visit_def mod_add_right_eq)
  moreover have "(i + length seen - h) mod length seen < length seen" using h by (intro mod_less_divisor) auto
  ultimately show ?thesis by blast
qed

lemma id_probe_visit:
  assumes "pow2_len seen" "unat slot = visit seen x j" "j + d < j + fuel" "stops seen x (j + d)"
    "\<And>i. i < d \<Longrightarrow> \<not> stops seen x (j + i)"
  shows "\<exists>w. id_probe fuel seen x slot = Some w \<and> unat w = visit seen x (j + d)"
  using assms
proof (induction d arbitrary: j slot fuel)
  case 0
  then show ?case by (cases fuel) (auto simp: stops_def)
next
  case (Suc d)
  then obtain f where f: "fuel = Suc f" by (cases fuel) auto
  have "\<not> stops seen x j" using Suc.prems(5) [of 0] by simp
  then have n: "seen ! unat slot \<ge> 0 \<and> seen ! unat slot \<noteq> x" by (auto simp: stops_def Suc.prems(2))
  have l: "unat slot < length seen"
    using Suc.prems(1,2) visit_less pow2_len_nonempty by simp
  have "unat ((slot + 1) AND id_mask seen) = visit seen x (j + 1)"
    using next_slot [OF Suc.prems(1) l] Suc.prems(2) by (simp add: visit_def mod_Suc_eq)
  moreover have "stops seen x (j + 1 + d)" "\<And>i. i < d \<Longrightarrow> \<not> stops seen x (j + 1 + i)"
    using Suc.prems(4) Suc.prems(5) [of "Suc i" for i] by simp_all
  ultimately show ?case
    using Suc.IH [OF Suc.prems(1), of _ "j + 1" f] Suc.prems(3) f n by simp
qed

lemma id_slot_visit:
  assumes "pow2_len seen" "d < length seen" "stops seen x d" "\<And>i. i < d \<Longrightarrow> \<not> stops seen x i"
  shows "\<exists>w. id_slot seen x = Some w \<and> unat w = visit seen x d"
proof -
  have "home seen x < length seen"
    using and_id_mask [OF assms(1)] pow2_len_nonempty [OF assms(1)] by (simp add: home_def)
  then have "unat ((word_of_int x * 2654435761 :: u32) AND id_mask seen) = visit seen x 0"
    by (simp add: visit_def home_def)
  from id_probe_visit [OF assms(1) this, of d "length seen"] assms show ?thesis
    by (simp add: id_slot_def)
qed

text \<open>
  The invariant of the table: at most half of it is used, no identity is there twice, and from the home
  of an identity to its slot no slot is free.
\<close>

definition used :: "int list \<Rightarrow> nat set" where
  "used seen = {i. i < length seen \<and> 0 \<le> seen ! i}"

definition ids_of :: "int list \<Rightarrow> int set" where
  "ids_of seen = (!) seen ` used seen"

definition id_room :: "nat \<Rightarrow> int list \<Rightarrow> bool" where
  "id_room k seen \<longleftrightarrow> pow2_len seen \<and> card (used seen) + k \<le> length seen \<and> inj_on ((!) seen) (used seen) \<and>
     (\<forall>i\<in>used seen. \<exists>j<length seen. visit seen (seen ! i) j = i \<and> (\<forall>l<j. visit seen (seen ! i) l \<in> used seen))"

lemma used_update: "i < length seen \<Longrightarrow> 0 \<le> x \<Longrightarrow> used (seen[i := x]) = insert i (used seen)"
  by (auto simp: used_def nth_list_update)

lemma finite_used [simp]: "finite (used seen)"
  by (simp add: used_def)

lemma id_room_slot_old:
  assumes "id_room k seen" "0 \<le> x" "x \<in> ids_of seen"
  shows "\<exists>w. id_slot seen x = Some w \<and> seen ! unat w = x"
proof -
  obtain i where i: "i \<in> used seen" "seen ! i = x" using assms(3) by (auto simp: ids_of_def)
  then obtain j where j: "j < length seen" "visit seen x j = i" "\<forall>l<j. visit seen x l \<in> used seen"
    using assms(1) by (auto simp: id_room_def)
  have "\<not> stops seen x l" if "l < j" for l
  proof -
    have "visit seen x l \<in> used seen" "visit seen x l \<noteq> i" using j that visit_inj [of seen x l j] by auto
    then show ?thesis using assms(1) i by (auto simp: stops_def id_room_def used_def dest: inj_onD)
  qed
  moreover have "stops seen x j" using i j by (simp add: stops_def)
  ultimately show ?thesis
    using id_slot_visit [of seen j x] assms(1) j i by (auto simp: id_room_def)
qed

lemma id_room_slot_new:
  assumes "id_room (Suc k) seen" "x \<notin> ids_of seen"
  shows "\<exists>w d. id_slot seen x = Some w \<and> unat w = visit seen x d \<and> d < length seen \<and> visit seen x d \<notin> used seen \<and>
    (\<forall>l<d. visit seen x l \<in> used seen)"
proof -
  have "card (used seen) < length seen" using assms(1) by (simp add: id_room_def)
  then obtain i where i: "i < length seen" "i \<notin> used seen"
    by (metis card_lessThan finite_used lessThan_iff psubset_card_mono not_less subsetI card_mono)
  obtain j where j: "j < length seen" "visit seen x j = i" using visit_surj [OF i(1)] by blast
  have ne: "seen \<noteq> []" using i by auto
  have stop: "stops seen x l \<longleftrightarrow> visit seen x l \<notin> used seen" for l
    using assms(2) visit_less [OF ne, of x l] by (auto simp: stops_def used_def ids_of_def image_iff)
  define d where "d = (LEAST l. visit seen x l \<notin> used seen)"
  have d: "visit seen x d \<notin> used seen" "d \<le> j" "\<And>l. l < d \<Longrightarrow> visit seen x l \<in> used seen"
    unfolding d_def using i j LeastI [of "\<lambda>l. visit seen x l \<notin> used seen" j]
    by (auto intro: Least_le dest: not_less_Least)
  with id_slot_visit [of seen d x] assms(1) j stop obtain w where "id_slot seen x = Some w" "unat w = visit seen x d"
    by (auto simp: id_room_def)
  with d j(1) show ?thesis by (intro exI [of _ w] exI [of _ d]) auto
qed

lemma id_room_insert:
  assumes "id_room (Suc k) seen" "0 \<le> x" "x \<notin> ids_of seen" "visit seen x d \<notin> used seen" "d < length seen"
    "\<forall>l<d. visit seen x l \<in> used seen"
  shows "id_room k (seen[visit seen x d := x]) \<and> ids_of (seen[visit seen x d := x]) = insert x (ids_of seen)"
proof -
  let ?v = "visit seen x d" let ?s = "seen[?v := x]"
  have v: "?v < length seen" using assms(5) by (intro visit_less) auto
  have u: "used ?s = insert ?v (used seen)" using used_update [OF v assms(2)] .
  have nth: "?s ! i = (if i = ?v then x else seen ! i)" if "i < length seen" for i using that by simp
  have old: "?s ! i = seen ! i" if "i \<in> used seen" for i using that assms(4) nth by (auto simp: used_def)
  have img: "ids_of ?s = insert x (ids_of seen)" using u v old by (auto simp: ids_of_def image_iff)
  have inj: "inj_on ((!) ?s) (used ?s)"
    unfolding u using assms(1,3,4) v old by (auto simp: inj_on_insert id_room_def ids_of_def image_iff intro!: inj_onI dest: inj_onD)
  have "\<exists>j<length ?s. visit ?s (?s ! i) j = i \<and> (\<forall>l<j. visit ?s (?s ! i) l \<in> used ?s)" if "i \<in> used ?s" for i
  proof (cases "i = ?v")
    case True
    then show ?thesis using assms(5,6) u v by auto
  next
    case False
    then have "i \<in> used seen" using that u by simp
    then obtain j where "j < length seen" "visit seen (seen ! i) j = i" "\<forall>l<j. visit seen (seen ! i) l \<in> used seen"
      using assms(1) by (auto simp: id_room_def)
    then show ?thesis using old [OF \<open>i \<in> used seen\<close>] u by auto
  qed
  moreover have "pow2_len ?s" using assms(1) by (auto simp: id_room_def pow2_len_def)
  moreover have "card (used ?s) + k \<le> length ?s" using assms(1,4) u by (simp add: id_room_def)
  ultimately show ?thesis using inj img by (auto simp: id_room_def)
qed

interpretation hashed: id_set id_insert ids_of id_room
proof unfold_locales
  fix k seen and x :: int
  assume *: "id_room (Suc k) seen" "0 \<le> x"
  { assume "x \<in> ids_of seen"
    then obtain w where "id_slot seen x = Some w" "seen ! unat w = x" using id_room_slot_old [OF *] by blast
    then show "id_insert seen x = Some None" using * by (simp add: id_insert_def) }
  { assume new: "x \<notin> ids_of seen"
    then obtain w d where w: "id_slot seen x = Some w" "unat w = visit seen x d" "d < length seen"
      "visit seen x d \<notin> used seen" "\<forall>l<d. visit seen x l \<in> used seen"
      using id_room_slot_new [OF *(1)] by blast
    have "visit seen x d < length seen" using w(3) by (intro visit_less) auto
    then have "seen ! visit seen x d \<noteq> x" using w(4) * by (auto simp: used_def)
    then show "\<exists>s'. id_insert seen x = Some (Some s') \<and> ids_of s' = insert x (ids_of seen) \<and> id_room k s'"
      using id_room_insert [OF * new w(4,3,5)] w * by (simp add: id_insert_def) }
qed

subsection \<open>The section\<close>

lemma id_set_size_pow2:
  assumes "count < 2 ^ 29" "set_size = 2 ^ q" "q \<le> 30"
  shows "(\<exists>p\<le>30. id_set_size count set_size = 2 ^ p) \<and> count \<le> id_set_size count set_size"
  using assms
proof (induction count set_size arbitrary: q rule: id_set_size.induct)
  case (1 count set_size)
  show ?case
  proof (cases "0 < set_size \<and> set_size < 2 * (if count > 0 then count else 1)")
    case True
    then have "(2::int) ^ q < 2 ^ 30" using "1.prems"(1,2) by (auto split: if_splits)
    then have "q < 30" by (rule power_less_imp_less_exp [rotated]) simp
    moreover have "id_set_size count set_size = id_set_size count (set_size * 2)"
      by (subst id_set_size.simps) (rule if_P [OF True])
    ultimately show ?thesis
      using "1.IH" [OF True "1.prems"(1), of "Suc q"] "1.prems"(2) by simp
  next
    case False
    have "id_set_size count set_size = set_size"
      by (subst id_set_size.simps) (rule if_not_P [OF False])
    moreover have "count \<le> set_size" using False "1.prems"(2) by (auto split: if_splits)
    ultimately show ?thesis using "1.prems" by auto
  qed
qed

lemma id_room_init:
  assumes "0 \<le> count" "count < 2 ^ 29"
  shows "id_room (nat count) (replicate (nat (id_set_size count 16)) (- 1)) \<and> ids_of (replicate (nat (id_set_size count 16)) (- 1)) = {}"
proof -
  obtain p where p: "p \<le> 30" "id_set_size count 16 = 2 ^ p" "count \<le> id_set_size count 16"
    using id_set_size_pow2 [OF assms(2), of 16 4] by auto
  then have "pow2_len (replicate (nat (id_set_size count 16)) (- 1))"
    unfolding pow2_len_def by (intro exI [of _ p]) (auto simp: nat_power_eq)
  moreover have "used (replicate (nat (id_set_size count 16)) (- 1)) = {}" by (auto simp: used_def)
  ultimately show ?thesis using p by (auto simp: id_room_def ids_of_def)
qed

lemma scan_target_snoc:
  "scan_target j (fs @ [f]) fi =
    (if scan_target j fs fi < 0 then (if findex f = fi then int (j + length fs) else - 1) else scan_target j fs fi)"
  by (induction fs arbitrary: j) auto

lemma scan_target_neg: "scan_target j fs fi < 0 \<Longrightarrow> scan_target j fs fi = - 1"
  by (induction fs arbitrary: j) (auto split: if_splits)

lemma index_functions_scan:
  assumes "\<forall>f\<in>set fs. 0 \<le> findex f \<and> findex f < int n" "k < n"
  shows "fold (\<lambda>(j, f) a. if a ! nat (findex f) < 0 then a[nat (findex f) := int j] else a)
      (List.enumerate 0 fs) (replicate n (- 1)) ! k = scan_target 0 fs (int k)" (is "?A fs ! k = _")
proof -
  have len: "length (?A fs) = n" for fs
    by (induction fs rule: rev_induct) (auto simp: enumerate_append_eq)
  show ?thesis using assms
  proof (induction fs arbitrary: k rule: rev_induct)
    case (snoc f fs)
    have "nat (findex f) < n" using snoc.prems by auto
    moreover from this have "?A fs ! nat (findex f) = scan_target 0 fs (findex f)"
      using snoc.IH [of "nat (findex f)"] snoc.prems by auto
    moreover have "?A fs ! k = scan_target 0 fs (int k)" using snoc by simp
    ultimately show ?case using snoc.prems len [of fs]
      by (auto simp: enumerate_append_eq scan_target_snoc nth_list_update dest: scan_target_neg)
  qed (simp add: assms)
qed

lemma max_findex_bound:
  "- 1 \<le> max_findex fs \<and> (\<forall>f\<in>set fs. findex f \<le> max_findex fs)"
  unfolding max_findex_def by (induction fs rule: rev_induct) auto

lemma scan_target_missing: "\<forall>f\<in>set fs. findex f \<noteq> fi \<Longrightarrow> scan_target j fs fi = - 1"
  by (induction fs arbitrary: j) auto

lemma id_target_scan:
  assumes "\<forall>f\<in>set fs. 0 \<le> findex f"
  shows "id_target fs fi = scan_target 0 fs fi"
proof (cases "0 \<le> fi \<and> fi \<le> max_findex fs")
  case True
  then show ?thesis
    using index_functions_scan [of fs "nat (max_findex fs + 1)" "nat fi"] assms max_findex_bound [of fs]
    by (auto simp: id_target_def index_functions_def nat_less_iff)
next
  case False
  then have "\<forall>f\<in>set fs. findex f \<noteq> fi" using assms max_findex_bound [of fs] by auto
  with False show ?thesis by (auto simp: id_target_def scan_target_missing)
qed

definition scan_function_identities :: "u8 list \<Rightarrow> int \<Rightarrow> unit reader" where
  "scan_function_identities data sz = State_Monad.update (\<lambda>r.
     let (count, s) = run_state hl_read_uindex (section_reader r data sz)
     in identities_loop (scan_target 0 (code_functions (r_code r))) scan_insert (nat count) s [] r)"



end
