(* ===== verification/CodeFormat.thy ===== *)
theory CodeFormat
  imports CodeRead
begin

text \<open>
  The bytecode format from the writer's side: encoders for indices, opcodes and functions, in the
  layout that \<^verbatim>\<open>src/src/code.c\<close> reads, and the proof that reading an encoded value gives it back and
  consumes exactly its bytes. Then that reading a function never leaves the buffer, whatever the
  bytes are, and files on which the reader does leave its memory.
\<close>

subsection \<open>Encoding\<close>

definition enc_index :: "int \<Rightarrow> u8 list" where
  "enc_index v =
    (if 0 \<le> v \<and> v < 128 then [word_of_int v]
     else let a = \<bar>v\<bar>; s = (if v < 0 then 0x20 else 0) in
       if a < 8192 then map word_of_int [0x80 + s + a div 256, a mod 256]
       else map word_of_int [0xC0 + s + a div 16777216, a div 65536 mod 256, a div 256 mod 256, a mod 256])"

definition enc_operands :: "int \<Rightarrow> hl_opcode \<Rightarrow> u8 list" where
  "enc_operands nargs o0 =
    (if nargs = 0 then []
     else if nargs = 1 then enc_index (p1 o0)
     else if nargs = 2 then enc_index (p1 o0) @ enc_index (p2 o0)
     else if nargs = 3 then enc_index (p1 o0) @ enc_index (p2 o0) @ enc_index (p3 o0)
     else case extra o0 of
       NoExtra \<Rightarrow> []
     | ExtraInt e \<Rightarrow> enc_index (p1 o0) @ enc_index (p2 o0) @ enc_index (p3 o0) @ enc_index e
     | ExtraArr ex \<Rightarrow>
        if nargs = - 1 \<and> op o0 = int OSwitch then
          enc_index (p1 o0) @ enc_index (p2 o0) @ concat (map enc_index ex) @ enc_index (p3 o0)
        else if nargs = - 1 then
          enc_index (p1 o0) @ enc_index (p2 o0) @ word_of_int (p3 o0) # concat (map enc_index ex)
        else enc_index (p1 o0) @ enc_index (p2 o0) @ enc_index (p3 o0) @ concat (map enc_index ex))"

definition enc_opcode :: "hl_opcode \<Rightarrow> u8 list" where
  "enc_opcode o0 = word_of_int (op o0) # enc_operands (hl_op_nargs ! nat (op o0)) o0"

definition enc_function :: "hl_function \<Rightarrow> u8 list" where
  "enc_function f = enc_index (ftype f) @ enc_index (findex f) @ enc_index (nregs f) @ enc_index (nops f) @
     concat (map enc_index (regs f)) @ concat (map enc_opcode (ops f))"

subsection \<open>Reading back\<close>

definition at_bytes :: "int \<Rightarrow> u8 list \<Rightarrow> hl_reader \<Rightarrow> bool" where
  "at_bytes n bs r \<longleftrightarrow> r_size r = int (length (r_b r)) \<and> 0 \<le> r_pos r \<and> (\<exists>rest. drop (nat (r_pos r)) (r_b r) = bs @ rest) \<and>
     ntypes (counts (r_code r)) = n \<and> r_error r = None"

definition reads :: "int \<Rightarrow> 'a reader \<Rightarrow> u8 list \<Rightarrow> 'a \<Rightarrow> bool" where
  "reads n m bs x \<longleftrightarrow> (\<forall>r. at_bytes n bs r \<longrightarrow> run_state m r = (x, r\<lparr>r_pos := r_pos r + int (length bs)\<rparr>))"

named_theorems reads_rules \<open>rules for reading encoded data\<close>

lemma reads_return [reads_rules]: "reads n (State_Monad.return x) [] x"
  by (simp add: reads_def)

lemma at_bytes_append:
  assumes "at_bytes n (b1 @ b2) r"
  shows "at_bytes n b1 r" "at_bytes n b2 (r\<lparr>r_pos := r_pos r + int (length b1)\<rparr>)"
proof -
  obtain rest where rest: "drop (nat (r_pos r)) (r_b r) = b1 @ b2 @ rest"
    using assms by (auto simp: at_bytes_def)
  have "drop (nat (r_pos r + int (length b1))) (r_b r) = drop (length b1) (drop (nat (r_pos r)) (r_b r))"
    using assms by (simp add: at_bytes_def nat_add_distrib add.commute)
  then have "drop (nat (r_pos r + int (length b1))) (r_b r) = b2 @ rest" using rest by simp
  with assms rest show "at_bytes n b1 r" "at_bytes n b2 (r\<lparr>r_pos := r_pos r + int (length b1)\<rparr>)"
    by (auto simp: at_bytes_def)
qed

lemma reads_bind:
  assumes "reads n m b1 x" "reads n (f x) b2 y"
  shows "reads n (m \<bind> f) (b1 @ b2) y"
  unfolding reads_def
proof (intro allI impI)
  fix r assume "at_bytes n (b1 @ b2) r"
  note r = at_bytes_append [OF this]
  have "run_state m r = (x, r\<lparr>r_pos := r_pos r + int (length b1)\<rparr>)"
    using assms(1) r(1) by (auto simp: reads_def)
  moreover have "run_state (f x) (r\<lparr>r_pos := r_pos r + int (length b1)\<rparr>) =
      (y, r\<lparr>r_pos := r_pos r + int (length b1) + int (length b2)\<rparr>)"
    using assms(2) r(2) by (auto simp: reads_def)
  ultimately show "run_state (m \<bind> f) r = (y, r\<lparr>r_pos := r_pos r + int (length (b1 @ b2))\<rparr>)"
    by (simp add: add.assoc)
qed

lemmas reads_bind_last = reads_bind [where ?b2.0 = "[]", simplified]

lemma reads_get:
  assumes "\<And>r. ntypes (counts (r_code r)) = n \<Longrightarrow> r_error r = None \<Longrightarrow> reads n (f r) bs y"
  shows "reads n (State_Monad.get \<bind> f) bs y"
  using assms by (auto simp: reads_def at_bytes_def)

lemma reads_repeatM:
  assumes "\<And>x. x \<in> set xs \<Longrightarrow> reads n m (e x) x"
  shows "reads n (repeatM (length xs) m) (concat (map e xs)) xs"
  using assms
proof (induction xs)
  case (Cons x xs)
  have "reads n (repeatM (length xs) m \<bind> (\<lambda>ys. State_Monad.return (x # ys))) (concat (map e xs)) (x # xs)"
    by (rule reads_bind_last [OF Cons.IH reads_return]) (use Cons.prems in simp)
  then show ?case using reads_bind [of n m "e x" x] Cons.prems by simp
qed (simp add: reads_return)

lemma reads_b: "reads n hl_read_b [b] b"
  unfolding reads_def
proof (intro allI impI)
  fix r assume r: "at_bytes n [b] r"
  then obtain rest where rest: "drop (nat (r_pos r)) (r_b r) = b # rest" by (auto simp: at_bytes_def)
  then have l: "nat (r_pos r) < length (r_b r)" by (metis drop_eq_Nil leI list.distinct(1))
  then have "r_b r ! nat (r_pos r) = b" using rest by (metis nth_via_drop)
  with r l show "run_state hl_read_b r = (b, r\<lparr>r_pos := r_pos r + int (length [b])\<rparr>)"
    by (auto simp: hl_read_b_def next_b_def at_bytes_def)
qed

lemma reads_bind_return: "reads n m bs x \<Longrightarrow> reads n (m \<bind> (\<lambda>x. State_Monad.return (g x))) bs (g x)"
  by (auto simp: reads_def)

lemma reads_READ: "reads n READ [b] (uint b)"
  by (rule reads_bind_return [OF reads_b])

lemma flag_bits:
  fixes x :: int
  shows "x AND 128 = 0 \<longleftrightarrow> even (x div 128)" "x AND 64 = 0 \<longleftrightarrow> even (x div 64)" "x AND 32 = 0 \<longleftrightarrow> even (x div 32)"
  using and_exp_eq_0_iff_not_bit [of x 7] and_exp_eq_0_iff_not_bit [of x 6] and_exp_eq_0_iff_not_bit [of x 5]
  by (simp_all add: bit_iff_odd)

lemma reads_index1:
  assumes "uint b < 128"
  shows "reads n hl_read_index [b] (uint b)"
proof -
  have "uint b AND 128 = 0" "uint b AND 127 = uint b" using assms by (simp_all add: flag_bits and_mask_mod)
  then have "reads n hl_read_index ([b] @ []) (uint b)"
    unfolding hl_read_index_def
    apply (intro reads_bind [OF reads_READ])
    apply (simp only: if_True simp_thms)
    apply (rule reads_return)
    done
  then show ?thesis by simp
qed

lemma reads_index2:
  assumes "\<not> even (uint b div 128)" "even (uint b div 64)"
  shows "reads n hl_read_index [b, c]
    (let v = uint c + 256 * (uint b mod 32) in if even (uint b div 32) then v else - v)"
proof -
  have "reads n hl_read_index ([b] @ [c]) (let v = uint c OR push_bit 8 (uint b AND 31) in if uint b AND 32 = 0 then v else - v)"
    unfolding hl_read_index_def
    apply (intro reads_bind [OF reads_READ]) using assms
    apply (simp only: flag_bits Let_def if_False if_True simp_thms not_False_eq_True)
    apply (rule reads_bind_return [OF reads_READ])
    done
  then show ?thesis
    by (simp add: index_short_value uint_u8 flag_bits del: push_bit_and)
qed

lemma reads_index4:
  assumes "\<not> even (uint b div 128)" "\<not> even (uint b div 64)"
  shows "reads n hl_read_index [b, c, d, e]
    (let v = 16777216 * (uint b mod 32) + 65536 * uint c + 256 * uint d + uint e in if even (uint b div 32) then v else - v)"
proof -
  have "reads n hl_read_index ([b] @ [c] @ [d] @ [e])
      (let v = push_bit 24 (uint b AND 31) OR push_bit 16 (uint c) OR push_bit 8 (uint d) OR uint e
       in if uint b AND 32 = 0 then v else - v)"
    unfolding hl_read_index_def
    apply (intro reads_bind [OF reads_READ]) using assms
    apply (simp only: flag_bits Let_def if_False simp_thms not_False_eq_True)
    apply (intro reads_bind [OF reads_READ] reads_bind_return [OF reads_READ])
    done
  then show ?thesis
    by (simp add: index_long_value uint_u8 flag_bits del: push_bit_and)
qed

text \<open>The first byte of an index is \<open>32 * t + q\<close>: the flags in \<open>t\<close>, the high bits in \<open>q\<close>.\<close>

lemma head_byte:
  fixes t q :: int
  assumes "0 \<le> q" "q < 32"
  shows "(32 * t + q) div 32 = t" "(32 * t + q) div 64 = t div 2" "(32 * t + q) div 128 = t div 4" "(32 * t + q) mod 32 = q"
proof -
  show d: "(32 * t + q) div 32 = t" using assms by simp
  show "(32 * t + q) mod 32 = q" using assms by simp
  show "(32 * t + q) div 64 = t div 2" using zdiv_zmult2_eq [of 2 "32 * t + q" 32] d by simp
  show "(32 * t + q) div 128 = t div 4" using zdiv_zmult2_eq [of 4 "32 * t + q" 32] d by simp
qed

lemma low_bytes:
  fixes a :: int
  shows "16777216 * (a div 16777216) + 65536 * (a div 65536 mod 256) + 256 * (a div 256 mod 256) + a mod 256 = a"
proof -
  have "a div 65536 = a div 256 div 256" "a div 16777216 = a div 65536 div 256"
    using zdiv_zmult2_eq [of 256 a 256] zdiv_zmult2_eq [of 256 a 65536] by simp_all
  then show ?thesis
    using mult_div_mod_eq [of 256 a] mult_div_mod_eq [of 256 "a div 256"] mult_div_mod_eq [of 256 "a div 65536"] by linarith
qed

lemma reads_index_head:
  assumes "0 \<le> q" "q < 32" "t \<in> {0 .. 7}"
  shows "uint (word_of_int (32 * t + q) :: u8) = 32 * t + q"
  using assms by (intro uint_byte) auto

lemma reads_index:
  assumes "- (2 ^ 29) < v" "v < 2 ^ 29"
  shows "reads n hl_read_index (enc_index v) v"
proof -
  have m: "uint (word_of_int (x mod 256) :: u8) = x mod 256" for x
    by (rule uint_byte) auto
  define a where "a = \<bar>v\<bar>"
  have a: "0 \<le> a" "a < 536870912" using assms by (auto simp: a_def)
  consider (one) "0 \<le> v" "v < 128" | (two) "\<not> (0 \<le> v \<and> v < 128)" "a < 8192"
    | (four) "\<not> (0 \<le> v \<and> v < 128)" "\<not> a < 8192" by blast
  then show ?thesis
  proof cases
    case one
    then show ?thesis using reads_index1 [of "word_of_int v" n] uint_byte [of v] by (simp add: enc_index_def)
  next
    case two
    define t where "t = (if v < 0 then 5 else 4 :: int)"
    define q where "q = a div 256"
    have q: "0 \<le> q" "q < 32" using two a by (auto simp: q_def)
    have t: "even t \<longleftrightarrow> 0 \<le> v" "t div 2 = 2" "t div 4 = 1" by (auto simp: t_def)
    define B where "B = (word_of_int (32 * t + q) :: u8)"
    have B: "uint B = 32 * t + q" unfolding B_def by (rule reads_index_head [OF q]) (simp add: t_def)
    have "reads n hl_read_index [B, word_of_int (a mod 256)]
        (let w = uint (word_of_int (a mod 256) :: u8) + 256 * (uint B mod 32) in if even (uint B div 32) then w else - w)"
      by (rule reads_index2) (simp_all only: B head_byte [OF q] t, simp_all)
    then have "reads n hl_read_index [B, word_of_int (a mod 256)] v"
      unfolding B m head_byte [OF q] t by (auto simp: Let_def q_def a_def split: if_splits)
    then show ?thesis using two by (cases "v < 0") (simp_all add: B_def enc_index_def Let_def t_def q_def a_def)
  next
    case four
    define t where "t = (if v < 0 then 7 else 6 :: int)"
    define q where "q = a div 16777216"
    have q: "0 \<le> q" "q < 32" using a by (auto simp: q_def)
    have t: "even t \<longleftrightarrow> 0 \<le> v" "t div 2 = 3" "t div 4 = 1" by (auto simp: t_def)
    define B where "B = (word_of_int (32 * t + q) :: u8)"
    have B: "uint B = 32 * t + q" unfolding B_def by (rule reads_index_head [OF q]) (simp add: t_def)
    define C1 C2 C3 where C: "C1 = (word_of_int (a div 65536 mod 256) :: u8)" "C2 = (word_of_int (a div 256 mod 256) :: u8)"
      "C3 = (word_of_int (a mod 256) :: u8)"
    have uC: "uint C1 = a div 65536 mod 256" "uint C2 = a div 256 mod 256" "uint C3 = a mod 256" unfolding C m by simp_all
    have "reads n hl_read_index [B, C1, C2, C3]
        (let w = 16777216 * (uint B mod 32) + 65536 * uint C1 + 256 * uint C2 + uint C3 in if even (uint B div 32) then w else - w)"
      by (rule reads_index4) (simp_all only: B head_byte [OF q] t, simp_all)
    then have "reads n hl_read_index [B, C1, C2, C3] (if even (uint B div 32) then a else - a)"
      unfolding uC B head_byte [OF q] Let_def low_bytes [of a, folded q_def] .
    then have "reads n hl_read_index [B, C1, C2, C3] v"
      unfolding B head_byte [OF q] t by (auto simp: a_def split: if_splits)
    then show ?thesis using four by (cases "v < 0") (simp_all add: B_def C enc_index_def Let_def t_def q_def a_def)
  qed
qed

definition idx_ok :: "int \<Rightarrow> bool" where
  "idx_ok v \<longleftrightarrow> - (2 ^ 29) < v \<and> v < 2 ^ 29"

lemma reads_INDEX [reads_rules]: "idx_ok v \<Longrightarrow> reads n hl_read_index (enc_index v) v"
  by (simp add: reads_index idx_ok_def)

lemma reads_UINDEX [reads_rules]: "idx_ok v \<Longrightarrow> 0 \<le> v \<Longrightarrow> reads n hl_read_uindex (enc_index v) v"
  unfolding hl_read_uindex_def
  using reads_bind [OF reads_INDEX, where ?b2.0 = "[]" and f = "\<lambda>i. if i < 0 then do { ERROR ''Negative index''; State_Monad.return 0 } else State_Monad.return i"]
    reads_return by fastforce

lemma reads_type [reads_rules]: "idx_ok t \<Longrightarrow> type_ok n t \<Longrightarrow> reads n hl_get_type (enc_index t) t"
  using reads_INDEX [of t n] unfolding hl_get_type_def by (auto simp: reads_def type_ok_def at_bytes_def)

text \<open>
  An opcode as the reader can build it in memory \<open>fresh\<close>: the operands of its table row are in the
  range of an index, the fields that the row does not have are those of the memory.
\<close>

definition readable_op :: "hl_opcode \<Rightarrow> hl_opcode \<Rightarrow> bool" where
  "readable_op fresh o0 \<longleftrightarrow> 0 \<le> op o0 \<and> op o0 < int OLast \<and> idx_ok (p1 o0) \<and> idx_ok (p2 o0) \<and> idx_ok (p3 o0) \<and>
     (let k = hl_op_nargs ! nat (op o0) in
      (k = 0 \<longrightarrow> o0 = fresh\<lparr>op := op o0\<rparr>) \<and>
      (k = 1 \<longrightarrow> o0 = fresh\<lparr>op := op o0, p1 := p1 o0\<rparr>) \<and>
      (k = 2 \<longrightarrow> o0 = fresh\<lparr>op := op o0, p1 := p1 o0, p2 := p2 o0\<rparr>) \<and>
      (k = 3 \<longrightarrow> extra o0 = extra fresh) \<and>
      (k = 4 \<longrightarrow> (\<exists>e. extra o0 = ExtraInt e \<and> idx_ok e)) \<and>
      (k > 4 \<longrightarrow> (\<exists>ex. extra o0 = ExtraArr ex \<and> int (length ex) = k - 3 \<and> (\<forall>e\<in>set ex. idx_ok e))) \<and>
      (k = - 1 \<longrightarrow> (\<exists>ex. extra o0 = ExtraArr ex \<and> (\<forall>e\<in>set ex. idx_ok e) \<and>
         (if op o0 = int OSwitch then 0 \<le> p1 o0 \<and> 0 \<le> p3 o0 \<and> int (length ex) = p2 o0 \<and> (\<forall>e\<in>set ex. 0 \<le> e)
          else int (length ex) = p3 o0 \<and> p3 o0 < 256))))"

lemma reads_indexes [reads_rules]:
  "\<forall>x\<in>set xs. idx_ok x \<Longrightarrow> k = length xs \<Longrightarrow> reads n (repeatM k hl_read_index) (concat (map enc_index xs)) xs"
  using reads_repeatM [of xs n hl_read_index enc_index] by (auto intro: reads_rules)

lemma reads_uindexes [reads_rules]:
  "\<forall>x\<in>set xs. idx_ok x \<and> 0 \<le> x \<Longrightarrow> k = length xs \<Longrightarrow> reads n (repeatM k hl_read_uindex) (concat (map enc_index xs)) xs"
  using reads_repeatM [of xs n hl_read_uindex enc_index] by (auto intro: reads_rules)

lemma reads_byte: "0 \<le> x \<Longrightarrow> x < 256 \<Longrightarrow> reads n READ [word_of_int x] x"
  using reads_READ [of n "word_of_int x"] uint_byte [of x] by simp

lemma reads_last: "reads n m bs x \<Longrightarrow> g x = y \<Longrightarrow> reads n (m \<bind> (\<lambda>x. State_Monad.return (g x))) bs y"
  using reads_bind_return [of n m bs x g] by simp

lemma reads_opcode:
  assumes "readable_op fresh o0"
  shows "reads n (hl_read_opcode fresh) (enc_opcode o0) o0"
proof -
  let ?k = "hl_op_nargs ! nat (op o0)"
  have op: "0 \<le> op o0" "op o0 < 104" and p: "idx_ok (p1 o0)" "idx_ok (p2 o0)" "idx_ok (p3 o0)"
    using assms by (simp_all add: readable_op_def)
  note i1 = reads_INDEX [OF p(1)] and i2 = reads_INDEX [OF p(2)] and i3 = reads_INDEX [OF p(3)]
  have k: "?k \<in> {- 1, 0, 1, 2, 3, 4, 5, 6}" using op by (intro hl_op_nargs_cases) simp
  have "reads n (read_opcode_args ?k (fresh\<lparr>op := op o0\<rparr>)) (enc_operands ?k o0) o0"
  proof (cases "?k \<in> {0, 1, 2, 3}")
    case True
    moreover have "reads n (State_Monad.return o0) [] o0" by (rule reads_return)
    moreover have "reads n (do { a \<leftarrow> INDEX; State_Monad.return (fresh\<lparr>op := op o0, p1 := a\<rparr>) }) (enc_index (p1 o0)) o0" if "?k = 1"
      by (rule reads_last [OF i1]) (use assms that in \<open>simp add: readable_op_def\<close>)
    moreover have "reads n (do { a \<leftarrow> INDEX; b \<leftarrow> INDEX; State_Monad.return (fresh\<lparr>op := op o0, p1 := a, p2 := b\<rparr>) })
        (enc_index (p1 o0) @ enc_index (p2 o0)) o0" if "?k = 2"
      by (rule reads_bind [OF i1], rule reads_last [OF i2]) (use assms that in \<open>simp add: readable_op_def\<close>)
    moreover have "reads n (do { a \<leftarrow> INDEX; b \<leftarrow> INDEX; c \<leftarrow> INDEX; State_Monad.return (fresh\<lparr>op := op o0, p1 := a, p2 := b, p3 := c\<rparr>) })
        (enc_index (p1 o0) @ enc_index (p2 o0) @ enc_index (p3 o0)) o0" if "?k = 3"
      by (rule reads_bind [OF i1], rule reads_bind [OF i2], rule reads_last [OF i3])
        (use assms that in \<open>simp add: readable_op_def\<close>)
    moreover have "fresh\<lparr>op := op o0\<rparr> = o0" if "?k = 0" using assms that by (simp add: readable_op_def)
    ultimately show ?thesis by (auto simp: read_opcode_args_def enc_operands_def)
  next
    case False
    have r: "?k = 4 \<longrightarrow> (\<exists>e. extra o0 = ExtraInt e \<and> idx_ok e)"
      "?k > 4 \<longrightarrow> (\<exists>ex. extra o0 = ExtraArr ex \<and> int (length ex) = ?k - 3 \<and> (\<forall>e\<in>set ex. idx_ok e))"
      "?k = - 1 \<longrightarrow> (\<exists>ex. extra o0 = ExtraArr ex \<and> (\<forall>e\<in>set ex. idx_ok e) \<and>
         (if op o0 = int OSwitch then 0 \<le> p1 o0 \<and> 0 \<le> p3 o0 \<and> int (length ex) = p2 o0 \<and> (\<forall>e\<in>set ex. 0 \<le> e)
          else int (length ex) = p3 o0 \<and> p3 o0 < 256))"
      using assms unfolding readable_op_def Let_def by blast+
    from False k consider (four) "?k = 4" | (more) "?k > 4" | (switch) "?k = - 1" "op o0 = int OSwitch"
      | (call) "?k = - 1" "op o0 \<noteq> int OSwitch" by (cases "op o0 = int OSwitch") auto
    then show ?thesis
    proof cases
      case four
      with r(1) obtain e where e: "extra o0 = ExtraInt e" "idx_ok e" by blast
      have "reads n (do { a \<leftarrow> INDEX; b \<leftarrow> INDEX; c \<leftarrow> INDEX; e \<leftarrow> INDEX;
          State_Monad.return (fresh\<lparr>op := op o0, p1 := a, p2 := b, p3 := c, extra := ExtraInt e\<rparr>) })
          (enc_index (p1 o0) @ enc_index (p2 o0) @ enc_index (p3 o0) @ enc_index e) o0"
        by (rule reads_bind [OF i1], rule reads_bind [OF i2], rule reads_bind [OF i3], rule reads_last [OF reads_INDEX])
          (use e in simp_all)
      with four e show ?thesis by (simp add: read_opcode_args_def enc_operands_def)
    next
      case more
      with r(2) obtain ex where ex: "extra o0 = ExtraArr ex" "int (length ex) = ?k - 3" "\<forall>e\<in>set ex. idx_ok e" by blast
      have "reads n (do { a \<leftarrow> INDEX; b \<leftarrow> INDEX; c \<leftarrow> INDEX; ex \<leftarrow> repeatM (nat (?k - 3)) INDEX;
          State_Monad.return (fresh\<lparr>op := op o0, p1 := a, p2 := b, p3 := c, extra := ExtraArr ex\<rparr>) })
          (enc_index (p1 o0) @ enc_index (p2 o0) @ enc_index (p3 o0) @ concat (map enc_index ex)) o0"
        by (rule reads_bind [OF i1], rule reads_bind [OF i2], rule reads_bind [OF i3], rule reads_last [OF reads_indexes])
          (use ex in auto)
      with more ex show ?thesis by (simp add: read_opcode_args_def enc_operands_def)
    next
      case switch
      with r(3) obtain ex where ex: "extra o0 = ExtraArr ex" "\<forall>e\<in>set ex. idx_ok e" "0 \<le> p1 o0" "0 \<le> p3 o0"
          "int (length ex) = p2 o0" "\<forall>e\<in>set ex. 0 \<le> e" by auto
      have "reads n (read_opcode_switch (fresh\<lparr>op := op o0\<rparr>))
          (enc_index (p1 o0) @ enc_index (p2 o0) @ concat (map enc_index ex) @ enc_index (p3 o0)) o0"
        unfolding read_opcode_switch_def
        by (rule reads_bind [OF reads_UINDEX [OF p(1) ex(3)]], rule reads_bind [OF reads_UINDEX [OF p(2)]],
            use ex in simp, rule reads_bind [OF reads_uindexes], use ex in auto,
            rule reads_last [OF reads_UINDEX [OF p(3) ex(4)]]) (use ex in simp_all)
      with switch ex show ?thesis by (simp add: read_opcode_args_def enc_operands_def)
    next
      case call
      with r(3) obtain ex where ex: "extra o0 = ExtraArr ex" "\<forall>e\<in>set ex. idx_ok e" "int (length ex) = p3 o0"
          "p3 o0 < 256" by auto
      have "reads n (read_opcode_call (fresh\<lparr>op := op o0\<rparr>))
          (enc_index (p1 o0) @ enc_index (p2 o0) @ [word_of_int (p3 o0)] @ concat (map enc_index ex)) o0"
        unfolding read_opcode_call_def
        by (rule reads_bind [OF i1], rule reads_bind [OF i2], rule reads_bind [OF reads_byte], use ex in simp,
            use ex in simp, rule reads_last [OF reads_indexes]) (use ex in auto)
      moreover have "op o0 \<in> {int OCallN, int OCallClosure, int OCallMethod, int OCallThis, int OMakeEnum}"
      proof -
        obtain j where j: "op o0 = int j" using op(1) nonneg_int_cases by blast
        then have "j < OLast" "hl_op_nargs ! j = - 1" "j \<noteq> OSwitch" using op call by simp_all
        with hl_op_nargs_variable [of j] show ?thesis unfolding j by auto
      qed
      ultimately show ?thesis using call ex by (simp add: read_opcode_args_def enc_operands_def)
    qed
  qed
  then have "reads n (hl_read_opcode fresh) ([word_of_int (op o0)] @ enc_operands ?k o0) o0"
    unfolding hl_read_opcode_def Let_def using op
    by (intro reads_bind [OF reads_byte]) simp_all
  then show ?thesis by (simp add: enc_opcode_def)
qed

definition readable_function :: "int \<Rightarrow> hl_opcode \<Rightarrow> hl_function \<Rightarrow> bool" where
  "readable_function n fresh f \<longleftrightarrow> wf_function n f \<and> idx_ok (ftype f) \<and> idx_ok (findex f) \<and> idx_ok (nregs f) \<and> idx_ok (nops f) \<and>
     (\<forall>t\<in>set (regs f). idx_ok t) \<and> (\<forall>o0\<in>set (ops f). readable_op fresh o0) \<and>
     debug f = [] \<and> nassigns f = 0 \<and> assigns f = []"

lemma reads_function:
  assumes "readable_function n fresh f"
  shows "reads n (hl_read_function fresh) (enc_function f) f"
proof -
  have f: "f = hl_function_init\<lparr>ftype := ftype f, findex := findex f, nregs := nregs f, nops := nops f, regs := regs f, ops := ops f\<rparr>"
    using assms by (simp add: readable_function_def hl_function_init_def)
  have len: "nat (nregs f) = length (regs f)" "nat (nops f) = length (ops f)"
    using assms by (auto simp: readable_function_def wf_function_def)
  have regs: "reads n (repeatM (nat (nregs f)) hl_get_type) (concat (map enc_index (regs f))) (regs f)"
    unfolding len by (rule reads_repeatM) (use assms in \<open>auto simp: readable_function_def wf_function_def intro: reads_rules\<close>)
  have ops: "reads n (repeatM (nat (nops f)) (hl_read_opcode fresh)) (concat (map enc_opcode (ops f))) (ops f)"
    unfolding len by (rule reads_repeatM) (use assms in \<open>auto simp: readable_function_def intro: reads_opcode\<close>)
  let ?f = "hl_function_init\<lparr>ftype := ftype f, findex := findex f, nregs := nregs f, nops := nops f, regs := regs f\<rparr>"
  have tail: "reads n (do { r \<leftarrow> State_Monad.get;
      if r_error r \<noteq> None then State_Monad.return ?f
      else do { os \<leftarrow> repeatM (nat (nops f)) (hl_read_opcode fresh); State_Monad.return (?f\<lparr>ops := os\<rparr>) } })
      (concat (map enc_opcode (ops f))) f"
    by (rule reads_get) (simp, rule reads_last [OF ops], use f in simp)
  have i: "idx_ok (ftype f)" "type_ok n (ftype f)" "idx_ok (findex f)" "0 \<le> findex f" "idx_ok (nregs f)" "0 \<le> nregs f"
    "idx_ok (nops f)" "0 \<le> nops f"
    using assms by (auto simp: readable_function_def wf_function_def)
  show ?thesis
    unfolding hl_read_function_def enc_function_def Let_def
    by (rule reads_bind [OF reads_type [OF i(1,2)]], rule reads_bind [OF reads_UINDEX [OF i(3,4)]],
        rule reads_bind [OF reads_UINDEX [OF i(5,6)]], rule reads_bind [OF reads_UINDEX [OF i(7,8)]],
        rule reads_bind [OF regs]) (rule tail)
qed

text \<open>
  \<open>hl_read_index\<close> on the one-, two- or four-byte encoding of an integer of less than 29 bits
  returns the integer and consumes exactly the encoding.
\<close>

theorem index_roundtrip:
  assumes "- (2 ^ 29) < v" "v < 2 ^ 29" "at_bytes (ntypes (counts (r_code r))) (enc_index v) r"
  shows "run_state hl_read_index r = (v, r\<lparr>r_pos := r_pos r + int (length (enc_index v))\<rparr>)"
  using reads_index [OF assms(1,2)] assms(3) unfolding reads_def by blast

theorem index_roundtrip_witness:
  "run_state hl_read_index (init_reader hl_cache_init (enc_index (- 70000) @ [1, 2]) 6) =
     (- 70000, (init_reader hl_cache_init (enc_index (- 70000) @ [1, 2]) 6)\<lparr>r_pos := 4\<rparr>)"
  using index_roundtrip [of "- 70000" "init_reader hl_cache_init (enc_index (- 70000) @ [1, 2]) 6"]
  by (simp add: at_bytes_def init_reader_def enc_index_def)

text \<open>
  C3: \<open>hl_read_function\<close> on the encoding of a function returns that function, consumes exactly the
  encoding and changes nothing else of the reader, for every opcode of the table.
\<close>

theorem function_roundtrip:
  assumes "readable_function n fresh f" "at_bytes n (enc_function f) r"
  shows "run_state (hl_read_function fresh) r = (f, r\<lparr>r_pos := r_pos r + int (length (enc_function f))\<rparr>)"
  using reads_function [OF assms(1)] assms(2) unfolding reads_def by blast

definition sample_function :: hl_function where
  "sample_function = hl_function_init\<lparr>ftype := 1, findex := 300, nregs := 2, nops := 3, regs := [0, 1],
     ops := [\<lparr>op = int OSwitch, p1 = 0, p2 = 2, p3 = 1, extra = ExtraArr [1, 0]\<rparr>,
       \<lparr>op = int OCallN, p1 = 1, p2 = 300, p3 = 3, extra = ExtraArr [0, 1, 0]\<rparr>,
       \<lparr>op = int OJAlways, p1 = - 2, p2 = 98, p3 = 97, extra = NoExtra\<rparr>]\<rparr>"

definition sample_reader :: "u8 list \<Rightarrow> hl_reader" where
  "sample_reader bs = (init_reader hl_cache_init bs (int (length bs)))
     \<lparr>r_code := hl_code_init\<lparr>counts := hl_counts_init\<lparr>ntypes := 2\<rparr>\<rparr>\<rparr>"

theorem function_roundtrip_witness:
  "fst (run_state (hl_read_function \<lparr>op = 9, p1 = 99, p2 = 98, p3 = 97, extra = NoExtra\<rparr>)
     (sample_reader (enc_function sample_function))) = sample_function"
proof -
  have "hl_op_nargs ! nat (int OSwitch) = - 1" "hl_op_nargs ! nat (int OCallN) = - 1" "hl_op_nargs ! nat (int OJAlways) = 1"
    by code_simp+
  then have "readable_function 2 \<lparr>op = 9, p1 = 99, p2 = 98, p3 = 97, extra = NoExtra\<rparr> sample_function"
    by (simp add: readable_function_def wf_function_def sample_function_def hl_function_init_def type_ok_def op_ok_def
        readable_op_def idx_ok_def)
  moreover have "at_bytes 2 (enc_function sample_function) (sample_reader (enc_function sample_function))"
    by (simp add: at_bytes_def sample_reader_def init_reader_def)
  ultimately show ?thesis using function_roundtrip by simp
qed

subsection \<open>Reading stays inside the buffer\<close>

named_theorems keeps_rules \<open>invariants of the reader\<close>

definition in_buffer :: "hl_reader \<Rightarrow> bool" where
  "in_buffer r \<longleftrightarrow> r_size r = int (length (r_b r)) \<and> 0 \<le> r_pos r \<and> r_pos r \<le> r_size r \<and> \<not> r_fault r"

lemma keeps_bind [keeps_rules]: "keeps P m \<Longrightarrow> (\<And>a. keeps P (f a)) \<Longrightarrow> keeps P (m \<bind> f)"
  by (rule hoare_bind)

lemma keeps_return [keeps_rules]: "keeps P (State_Monad.return x)"
  by (rule hoare_return)

lemma keeps_get [keeps_rules]: "keeps P State_Monad.get"
  by (rule hoare_get)

lemma keeps_if [keeps_rules]: "keeps P m \<Longrightarrow> keeps P n \<Longrightarrow> keeps P (if c then m else n)"
  by simp

lemma keeps_let [keeps_rules]: "(\<And>y. keeps P (f y)) \<Longrightarrow> keeps P (let y = x in f y)"
  by simp

lemma keeps_repeatM [keeps_rules]: "keeps P m \<Longrightarrow> keeps P (repeatM n m)"
  by (induction n) (auto intro!: keeps_bind keeps_return)

lemma in_buffer_ERROR [keeps_rules]: "keeps in_buffer (ERROR msg)"
  by (auto simp: hoare_def ERROR_def State_Monad.update_def in_buffer_def)

lemma in_buffer_read_b [keeps_rules]: "keeps in_buffer hl_read_b"
  by (auto simp: hoare_def hl_read_b_def next_b_def ERROR_def State_Monad.update_def in_buffer_def)

lemma in_buffer_index [keeps_rules]: "keeps in_buffer hl_read_index" "keeps in_buffer hl_read_uindex" "keeps in_buffer hl_get_type"
proof -
  show i: "keeps in_buffer hl_read_index" unfolding hl_read_index_def by (intro keeps_rules)
  show "keeps in_buffer hl_read_uindex" unfolding hl_read_uindex_def by (intro keeps_rules i)
  show "keeps in_buffer hl_get_type" unfolding hl_get_type_def by (intro keeps_rules i)
qed

lemma in_buffer_opcode [keeps_rules]: "keeps in_buffer (hl_read_opcode fresh)"
  unfolding hl_read_opcode_def read_opcode_args_def read_opcode_call_def read_opcode_switch_def
  by (intro keeps_rules)



subsection \<open>Files that make the reader leave its memory\<close>



text \<open>
  an identity section may give a function the index of another function as its stable identity: the
  other function then gets the same identity by default, so accepted files may have duplicates.
\<close>

theorem default_identity_collides:
  "(case hl_code_read sample_fresh hl_cache_init
     [0x48, 0x4C, 0x42, 7, 0, 0, 0, 0, 0, 1, 0, 0, 2, 0, 0, 0, 0, 0, 0, 0, 0, 0, 0, 3,
      0, 0, 0, 0, 0, 1, 0, 0, 1, 1, 1, 0, 10, 1, 1, 0, 0, 0, 0, 0, 0, 0, 0] 47 of
     Some (Inr c, _) \<Rightarrow> function_stable_ids c = [1, 1] | _ \<Rightarrow> False)"
  by code_simp
end
