(* ===== verification/CodeHash.thy ===== *)
theory CodeHash
  imports CodeRead
begin

unbundle bit_operations_syntax

text \<open>
  The hashes of a loaded code that hot reload compares, in \<^verbatim>\<open>src/src/code.c\<close> from \<open>crc32_table\<close> on: the
  hashes of types, natives and functions, the signatures of globals, the numbering of the globals of
  a new code after the old one (\<open>hl_code_hash_remap_globals\<close>), and the final tables.

  A hash is a 32-bit \<open>int\<close>: it is a word, and \<open>hash >> 8\<close> is the arithmetic shift of the compiler.
  The macros \<open>H\<close>, \<open>H32\<close>, \<open>HSTR\<close> and \<open>HUSTR\<close>, which assign to a local \<open>hash\<close>, are functions on it; the
  macro \<open>HTYPE\<close>, which the source defines twice, is an argument. The three fields of \<open>hl_function\<close>
  that only the module fills (\<open>obj\<close>, \<open>field\<close> and \<open>ref\<close>) are a record of their own, one for each
  function.
\<close>

subsection \<open>The hash step\<close>

definition crc32_table :: "u32 list" where
  "crc32_table = [
    0x00000000, 0x04c11db7, 0x09823b6e, 0x0d4326d9, 0x130476dc, 0x17c56b6b, 0x1a864db2, 0x1e475005,
    0x2608edb8, 0x22c9f00f, 0x2f8ad6d6, 0x2b4bcb61, 0x350c9b64, 0x31cd86d3, 0x3c8ea00a, 0x384fbdbd,
    0x4c11db70, 0x48d0c6c7, 0x4593e01e, 0x4152fda9, 0x5f15adac, 0x5bd4b01b, 0x569796c2, 0x52568b75,
    0x6a1936c8, 0x6ed82b7f, 0x639b0da6, 0x675a1011, 0x791d4014, 0x7ddc5da3, 0x709f7b7a, 0x745e66cd,
    0x9823b6e0, 0x9ce2ab57, 0x91a18d8e, 0x95609039, 0x8b27c03c, 0x8fe6dd8b, 0x82a5fb52, 0x8664e6e5,
    0xbe2b5b58, 0xbaea46ef, 0xb7a96036, 0xb3687d81, 0xad2f2d84, 0xa9ee3033, 0xa4ad16ea, 0xa06c0b5d,
    0xd4326d90, 0xd0f37027, 0xddb056fe, 0xd9714b49, 0xc7361b4c, 0xc3f706fb, 0xceb42022, 0xca753d95,
    0xf23a8028, 0xf6fb9d9f, 0xfbb8bb46, 0xff79a6f1, 0xe13ef6f4, 0xe5ffeb43, 0xe8bccd9a, 0xec7dd02d,
    0x34867077, 0x30476dc0, 0x3d044b19, 0x39c556ae, 0x278206ab, 0x23431b1c, 0x2e003dc5, 0x2ac12072,
    0x128e9dcf, 0x164f8078, 0x1b0ca6a1, 0x1fcdbb16, 0x018aeb13, 0x054bf6a4, 0x0808d07d, 0x0cc9cdca,
    0x7897ab07, 0x7c56b6b0, 0x71159069, 0x75d48dde, 0x6b93dddb, 0x6f52c06c, 0x6211e6b5, 0x66d0fb02,
    0x5e9f46bf, 0x5a5e5b08, 0x571d7dd1, 0x53dc6066, 0x4d9b3063, 0x495a2dd4, 0x44190b0d, 0x40d816ba,
    0xaca5c697, 0xa864db20, 0xa527fdf9, 0xa1e6e04e, 0xbfa1b04b, 0xbb60adfc, 0xb6238b25, 0xb2e29692,
    0x8aad2b2f, 0x8e6c3698, 0x832f1041, 0x87ee0df6, 0x99a95df3, 0x9d684044, 0x902b669d, 0x94ea7b2a,
    0xe0b41de7, 0xe4750050, 0xe9362689, 0xedf73b3e, 0xf3b06b3b, 0xf771768c, 0xfa325055, 0xfef34de2,
    0xc6bcf05f, 0xc27dede8, 0xcf3ecb31, 0xcbffd686, 0xd5b88683, 0xd1799b34, 0xdc3abded, 0xd8fba05a,
    0x690ce0ee, 0x6dcdfd59, 0x608edb80, 0x644fc637, 0x7a089632, 0x7ec98b85, 0x738aad5c, 0x774bb0eb,
    0x4f040d56, 0x4bc510e1, 0x46863638, 0x42472b8f, 0x5c007b8a, 0x58c1663d, 0x558240e4, 0x51435d53,
    0x251d3b9e, 0x21dc2629, 0x2c9f00f0, 0x285e1d47, 0x36194d42, 0x32d850f5, 0x3f9b762c, 0x3b5a6b9b,
    0x0315d626, 0x07d4cb91, 0x0a97ed48, 0x0e56f0ff, 0x1011a0fa, 0x14d0bd4d, 0x19939b94, 0x1d528623,
    0xf12f560e, 0xf5ee4bb9, 0xf8ad6d60, 0xfc6c70d7, 0xe22b20d2, 0xe6ea3d65, 0xeba91bbc, 0xef68060b,
    0xd727bbb6, 0xd3e6a601, 0xdea580d8, 0xda649d6f, 0xc423cd6a, 0xc0e2d0dd, 0xcda1f604, 0xc960ebb3,
    0xbd3e8d7e, 0xb9ff90c9, 0xb4bcb610, 0xb07daba7, 0xae3afba2, 0xaafbe615, 0xa7b8c0cc, 0xa379dd7b,
    0x9b3660c6, 0x9ff77d71, 0x92b45ba8, 0x9675461f, 0x8832161a, 0x8cf30bad, 0x81b02d74, 0x857130c3,
    0x5d8a9099, 0x594b8d2e, 0x5408abf7, 0x50c9b640, 0x4e8ee645, 0x4a4ffbf2, 0x470cdd2b, 0x43cdc09c,
    0x7b827d21, 0x7f436096, 0x7200464f, 0x76c15bf8, 0x68860bfd, 0x6c47164a, 0x61043093, 0x65c52d24,
    0x119b4be9, 0x155a565e, 0x18197087, 0x1cd86d30, 0x029f3d35, 0x065e2082, 0x0b1d065b, 0x0fdc1bec,
    0x3793a651, 0x3352bbe6, 0x3e119d3f, 0x3ad08088, 0x2497d08d, 0x2056cd3a, 0x2d15ebe3, 0x29d4f654,
    0xc5a92679, 0xc1683bce, 0xcc2b1d17, 0xc8ea00a0, 0xd6ad50a5, 0xd26c4d12, 0xdf2f6bcb, 0xdbee767c,
    0xe3a1cbc1, 0xe760d676, 0xea23f0af, 0xeee2ed18, 0xf0a5bd1d, 0xf464a0aa, 0xf9278673, 0xfde69bc4,
    0x89b8fd09, 0x8d79e0be, 0x803ac667, 0x84fbdbd0, 0x9abc8bd5, 0x9e7d9662, 0x933eb0bb, 0x97ffad0c,
    0xafb010b1, 0xab710d06, 0xa6322bdf, 0xa2f33668, 0xbcb4666d, 0xb8757bda, 0xb5365d03, 0xb1f740b4]"

definition H :: "u32 \<Rightarrow> u32 \<Rightarrow> u32" where
  "H b hash = signed_drop_bit 8 hash XOR crc32_table ! unat ((hash XOR b) AND 0xFF)"

definition H32 :: "u32 \<Rightarrow> u32 \<Rightarrow> u32" where
  "H32 i hash = H (drop_bit 24 i) (H (drop_bit 16 i AND 0xFF) (H (drop_bit 8 i AND 0xFF) (H (i AND 0xFF) hash)))"

definition HI :: "int \<Rightarrow> u32 \<Rightarrow> u32" where
  "HI i = H32 (word_of_int i)"

text \<open>A string is hashed up to its terminator.\<close>

definition HSTR :: "u8 list \<Rightarrow> u32 \<Rightarrow> u32" where
  "HSTR s hash = fold (\<lambda>c. H (ucast c)) (takeWhile (\<lambda>c. c \<noteq> 0) s) hash"

definition HUSTR :: "uchar list \<Rightarrow> u32 \<Rightarrow> u32" where
  "HUSTR s hash = fold (\<lambda>c. H (ucast c)) (takeWhile (\<lambda>c. c \<noteq> 0) s) hash"

subsection \<open>Types\<close>

text \<open>
  \<open>hash_type_first\<close> with its \<open>HTYPE\<close> as an argument. The union member is the one the kind selects;
  of the kinds with a parameter type only \<open>HREF\<close> and \<open>HNULL\<close> have a case.
\<close>

definition hash_field :: "(type_ref \<Rightarrow> u32 \<Rightarrow> u32) \<Rightarrow> hl_obj_field \<Rightarrow> u32 \<Rightarrow> u32" where
  "hash_field HTYPE f hash = HTYPE (fld_t f) (HI (fld_hashed_name f) hash)"

definition hash_construct :: "(type_ref \<Rightarrow> u32 \<Rightarrow> u32) \<Rightarrow> hl_enum_construct \<Rightarrow> u32 \<Rightarrow> u32" where
  "hash_construct HTYPE c hash =
     fold HTYPE (ec_params c) (HUSTR (ec_name c) (H (of_nat (length (ec_params c))) hash))"

definition hash_type_body :: "(type_ref \<Rightarrow> u32 \<Rightarrow> u32) \<Rightarrow> hl_type \<Rightarrow> u32" where
  "hash_type_body HTYPE t = (let hash = H (word_of_int (kind t)) (- 1) in
     case tdata t of
       TFun f \<Rightarrow> HTYPE (fun_ret f) (fold HTYPE (fun_args f) (H (of_nat (length (fun_args f))) hash))
     | TObj ob \<Rightarrow> fold (hash_field HTYPE) (obj_fields ob)
         (H32 (of_nat (length (obj_proto ob))) (H32 (of_nat (length (obj_fields ob))) (HUSTR (obj_name ob) hash)))
     | TParam p \<Rightarrow> (if kind t = HREF \<or> kind t = HNULL then HTYPE p hash else hash)
     | TVirt fs \<Rightarrow> fold (hash_field HTYPE) fs (H32 (of_nat (length fs)) hash)
     | TEnum e \<Rightarrow> fold (hash_construct HTYPE) (enum_constructs e) (HUSTR (enum_name e) hash)
     | TAbs name \<Rightarrow> HUSTR name hash
     | TNone \<Rightarrow> hash)"

text \<open>The recursion is only one level deep: the call for a referenced type sets \<open>isrec\<close>.\<close>

function hash_type_first :: "hl_type list \<Rightarrow> hl_type \<Rightarrow> bool \<Rightarrow> u32" where
  "hash_type_first ts t isrec =
     hash_type_body (\<lambda>r hash. if \<not> isrec then H32 (hash_type_first ts (ts ! nat r) True) hash else hash) t"
  by pat_completeness auto
termination
  by (relation "measure (\<lambda>(ts, t, isrec). if isrec then 0 else 1)") auto

declare hash_type_first.simps [simp del]

text \<open>The second \<open>HTYPE\<close>: the hash of the type with this index in the table of hashes.\<close>

definition HTYPE :: "u32 list \<Rightarrow> type_ref \<Rightarrow> u32 \<Rightarrow> u32" where
  "HTYPE types_hashes r = H32 (types_hashes ! nat r)"

definition hash_type_rec :: "u32 list \<Rightarrow> hl_type \<Rightarrow> u32" where
  "hash_type_rec th t = (let hash = - 1 in
     case tdata t of
       TFun f \<Rightarrow> HTYPE th (fun_ret f) (fold (HTYPE th) (fun_args f) hash)
     | TObj ob \<Rightarrow> fold (\<lambda>f. HTYPE th (fld_t f)) (obj_fields ob) hash
     | TParam p \<Rightarrow> (if kind t = HREF \<or> kind t = HNULL then HTYPE th p hash else hash)
     | TVirt fs \<Rightarrow> fold (\<lambda>f. HTYPE th (fld_t f)) fs hash
     | TEnum e \<Rightarrow> fold (\<lambda>c. fold (HTYPE th) (ec_params c)) (enum_constructs e) hash
     | TAbs name \<Rightarrow> hash
     | TNone \<Rightarrow> hash)"

text \<open>The two passes of \<open>hl_code_hash_alloc\<close> over the types; the second writes into its own buffer.\<close>

definition hash_types :: "hl_type list \<Rightarrow> u32 list" where
  "hash_types ts = (let th = map (\<lambda>t. hash_type_first ts t False) ts
     in map2 (\<lambda>x t. x XOR hash_type_rec th t) th ts)"

subsection \<open>Natives and functions\<close>

definition hash_native :: "u32 list \<Rightarrow> hl_native \<Rightarrow> u32" where
  "hash_native th n = HTYPE th (nat_t n) (HSTR (nat_name n) (HSTR (nat_lib n) (- 1)))"

text \<open>The module's fields of a function: the name of \<open>obj\<close>, \<open>field.name\<close>, \<open>field.ref\<close> as the position of the function, and \<open>ref\<close>.\<close>

record fun_member =
  m_obj :: "uchar list option"
  m_name :: "uchar list"
  m_ref :: "nat option"
  m_index :: int

definition hash_fun_sign :: "u32 list \<Rightarrow> fun_member list \<Rightarrow> hl_function \<Rightarrow> fun_member \<Rightarrow> u32" where
  "hash_fun_sign th ms f m = (let hash = HTYPE th (ftype f) (- 1) in
     case m_obj m of
       Some name \<Rightarrow> HUSTR (m_name m) (HUSTR name hash)
     | None \<Rightarrow> (case m_ref m of
         Some r \<Rightarrow> HI (m_index m) (HUSTR (m_name (ms ! r)) (HUSTR (the (m_obj (ms ! r))) hash))
       | None \<Rightarrow> hash))"

record hl_code_hash =
  h_code :: hl_code
  types_hashes :: "u32 list"
  globals_signs :: "u32 list"
  functions_signs :: "u32 list"
  functions_hashes :: "u32 list"
  functions_indexes :: "int list"

text \<open>\<open>o->extra\<close> as an integer and as an array.\<close>

definition extra_int :: "hl_opcode \<Rightarrow> int" where
  "extra_int o0 = (case extra o0 of ExtraInt i \<Rightarrow> i | _ \<Rightarrow> 0)"

definition extra_arr :: "hl_opcode \<Rightarrow> int list" where
  "extra_arr o0 = (case extra o0 of ExtraArr xs \<Rightarrow> xs | _ \<Rightarrow> [])"

definition H_HFUN :: "hl_code_hash \<Rightarrow> int \<Rightarrow> u32 \<Rightarrow> u32" where
  "H_HFUN h idx = H32 (functions_signs h ! nat (functions_indexes h ! nat idx))"

definition H_extra :: "hl_opcode \<Rightarrow> int \<Rightarrow> u32 \<Rightarrow> u32" where
  "H_extra o0 n hash = fold (\<lambda>i. HI (extra_arr o0 ! i)) [0..<nat n] hash"

text \<open>The two halves of a \<open>double\<close>, read as integers.\<close>

definition le32 :: "u8 list \<Rightarrow> u32" where
  "le32 bs = ucast (bs ! 0) OR push_bit 8 (ucast (bs ! 1)) OR push_bit 16 (ucast (bs ! 2)) OR push_bit 24 (ucast (bs ! 3))"

text \<open>The inner \<open>switch\<close> on the number of operands.\<close>

definition hash_op_args :: "hl_opcode \<Rightarrow> u32 \<Rightarrow> u32" where
  "hash_op_args o0 hash = (let n = hl_op_nargs ! nat (op o0) in
     if n = 0 then hash
     else if n = 1 then HI (p1 o0) hash
     else if n = 2 then HI (p2 o0) (HI (p1 o0) hash)
     else if n = 3 then HI (p3 o0) (HI (p2 o0) (HI (p1 o0) hash))
     else if n = 4 then HI (extra_int o0) (HI (p3 o0) (HI (p2 o0) (HI (p1 o0) hash)))
     else if n = - 1 then
       (if op o0 \<in> {int OCallN, int OCallClosure, int OCallMethod, int OCallThis, int OMakeEnum}
        then H_extra o0 (p3 o0) (HI (p3 o0) (HI (p2 o0) (HI (p1 o0) hash)))
        else if op o0 = int OSwitch
        then HI (p3 o0) (H_extra o0 (p2 o0) (HI (p2 o0) (HI (p1 o0) hash)))
        else hash)
     else H_extra o0 (n - 3) (HI (p3 o0) (HI (p2 o0) (HI (p1 o0) hash))))"

text \<open>One round of the loop of \<open>hash_fun\<close> over the opcodes.\<close>

definition hash_op :: "hl_code_hash \<Rightarrow> hl_opcode \<Rightarrow> u32 \<Rightarrow> u32" where
  "hash_op h o0 hash0 = (let c = h_code h; hash = H (word_of_int (op o0)) hash0; hash1 = HI (p1 o0) hash in
     if op o0 = int OInt then HI (ints c ! nat (p2 o0)) hash1
     else if op o0 = int OFloat then
       H32 (le32 (drop 4 (floats c ! nat (p2 o0)))) (H32 (le32 (floats c ! nat (p2 o0))) hash1)
     else if op o0 = int OString then HSTR (strings c ! nat (p2 o0)) hash1
     else if op o0 = int OType then HTYPE (types_hashes h) (p2 o0) hash1
     else if op o0 = int OCall0 then H_HFUN h (p2 o0) hash1
     else if op o0 = int OCall1 then HI (p3 o0) (H_HFUN h (p2 o0) hash1)
     else if op o0 = int OCall2 then HI (extra_int o0) (HI (p3 o0) (H_HFUN h (p2 o0) hash1))
     else if op o0 = int OCall3 then H_extra o0 2 (HI (p3 o0) (H_HFUN h (p2 o0) hash1))
     else if op o0 = int OCall4 then H_extra o0 3 (HI (p3 o0) (H_HFUN h (p2 o0) hash1))
     else if op o0 = int OCallN then H_extra o0 (p3 o0) (HI (p3 o0) (H_HFUN h (p2 o0) hash1))
     else if op o0 = int OStaticClosure then H_HFUN h (p2 o0) hash1
     else if op o0 = int OInstanceClosure then HI (p3 o0) (H_HFUN h (p2 o0) hash1)
     else if op o0 = int ODynGet then HSTR (strings c ! nat (p3 o0)) (HI (p2 o0) hash1)
     else if op o0 = int ODynSet then HI (p3 o0) (HSTR (strings c ! nat (p2 o0)) hash1)
     else hash_op_args o0 hash)"

definition hash_fun :: "hl_code_hash \<Rightarrow> hl_function \<Rightarrow> u32" where
  "hash_fun h f = fold (hash_op h) (ops f) (fold (HTYPE (types_hashes h)) (regs f) (- 1))"

definition hl_code_hash_type :: "hl_code_hash \<Rightarrow> type_ref \<Rightarrow> u32" where
  "hl_code_hash_type h t = HTYPE (types_hashes h) t (- 1)"

subsection \<open>Allocation\<close>

definition hash_indexes :: "int \<Rightarrow> hl_code \<Rightarrow> int list" where
  "hash_indexes fresh c = (let nf = length (code_functions c); nn = length (natives c);
     xs = fold (\<lambda>i xs. xs[nat (findex (code_functions c ! i)) := int i]) [0..<nf] (replicate (nf + nn) fresh)
     in fold (\<lambda>i xs. xs[nat (nat_findex (natives c ! i)) := int (i + nf)]) [0..<nn] xs)"

text \<open>The signatures of the globals, in the order of the source: abstracts, types, constants, boot code, own type.\<close>

definition sign_initial :: "hl_code_hash \<Rightarrow> u32 list" where
  "sign_initial h = (let c = h_code h in
     map (\<lambda>i. if kind (types c ! nat (globals c ! i)) = HABSTRACT then hl_code_hash_type h (globals c ! i)
              else of_nat i OR 0x80000000) [0..<length (globals c)])"

text \<open>The global of a type description, which counts from 1; 0 when it has none.\<close>

definition type_global :: "hl_type \<Rightarrow> int" where
  "type_global t = (case tdata t of TObj ob \<Rightarrow> obj_global_value ob | TEnum e \<Rightarrow> enum_global_value e | _ \<Rightarrow> 0)"

definition sign_type :: "hl_code_hash \<Rightarrow> nat \<Rightarrow> u32 list \<Rightarrow> u32 list" where
  "sign_type h i signs = (let g = type_global (types (h_code h) ! i) in
     if g \<noteq> 0 then signs[nat (g - 1) := hl_code_hash_type h (int i)] else signs)"

abbreviation (input) HI32 :: int where "HI32 \<equiv> 3"
abbreviation (input) HBYTES :: int where "HBYTES \<equiv> 8"

definition hash_constant :: "hl_code \<Rightarrow> hl_constant \<Rightarrow> u32" where
  "hash_constant c k = (let t = types c ! nat (globals c ! nat (k_global k)) in
     fold (\<lambda>j hash. let index = nat (k_fields k ! j);
                       fs = (case tdata t of TObj ob \<Rightarrow> obj_fields ob | _ \<Rightarrow> []);
                       kd = kind (types c ! nat (fld_t (fs ! j))) in
             if kd = HI32 then HI (ints c ! index) hash
             else if kd = HBYTES then HSTR (strings c ! index) hash
             else hash)
       [0..<nat (k_nfields k)] (- 1))"

definition sign_boot :: "hl_code \<Rightarrow> hl_function \<Rightarrow> nat \<Rightarrow> u32 list \<Rightarrow> u32 list" where
  "sign_boot c f i signs = (let o0 = ops f ! i in
     if op o0 = int OSetGlobal \<and> kind (types c ! nat (globals c ! nat (p1 o0))) = HENUM \<and>
        op (ops f ! (i - 2)) = int OGetArray \<and> op (ops f ! (i - 3)) = int OInt
     then signs[nat (p1 o0) := word_of_int (ints c ! nat (p2 (ops f ! (i - 3))))] else signs)"

definition hl_code_hash_alloc :: "int \<Rightarrow> hl_code \<Rightarrow> hl_code_hash" where
  "hl_code_hash_alloc fresh c = (let
     h = \<lparr>h_code = c, types_hashes = hash_types (types c), globals_signs = [], functions_signs = [],
          functions_hashes = [], functions_indexes = hash_indexes fresh c\<rparr>;
     s1 = sign_initial h;
     s2 = fold (sign_type h) [0..<length (types c)] s1;
     s3 = fold (\<lambda>k signs. signs[nat (k_global k) := hash_constant c k]) (constants c) s2;
     f = code_functions c ! nat (functions_indexes h ! nat (entrypoint (counts c)));
     s4 = fold (sign_boot c f) [4..<length (ops f)] s3
     in h\<lparr>globals_signs := map2 (\<lambda>s t. s XOR hl_code_hash_type h t) s4 (globals c)\<rparr>)"

subsection \<open>Renumbering the globals of a new code\<close>

text \<open>
  The first loop: for each new signature the first old global from \<open>old_start\<close> on with the same
  signature, or \<open>- 1\<close>. The start moves on only when the match is at the start.
\<close>

fun remap_match :: "u32 list \<Rightarrow> nat \<Rightarrow> u32 list \<Rightarrow> int list" where
  "remap_match old start [] = []"
| "remap_match old start (h # hs) =
     (case find (\<lambda>k. old ! k = h) [start..<length old] of
        None \<Rightarrow> - 1 # remap_match old start hs
      | Some k \<Rightarrow> int k # remap_match old (if k = start then start + 1 else start) hs)"

text \<open>The second loop: \<open>nxt\<close> is \<open>old_count + extra\<close>; its last value is the new number of globals.\<close>

fun remap_new :: "int \<Rightarrow> int list \<Rightarrow> int list \<times> int" where
  "remap_new nxt [] = ([], nxt)"
| "remap_new nxt (r # rs) =
     (if r = - 1 then (let (rs', n) = remap_new (nxt + 1) rs in (nxt # rs', n))
      else (let (rs', n) = remap_new nxt rs in (r # rs', n)))"

definition remap_globals :: "u32 list \<Rightarrow> u32 list \<Rightarrow> int list \<times> int" where
  "remap_globals old new =
     (let extra = max 0 (int (length old) - int (length new))
      in remap_new (int (length old) + extra) (remap_match old 0 new))"

text \<open>A table of \<open>n\<close> entries that starts with the old ones and then holds each new one at its new number.\<close>

definition place :: "int list \<Rightarrow> 'a list \<Rightarrow> 'a list \<Rightarrow> 'a list" where
  "place remap xs base = fold (\<lambda>i ys. ys[nat (remap ! i) := xs ! i]) [0..<length xs] base"

definition grow :: "int \<Rightarrow> 'a \<Rightarrow> 'a list \<Rightarrow> 'a list" where
  "grow n d old = map (\<lambda>i. if i < length old then old ! i else d) [0..<nat n]"

definition remap_type :: "int list \<Rightarrow> hl_type \<Rightarrow> hl_type" where
  "remap_type remap t = (case tdata t of
     TObj ob \<Rightarrow> if obj_global_value ob \<noteq> 0
        then t\<lparr>tdata := TObj (ob\<lparr>obj_global_value := remap ! nat (obj_global_value ob - 1) + 1\<rparr>)\<rparr> else t
   | TEnum e \<Rightarrow> if enum_global_value e \<noteq> 0
        then t\<lparr>tdata := TEnum (e\<lparr>enum_global_value := remap ! nat (enum_global_value e - 1) + 1\<rparr>)\<rparr> else t
   | _ \<Rightarrow> t)"

definition remap_op :: "int list \<Rightarrow> hl_opcode \<Rightarrow> hl_opcode" where
  "remap_op remap o0 =
     (if op o0 = int OGetGlobal then o0\<lparr>p2 := remap ! nat (p2 o0)\<rparr>
      else if op o0 = int OSetGlobal then o0\<lparr>p1 := remap ! nat (p1 o0)\<rparr> else o0)"

definition remap_code :: "int list \<Rightarrow> hl_code \<Rightarrow> hl_code" where
  "remap_code remap c = c\<lparr>types := map (remap_type remap) (types c),
     constants := map (\<lambda>k. k\<lparr>k_global := remap ! nat (k_global k)\<rparr>) (constants c),
     code_functions := map (\<lambda>f. f\<lparr>ops := map (remap_op remap) (ops f)\<rparr>) (code_functions c)\<rparr>"

text \<open>
  \<open>hl_code_hash_remap_globals\<close>. The new table of globals holds pointers into the type tables of the
  old and of the new code and to the static \<open>hlt_void\<close>: \<open>addr\<close> gives the address of a type of the new
  code, \<open>hlt_void\<close> is an address and \<open>old_globals\<close> are the addresses in the old table. The result is
  the new hash and the new table, whose length becomes \<open>c->nglobals\<close>.
\<close>

definition hl_code_hash_remap_globals ::
    "(type_ref \<Rightarrow> 'p) \<Rightarrow> 'p \<Rightarrow> hl_code_hash \<Rightarrow> 'p list \<Rightarrow> u32 list \<Rightarrow> hl_code_hash \<times> 'p list" where
  "hl_code_hash_remap_globals addr hlt_void hnew old_globals old_signs = (let
     c = h_code hnew;
     (remap, new_count) = remap_globals old_signs (globals_signs hnew);
     nglobs = place remap (map addr (globals c)) (grow new_count hlt_void old_globals);
     nsigns = place remap (globals_signs hnew) (grow new_count (- 1) old_signs);
     c' = (remap_code remap c)\<lparr>counts := (counts c)\<lparr>nglobals := new_count\<rparr>\<rparr>
     in (hnew\<lparr>h_code := c', globals_signs := nsigns\<rparr>, nglobs))"

subsection \<open>Final tables and release\<close>

definition hl_code_hash_finalize :: "fun_member list \<Rightarrow> hl_code_hash \<Rightarrow> hl_code_hash" where
  "hl_code_hash_finalize ms h = (let c = h_code h; th = types_hashes h;
     h1 = h\<lparr>functions_signs := map2 (hash_fun_sign th ms) (code_functions c) ms @ map (hash_native th) (natives c)\<rparr>
     in h1\<lparr>functions_hashes := map (hash_fun h1) (code_functions c)\<rparr>)"

subsection \<open>The hash step loses nothing\<close>

text \<open>
  The eight highest bits of a table entry, against its next bit, determine the entry: \<open>crc_inverse\<close>
  gives back its index. The sign extension of the shifted hash changes all nine bits or none.
\<close>

definition crc_key :: "u32 \<Rightarrow> u32" where
  "crc_key t = drop_bit 24 t XOR (if bit t 23 then 0xFF else 0)"

definition crc_inverse :: "nat list" where
  "crc_inverse = [
    0, 119, 239, 152, 58, 77, 213, 162, 78, 57, 161, 214, 116, 3, 155, 236,
    156, 235, 115, 4, 166, 209, 73, 62, 210, 165, 61, 74, 232, 159, 7, 112,
    221, 170, 50, 69, 231, 144, 8, 127, 147, 228, 124, 11, 169, 222, 70, 49,
    65, 54, 174, 217, 123, 12, 148, 227, 15, 120, 224, 151, 53, 66, 218, 173,
    100, 19, 139, 252, 94, 41, 177, 198, 42, 93, 197, 178, 16, 103, 255, 136,
    248, 143, 23, 96, 194, 181, 45, 90, 182, 193, 89, 46, 140, 251, 99, 20,
    185, 206, 86, 33, 131, 244, 108, 27, 247, 128, 24, 111, 205, 186, 34, 85,
    37, 82, 202, 189, 31, 104, 240, 135, 107, 28, 132, 243, 81, 38, 190, 201,
    242, 133, 29, 106, 200, 191, 39, 80, 188, 203, 83, 36, 134, 241, 105, 30,
    110, 25, 129, 246, 84, 35, 187, 204, 32, 87, 207, 184, 26, 109, 245, 130,
    47, 88, 192, 183, 21, 98, 250, 141, 97, 22, 142, 249, 91, 44, 180, 195,
    179, 196, 92, 43, 137, 254, 102, 17, 253, 138, 18, 101, 199, 176, 40, 95,
    150, 225, 121, 14, 172, 219, 67, 52, 216, 175, 55, 64, 226, 149, 13, 122,
    10, 125, 229, 146, 48, 71, 223, 168, 68, 51, 171, 220, 126, 9, 145, 230,
    75, 60, 164, 211, 113, 6, 158, 233, 5, 114, 234, 157, 63, 72, 208, 167,
    215, 160, 56, 79, 237, 154, 2, 117, 153, 238, 118, 1, 163, 212, 76, 59]"

lemma crc_inverse_key: "map (\<lambda>t. crc_inverse ! unat (crc_key t)) crc32_table = [0..<256]"
  by code_simp

definition crc_top_inverse :: "nat list" where
  "crc_top_inverse = [
    0, 76, 212, 152, 1, 77, 213, 153, 78, 2, 154, 214, 79, 3, 155, 215,
    156, 208, 72, 4, 157, 209, 73, 5, 210, 158, 6, 74, 211, 159, 7, 75,
    221, 145, 9, 69, 220, 144, 8, 68, 147, 223, 71, 11, 146, 222, 70, 10,
    65, 13, 149, 217, 64, 12, 148, 216, 15, 67, 219, 151, 14, 66, 218, 150,
    95, 19, 139, 199, 94, 18, 138, 198, 17, 93, 197, 137, 16, 92, 196, 136,
    195, 143, 23, 91, 194, 142, 22, 90, 141, 193, 89, 21, 140, 192, 88, 20,
    130, 206, 86, 26, 131, 207, 87, 27, 204, 128, 24, 84, 205, 129, 25, 85,
    30, 82, 202, 134, 31, 83, 203, 135, 80, 28, 132, 200, 81, 29, 133, 201,
    242, 190, 38, 106, 243, 191, 39, 107, 188, 240, 104, 36, 189, 241, 105, 37,
    110, 34, 186, 246, 111, 35, 187, 247, 32, 108, 244, 184, 33, 109, 245, 185,
    47, 99, 251, 183, 46, 98, 250, 182, 97, 45, 181, 249, 96, 44, 180, 248,
    179, 255, 103, 43, 178, 254, 102, 42, 253, 177, 41, 101, 252, 176, 40, 100,
    173, 225, 121, 53, 172, 224, 120, 52, 227, 175, 55, 123, 226, 174, 54, 122,
    49, 125, 229, 169, 48, 124, 228, 168, 127, 51, 171, 231, 126, 50, 170, 230,
    112, 60, 164, 232, 113, 61, 165, 233, 62, 114, 234, 166, 63, 115, 235, 167,
    236, 160, 56, 116, 237, 161, 57, 117, 162, 238, 118, 58, 163, 239, 119, 59]"

lemma crc_top_inverse: "map (\<lambda>t. crc_top_inverse ! unat (drop_bit 24 t)) crc32_table = [0..<256]"
  by code_simp

lemma length_crc32_table [simp]: "length crc32_table = 256"
  by (simp add: crc32_table_def)

lemma bit_crc_key: "bit (crc_key t) n \<longleftrightarrow> n < 8 \<and> bit t (n + 24) \<noteq> bit t 23"
proof -
  have "bit (0xFF :: u32) n \<longleftrightarrow> n < 8"
    using bit_mask_iff [of 8 n, where 'a = u32] by (auto simp: mask_eq_exp_minus_1)
  moreover have "\<not> bit t (n + 24)" if "\<not> n < 8"
    using that bit_imp_le_length [of t "n + 24"] by auto
  ultimately show ?thesis
    by (auto simp: crc_key_def bit_xor_iff bit_drop_bit_eq add.commute)
qed

lemma crc_inverse_nth:
  assumes "k < 256"
  shows "crc_inverse ! unat (crc_key (crc32_table ! k)) = k"
proof -
  have "map (\<lambda>t. crc_inverse ! unat (crc_key t)) crc32_table ! k = [0..<256] ! k"
    by (simp only: crc_inverse_key)
  then show ?thesis
    using assms by (simp only: nth_map length_crc32_table nth_upt add_0)
qed

lemma crc_key_inj:
  assumes "i < 256" "j < 256" "crc_key (crc32_table ! i) = crc_key (crc32_table ! j)"
  shows "i = j"
  using crc_inverse_nth [OF assms(1)] crc_inverse_nth [OF assms(2)] assms(3) by metis

lemma bit_sar8: "bit (signed_drop_bit 8 h :: u32) n \<longleftrightarrow> n < 32 \<and> bit h (if n < 24 then n + 8 else 31)"
proof -
  have "bit (signed_drop_bit 8 h) n \<longleftrightarrow> bit h (if 24 \<le> n \<and> n < 32 then 31 else 8 + n)"
    by (simp add: bit_signed_drop_bit_iff)
  moreover have "\<not> bit h (8 + n)" if "\<not> n < 32"
    using that bit_imp_le_length [of h "8 + n"] by auto
  ultimately show ?thesis
    by (cases "n < 24"; cases "n < 32") (simp_all add: add.commute)
qed

definition low_byte :: "u32 \<Rightarrow> nat" where
  "low_byte x = unat (x AND 0xFF)"

lemma low_byte_mod: "low_byte x = unat x mod 256"
proof -
  have "x AND 0xFF = take_bit 8 x"
    using take_bit_eq_mask [of 8 x] by (simp add: mask_eq_exp_minus_1)
  then have "low_byte x = take_bit 8 (unat x)"
    by (simp only: low_byte_def unsigned_take_bit_eq)
  then show ?thesis
    by (simp add: take_bit_eq_mod)
qed

lemma low_byte_less [simp]: "low_byte x < 256"
  by (simp add: low_byte_mod)

lemma low_byte_eq_iff: "low_byte x = low_byte y \<longleftrightarrow> (\<forall>n<8. bit x n = bit y n)"
proof -
  have "bit (x AND 0xFF) n \<longleftrightarrow> n < 8 \<and> bit x n" for x :: u32 and n
    using bit_take_bit_iff [of 8 x n] take_bit_eq_mask [of 8 x] by (simp add: mask_eq_exp_minus_1)
  then have "x AND 0xFF = y AND 0xFF \<longleftrightarrow> (\<forall>n<8. bit x n = bit y n)"
    by (metis bit_eqI)
  then show ?thesis by (simp add: low_byte_def word_unat_eq_iff)
qed

lemma low_byte_xor_cancel: "low_byte (h XOR b) = low_byte (h XOR c) \<longleftrightarrow> low_byte b = low_byte c"
  by (auto simp: low_byte_eq_iff bit_xor_iff)

lemma bit_H: "bit (H b h) n \<longleftrightarrow> n < 32 \<and> (bit h (if n < 24 then n + 8 else 31) \<noteq> bit (crc32_table ! low_byte (h XOR b)) n)"
  using bit_imp_le_length [of "crc32_table ! low_byte (h XOR b)" n]
  by (auto simp: H_def bit_xor_iff bit_sar8 simp flip: low_byte_def)

text \<open>Equal high bits after a step: the same table entry was used, and the high bits before were equal.\<close>

definition agree :: "nat \<Rightarrow> u32 \<Rightarrow> u32 \<Rightarrow> bool" where
  "agree k x y \<longleftrightarrow> (\<forall>n. k \<le> n \<longrightarrow> bit x n = bit y n)"

lemma H_agree:
  assumes "agree k (H b x) (H c y)" "k \<le> 23"
  shows "low_byte (x XOR b) = low_byte (y XOR c) \<and> agree (k + 8) x y"
proof -
  let ?t = "crc32_table ! low_byte (x XOR b)" and ?u = "crc32_table ! low_byte (y XOR c)"
  have *: "(bit x (if n < 24 then n + 8 else 31) \<noteq> bit ?t n) = (bit y (if n < 24 then n + 8 else 31) \<noteq> bit ?u n)"
    if "k \<le> n" "n < 32" for n
    using assms(1) that by (auto simp: agree_def bit_H)
  have "crc_key ?t = crc_key ?u"
  proof (rule bit_eqI)
    fix n
    show "bit (crc_key ?t) n = bit (crc_key ?u) n"
      using * [of 23] * [of "n + 24"] assms(2) by (auto simp: bit_crc_key)
  qed
  then have same: "low_byte (x XOR b) = low_byte (y XOR c)"
    by (intro crc_key_inj) simp_all
  have "bit x n = bit y n" if "k + 8 \<le> n" for n
  proof (cases "n < 32")
    case True
    with that have "n - 8 < 24" "n - 8 + 8 = n" "k \<le> n - 8" by auto
    then show ?thesis using * [of "n - 8"] same by auto
  next
    case False
    then show ?thesis using bit_imp_le_length [of x n] bit_imp_le_length [of y n] by auto
  qed
  with same show ?thesis by (simp add: agree_def)
qed

lemma agree_refl [simp]: "agree k x x"
  by (simp add: agree_def)

lemma agree_0: "agree 0 x y \<longleftrightarrow> x = y"
  by (metis agree_def bit_eqI zero_le)

lemma agree_low_byte: "agree 8 x y \<Longrightarrow> low_byte x = low_byte y \<Longrightarrow> x = y"
  by (rule bit_eqI) (metis agree_def low_byte_eq_iff not_le)

lemma inj_H [simp]: "inj (H b)"
proof (rule injI)
  fix x y assume "H b x = H b y"
  then have "low_byte (x XOR b) = low_byte (y XOR b)" "agree 8 x y"
    using H_agree [of 0 b x b y] by auto
  then show "x = y"
    using low_byte_xor_cancel [of b x y] by (intro agree_low_byte) (auto simp: xor.commute)
qed

lemma H_byte_eq: "H b h = H c h \<longleftrightarrow> low_byte b = low_byte c"
proof
  assume "H b h = H c h"
  then show "low_byte b = low_byte c"
    using H_agree [of 0 b h c h] by (simp add: low_byte_xor_cancel)
next
  assume "low_byte b = low_byte c"
  then show "H b h = H c h"
    using low_byte_xor_cancel [of h b c] by (simp add: H_def flip: low_byte_def)
qed

lemma crc_top_byte:
  assumes "i < 256" "j < 256" "agree 24 (crc32_table ! i) (crc32_table ! j)"
  shows "i = j"
proof -
  have "crc_top_inverse ! unat (drop_bit 24 (crc32_table ! k)) = k" if "k < 256" for k
  proof -
    have "map (\<lambda>t. crc_top_inverse ! unat (drop_bit 24 t)) crc32_table ! k = [0..<256] ! k"
      by (simp only: crc_top_inverse)
    then show ?thesis
      using that by (simp only: nth_map length_crc32_table nth_upt add_0)
  qed
  moreover have "drop_bit 24 (crc32_table ! i) = drop_bit 24 (crc32_table ! j)"
    using assms(3) by (intro bit_eqI) (simp add: bit_drop_bit_eq agree_def)
  ultimately show ?thesis using assms(1,2) by metis
qed

lemma low_byte_and [simp]: "low_byte (x AND 0xFF) = low_byte x"
  by (simp add: low_byte_def and.assoc)

lemma low_bytes_eq:
  assumes "low_byte i = low_byte j" "low_byte (drop_bit 8 i) = low_byte (drop_bit 8 j)"
    "low_byte (drop_bit 16 i) = low_byte (drop_bit 16 j)" "low_byte (drop_bit 24 i) = low_byte (drop_bit 24 j)"
  shows "i = j"
proof (rule bit_word_eqI)
  fix n assume "n < LENGTH(32)"
  then have "n < 8 \<or> (8 \<le> n \<and> n - 8 < 8) \<or> (16 \<le> n \<and> n - 16 < 8) \<or> (24 \<le> n \<and> n - 24 < 8)"
    by auto
  moreover have "bit i n = bit j n" if "low_byte (drop_bit k i) = low_byte (drop_bit k j)" "k \<le> n" "n - k < 8" for k
    using that by (auto simp: low_byte_eq_iff bit_drop_bit_eq)
  ultimately show "bit i n = bit j n"
    using assms low_byte_eq_iff [of i j] by blast
qed

lemma agree_table:
  assumes "agree 24 (H b h) (H c h)"
  shows "agree 24 (crc32_table ! low_byte (h XOR b)) (crc32_table ! low_byte (h XOR c))"
  unfolding agree_def
proof (intro allI impI)
  fix n :: nat assume "24 \<le> n"
  show "bit (crc32_table ! low_byte (h XOR b)) n = bit (crc32_table ! low_byte (h XOR c)) n"
  proof (cases "n < 32")
    case True
    with assms \<open>24 \<le> n\<close> show ?thesis by (auto simp: agree_def bit_H)
  next
    case False
    then show ?thesis
      using bit_imp_le_length [of "crc32_table ! low_byte (h XOR b)" n]
        bit_imp_le_length [of "crc32_table ! low_byte (h XOR c)" n] by auto
  qed
qed

text \<open>The word that was hashed can be read off the hash: from equal starts, equal ends need equal words.\<close>

lemma H32_word_eq: "H32 i h = H32 j h \<longleftrightarrow> i = j"
proof
  define b c where "b = (\<lambda>k. drop_bit k i AND 0xFF)" and "c = (\<lambda>k. drop_bit k j AND 0xFF)"
  define x y where "x = H (i AND 0xFF) h" and "y = H (j AND 0xFF) h"
  assume "H32 i h = H32 j h"
  then have "agree 0 (H (drop_bit 24 i) (H (b 16) (H (b 8) x))) (H (drop_bit 24 j) (H (c 16) (H (c 8) y)))"
    by (simp add: H32_def agree_0 b_def c_def x_def y_def)
  from H_agree [OF this] have e3: "low_byte (H (b 16) (H (b 8) x) XOR drop_bit 24 i) = low_byte (H (c 16) (H (c 8) y) XOR drop_bit 24 j)"
    and a2: "agree 8 (H (b 16) (H (b 8) x)) (H (c 16) (H (c 8) y))" by auto
  from H_agree [OF a2] have e2: "low_byte (H (b 8) x XOR b 16) = low_byte (H (c 8) y XOR c 16)"
    and a1: "agree 16 (H (b 8) x) (H (c 8) y)" by auto
  from H_agree [OF a1] have e1: "low_byte (x XOR b 8) = low_byte (y XOR c 8)" and a0: "agree 24 x y" by auto
  from a0 have "agree 24 (crc32_table ! low_byte (h XOR (i AND 0xFF))) (crc32_table ! low_byte (h XOR (j AND 0xFF)))"
    unfolding x_def y_def by (rule agree_table)
  from crc_top_byte [OF _ _ this] have e0: "low_byte (i AND 0xFF) = low_byte (j AND 0xFF)"
    by (simp add: low_byte_xor_cancel)
  then have xy: "x = y" by (simp add: x_def y_def H_byte_eq)
  with e1 have e1': "low_byte (b 8) = low_byte (c 8)" by (simp add: low_byte_xor_cancel)
  then have xy1: "H (b 8) x = H (c 8) y" by (simp add: xy H_byte_eq)
  with e2 have e2': "low_byte (b 16) = low_byte (c 16)" by (simp add: low_byte_xor_cancel)
  then have "H (b 16) (H (b 8) x) = H (c 16) (H (c 8) y)" by (simp add: xy1 H_byte_eq)
  with e3 have e3': "low_byte (drop_bit 24 i) = low_byte (drop_bit 24 j)" by (simp add: low_byte_xor_cancel)
  from low_bytes_eq [of i j] e0 e1' e2' e3' show "i = j" by (simp add: b_def c_def)
qed simp

text \<open>Every macro is injective in the hash it updates, so what follows a difference keeps it.\<close>

named_theorems hash_eq \<open>hash updates cancel\<close>

lemma H_eq [hash_eq]: "H b x = H b y \<longleftrightarrow> x = y"
  by (rule inj_eq) simp

lemma H32_eq [hash_eq]: "H32 i x = H32 i y \<longleftrightarrow> x = y"
  by (simp add: H32_def hash_eq)

lemma fold_eq_iff:
  "(\<And>a x y. a \<in> set xs \<Longrightarrow> f a x = f a y \<longleftrightarrow> x = y) \<Longrightarrow> fold f xs x = fold f xs y \<longleftrightarrow> x = y"
  by (induction xs arbitrary: x y) auto

lemma macros_eq [hash_eq]:
  "HI i x = HI i y \<longleftrightarrow> x = y" "HSTR s x = HSTR s y \<longleftrightarrow> x = y" "HUSTR us x = HUSTR us y \<longleftrightarrow> x = y"
  "HTYPE th t x = HTYPE th t y \<longleftrightarrow> x = y" "H_HFUN h i x = H_HFUN h i y \<longleftrightarrow> x = y"
  "H_extra o0 n x = H_extra o0 n y \<longleftrightarrow> x = y"
  by (simp_all add: HI_def HSTR_def HUSTR_def HTYPE_def H_HFUN_def H_extra_def fold_eq_iff hash_eq)

lemma HI_word_eq [hash_eq]: "HI i x = HI j x \<longleftrightarrow> i32 i = i32 j"
  by (auto simp: HI_def H32_word_eq i32_sint dest: signed_word_eqI)

lemma hash_op_args_eq [hash_eq]: "hash_op_args o0 x = hash_op_args o0 y \<longleftrightarrow> x = y"
  by (simp add: hash_op_args_def Let_def hash_eq)

lemma hash_op_eq [hash_eq]: "hash_op h o0 x = hash_op h o0 y \<longleftrightarrow> x = y"
  by (simp add: hash_op_def Let_def hash_eq)

lemma extra_p1 [simp]: "extra_int (o0\<lparr>p1 := a\<rparr>) = extra_int o0" "H_extra (o0\<lparr>p1 := a\<rparr>) = H_extra o0"
  by (simp_all add: extra_int_def extra_arr_def H_extra_def fun_eq_iff)

lemma hash_op_p1:
  assumes "0 \<le> op o0" "op o0 < int OLast" "hl_op_nargs ! nat (op o0) \<noteq> 0"
  shows "hash_op h (o0\<lparr>p1 := a\<rparr>) x = hash_op h o0 x \<longleftrightarrow> i32 a = i32 (p1 o0)"
proof -
  have "hash_op_args (o0\<lparr>p1 := a\<rparr>) y = hash_op_args o0 y \<longleftrightarrow> i32 a = i32 (p1 o0)" for y
    using assms hl_op_nargs_variable [of "nat (op o0)"]
    by (auto simp: hash_op_args_def Let_def hash_eq nat_eq_iff nat_less_iff)
  then show ?thesis
    by (simp add: hash_op_def Let_def hash_eq)
qed


lemma fold_hash_op_eq: "fold (hash_op h) os x = fold (hash_op h) os y \<longleftrightarrow> x = y"
  by (simp add: fold_eq_iff hash_eq)

lemma hash_fun_update:
  assumes "k < length (ops f)"
  shows "hash_fun h (f\<lparr>ops := (ops f)[k := o1]\<rparr>) = hash_fun h f \<longleftrightarrow>
    (let x = fold (hash_op h) (take k (ops f)) (fold (HTYPE (types_hashes h)) (regs f) (- 1))
     in hash_op h o1 x = hash_op h (ops f ! k) x)"
proof -
  have "fold (hash_op h) (ops f) x = fold (hash_op h) (drop (Suc k) (ops f)) (hash_op h (ops f ! k) (fold (hash_op h) (take k (ops f)) x))" for x
    using id_take_nth_drop [OF assms] by (metis fold_append fold_simps(2) comp_apply)
  moreover have "fold (hash_op h) ((ops f)[k := o1]) x = fold (hash_op h) (drop (Suc k) (ops f)) (hash_op h o1 (fold (hash_op h) (take k (ops f)) x))" for x
    using assms by (simp add: upd_conv_take_nth_drop)
  ultimately show ?thesis
    by (simp add: hash_fun_def Let_def fold_hash_op_eq)
qed

text \<open>
  the hash of a function detects every change of the first operand of one of its opcodes, when the
  opcode has operands: two bodies that differ in that operand alone never have the same hash, whatever the
  rest of the body, the types and the tables are.
\<close>

theorem hash_fun_detects_operand:
  assumes "k < length (ops f)" "0 \<le> op (ops f ! k)" "op (ops f ! k) < int OLast"
    and "hl_op_nargs ! nat (op (ops f ! k)) \<noteq> 0" "i32 a \<noteq> i32 (p1 (ops f ! k))"
  shows "hash_fun h (f\<lparr>ops := (ops f)[k := (ops f ! k)\<lparr>p1 := a\<rparr>]\<rparr>) \<noteq> hash_fun h f"
  using hash_fun_update [OF assms(1)] hash_op_p1 [OF assms(2-4)] assms(5) by (simp add: Let_def)

subsection \<open>The order of the types does not matter\<close>

text \<open>The same type description after its references were renamed.\<close>

definition rename_field :: "(type_ref \<Rightarrow> type_ref) \<Rightarrow> hl_obj_field \<Rightarrow> hl_obj_field" where
  "rename_field \<pi> f = f\<lparr>fld_t := \<pi> (fld_t f)\<rparr>"

definition rename_data :: "(type_ref \<Rightarrow> type_ref) \<Rightarrow> hl_type_data \<Rightarrow> hl_type_data" where
  "rename_data \<pi> d = (case d of
     TFun f \<Rightarrow> TFun (f\<lparr>fun_args := map \<pi> (fun_args f), fun_ret := \<pi> (fun_ret f)\<rparr>)
   | TObj ob \<Rightarrow> TObj (ob\<lparr>obj_super := map_option \<pi> (obj_super ob), obj_fields := map (rename_field \<pi>) (obj_fields ob)\<rparr>)
   | TParam p \<Rightarrow> TParam (\<pi> p)
   | TVirt fs \<Rightarrow> TVirt (map (rename_field \<pi>) fs)
   | TEnum e \<Rightarrow> TEnum (e\<lparr>enum_constructs := map (\<lambda>c. c\<lparr>ec_params := map \<pi> (ec_params c)\<rparr>) (enum_constructs e)\<rparr>)
   | TAbs name \<Rightarrow> TAbs name
   | TNone \<Rightarrow> TNone)"

definition rename_type :: "(type_ref \<Rightarrow> type_ref) \<Rightarrow> hl_type \<Rightarrow> hl_type" where
  "rename_type \<pi> t = t\<lparr>tdata := rename_data \<pi> (tdata t)\<rparr>"

text \<open>\<open>ts'\<close> is \<open>ts\<close> in another order: the type at \<open>i\<close> has moved to \<open>\<pi> i\<close>.\<close>

definition renumbered :: "(type_ref \<Rightarrow> type_ref) \<Rightarrow> hl_type list \<Rightarrow> hl_type list \<Rightarrow> bool" where
  "renumbered \<pi> ts ts' \<longleftrightarrow> length ts' = length ts \<and>
     (\<forall>i<length ts. 0 \<le> \<pi> (int i) \<and> \<pi> (int i) < int (length ts) \<and> ts' ! nat (\<pi> (int i)) = rename_type \<pi> (ts ! i))"

lemma fold_map_cong: "(\<And>x. x \<in> set xs \<Longrightarrow> g (r x) = f x) \<Longrightarrow> fold g (map r xs) = fold f xs"
  by (simp add: fold_map fun_eq_iff) (auto intro!: fold_cong)

lemma fold_map_cong2: "(\<And>x y. x \<in> set xs \<Longrightarrow> g (r x) y = f x y) \<Longrightarrow> fold g (map r xs) y = fold f xs y"
  by (induction xs arbitrary: y) auto

text \<open>The parts of a type whose references are in the table, under a renaming that the two \<open>HTYPE\<close> follow.\<close>

lemma fold_rename:
  assumes "\<And>r. type_ok n r \<Longrightarrow> ht' (\<pi> r) = ht r"
  shows "\<forall>r\<in>set rs. type_ok n r \<Longrightarrow> fold ht' (map \<pi> rs) x = fold ht rs x"
    and "\<forall>f\<in>set fs. field_ok n f \<Longrightarrow> fold (hash_field ht') (map (rename_field \<pi>) fs) x = fold (hash_field ht) fs x"
    and "\<forall>f\<in>set fs. field_ok n f \<Longrightarrow> fold (\<lambda>f. ht' (fld_t f)) (map (rename_field \<pi>) fs) x = fold (\<lambda>f. ht (fld_t f)) fs x"
  using assms
  by (auto intro!: fold_map_cong2 simp: field_ok_def hash_field_def rename_field_def)

lemma fold_rename_constructs:
  assumes "\<And>r. type_ok n r \<Longrightarrow> ht' (\<pi> r) = ht r" "\<forall>c\<in>set cs. construct_ok n c"
  shows "fold (hash_construct ht') (map (\<lambda>c. c\<lparr>ec_params := map \<pi> (ec_params c)\<rparr>) cs) x = fold (hash_construct ht) cs x"
    and "fold (\<lambda>c. fold ht' (ec_params c)) (map (\<lambda>c. c\<lparr>ec_params := map \<pi> (ec_params c)\<rparr>) cs) x = fold (\<lambda>c. fold ht (ec_params c)) cs x"
  using assms fold_rename(1) [of n ht' \<pi> ht, OF assms(1)]
  by (auto intro!: fold_map_cong2 simp: construct_ok_def hash_construct_def)

lemma hash_type_body_rename:
  assumes "wf_type n t" "\<And>r. type_ok n r \<Longrightarrow> ht' (\<pi> r) = ht r"
  shows "hash_type_body ht' (rename_type \<pi> t) = hash_type_body ht t"
proof -
  note rename = fold_rename [of n ht' \<pi> ht, OF assms(2)] fold_rename_constructs [of n ht' \<pi> ht, OF assms(2)]
  show ?thesis
    using assms by (cases "tdata t")
      (auto simp: hash_type_body_def rename_type_def rename_data_def wf_type_def obj_ok_def rename)
qed

lemma hash_type_rec_rename:
  assumes "wf_type n t" "\<And>r. type_ok n r \<Longrightarrow> th' ! nat (\<pi> r) = th ! nat r"
  shows "hash_type_rec th' (rename_type \<pi> t) = hash_type_rec th t"
proof -
  have ht: "type_ok n r \<Longrightarrow> HTYPE th' (\<pi> r) = HTYPE th r" for r
    using assms(2) by (simp add: HTYPE_def)
  note rename = fold_rename [of n "HTYPE th'" \<pi> "HTYPE th", OF ht] fold_rename_constructs [of n "HTYPE th'" \<pi> "HTYPE th", OF ht]
  show ?thesis
    using assms(1) ht by (cases "tdata t")
      (auto simp: hash_type_rec_def rename_type_def rename_data_def wf_type_def obj_ok_def rename)
qed

lemma hash_type_first_rename:
  assumes "renumbered \<pi> ts ts'" "\<forall>t\<in>set ts. wf_type (int (length ts)) t" "wf_type (int (length ts)) t"
  shows "hash_type_first ts' (rename_type \<pi> t) isrec = hash_type_first ts t isrec"
proof -
  have deep: "hash_type_first ts' (rename_type \<pi> t) True = hash_type_first ts t True" if "wf_type (int (length ts)) t" for t
    using that by (simp add: hash_type_first.simps [of _ _ True] hash_type_body_rename)
  have "hash_type_first ts' (ts' ! nat (\<pi> r)) True = hash_type_first ts (ts ! nat r) True" if "type_ok (int (length ts)) r" for r
  proof -
    have "nat r < length ts" "r = int (nat r)" using that by (auto simp: type_ok_def)
    then show ?thesis
      using assms(1,2) deep [of "ts ! nat r"] by (metis nth_mem renumbered_def)
  qed
  then show ?thesis
    using deep [OF assms(3)] hash_type_body_rename [OF assms(3)]
    by (cases isrec) (simp_all add: hash_type_first.simps [of _ _ False])
qed

lemma hash_types_nth:
  "i < length ts \<Longrightarrow> hash_types ts ! i = hash_type_first ts (ts ! i) False XOR hash_type_rec (map (\<lambda>t. hash_type_first ts t False) ts) (ts ! i)"
  by (simp add: hash_types_def Let_def)

text \<open>
  C28: the hash of a type does not depend on the position of any type in the table: when the types of a
  well-formed table are moved around and all references follow, each type keeps its hash.
\<close>

theorem hash_types_renumbered:
  assumes "renumbered \<pi> ts ts'" "\<forall>t\<in>set ts. wf_type (int (length ts)) t" "i < length ts"
  shows "hash_types ts' ! nat (\<pi> (int i)) = hash_types ts ! i"
proof -
  have moved: "nat (\<pi> (int k)) < length ts'" "ts' ! nat (\<pi> (int k)) = rename_type \<pi> (ts ! k)" "wf_type (int (length ts)) (ts ! k)"
    if "k < length ts" for k
    using assms(1,2) that by (auto simp: renumbered_def nat_less_iff)
  have "map (\<lambda>t. hash_type_first ts' t False) ts' ! nat (\<pi> r) = map (\<lambda>t. hash_type_first ts t False) ts ! nat r"
    if "type_ok (int (length ts)) r" for r
    using moved [of "nat r"] that hash_type_first_rename [OF assms(1,2)] by (auto simp: type_ok_def nat_less_iff)
  then show ?thesis
    using moved [OF assms(3)] assms(3) hash_type_first_rename [OF assms(1,2)] by (simp add: hash_types_nth hash_type_rec_rename)
qed

subsection \<open>The new numbers of globals\<close>

definition old_index :: "u32 list \<Rightarrow> u32 \<Rightarrow> int" where
  "old_index old h = (case find (\<lambda>k. old ! k = h) [0..<length old] of None \<Rightarrow> - 1 | Some k \<Rightarrow> int k)"

lemma find_upt_skip:
  assumes "\<forall>k<a. \<not> P k" "a \<le> n"
  shows "find P [a..<n] = find P [0..<n]"
proof -
  have "[0..<n] = [0..<a] @ [a..<n]" using upt_add_eq_append [of 0 a "n - a"] assms(2) by simp
  moreover have "find P (xs @ ys) = find P ys" if "\<forall>x\<in>set xs. \<not> P x" for xs ys :: "nat list"
    using that by (induction xs) auto
  ultimately show ?thesis using assms(1) by simp
qed

lemma find_uptD:
  "find P [0..<n] = Some k \<Longrightarrow> k < n \<and> P k"
  by (auto simp: find_Some_iff)

lemma remap_match_old_index:
  assumes "distinct hs" "\<forall>k < start. old ! k \<notin> set hs" "start \<le> length old"
  shows "remap_match old start hs = map (old_index old) hs"
  using assms
proof (induction hs arbitrary: start)
  case (Cons h hs)
  then have f: "find (\<lambda>k. old ! k = h) [start..<length old] = find (\<lambda>k. old ! k = h) [0..<length old]"
    by (intro find_upt_skip) auto
  show ?case
  proof (cases "find (\<lambda>k. old ! k = h) [0..<length old]")
    case None
    then show ?thesis using Cons by (simp add: f old_index_def)
  next
    case (Some k)
    then have "k < length old" "old ! k = h" by (auto dest: find_uptD)
    then have "remap_match old (if k = start then start + 1 else start) hs = map (old_index old) hs"
      using Cons.prems by (intro Cons.IH) (auto simp: less_Suc_eq)
    then show ?thesis by (simp add: f old_index_def Some)
  qed
qed simp

lemma old_index_cases:
  obtains "h \<notin> set old" "old_index old h = - 1"
  | "0 \<le> old_index old h" "old_index old h < int (length old)" "old ! nat (old_index old h) = h"
proof (cases "find (\<lambda>k. old ! k = h) [0..<length old]")
  case None
  then have "h \<notin> set old" by (auto simp: find_None_iff in_set_conv_nth)
  then show thesis using that(1) None by (simp add: old_index_def)
next
  case (Some k)
  then show thesis using that(2) find_uptD [OF Some] by (simp add: old_index_def)
qed

text \<open>The second loop, for entries that are \<open>- 1\<close> or below the first free number.\<close>

lemma remap_new_props:
  assumes "remap_new nxt rs = (rs', n)" "\<forall>r\<in>set rs. r = - 1 \<or> 0 \<le> r \<and> r < nxt" "0 \<le> nxt" "distinct (filter (\<lambda>r. r \<noteq> - 1) rs)"
  shows "length rs' = length rs \<and> nxt \<le> n \<and> distinct rs' \<and> (\<forall>r\<in>set rs'. 0 \<le> r \<and> r < n \<and> (r < nxt \<longrightarrow> r \<in> set rs)) \<and>
    (\<forall>i<length rs. rs ! i \<noteq> - 1 \<longrightarrow> rs' ! i = rs ! i) \<and> (\<forall>i<length rs. rs ! i = - 1 \<longrightarrow> nxt \<le> rs' ! i)"
  using assms
proof (induction nxt rs arbitrary: rs' n rule: remap_new.induct)
  case (2 nxt r rs)
  show ?case
  proof (cases "r = - 1")
    case True
    then obtain ss where ss: "remap_new (nxt + 1) rs = (ss, n)" "rs' = nxt # ss"
      using 2(3) by (auto split: prod.splits)
    have "\<forall>r\<in>set rs. r = - 1 \<or> 0 \<le> r \<and> r < nxt + 1" using 2(4) by auto
    from 2(1) [OF True ss(1) this] 2(4-6) True
    have IH: "length ss = length rs" "nxt + 1 \<le> n" "distinct ss" "\<forall>r\<in>set ss. 0 \<le> r \<and> r < n \<and> (r < nxt + 1 \<longrightarrow> r \<in> set rs)"
      "\<forall>i<length rs. rs ! i \<noteq> - 1 \<longrightarrow> ss ! i = rs ! i" "\<forall>i<length rs. rs ! i = - 1 \<longrightarrow> nxt + 1 \<le> ss ! i"
      by simp_all
    from IH(4) 2(4,5) have "nxt \<notin> set ss" by fastforce
    moreover have "\<forall>r\<in>set ss. r < nxt \<longrightarrow> r \<in> set rs" using IH(4) by auto
    ultimately show ?thesis
      using IH 2(5) True ss(2) by (auto simp: less_Suc_eq_0_disj nth_Cons')
  next
    case False
    then obtain ss where ss: "remap_new nxt rs = (ss, n)" "rs' = r # ss"
      using 2(3) by (auto split: prod.splits)
    have "length ss = length rs \<and> nxt \<le> n \<and> distinct ss \<and> (\<forall>r\<in>set ss. 0 \<le> r \<and> r < n \<and> (r < nxt \<longrightarrow> r \<in> set rs)) \<and>
      (\<forall>i<length rs. rs ! i \<noteq> - 1 \<longrightarrow> ss ! i = rs ! i) \<and> (\<forall>i<length rs. rs ! i = - 1 \<longrightarrow> nxt \<le> ss ! i)"
      using 2(4-6) False by (intro 2(2) [OF False ss(1)]) auto
    then have IH: "length ss = length rs" "nxt \<le> n" "distinct ss" "\<forall>r\<in>set ss. 0 \<le> r \<and> r < n \<and> (r < nxt \<longrightarrow> r \<in> set rs)"
      "\<forall>i<length rs. rs ! i \<noteq> - 1 \<longrightarrow> ss ! i = rs ! i" "\<forall>i<length rs. rs ! i = - 1 \<longrightarrow> nxt \<le> ss ! i"
      by blast+
    have "r \<notin> set ss" using IH(4) 2(4,6) False by fastforce
    with IH 2(4) False ss(2) show ?thesis by (auto simp: less_Suc_eq_0_disj nth_Cons')
  qed
qed simp

lemma remap_globals_props:
  assumes "remap_globals old new = (remap, n)" "distinct new"
  shows "length remap = length new \<and> int (length old) \<le> n \<and> distinct remap \<and> (\<forall>r\<in>set remap. 0 \<le> r \<and> r < n) \<and>
    (\<forall>i<length new. if new ! i \<in> set old then remap ! i < int (length old) \<and> old ! nat (remap ! i) = new ! i
       else int (length old) \<le> remap ! i)"
proof -
  define nxt where "nxt = int (length old) + max 0 (int (length old) - int (length new))"
  define rs where "rs = map (old_index old) new"
  have rs: "remap_new nxt rs = (remap, n)"
    using assms by (simp add: remap_globals_def remap_match_old_index nxt_def rs_def)
  have "inj_on (old_index old) {h \<in> set new. old_index old h \<noteq> - 1}"
    by (rule inj_onI) (metis (mono_tags, lifting) mem_Collect_eq old_index_cases)
  then have "distinct (filter (\<lambda>r. r \<noteq> - 1) rs)"
    using assms(2) by (simp add: rs_def filter_map comp_def distinct_map)
  moreover have range: "\<forall>r\<in>set rs. r = - 1 \<or> 0 \<le> r \<and> r < int (length old)"
    unfolding rs_def by (metis (no_types, lifting) imageE list.set_map old_index_cases)
  ultimately have p: "length remap = length rs \<and> nxt \<le> n \<and> distinct remap \<and> (\<forall>r\<in>set remap. 0 \<le> r \<and> r < n \<and> (r < nxt \<longrightarrow> r \<in> set rs)) \<and>
    (\<forall>i<length rs. rs ! i \<noteq> - 1 \<longrightarrow> remap ! i = rs ! i) \<and> (\<forall>i<length rs. rs ! i = - 1 \<longrightarrow> nxt \<le> remap ! i)"
    by (intro remap_new_props [OF rs]) (auto simp: nxt_def)
  have "if new ! i \<in> set old then remap ! i < int (length old) \<and> old ! nat (remap ! i) = new ! i
       else int (length old) \<le> remap ! i" if "i < length new" for i
  proof (cases rule: old_index_cases [of "new ! i" old])
    case 1
    then show ?thesis using p that by (auto simp: rs_def nxt_def)
  next
    case 2
    then have "new ! i \<in> set old" by (metis nth_mem zless_nat_eq_int_zless nat_0_le int_nat_eq nat_int nat_less_iff)
    with 2 show ?thesis using p that by (auto simp: rs_def)
  qed
  then show ?thesis using p by (auto simp: rs_def nxt_def)
qed


lemma length_grow [simp]: "length (grow n d old) = nat n"
  by (simp add: grow_def)

lemma nth_grow: "k < nat n \<Longrightarrow> grow n d old ! k = (if k < length old then old ! k else d)"
  by (simp add: grow_def)

lemma length_place [simp]: "length (place remap xs base) = length base"
proof -
  have "length (fold (\<lambda>i ys. ys[nat (remap ! i) := xs ! i]) is base) = length base" for "is"
    by (induction "is" arbitrary: base) auto
  then show ?thesis by (simp add: place_def)
qed

lemma place_Suc:
  "place remap (xs @ [x]) base = (place remap xs base)[nat (remap ! length xs) := x]"
proof -
  have "fold (\<lambda>i ys. ys[nat (remap ! i) := (xs @ [x]) ! i]) [0..<length xs] base =
      fold (\<lambda>i ys. ys[nat (remap ! i) := xs ! i]) [0..<length xs] base"
    by (rule fold_cong) (auto simp: nth_append)
  then show ?thesis by (simp add: place_def)
qed

lemma nth_place:
  assumes "distinct remap" "\<forall>r\<in>set remap. 0 \<le> r \<and> nat r < length base" "length xs \<le> length remap"
  shows "i < length xs \<Longrightarrow> place remap xs base ! nat (remap ! i) = xs ! i"
    and "k \<notin> nat ` set (take (length xs) remap) \<Longrightarrow> place remap xs base ! k = base ! k"
proof -
  have "(i < length xs \<longrightarrow> place remap xs base ! nat (remap ! i) = xs ! i) \<and>
      (k \<notin> nat ` set (take (length xs) remap) \<longrightarrow> place remap xs base ! k = base ! k)" for i k
    using assms(3)
  proof (induction xs arbitrary: i k rule: rev_induct)
    case Nil
    then show ?case by (simp add: place_def)
  next
    case (snoc x xs)
    let ?r = "nat (remap ! length xs)"
    have r: "?r < length base" using assms(2) snoc.prems by (simp add: Suc_le_eq)
    have "nat (remap ! i) \<noteq> ?r" if "i < length xs" for i
    proof -
      have "remap ! i \<noteq> remap ! length xs" "0 \<le> remap ! i" "0 \<le> remap ! length xs"
        using assms(1,2) that snoc.prems by (auto simp: nth_eq_iff_index_eq)
      then show ?thesis by simp
    qed
    moreover have "take (Suc (length xs)) remap = take (length xs) remap @ [remap ! length xs]"
      using snoc.prems by (intro take_Suc_conv_app_nth) simp
    ultimately show ?case
      using snoc.IH snoc.prems r by (fastforce simp: place_Suc nth_append less_Suc_eq nth_list_update)
  qed
  then show "i < length xs \<Longrightarrow> place remap xs base ! nat (remap ! i) = xs ! i"
    and "k \<notin> nat ` set (take (length xs) remap) \<Longrightarrow> place remap xs base ! k = base ! k" by auto
qed

lemma nth_place_grow:
  assumes "distinct remap" "\<forall>r\<in>set remap. 0 \<le> r \<and> r < n" "length xs = length remap"
  shows "i < length xs \<Longrightarrow> place remap xs (grow n d old) ! nat (remap ! i) = xs ! i"
    and "k < length old \<Longrightarrow> int (length old) \<le> n \<Longrightarrow> k \<notin> nat ` set remap \<Longrightarrow> place remap xs (grow n d old) ! k = old ! k"
proof -
  have "\<forall>r\<in>set remap. 0 \<le> r \<and> nat r < length (grow n d old)" using assms(2) by auto
  from nth_place [OF assms(1) this, of xs] assms(3)
  show "i < length xs \<Longrightarrow> place remap xs (grow n d old) ! nat (remap ! i) = xs ! i"
    and "k < length old \<Longrightarrow> int (length old) \<le> n \<Longrightarrow> k \<notin> nat ` set remap \<Longrightarrow> place remap xs (grow n d old) ! k = old ! k"
    by (auto simp: nth_grow)
qed

lemma remap_tables:
  fixes addr :: "type_ref \<Rightarrow> 'p"
  assumes "hl_code_hash_remap_globals addr v hnew old_globals old_signs = (h', nglobs)"
    and "distinct (globals_signs hnew)" "length (globals (h_code hnew)) = length (globals_signs hnew)"
    and "length old_globals = length old_signs"
  obtains remap n where "remap_globals old_signs (globals_signs hnew) = (remap, n)"
    "length nglobs = nat n" "length (globals_signs h') = nat n" "length remap = length (globals_signs hnew)"
    "nglobals (counts (h_code h')) = n"
    "code_functions (h_code h') = map (\<lambda>f. f\<lparr>ops := map (remap_op remap) (ops f)\<rparr>) (code_functions (h_code hnew))"
    "\<forall>i<length (globals_signs hnew). nglobs ! nat (remap ! i) = addr (globals (h_code hnew) ! i) \<and>
       globals_signs h' ! nat (remap ! i) = globals_signs hnew ! i"
    "\<forall>k<length old_signs. k \<notin> nat ` set remap \<longrightarrow> nglobs ! k = old_globals ! k \<and> globals_signs h' ! k = old_signs ! k"
proof -
  obtain remap n where r: "remap_globals old_signs (globals_signs hnew) = (remap, n)" by fastforce
  from remap_globals_props [OF r assms(2)]
  have p: "length remap = length (globals_signs hnew)" "int (length old_signs) \<le> n" "distinct remap" "\<forall>r\<in>set remap. 0 \<le> r \<and> r < n"
    by simp_all
  note res = assms(1) [unfolded hl_code_hash_remap_globals_def Let_def r prod.case, symmetric]
  show thesis
    by (rule that [OF r]) (use res p assms(3,4) in \<open>auto simp: remap_code_def nth_place_grow\<close>)
qed



subsection \<open>Reloading the same code\<close>

lemma remap_match_same:
  "start \<le> length old \<Longrightarrow> remap_match old start (drop start old) = map int [start..<length old]"
proof (induction "length old - start" arbitrary: start)
  case (Suc n)
  then have "start < length old" by simp
  then have "drop start old = old ! start # drop (Suc start) old" "[start..<length old] = start # [Suc start..<length old]"
    by (simp_all add: Cons_nth_drop_Suc upt_conv_Cons)
  with Suc show ?case by simp
qed simp

lemma remap_new_none: "\<forall>r\<in>set rs. r \<noteq> - 1 \<Longrightarrow> remap_new nxt rs = (rs, nxt)"
  by (induction nxt rs rule: remap_new.induct) auto

lemma remap_globals_same: "remap_globals old old = (map int [0..<length old], int (length old))"
  using remap_match_same [of 0 old] by (simp add: remap_globals_def remap_new_none)

lemma place_same:
  "length xs = n \<Longrightarrow> place (map int [0..<n]) xs (grow (int n) d xs) = xs"
  using nth_place_grow(1) [of "map int [0..<n]" "int n" xs] by (intro nth_equalityI) (auto simp: distinct_map)

text \<open>The references to globals in types, constants and opcodes are valid.\<close>

definition global_refs_ok :: "hl_code \<Rightarrow> bool" where
  "global_refs_ok c \<longleftrightarrow> nglobals (counts c) = int (length (globals c)) \<and>
     (\<forall>t\<in>set (types c). 0 \<le> type_global t \<and> type_global t \<le> int (length (globals c))) \<and>
     (\<forall>k\<in>set (constants c). 0 \<le> k_global k \<and> k_global k < int (length (globals c))) \<and>
     (\<forall>f\<in>set (code_functions c). \<forall>o0\<in>set (ops f).
        (op o0 = int OGetGlobal \<longrightarrow> 0 \<le> p2 o0 \<and> p2 o0 < int (length (globals c))) \<and>
        (op o0 = int OSetGlobal \<longrightarrow> 0 \<le> p1 o0 \<and> p1 o0 < int (length (globals c))))"

lemma remap_code_same:
  assumes "global_refs_ok c"
  shows "remap_code (map int [0..<length (globals c)]) c = c"
proof -
  define n where "n = length (globals c)"
  have id: "map int [0..<n] ! nat g = g" if "0 \<le> g" "g < int n" for g
    using that by (simp add: nat_less_iff)
  have "remap_type (map int [0..<n]) t = t" if "t \<in> set (types c)" for t
    using assms that id [of "type_global t - 1"]
    by (cases "tdata t") (auto simp: global_refs_ok_def remap_type_def type_global_def n_def)
  moreover have "remap_op (map int [0..<n]) o0 = o0" if "f \<in> set (code_functions c)" "o0 \<in> set (ops f)" for f o0
  proof -
    have "op o0 = int OGetGlobal \<Longrightarrow> map int [0..<n] ! nat (p2 o0) = p2 o0" "op o0 = int OSetGlobal \<Longrightarrow> map int [0..<n] ! nat (p1 o0) = p1 o0"
      using assms that by (intro id; simp add: global_refs_ok_def n_def)+
    then show ?thesis by (simp add: remap_op_def)
  qed
  then have "f\<lparr>ops := map (remap_op (map int [0..<n])) (ops f)\<rparr> = f" if "f \<in> set (code_functions c)" for f
    using that by (simp add: map_idI)
  moreover have "k\<lparr>k_global := map int [0..<n] ! nat (k_global k)\<rparr> = k" if "k \<in> set (constants c)" for k
    using assms that by (auto simp: global_refs_ok_def n_def)
  ultimately show ?thesis
    unfolding n_def [symmetric] by (simp add: remap_code_def map_idI)
qed

text \<open>
  reloading an unchanged code moves no global: the renumbering against its own table and signatures
  changes neither the code nor the signatures nor the table, even when signatures coincide.
\<close>

theorem hl_code_hash_remap_globals_same:
  assumes "global_refs_ok (h_code h)" "length (globals_signs h) = length (globals (h_code h))"
  shows "hl_code_hash_remap_globals addr v h (map addr (globals (h_code h))) (globals_signs h) =
    (h, map addr (globals (h_code h)))"
proof -
  have "nglobals (counts (h_code h)) = int (length (globals (h_code h)))"
    using assms(1) by (simp add: global_refs_ok_def)
  then have "counts (h_code h)\<lparr>nglobals := int (length (globals (h_code h)))\<rparr> = counts (h_code h)" by simp
  then show ?thesis
    using assms by (simp add: hl_code_hash_remap_globals_def remap_globals_same remap_code_same place_same)
qed


subsection \<open>Looking functions up by index\<close>

lemma hash_indexes_place:
  "hash_indexes fresh c = place (map nat_findex (natives c)) (map (\<lambda>i. int (i + length (code_functions c))) [0..<length (natives c)])
     (place (map findex (code_functions c)) (map int [0..<length (code_functions c)])
       (replicate (length (code_functions c) + length (natives c)) fresh))"
proof -
  have "fold (\<lambda>i xs. xs[nat (map g ys ! i) := map v [0..<length ys] ! i]) [0..<length ys] base =
      fold (\<lambda>i xs. xs[nat (g (ys ! i)) := v i]) [0..<length ys] base" for g and v :: "nat \<Rightarrow> int" and ys base
    by (rule fold_cong) auto
  from this [of findex "code_functions c" int] this [of nat_findex "natives c" "\<lambda>i. int (i + length (code_functions c))"]
  show ?thesis by (simp add: hash_indexes_def place_def Let_def)
qed

text \<open>
  when the indices of functions and natives are different and cover no more than their number, the table
  of the hash maps the index of each function to its position, and that of each native to its position
  behind the functions.
\<close>

theorem hl_code_hash_alloc_indexes:
  assumes "distinct (map findex (code_functions c) @ map nat_findex (natives c))"
    and "\<forall>x\<in>set (map findex (code_functions c) @ map nat_findex (natives c)). 0 \<le> x \<and> x < int (length (code_functions c) + length (natives c))"
  shows "(\<forall>i<length (code_functions c). functions_indexes (hl_code_hash_alloc fresh c) ! nat (findex (code_functions c ! i)) = int i) \<and>
    (\<forall>i<length (natives c). functions_indexes (hl_code_hash_alloc fresh c) ! nat (nat_findex (natives c ! i)) = int (i + length (code_functions c)))"
proof -
  define base where "base = replicate (length (code_functions c) + length (natives c)) fresh"
  define fs where "fs = place (map findex (code_functions c)) (map int [0..<length (code_functions c)]) base"
  have r: "\<forall>r\<in>set (map findex (code_functions c)). 0 \<le> r \<and> nat r < length base"
    "\<forall>r\<in>set (map nat_findex (natives c)). 0 \<le> r \<and> nat r < length fs"
    using assms(2) by (auto simp: base_def fs_def nat_less_iff)
  have d: "distinct (map findex (code_functions c))" "distinct (map nat_findex (natives c))" using assms(1) by auto
  have idx: "functions_indexes (hl_code_hash_alloc fresh c) = place (map nat_findex (natives c)) (map (\<lambda>i. int (i + length (code_functions c))) [0..<length (natives c)]) fs"
    by (simp add: hl_code_hash_alloc_def Let_def hash_indexes_place fs_def base_def)
  have "nat (findex (code_functions c ! i)) \<notin> nat ` set (map nat_findex (natives c))" if "i < length (code_functions c)" for i
  proof
    assume "nat (findex (code_functions c ! i)) \<in> nat ` set (map nat_findex (natives c))"
    then obtain x where "x \<in> set (map nat_findex (natives c))" "nat (findex (code_functions c ! i)) = nat x" by auto
    moreover have "findex (code_functions c ! i) \<in> set (map findex (code_functions c))" using that by simp
    ultimately show False using assms r by (metis IntI empty_iff distinct_append nat_eq_iff2 int_nat_eq)
  qed
  moreover have "fs ! nat (findex (code_functions c ! i)) = int i" if "i < length (code_functions c)" for i
    using nth_place(1) [OF d(1) r(1), of "map int [0..<length (code_functions c)]" i] that by (simp add: fs_def)
  ultimately show ?thesis
    using nth_place [OF d(2) r(2), of "map (\<lambda>i. int (i + length (code_functions c))) [0..<length (natives c)]"]
    by (auto simp: idx)
qed

subsection \<open>Instances\<close>

definition reload_code :: hl_code where
  "reload_code = hl_code_init\<lparr>counts := hl_counts_init\<lparr>nglobals := 2\<rparr>, globals := [0, 1],
     types := [\<lparr>kind = HREF, tdata = TParam 1\<rparr>, \<lparr>kind = HVOID, tdata = TNone\<rparr>],
     natives := [\<lparr>nat_lib = [0], nat_name = [0x61, 0], nat_t = 0, nat_findex = 0\<rparr>],
     code_functions := [hl_function_init\<lparr>findex := 1,
       ops := [\<lparr>op = int OGetGlobal, p1 = 0, p2 = 1, p3 = 0, extra = NoExtra\<rparr>]\<rparr>]\<rparr>"

definition reload_hash :: hl_code_hash where
  "reload_hash = \<lparr>h_code = reload_code, types_hashes = [3, 5], globals_signs = [7, 9], functions_signs = [],
     functions_hashes = [], functions_indexes = [1, 0]\<rparr>"

lemmas reload_defs = reload_hash_def reload_code_def hl_code_init_def hl_counts_init_def hl_function_init_def

theorem hash_fun_detects_operand_witness:
  "hash_fun reload_hash ((code_functions reload_code ! 0)\<lparr>ops := (ops (code_functions reload_code ! 0))[0 := (ops (code_functions reload_code ! 0) ! 0)\<lparr>p1 := 4\<rparr>]\<rparr>)
     \<noteq> hash_fun reload_hash (code_functions reload_code ! 0)"
proof (rule hash_fun_detects_operand)
  show "hl_op_nargs ! nat (op (ops (code_functions reload_code ! 0) ! 0)) \<noteq> 0" by code_simp
qed (simp_all add: reload_defs i32_def)

theorem hash_types_renumbered_witness:
  "hash_types [\<lparr>kind = HVOID, tdata = TNone\<rparr>, \<lparr>kind = HREF, tdata = TParam 0\<rparr>] ! 1 =
   hash_types [\<lparr>kind = HREF, tdata = TParam 1\<rparr>, \<lparr>kind = HVOID, tdata = TNone\<rparr>] ! 0"
  using hash_types_renumbered [of "\<lambda>r. 1 - r" "[\<lparr>kind = HREF, tdata = TParam 1\<rparr>, \<lparr>kind = HVOID, tdata = TNone\<rparr>]"
      "[\<lparr>kind = HVOID, tdata = TNone\<rparr>, \<lparr>kind = HREF, tdata = TParam 0\<rparr>]" 0]
  by (simp add: renumbered_def less_Suc_eq rename_type_def rename_data_def wf_type_def type_ok_def)


theorem hl_code_hash_remap_globals_same_witness:
  "hl_code_hash_remap_globals id 0 reload_hash [0, 1] [7, 9] = (reload_hash, [0, 1])"
  using hl_code_hash_remap_globals_same [of reload_hash id 0]
  by (simp add: global_refs_ok_def type_global_def reload_defs)

theorem hl_code_hash_alloc_indexes_witness:
  "functions_indexes (hl_code_hash_alloc 77 reload_code) ! 1 = 0"
  using hl_code_hash_alloc_indexes [of reload_code 77] by (simp add: reload_defs)

end
