(* ===== verification/Contracts.thy ===== *)
theory Contracts
  imports Prelude
begin

text \<open>
  What the containers of the runtime promise to their users: the contract of a finite set and that of
  a finite map, as locales over the operations of an implementation. An operation that would leave its
  arrays, overflow or not end is \<open>None\<close>; the contract says that this does not happen while the container
  holds fewer than \<open>limit\<close> elements. What a user sees of a whole sequence of operations then follows once
  for all implementations: it is what the mathematical set or map gives.
\<close>

subsection \<open>Sets\<close>

datatype 'k set_cmd = SAdd 'k | SDel 'k | SHas 'k

fun set_step :: "('k \<Rightarrow> 's \<Rightarrow> (bool \<times> 's) option) \<Rightarrow> ('k \<Rightarrow> 's \<Rightarrow> (bool \<times> 's) option) \<Rightarrow> ('k \<Rightarrow> 's \<Rightarrow> bool option)
    \<Rightarrow> 'k set_cmd \<Rightarrow> 's \<Rightarrow> (bool \<times> 's) option" where
  "set_step add del has (SAdd k) s = add k s"
| "set_step add del has (SDel k) s = del k s"
| "set_step add del has (SHas k) s = map_option (\<lambda>b. (b, s)) (has k s)"

fun set_run :: "('k \<Rightarrow> 's \<Rightarrow> (bool \<times> 's) option) \<Rightarrow> ('k \<Rightarrow> 's \<Rightarrow> (bool \<times> 's) option) \<Rightarrow> ('k \<Rightarrow> 's \<Rightarrow> bool option)
    \<Rightarrow> 'k set_cmd list \<Rightarrow> 's \<Rightarrow> (bool list \<times> 's) option" where
  "set_run add del has [] s = Some ([], s)"
| "set_run add del has (c # cs) s = do {
     (b, s1) \<leftarrow> set_step add del has c s;
     (bs, s2) \<leftarrow> set_run add del has cs s1;
     Some (b # bs, s2) }"

fun set_spec :: "'k set_cmd \<Rightarrow> 'k set \<Rightarrow> bool \<times> 'k set" where
  "set_spec (SAdd k) A = (k \<notin> A, insert k A)"
| "set_spec (SDel k) A = (k \<in> A, A - {k})"
| "set_spec (SHas k) A = (k \<in> A, A)"

fun set_specs :: "'k set_cmd list \<Rightarrow> 'k set \<Rightarrow> bool list \<times> 'k set" where
  "set_specs [] A = ([], A)"
| "set_specs (c # cs) A = (let (b, B) = set_spec c A; (bs, D) = set_specs cs B in (b # bs, D))"

locale set_contract =
  fixes inv :: "'s \<Rightarrow> bool" and \<alpha> :: "'s \<Rightarrow> 'k set" and limit :: nat
    and add :: "'k \<Rightarrow> 's \<Rightarrow> (bool \<times> 's) option"
    and del :: "'k \<Rightarrow> 's \<Rightarrow> (bool \<times> 's) option"
    and has :: "'k \<Rightarrow> 's \<Rightarrow> bool option"
  assumes finite_set: "inv s \<Longrightarrow> finite (\<alpha> s)"
    and add: "inv s \<Longrightarrow> card (\<alpha> s) < limit \<Longrightarrow> \<exists>s'. add k s = Some (k \<notin> \<alpha> s, s') \<and> inv s' \<and> \<alpha> s' = insert k (\<alpha> s)"
    and del: "inv s \<Longrightarrow> card (\<alpha> s) \<le> limit \<Longrightarrow> \<exists>s'. del k s = Some (k \<in> \<alpha> s, s') \<and> inv s' \<and> \<alpha> s' = \<alpha> s - {k}"
    and has: "inv s \<Longrightarrow> card (\<alpha> s) \<le> limit \<Longrightarrow> has k s = Some (k \<in> \<alpha> s)"
begin

lemma set_step_spec:
  assumes "inv s" "card (\<alpha> s) < limit"
  shows "\<exists>s'. set_step add del has c s = Some (fst (set_spec c (\<alpha> s)), s') \<and> inv s' \<and> \<alpha> s' = snd (set_spec c (\<alpha> s))"
  using assms add [of s] del [of s] has [of s] by (cases c) auto

lemma set_spec_card:
  assumes "finite A"
  shows "card (snd (set_spec c A)) \<le> Suc (card A)"
  using assms by (cases c) (auto simp: card_insert_if intro: le_SucI card_mono)

lemma set_run_spec:
  assumes "inv s" "card (\<alpha> s) + length cs \<le> limit"
  shows "\<exists>s'. set_run add del has cs s = Some (fst (set_specs cs (\<alpha> s)), s') \<and> inv s' \<and> \<alpha> s' = snd (set_specs cs (\<alpha> s))"
  using assms
proof (induction cs arbitrary: s)
  case (Cons c cs)
  then obtain s1 where s1: "set_step add del has c s = Some (fst (set_spec c (\<alpha> s)), s1)" "inv s1" "\<alpha> s1 = snd (set_spec c (\<alpha> s))"
    using set_step_spec [of s c] by auto
  with Cons.prems set_spec_card [OF finite_set [OF Cons.prems(1)], of c]
  obtain s2 where "set_run add del has cs s1 = Some (fst (set_specs cs (\<alpha> s1)), s2)" "inv s2" "\<alpha> s2 = snd (set_specs cs (\<alpha> s1))"
    using Cons.IH [of s1] by auto
  with s1 show ?case by (simp add: case_prod_beta)
qed simp

end

subsection \<open>Maps\<close>

datatype ('k, 'v) map_cmd = MPut 'k 'v | MDel 'k | MGet 'k

datatype 'v map_res = RNone | RBool bool | RVal "'v option"

fun map_step :: "('k \<Rightarrow> 'v \<Rightarrow> 's \<Rightarrow> 's option) \<Rightarrow> ('k \<Rightarrow> 's \<Rightarrow> (bool \<times> 's) option) \<Rightarrow> ('k \<Rightarrow> 's \<Rightarrow> 'v option option)
    \<Rightarrow> ('k, 'v) map_cmd \<Rightarrow> 's \<Rightarrow> ('v map_res \<times> 's) option" where
  "map_step put del get (MPut k v) s = map_option (Pair RNone) (put k v s)"
| "map_step put del get (MDel k) s = map_option (map_prod RBool id) (del k s)"
| "map_step put del get (MGet k) s = map_option (\<lambda>r. (RVal r, s)) (get k s)"

fun map_run :: "('k \<Rightarrow> 'v \<Rightarrow> 's \<Rightarrow> 's option) \<Rightarrow> ('k \<Rightarrow> 's \<Rightarrow> (bool \<times> 's) option) \<Rightarrow> ('k \<Rightarrow> 's \<Rightarrow> 'v option option)
    \<Rightarrow> ('k, 'v) map_cmd list \<Rightarrow> 's \<Rightarrow> ('v map_res list \<times> 's) option" where
  "map_run put del get [] s = Some ([], s)"
| "map_run put del get (c # cs) s = do {
     (r, s1) \<leftarrow> map_step put del get c s;
     (rs, s2) \<leftarrow> map_run put del get cs s1;
     Some (r # rs, s2) }"

fun map_spec :: "('k, 'v) map_cmd \<Rightarrow> ('k \<rightharpoonup> 'v) \<Rightarrow> 'v map_res \<times> ('k \<rightharpoonup> 'v)" where
  "map_spec (MPut k v) m = (RNone, m(k \<mapsto> v))"
| "map_spec (MDel k) m = (RBool (m k \<noteq> None), m(k := None))"
| "map_spec (MGet k) m = (RVal (m k), m)"

fun map_specs :: "('k, 'v) map_cmd list \<Rightarrow> ('k \<rightharpoonup> 'v) \<Rightarrow> 'v map_res list \<times> ('k \<rightharpoonup> 'v)" where
  "map_specs [] m = ([], m)"
| "map_specs (c # cs) m = (let (r, m1) = map_spec c m; (rs, m2) = map_specs cs m1 in (r # rs, m2))"

locale map_contract =
  fixes inv :: "'s \<Rightarrow> bool" and \<alpha> :: "'s \<Rightarrow> 'k \<rightharpoonup> 'v" and limit :: nat
    and put :: "'k \<Rightarrow> 'v \<Rightarrow> 's \<Rightarrow> 's option"
    and del :: "'k \<Rightarrow> 's \<Rightarrow> (bool \<times> 's) option"
    and get :: "'k \<Rightarrow> 's \<Rightarrow> 'v option option"
  assumes finite_map: "inv s \<Longrightarrow> finite (dom (\<alpha> s))"
    and put: "inv s \<Longrightarrow> card (dom (\<alpha> s)) < limit \<Longrightarrow> \<exists>s'. put k v s = Some s' \<and> inv s' \<and> \<alpha> s' = (\<alpha> s)(k \<mapsto> v)"
    and del: "inv s \<Longrightarrow> card (dom (\<alpha> s)) \<le> limit \<Longrightarrow> \<exists>s'. del k s = Some (\<alpha> s k \<noteq> None, s') \<and> inv s' \<and> \<alpha> s' = (\<alpha> s)(k := None)"
    and get: "inv s \<Longrightarrow> card (dom (\<alpha> s)) \<le> limit \<Longrightarrow> get k s = Some (\<alpha> s k)"
begin

lemma map_step_spec:
  assumes "inv s" "card (dom (\<alpha> s)) < limit"
  shows "\<exists>s'. map_step put del get c s = Some (fst (map_spec c (\<alpha> s)), s') \<and> inv s' \<and> \<alpha> s' = snd (map_spec c (\<alpha> s))"
  using assms put [of s] del [of s] get [of s] by (cases c) fastforce+

lemma map_spec_card:
  assumes "finite (dom m)"
  shows "card (dom (snd (map_spec c m))) \<le> Suc (card (dom m))"
  using assms by (cases c) (auto simp: card_insert_if intro: le_SucI card_mono)

lemma map_run_spec:
  assumes "inv s" "card (dom (\<alpha> s)) + length cs \<le> limit"
  shows "\<exists>s'. map_run put del get cs s = Some (fst (map_specs cs (\<alpha> s)), s') \<and> inv s' \<and> \<alpha> s' = snd (map_specs cs (\<alpha> s))"
  using assms
proof (induction cs arbitrary: s)
  case (Cons c cs)
  then obtain s1 where s1: "map_step put del get c s = Some (fst (map_spec c (\<alpha> s)), s1)" "inv s1" "\<alpha> s1 = snd (map_spec c (\<alpha> s))"
    using map_step_spec [of s c] by auto
  with Cons.prems map_spec_card [OF finite_map [OF Cons.prems(1)], of c]
  obtain s2 where "map_run put del get cs s1 = Some (fst (map_specs cs (\<alpha> s1)), s2)" "inv s2" "\<alpha> s2 = snd (map_specs cs (\<alpha> s1))"
    using Cons.IH [of s1] by auto
  with s1 show ?case by (simp add: case_prod_beta)
qed simp

end

end
