(* ===== verification/DataStruct.thy ===== *)
theory DataStruct
  imports Contracts "HOL-Library.Product_Lexorder"
begin

text \<open>
  The container template \<^verbatim>\<open>src/src/data_struct.c\<close> that the code generators include for their arrays, sets and
  maps: growing arrays (\<open>S_SORTED\<close> not set), sorted sets, sorted maps (\<open>S_MAP\<close>) and sorted lists of pairs.

  An array is the list of its \<open>max\<close> elements, of which the first \<open>cur\<close> are in use; a new array holds
  \<open>fresh\<close>. \<open>memmove\<close>, an element read and an element write outside of the array are \<open>None\<close>, and so is a
  capacity that does not fit an \<open>int\<close>. The template parameter \<open>S_CMP\<close> is \<open>>\<close> in every use.
\<close>

subsection \<open>Arrays\<close>

definition memmove :: "nat \<Rightarrow> nat \<Rightarrow> nat \<Rightarrow> 'a list \<Rightarrow> 'a list option" where
  "memmove dst src n a =
     (if src + n \<le> length a \<and> dst + n \<le> length a then Some (take dst a @ take n (drop src a) @ drop (dst + n) a) else None)"

definition store :: "nat \<Rightarrow> 'a \<Rightarrow> 'a list \<Rightarrow> 'a list option" where
  "store i x a = (if i < length a then Some (a[i := x]) else None)"

definition load :: "nat \<Rightarrow> 'a list \<Rightarrow> 'a option" where
  "load i a = (if i < length a then Some (a ! i) else None)"

record 'k s_set =
  cur :: nat
  s_max :: nat
  keys :: "'k list"

record ('k, 'v) s_map = "'k s_set" +
  svalues :: "'v list"

definition STRUCT_DEF_SIZE :: nat where
  "STRUCT_DEF_SIZE = 2"

definition int_fits :: "nat \<Rightarrow> nat option" where
  "int_fits n = (if int n \<le> INT_MAX then Some n else None)"

definition next_size :: "nat \<Rightarrow> nat option" where
  "next_size m = (if m \<noteq> 0 then int_fits (2 * m) else Some STRUCT_DEF_SIZE)"

definition realloc :: "'a \<Rightarrow> nat \<Rightarrow> nat \<Rightarrow> 'a list \<Rightarrow> 'a list" where
  "realloc fresh n c a = take c a @ replicate (n - c) fresh"

definition set_check_size :: "'k \<Rightarrow> 'k s_set \<Rightarrow> 'k s_set option" where
  "set_check_size fresh st =
     (if cur st = s_max st
      then do { n \<leftarrow> next_size (s_max st); Some (st\<lparr>keys := realloc fresh n (cur st) (keys st), s_max := n\<rparr>) }
      else Some st)"

definition map_check_size :: "'k \<Rightarrow> 'v \<Rightarrow> ('k, 'v) s_map \<Rightarrow> ('k, 'v) s_map option" where
  "map_check_size fk fv st =
     (if cur st = s_max st
      then do { n \<leftarrow> next_size (s_max st);
        Some (st\<lparr>keys := realloc fk n (cur st) (keys st), svalues := realloc fv n (cur st) (svalues st), s_max := n\<rparr>) }
      else Some st)"

subsection \<open>Growing arrays\<close>

definition arr_add :: "'k \<Rightarrow> 'k \<Rightarrow> 'k s_set \<Rightarrow> 'k s_set option" where
  "arr_add fresh k st = do {
     st \<leftarrow> set_check_size fresh st;
     ks \<leftarrow> store (cur st) k (keys st);
     Some (st\<lparr>keys := ks, cur := cur st + 1\<rparr>) }"

definition arr_exists :: "'k s_set \<Rightarrow> 'k \<Rightarrow> bool" where
  "arr_exists st k = list_ex (\<lambda>i. keys st ! i = k) [0..<cur st]"

definition set_delete :: "nat \<Rightarrow> 'k s_set \<Rightarrow> 'k s_set option" where
  "set_delete pos st = do {
     ks \<leftarrow> memmove pos (pos + 1) (cur st - pos - 1) (keys st);
     Some (st\<lparr>keys := ks, cur := cur st - 1\<rparr>) }"

definition arr_remove :: "'k s_set \<Rightarrow> 'k \<Rightarrow> (bool \<times> 'k s_set) option" where
  "arr_remove st k = (case find (\<lambda>i. keys st ! i = k) [0..<cur st] of
     Some pos \<Rightarrow> map_option (Pair True) (set_delete pos st)
   | None \<Rightarrow> Some (False, st))"

definition arr_remove_range :: "'k s_set \<Rightarrow> nat \<Rightarrow> nat \<Rightarrow> 'k s_set option" where
  "arr_remove_range st pos count = (if pos + count \<le> cur st then do {
     ks \<leftarrow> memmove pos (pos + count) (cur st - pos - count) (keys st);
     Some (st\<lparr>keys := ks, cur := cur st - count\<rparr>) } else None)"

text \<open>The loop \<open>while( n < st->cur + count ) n <<= 1\<close>; it starts with a positive size.\<close>

function reserve_size :: "nat \<Rightarrow> nat \<Rightarrow> nat option" where
  "reserve_size want n = (if n < want then (if n = 0 then None else do { n \<leftarrow> int_fits (2 * n); reserve_size want n }) else Some n)"
  by pat_completeness auto
termination
  by (relation "measure (\<lambda>(want, n). want - n)") (auto simp: int_fits_def split: if_splits)

declare reserve_size.simps [simp del]

text \<open>The result is the position of the reserved elements, which hold whatever the array holds.\<close>

definition arr_reserve :: "'k \<Rightarrow> nat \<Rightarrow> 'k s_set \<Rightarrow> (nat \<times> 'k s_set) option" where
  "arr_reserve fresh count st = do {
     _ \<leftarrow> int_fits (cur st + count);
     st \<leftarrow> (if cur st + count > s_max st then do {
        n \<leftarrow> next_size (s_max st);
        n \<leftarrow> reserve_size (cur st + count) n;
        Some (st\<lparr>keys := realloc fresh n (cur st) (keys st), s_max := n\<rparr>) }
      else Some st);
     Some (cur st, st\<lparr>cur := cur st + count\<rparr>) }"

subsection \<open>Binary search\<close>

text \<open>
  The loop of every sorted operation. \<open>Inl\<close> is the position of the key; \<open>Inr\<close> is where the loop ends,
  \<open>(min + max) >> 1\<close>, when the key is not there. The comparison is the one of the template: the first
  test is that the key is above the element.
\<close>

function search :: "('k::linorder) list \<Rightarrow> 'k \<Rightarrow> nat \<Rightarrow> nat \<Rightarrow> (nat + nat) option" where
  "search ks k mn mx =
     (if mn < mx then
        (let mid = (mn + mx) div 2 in do {
           k2 \<leftarrow> load mid ks;
           if k > k2 then search ks k (mid + 1) mx else if k2 > k then search ks k mn mid else Some (Inl mid) })
      else Some (Inr ((mn + mx) div 2)))"
  by pat_completeness auto
termination
  by (relation "measure (\<lambda>(ks, k, mn, mx). mx - mn)") auto

declare search.simps [simp del]

subsection \<open>Sorted sets\<close>

definition arr_insert :: "nat \<Rightarrow> 'a \<Rightarrow> nat \<Rightarrow> 'a list \<Rightarrow> 'a list option" where
  "arr_insert pos x n a = do { a \<leftarrow> memmove (pos + 1) pos (n - pos) a; store pos x a }"

definition set_add :: "('k::linorder) \<Rightarrow> 'k \<Rightarrow> 'k s_set \<Rightarrow> (bool \<times> 'k s_set) option" where
  "set_add fresh k st = do {
     r \<leftarrow> search (keys st) k 0 (cur st);
     case r of
       Inl _ \<Rightarrow> Some (False, st)
     | Inr pos \<Rightarrow> do {
         st \<leftarrow> set_check_size fresh st;
         ks \<leftarrow> arr_insert pos k (cur st) (keys st);
         Some (True, st\<lparr>keys := ks, cur := cur st + 1\<rparr>) } }"

definition set_exists :: "('k::linorder, 'm) s_set_scheme \<Rightarrow> 'k \<Rightarrow> bool option" where
  "set_exists st k = map_option (\<lambda>r. case r of Inl _ \<Rightarrow> True | Inr _ \<Rightarrow> False) (search (keys st) k 0 (cur st))"

definition set_remove :: "('k::linorder) s_set \<Rightarrow> 'k \<Rightarrow> (bool \<times> 'k s_set) option" where
  "set_remove st k = do {
     r \<leftarrow> search (keys st) k 0 (cur st);
     case r of
       Inl pos \<Rightarrow> map_option (Pair True) (set_delete pos st)
     | Inr _ \<Rightarrow> Some (False, st) }"

subsection \<open>Sorted maps\<close>

definition map_insert :: "'k \<Rightarrow> 'v \<Rightarrow> nat \<Rightarrow> 'k \<Rightarrow> 'v \<Rightarrow> ('k, 'v) s_map \<Rightarrow> ('k, 'v) s_map option" where
  "map_insert fk fv pos k v st = do {
     st \<leftarrow> map_check_size fk fv st;
     ks \<leftarrow> arr_insert pos k (cur st) (keys st);
     vs \<leftarrow> arr_insert pos v (cur st) (svalues st);
     Some (st\<lparr>keys := ks, svalues := vs, cur := cur st + 1\<rparr>) }"

definition map_add :: "('k::linorder) \<Rightarrow> 'v \<Rightarrow> 'k \<Rightarrow> 'v \<Rightarrow> ('k, 'v) s_map \<Rightarrow> (bool \<times> ('k, 'v) s_map) option" where
  "map_add fk fv k v st = do {
     r \<leftarrow> search (keys st) k 0 (cur st);
     case r of Inl _ \<Rightarrow> Some (False, st) | Inr pos \<Rightarrow> map_option (Pair True) (map_insert fk fv pos k v st) }"

definition map_replace :: "('k::linorder) \<Rightarrow> 'v \<Rightarrow> 'k \<Rightarrow> 'v \<Rightarrow> ('k, 'v) s_map \<Rightarrow> (bool \<times> ('k, 'v) s_map) option" where
  "map_replace fk fv k v st = do {
     r \<leftarrow> search (keys st) k 0 (cur st);
     case r of
       Inl mid \<Rightarrow> do {
         v2 \<leftarrow> load mid (svalues st);
         if v2 = v then Some (False, st)
         else do { vs \<leftarrow> store mid v (svalues st); Some (True, st\<lparr>svalues := vs\<rparr>) } }
     | Inr pos \<Rightarrow> map_option (Pair True) (map_insert fk fv pos k v st) }"

definition map_find :: "'v \<Rightarrow> ('k::linorder, 'v) s_map \<Rightarrow> 'k \<Rightarrow> 'v option" where
  "map_find defval st k = do {
     r \<leftarrow> search (keys st) k 0 (cur st);
     case r of Inl mid \<Rightarrow> load mid (svalues st) | Inr _ \<Rightarrow> Some defval }"

definition map_remove :: "('k::linorder, 'v) s_map \<Rightarrow> 'k \<Rightarrow> (bool \<times> ('k, 'v) s_map) option" where
  "map_remove st k = do {
     r \<leftarrow> search (keys st) k 0 (cur st);
     case r of
       Inl pos \<Rightarrow> do {
         ks \<leftarrow> memmove pos (pos + 1) (cur st - pos - 1) (keys st);
         vs \<leftarrow> memmove pos (pos + 1) (cur st - pos - 1) (svalues st);
         Some (True, st\<lparr>keys := ks, svalues := vs, cur := cur st - 1\<rparr>) }
     | Inr _ \<Rightarrow> Some (False, st) }"

subsection \<open>Sorted pairs\<close>

function search_pair :: "('k::linorder) list \<Rightarrow> ('v::linorder) list \<Rightarrow> 'k \<Rightarrow> 'v \<Rightarrow> nat \<Rightarrow> nat \<Rightarrow> (nat + nat) option" where
  "search_pair ks vs k v mn mx =
     (if mn < mx then
        (let mid = (mn + mx) div 2 in do {
           k2 \<leftarrow> load mid ks;
           if k2 < k then search_pair ks vs k v (mid + 1) mx
           else if k2 > k then search_pair ks vs k v mn mid
           else do {
             v2 \<leftarrow> load mid vs;
             if v > v2 then search_pair ks vs k v (mid + 1) mx
             else if v2 > v then search_pair ks vs k v mn mid else Some (Inl mid) } })
      else Some (Inr ((mn + mx) div 2)))"
  by pat_completeness auto
termination
  by (relation "measure (\<lambda>(ks, vs, k, v, mn, mx). mx - mn)") auto

declare search_pair.simps [simp del]

definition map_add_pair :: "('k::linorder) \<Rightarrow> ('v::linorder) \<Rightarrow> 'k \<Rightarrow> 'v \<Rightarrow> ('k, 'v) s_map \<Rightarrow> (bool \<times> ('k, 'v) s_map) option" where
  "map_add_pair fk fv k v st = do {
     r \<leftarrow> search_pair (keys st) (svalues st) k v 0 (cur st);
     case r of Inl _ \<Rightarrow> Some (False, st) | Inr pos \<Rightarrow> map_option (Pair True) (map_insert fk fv pos k v st) }"

subsection \<open>Access\<close>

definition s_reset :: "('k, 'm) s_set_scheme \<Rightarrow> ('k, 'm) s_set_scheme" where
  "s_reset st = st\<lparr>cur := 0\<rparr>"

definition set_free :: "'k s_set \<Rightarrow> 'k list \<times> 'k s_set" where
  "set_free st = (keys st, st\<lparr>cur := 0, s_max := 0, keys := []\<rparr>)"

definition map_free :: "('k, 'v) s_map \<Rightarrow> 'v list \<times> ('k, 'v) s_map" where
  "map_free st = (svalues st, st\<lparr>cur := 0, s_max := 0, keys := [], svalues := []\<rparr>)"

definition s_count :: "('k, 'm) s_set_scheme \<Rightarrow> nat" where
  "s_count st = cur st"

definition s_get :: "'k s_set \<Rightarrow> nat \<Rightarrow> 'k option" where
  "s_get st idx = load idx (keys st)"

definition s_first :: "'k \<Rightarrow> 'k s_set \<Rightarrow> 'k option" where
  "s_first defval st = (if cur st = 0 then Some defval else load 0 (keys st))"

definition s_iter_next :: "'k s_set \<Rightarrow> nat \<Rightarrow> 'k option option" where
  "s_iter_next st idx = (if idx < cur st then map_option Some (load idx (keys st)) else Some None)"

definition s_iter_prev :: "'k s_set \<Rightarrow> int \<Rightarrow> 'k option option" where
  "s_iter_prev st idx = (if idx \<ge> 0 then map_option Some (load (nat idx) (keys st)) else Some None)"

text \<open>The macros \<open>for_iter\<close> and \<open>for_iter_back\<close>: the elements in the order the loop visits them.\<close>

function for_iter :: "'k s_set \<Rightarrow> nat \<Rightarrow> 'k list option" where
  "for_iter st idx = do {
     r \<leftarrow> s_iter_next st idx;
     case r of Some x \<Rightarrow> do { xs \<leftarrow> for_iter st (idx + 1); Some (x # xs) } | None \<Rightarrow> Some [] }"
  by pat_completeness auto
termination
  by (relation "measure (\<lambda>(st, idx). cur st - idx)") (auto simp: s_iter_next_def split: if_splits)

declare for_iter.simps [simp del]

function for_iter_back :: "'k s_set \<Rightarrow> int \<Rightarrow> 'k list option" where
  "for_iter_back st idx = do {
     r \<leftarrow> s_iter_prev st idx;
     case r of Some x \<Rightarrow> do { xs \<leftarrow> for_iter_back st (idx - 1); Some (x # xs) } | None \<Rightarrow> Some [] }"
  by pat_completeness auto
termination
  by (relation "measure (\<lambda>(st, idx). nat (idx + 1))") (auto simp: s_iter_prev_def split: if_splits)

declare for_iter_back.simps [simp del]

subsection \<open>Array moves\<close>

lemma arr_insert_take:
  assumes "pos \<le> n" "n < length a"
  obtains a' where "arr_insert pos x n a = Some a'" "length a' = length a"
    "take (Suc n) a' = take pos (take n a) @ x # drop pos (take n a)"
proof -
  let ?b = "take (Suc pos) a @ take (n - pos) (drop pos a) @ drop (Suc n) a"
  have "memmove (pos + 1) pos (n - pos) a = Some ?b"
    using assms by (simp add: memmove_def)
  moreover have b: "?b[pos := x] = take pos a @ x # take (n - pos) (drop pos a) @ drop (Suc n) a"
    using assms by (simp add: take_Suc_conv_app_nth list_update_append)
  moreover have "length ?b = length a" using assms by simp
  ultimately have "arr_insert pos x n a = Some (take pos a @ x # take (n - pos) (drop pos a) @ drop (Suc n) a)"
    using assms by (simp add: arr_insert_def store_def)
  moreover have "take (Suc n) (take pos a @ x # take (n - pos) (drop pos a) @ drop (Suc n) a) = take pos (take n a) @ x # drop pos (take n a)"
    using assms by (auto simp: Suc_diff_le drop_take min_def)
  ultimately show thesis using assms that by simp
qed

lemma memmove_take:
  assumes "pos + c \<le> n" "n \<le> length a"
  obtains a' where "memmove pos (pos + c) (n - pos - c) a = Some a'" "length a' = length a"
    "take (n - c) a' = take pos (take n a) @ drop (pos + c) (take n a)"
proof -
  let ?b = "take pos a @ take (n - pos - c) (drop (pos + c) a) @ drop (pos + (n - pos - c)) a"
  have "memmove pos (pos + c) (n - pos - c) a = Some ?b"
    using assms by (simp add: memmove_def)
  moreover have "take (n - c) ?b = take pos (take n a) @ drop (pos + c) (take n a)"
  proof -
    from assms(1) obtain d where "n = pos + c + d" by (auto simp: le_iff_add)
    then show ?thesis using assms by (auto simp: drop_take min_def)
  qed
  moreover have "length ?b = length a" using assms by simp
  ultimately show thesis using that by simp
qed

lemma length_realloc: "c \<le> length a \<Longrightarrow> c \<le> n \<Longrightarrow> length (realloc f n c a) = n"
  by (simp add: realloc_def min_def)

lemma take_realloc: "c \<le> length a \<Longrightarrow> take c (realloc f n c a) = take c a"
  by (simp add: realloc_def min_def)

subsection \<open>Searching\<close>

text \<open>What the search gives in the first \<open>n\<close> elements of an array that are strictly sorted.\<close>

definition search_result :: "('k::linorder) list \<Rightarrow> 'k \<Rightarrow> nat + nat \<Rightarrow> bool" where
  "search_result ks k r = (case r of
     Inl p \<Rightarrow> p < length ks \<and> ks ! p = k
   | Inr p \<Rightarrow> p \<le> length ks \<and> (\<forall>x\<in>set (take p ks). x < k) \<and> (\<forall>x\<in>set (drop p ks). k < x))"

lemma sorted_wrt_less_nth: "sorted_wrt (<) ks \<Longrightarrow> i < j \<Longrightarrow> j < length ks \<Longrightarrow> ks ! i < ks ! j"
  by (simp add: sorted_wrt_iff_nth_less)

lemma search_ends:
  assumes "sorted_wrt (<) (take n ks)" "n \<le> length ks" "mn \<le> mx" "mx \<le> n"
    and "\<forall>x\<in>set (take mn ks). x < k" "\<forall>x\<in>set (drop mx (take n ks)). k < x"
  shows "\<exists>r. search ks k mn mx = Some r \<and> search_result (take n ks) k r"
  using assms
proof (induction ks k mn mx rule: search.induct)
  case (1 ks k mn mx)
  show ?case
  proof (cases "mn < mx")
    case False
    then have "search ks k mn mx = Some (Inr mn)" using 1(5) by (simp add: search.simps [of ks])
    then show ?thesis using 1(4-8) False by (auto simp: search_result_def)
  next
    case True
    define mid where "mid = (mn + mx) div 2"
    have mid: "mn \<le> mid" "mid < mx" "mid < n" using True 1(6) by (auto simp: mid_def)
    then have load: "load mid ks = Some (ks ! mid)" using 1(4) by (simp add: load_def)
    have step: "search ks k mn mx = (if k > ks ! mid then search ks k (mid + 1) mx
        else if ks ! mid > k then search ks k mn mid else Some (Inl mid))"
      using True by (simp add: search.simps [of ks k mn mx] load flip: mid_def)
    have below: "x \<le> ks ! mid" if x: "x \<in> set (take (mid + 1) ks)" for x
    proof -
      obtain i where "i \<le> mid" "x = ks ! i" using x by (auto simp: in_set_conv_nth less_Suc_eq_le)
      then show ?thesis
        using sorted_wrt_less_nth [OF 1(3), of i mid] mid(3) 1(4) by (cases "i = mid") (auto intro: less_imp_le)
    qed
    have above: "ks ! mid \<le> x" if x: "x \<in> set (drop mid (take n ks))" for x
    proof -
      obtain i where "mid \<le> i" "i < n" "x = ks ! i"
        using x 1(4) by (auto simp: in_set_conv_nth) (metis add.commute le_add1 less_diff_conv)
      then show ?thesis
        using sorted_wrt_less_nth [OF 1(3), of mid i] 1(4) by (cases "i = mid") (auto intro: less_imp_le)
    qed
    consider "k > ks ! mid" | "ks ! mid > k" | "ks ! mid = k" by (meson linorder_cases)
    then show ?thesis
    proof cases
      case 1
      then have "\<forall>x\<in>set (take (mid + 1) ks). x < k" using below le_less_trans by blast
      then show ?thesis
        using "1.IH"(1) [OF True mid_def load] "1.prems" 1 mid by (auto simp: step)
    next
      case 2
      then have "\<forall>x\<in>set (drop mid (take n ks)). k < x" using above less_le_trans by blast
      then show ?thesis
        using "1.IH"(2) [OF True mid_def load] "1.prems" 2 mid by (auto simp: step)
    next
      case 3
      then show ?thesis using mid 1(4) by (simp add: step search_result_def)
    qed
  qed
qed

lemma search_ok:
  assumes "sorted_wrt (<) (take n ks)" "n \<le> length ks"
  obtains r where "search ks k 0 n = Some r" "search_result (take n ks) k r"
  using search_ends [OF assms, of 0 n k] by auto

lemma search_resultD:
  assumes "search_result ks k r" "sorted_wrt (<) ks"
  shows "(case r of Inl _ \<Rightarrow> True | Inr _ \<Rightarrow> False) \<longleftrightarrow> k \<in> set ks"
proof (cases r)
  case (Inr p)
  then have "\<forall>x\<in>set (take p ks) \<union> set (drop p ks). x \<noteq> k"
    using assms(1) by (auto simp: search_result_def)
  then have "k \<notin> set ks" by (metis append_take_drop_id set_append)
  then show ?thesis by (simp add: Inr)
qed (use assms in \<open>auto simp: search_result_def\<close>)

lemma search_result_insert:
  assumes "search_result ks k (Inr p)" "sorted_wrt (<) ks"
  shows "sorted_wrt (<) (take p ks @ k # drop p ks)"
proof -
  have "x < y" if "x \<in> set (take p ks)" "y \<in> set (drop p ks)" for x y
    using assms(1) that by (auto simp: search_result_def intro: less_trans)
  moreover have "sorted_wrt (<) (take p ks)" "sorted_wrt (<) (drop p ks)"
    using assms(2) sorted_wrt_append [of "(<)" "take p ks" "drop p ks"] by simp_all
  ultimately show ?thesis using assms(1) by (auto simp: search_result_def sorted_wrt_append)
qed

lemma sorted_wrt_delete:
  assumes "sorted_wrt P ks"
  shows "sorted_wrt P (take p ks @ drop (Suc p) ks)"
proof -
  have "set (drop (Suc p) ks) \<subseteq> set (drop p ks)" by (simp add: set_drop_subset_set_drop)
  moreover have "sorted_wrt P (take p ks @ drop p ks)" using assms by simp
  moreover have "sorted_wrt P (drop (Suc p) ks)" using assms sorted_wrt_append [of P "take (Suc p) ks" "drop (Suc p) ks"] by simp
  ultimately show ?thesis by (auto simp: sorted_wrt_append simp del: append_take_drop_id)
qed

subsection \<open>Invariants\<close>

definition elems :: "('k, 'm) s_set_scheme \<Rightarrow> 'k list" where
  "elems st = take (cur st) (keys st)"

definition pairs :: "('k, 'v) s_map \<Rightarrow> ('k \<times> 'v) list" where
  "pairs st = zip (elems st) (take (cur st) (svalues st))"

text \<open>The sizes: the array has \<open>max\<close> elements, an \<open>int\<close>, of which \<open>cur\<close> are used.\<close>

definition wf_set :: "('k, 'm) s_set_scheme \<Rightarrow> bool" where
  "wf_set st \<longleftrightarrow> length (keys st) = s_max st \<and> cur st \<le> s_max st \<and> int (s_max st) \<le> INT_MAX"

definition set_inv :: "('k::linorder) s_set \<Rightarrow> bool" where
  "set_inv st \<longleftrightarrow> wf_set st \<and> sorted_wrt (<) (elems st)"

definition wf_map :: "('k, 'v) s_map \<Rightarrow> bool" where
  "wf_map st \<longleftrightarrow> wf_set st \<and> length (svalues st) = s_max st"

definition map_inv :: "('k::linorder, 'v) s_map \<Rightarrow> bool" where
  "map_inv st \<longleftrightarrow> wf_map st \<and> sorted_wrt (<) (elems st)"

definition set_abs :: "'k s_set \<Rightarrow> 'k set" where
  "set_abs st = set (elems st)"

definition map_abs :: "('k, 'v) s_map \<Rightarrow> 'k \<rightharpoonup> 'v" where
  "map_abs st = map_of (pairs st)"

text \<open>Below this number of elements no size overflows.\<close>

definition size_limit :: nat where
  "size_limit = 1073741824"

lemma length_elems: "wf_set st \<Longrightarrow> length (elems st) = cur st"
  by (simp add: wf_set_def elems_def)

lemma next_size_ok:
  assumes "m < size_limit"
  obtains n where "next_size m = Some n" "m < n" "int n \<le> INT_MAX"
  using assms that by (cases "m = 0") (auto simp: next_size_def int_fits_def size_limit_def INT_MAX_def STRUCT_DEF_SIZE_def)

lemma set_check_size_ok:
  assumes "wf_set st" "cur st < size_limit"
  obtains st' where "set_check_size fresh st = Some st'" "wf_set st'" "elems st' = elems st" "cur st' = cur st" "cur st' < s_max st'"
proof (cases "cur st = s_max st")
  case True
  obtain n where "next_size (s_max st) = Some n" "s_max st < n" "int n \<le> INT_MAX"
    using next_size_ok [of "s_max st"] assms(2) True by auto
  then show thesis
    using assms(1) True by (intro that [of "st\<lparr>keys := realloc fresh n (cur st) (keys st), s_max := n\<rparr>"])
      (auto simp: set_check_size_def wf_set_def elems_def length_realloc take_realloc)
next
  case False
  then show thesis using assms(1) that [of st] by (auto simp: set_check_size_def wf_set_def)
qed

lemma map_check_size_ok:
  assumes "wf_map st" "cur st < size_limit"
  obtains st' where "map_check_size fk fv st = Some st'" "wf_map st'" "elems st' = elems st" "pairs st' = pairs st"
    "take (cur st) (svalues st') = take (cur st) (svalues st)" "cur st' = cur st" "cur st' < s_max st'"
proof (cases "cur st = s_max st")
  case True
  obtain n where "next_size (s_max st) = Some n" "s_max st < n" "int n \<le> INT_MAX"
    using next_size_ok [of "s_max st"] assms(2) True by auto
  then show thesis
    using assms(1) True by (intro that [of "st\<lparr>keys := realloc fk n (cur st) (keys st), svalues := realloc fv n (cur st) (svalues st), s_max := n\<rparr>"])
      (auto simp: map_check_size_def wf_map_def wf_set_def elems_def pairs_def length_realloc take_realloc)
next
  case False
  then show thesis using assms(1) that [of st] by (auto simp: map_check_size_def wf_map_def wf_set_def)
qed

subsection \<open>Growing arrays\<close>

lemma arr_add_ok:
  assumes "wf_set st" "cur st < size_limit"
  shows "\<exists>st'. arr_add fresh k st = Some st' \<and> wf_set st' \<and> elems st' = elems st @ [k]"
proof -
  obtain st1 where st1: "set_check_size fresh st = Some st1" "wf_set st1" "elems st1 = elems st" "cur st1 = cur st" "cur st1 < s_max st1"
    by (rule set_check_size_ok [OF assms])
  moreover have "store (cur st1) k (keys st1) = Some ((keys st1)[cur st1 := k])"
    using st1 by (simp add: store_def wf_set_def)
  moreover have "take (Suc (cur st1)) ((keys st1)[cur st1 := k]) = take (cur st1) (keys st1) @ [k]"
    using st1 by (simp add: wf_set_def take_Suc_conv_app_nth)
  ultimately show ?thesis by (auto simp: arr_add_def wf_set_def elems_def)
qed

lemma set_delete_ok:
  assumes "wf_set st" "pos < cur st"
  obtains st' where "set_delete pos st = Some st'" "wf_set st'" "elems st' = take pos (elems st) @ drop (Suc pos) (elems st)"
proof -
  have *: "pos + 1 \<le> cur st" "cur st \<le> length (keys st)" using assms by (auto simp: wf_set_def)
  obtain ks where "memmove pos (pos + 1) (cur st - pos - 1) (keys st) = Some ks" "length ks = length (keys st)"
    "take (cur st - 1) ks = take pos (take (cur st) (keys st)) @ drop (pos + 1) (take (cur st) (keys st))"
    by (rule memmove_take [OF *])
  then show thesis
    using assms by (intro that [of "st\<lparr>keys := ks, cur := cur st - 1\<rparr>"]) (auto simp: set_delete_def wf_set_def elems_def)
qed

lemma arr_exists_elems: "wf_set st \<Longrightarrow> arr_exists st k \<longleftrightarrow> k \<in> set (elems st)"
  by (auto simp: arr_exists_def list_ex_iff wf_set_def elems_def in_set_conv_nth)

lemma remove1_find:
  assumes "find (\<lambda>i. xs ! i = k) [0..<length xs] = Some p"
  shows "remove1 k xs = take p xs @ drop (Suc p) xs"
proof -
  have p: "p < length xs" "xs ! p = k" "\<forall>i<p. xs ! i \<noteq> k"
    using assms by (auto simp: find_Some_iff)
  then have "xs = take p xs @ k # drop (Suc p) xs" "k \<notin> set (take p xs)"
    using id_take_nth_drop [of p xs] by (auto simp: in_set_conv_nth)
  then show ?thesis by (metis remove1.simps(2) remove1_append)
qed

lemma find_cong_upt: "(\<And>i. i < n \<Longrightarrow> P i = Q i) \<Longrightarrow> find P [0..<n] = find Q [0..<n]"
  by (rule find_cong) auto

lemma arr_remove_ok:
  assumes "wf_set st"
  shows "\<exists>st'. arr_remove st k = Some (k \<in> set (elems st), st') \<and> wf_set st' \<and> elems st' = remove1 k (elems st)"
proof -
  have f: "find (\<lambda>i. keys st ! i = k) [0..<cur st] = find (\<lambda>i. elems st ! i = k) [0..<length (elems st)]"
    unfolding length_elems [OF assms] by (rule find_cong_upt) (simp add: elems_def)
  show ?thesis
  proof (cases "find (\<lambda>i. elems st ! i = k) [0..<length (elems st)]")
    case None
    then have "k \<notin> set (elems st)" by (auto simp: find_None_iff in_set_conv_nth)
    then show ?thesis using assms None by (simp add: arr_remove_def f remove1_idem)
  next
    case (Some p)
    then have "p < cur st" "k \<in> set (elems st)"
      by (auto simp: find_Some_iff length_elems [OF assms] in_set_conv_nth)
    then show ?thesis
      using set_delete_ok [OF assms, of p] remove1_find [OF Some] by (auto simp: arr_remove_def f Some)
  qed
qed

lemma arr_remove_range_ok:
  assumes "wf_set st" "pos + count \<le> cur st"
  shows "\<exists>st'. arr_remove_range st pos count = Some st' \<and> wf_set st' \<and> elems st' = take pos (elems st) @ drop (pos + count) (elems st)"
proof -
  have "cur st \<le> length (keys st)" using assms by (auto simp: wf_set_def)
  from memmove_take [OF assms(2) this]
  obtain ks where "memmove pos (pos + count) (cur st - pos - count) (keys st) = Some ks" "length ks = length (keys st)"
    "take (cur st - count) ks = take pos (take (cur st) (keys st)) @ drop (pos + count) (take (cur st) (keys st))"
    by blast
  then show ?thesis using assms by (auto simp: arr_remove_range_def wf_set_def elems_def)
qed

lemma reserve_size_ok:
  assumes "0 < n" "int n \<le> INT_MAX" "want \<le> size_limit"
  shows "\<exists>m. reserve_size want n = Some m \<and> want \<le> m \<and> n \<le> m \<and> int m \<le> INT_MAX"
  using assms
proof (induction want n rule: reserve_size.induct)
  case (1 want n)
  show ?case
  proof (cases "n < want")
    case True
    then have "int_fits (2 * n) = Some (2 * n)" using 1(4) by (simp add: int_fits_def size_limit_def INT_MAX_def)
    moreover have "int (2 * n) \<le> INT_MAX" using True 1(4) by (simp add: size_limit_def INT_MAX_def)
    ultimately show ?thesis
      using 1(1) [OF True, of "2 * n"] 1(2,4) True by (auto simp: reserve_size.simps [of want n])
  qed (use 1(3) in \<open>auto simp: reserve_size.simps [of want n]\<close>)
qed

lemma arr_reserve_ok:
  assumes "wf_set st" "cur st + count \<le> size_limit"
  shows "\<exists>st'. arr_reserve fresh count st = Some (cur st, st') \<and> wf_set st' \<and> cur st' = cur st + count \<and>
    take (cur st) (elems st') = elems st"
proof (cases "cur st + count > s_max st")
  case True
  then have "s_max st < size_limit" using assms(2) by simp
  then obtain n where n: "next_size (s_max st) = Some n" "s_max st < n" "int n \<le> INT_MAX" by (rule next_size_ok)
  moreover obtain m where "reserve_size (cur st + count) n = Some m" "cur st + count \<le> m" "int m \<le> INT_MAX"
    using reserve_size_ok [of n "cur st + count"] n assms(2) by auto
  moreover have "int_fits (cur st + count) = Some (cur st + count)"
    using assms(2) by (simp add: int_fits_def size_limit_def INT_MAX_def)
  ultimately show ?thesis
    using assms(1) True by (auto simp: arr_reserve_def wf_set_def elems_def length_realloc take_realloc min_def)
next
  case False
  then show ?thesis
    using assms by (auto simp: arr_reserve_def wf_set_def elems_def min_def int_fits_def size_limit_def INT_MAX_def)
qed

subsection \<open>Sorted sets\<close>

lemma set_search:
  assumes "wf_set st" "sorted_wrt (<) (elems st)"
  obtains r where "search (keys st) k 0 (cur st) = Some r" "search_result (elems st) k r"
  using search_ok [of "cur st" "keys st" k] assms by (auto simp: wf_set_def elems_def)

lemma set_add_ok:
  assumes "set_inv st" "cur st < size_limit"
  shows "\<exists>st'. set_add fresh k st = Some (k \<notin> set_abs st, st') \<and> set_inv st' \<and> set_abs st' = insert k (set_abs st)"
proof -
  have wf: "wf_set st" and sorted: "sorted_wrt (<) (elems st)" using assms by (auto simp: set_inv_def)
  obtain r where r: "search (keys st) k 0 (cur st) = Some r" "search_result (elems st) k r" by (rule set_search [OF wf sorted])
  note found = search_resultD [OF r(2) sorted]
  show ?thesis
  proof (cases r)
    case (Inl p)
    then show ?thesis using r found assms by (auto simp: set_add_def set_abs_def)
  next
    case (Inr p)
    obtain st1 where st1: "set_check_size fresh st = Some st1" "wf_set st1" "elems st1 = elems st" "cur st1 = cur st" "cur st1 < s_max st1"
      by (rule set_check_size_ok [OF wf assms(2)])
    have p: "p \<le> cur st1" "cur st1 < length (keys st1)"
      using r(2) Inr st1 by (auto simp: search_result_def length_elems [OF wf] wf_set_def)
    obtain ks where ks: "arr_insert p k (cur st1) (keys st1) = Some ks" "length ks = length (keys st1)"
      "take (Suc (cur st1)) ks = take p (elems st1) @ k # drop p (elems st1)"
      by (rule arr_insert_take [OF p]) (simp add: elems_def)
    let ?st = "st1\<lparr>keys := ks, cur := cur st1 + 1\<rparr>"
    have "elems ?st = take (Suc (cur st1)) ks" by (simp add: elems_def)
    then have "elems ?st = take p (elems st) @ k # drop p (elems st)" using ks(3) st1(3) by simp
    moreover from this have "set (elems ?st) = insert k (set (elems st))"
      using set_append [of "take p (elems st)" "drop p (elems st)"] by auto
    moreover have "wf_set ?st" using st1 ks(2) by (auto simp: wf_set_def)
    ultimately show ?thesis
      using r found Inr st1 ks(1) search_result_insert [OF _ sorted, of k p]
      by (auto simp: set_add_def set_inv_def set_abs_def)
  qed
qed

lemma set_exists_ok:
  assumes "wf_set st" "sorted_wrt (<) (elems st)"
  shows "set_exists st k = Some (k \<in> set (elems st))"
proof -
  obtain r where r: "search (keys st) k 0 (cur st) = Some r" "search_result (elems st) k r" by (rule set_search [OF assms])
  then show ?thesis using search_resultD [OF r(2) assms(2)] by (simp add: set_exists_def)
qed

lemma strict_sorted_distinct: "sorted_wrt (<) (xs :: 'a::linorder list) \<Longrightarrow> distinct xs"
  by (simp add: strict_sorted_iff)

lemma set_minus_nth:
  assumes "distinct xs" "p < length xs"
  shows "set (take p xs @ drop (Suc p) xs) = set xs - {xs ! p}"
proof -
  have xs: "take p xs @ xs ! p # drop (Suc p) xs = xs" by (rule id_take_nth_drop [OF assms(2), symmetric])
  then have "distinct (take p xs @ xs ! p # drop (Suc p) xs)" using assms(1) by simp
  moreover have "set xs = set (take p xs) \<union> insert (xs ! p) (set (drop (Suc p) xs))" by (subst xs [symmetric]) simp
  ultimately show ?thesis by auto
qed

lemma set_remove_ok:
  assumes "set_inv st"
  shows "\<exists>st'. set_remove st k = Some (k \<in> set_abs st, st') \<and> set_inv st' \<and> set_abs st' = set_abs st - {k}"
proof -
  have wf: "wf_set st" and sorted: "sorted_wrt (<) (elems st)" using assms by (auto simp: set_inv_def)
  obtain r where r: "search (keys st) k 0 (cur st) = Some r" "search_result (elems st) k r" by (rule set_search [OF wf sorted])
  note found = search_resultD [OF r(2) sorted]
  show ?thesis
  proof (cases r)
    case (Inl p)
    then have p: "p < length (elems st)" "elems st ! p = k" using r(2) by (auto simp: search_result_def)
    then have "p < cur st" by (simp add: length_elems [OF wf])
    with set_delete_ok [OF wf] obtain st1 where st1: "set_delete p st = Some st1" "wf_set st1"
      "elems st1 = take p (elems st) @ drop (Suc p) (elems st)" by blast
    moreover have "set (elems st1) = set (elems st) - {k}"
      using set_minus_nth [OF strict_sorted_distinct p(1)] sorted p(2) st1(3) by simp
    ultimately show ?thesis
      using r found Inl p sorted_wrt_delete [OF sorted] by (auto simp: set_remove_def set_inv_def set_abs_def)
  qed (use r found assms in \<open>auto simp: set_remove_def set_abs_def\<close>)
qed

lemma set_exists_abs: "set_inv st \<Longrightarrow> set_exists st k = Some (k \<in> set_abs st)"
  by (simp add: set_exists_ok set_inv_def set_abs_def)

lemma finite_set_abs: "finite (set_abs st)"
  by (simp add: set_abs_def)

lemma card_set_abs: "set_inv st \<Longrightarrow> card (set_abs st) = cur st"
  by (simp add: set_abs_def set_inv_def distinct_card strict_sorted_distinct length_elems)

interpretation int_set: set_contract set_inv set_abs size_limit "set_add fresh" "\<lambda>k st. set_remove st k" "\<lambda>k st. set_exists st k"
  by unfold_locales (simp_all add: card_set_abs finite_set_abs set_add_ok set_remove_ok set_exists_abs)

subsection \<open>Sorted maps\<close>

lemma pairs_elems: "wf_map st \<Longrightarrow> map fst (pairs st) = elems st"
  by (simp add: pairs_def wf_map_def wf_set_def elems_def)

lemma length_pairs: "wf_map st \<Longrightarrow> length (pairs st) = cur st"
  by (simp add: pairs_def wf_map_def wf_set_def elems_def)

lemma map_insert_ok:
  assumes "wf_map st" "cur st < size_limit" "p \<le> cur st"
  obtains st' where "map_insert fk fv p k v st = Some st'" "wf_map st'" "elems st' = take p (elems st) @ k # drop p (elems st)"
    "pairs st' = take p (pairs st) @ (k, v) # drop p (pairs st)"
proof -
  obtain st1 where st1: "map_check_size fk fv st = Some st1" "wf_map st1" "elems st1 = elems st" "pairs st1 = pairs st"
    "cur st1 = cur st" "cur st1 < s_max st1"
    by (rule map_check_size_ok [OF assms(1,2)])
  have p: "p \<le> cur st1" "cur st1 < length (keys st1)" "cur st1 < length (svalues st1)"
    using assms(3) st1 by (auto simp: wf_map_def wf_set_def)
  obtain ks where ks: "arr_insert p k (cur st1) (keys st1) = Some ks" "length ks = length (keys st1)"
    "take (Suc (cur st1)) ks = take p (elems st1) @ k # drop p (elems st1)"
    by (rule arr_insert_take [OF p(1,2)]) (simp add: elems_def)
  obtain vs where vs: "arr_insert p v (cur st1) (svalues st1) = Some vs" "length vs = length (svalues st1)"
    "take (Suc (cur st1)) vs = take p (take (cur st1) (svalues st1)) @ v # drop p (take (cur st1) (svalues st1))"
    by (rule arr_insert_take [OF p(1,3)])
  let ?st = "st1\<lparr>keys := ks, svalues := vs, cur := cur st1 + 1\<rparr>"
  have "elems ?st = take (Suc (cur st1)) ks" by (simp add: elems_def)
  then have "elems ?st = take p (elems st) @ k # drop p (elems st)" using ks(3) st1(3) by simp
  moreover have "pairs ?st = take p (pairs st1) @ (k, v) # drop p (pairs st1)"
    using ks(3) vs(3) p by (simp add: pairs_def elems_def zip_append take_zip drop_zip)
  moreover have "wf_map ?st" using st1 ks(2) vs(2) by (auto simp: wf_map_def wf_set_def)
  ultimately show thesis using that [of ?st] st1 ks(1) vs(1) by (simp add: map_insert_def)
qed

declare map_of_append [simp del]

lemma map_of_append_app: "map_of (xs @ ys) x = (case map_of xs x of None \<Rightarrow> map_of ys x | Some y \<Rightarrow> Some y)"
  by (induction xs) auto

lemma map_of_take_drop: "map_of zs x = (case map_of (take p zs) x of None \<Rightarrow> map_of (drop p zs) x | Some y \<Rightarrow> Some y)"
  by (metis append_take_drop_id map_of_append_app)

lemma map_of_insert_at:
  assumes "k \<notin> fst ` set zs"
  shows "map_of (take p zs @ (k, v) # drop p zs) = (map_of zs)(k \<mapsto> v)"
proof
  fix x
  have "map_of (take p zs) k = None" using assms by (auto simp: map_of_eq_None_iff dest: in_set_takeD)
  then show "map_of (take p zs @ (k, v) # drop p zs) x = ((map_of zs)(k \<mapsto> v)) x"
    using map_of_take_drop [of zs x p] by (auto simp: map_of_append_app split: option.splits)
qed

text \<open>The association list around one of its entries.\<close>

lemma map_of_nth_split:
  assumes "distinct (map fst zs)" "p < length zs"
  shows "map_of zs x = (case map_of (take p zs) x of None \<Rightarrow> if x = fst (zs ! p) then Some (snd (zs ! p)) else map_of (drop (Suc p) zs) x | Some y \<Rightarrow> Some y)"
    and "map_of (take p zs) (fst (zs ! p)) = None" "map_of (drop (Suc p) zs) (fst (zs ! p)) = None"
proof -
  have zs: "take p zs @ zs ! p # drop (Suc p) zs = zs" by (rule id_take_nth_drop [OF assms(2), symmetric])
  have "distinct (map fst (take p zs @ zs ! p # drop (Suc p) zs))" using assms(1) zs by simp
  then show "map_of (take p zs) (fst (zs ! p)) = None" "map_of (drop (Suc p) zs) (fst (zs ! p)) = None"
    by (auto simp: map_of_eq_None_iff)
  show "map_of zs x = (case map_of (take p zs) x of None \<Rightarrow> if x = fst (zs ! p) then Some (snd (zs ! p)) else map_of (drop (Suc p) zs) x | Some y \<Rightarrow> Some y)"
    using map_of_append_app [of "take p zs" "zs ! p # drop (Suc p) zs" x] unfolding zs by (cases "zs ! p") (auto split: option.splits)
qed

lemma map_of_delete_at:
  assumes "distinct (map fst zs)" "p < length zs"
  shows "map_of (take p zs @ drop (Suc p) zs) = (map_of zs)(fst (zs ! p) := None)"
  using map_of_nth_split [OF assms] by (auto simp: map_of_append_app fun_eq_iff split: option.splits)

lemma map_of_update_at:
  assumes "distinct (map fst zs)" "p < length zs" "fst (zs ! p) = k"
  shows "map_of (zs[p := (k, v)]) = (map_of zs)(k \<mapsto> v)"
  using map_of_nth_split [OF assms(1,2)] assms(2,3)
  by (auto simp: upd_conv_take_nth_drop map_of_append_app fun_eq_iff split: option.splits)

text \<open>What the search gives in a map: the entry or the place where it belongs.\<close>

lemma map_search:
  assumes "map_inv st"
  obtains p where "search (keys st) k 0 (cur st) = Some (Inl p)" "p < cur st" "p < length (svalues st)" "elems st ! p = k" "map_abs st k = Some (svalues st ! p)"
  | p where "search (keys st) k 0 (cur st) = Some (Inr p)" "p \<le> cur st" "map_abs st k = None" "k \<notin> fst ` set (pairs st)"
      "sorted_wrt (<) (take p (elems st) @ k # drop p (elems st))"
proof -
  have wf: "wf_set st" "wf_map st" and sorted: "sorted_wrt (<) (elems st)" using assms by (auto simp: map_inv_def wf_map_def)
  obtain r where r: "search (keys st) k 0 (cur st) = Some r" "search_result (elems st) k r" by (rule set_search [OF wf(1) sorted])
  note found = search_resultD [OF r(2) sorted]
  have fst: "fst ` set (pairs st) = set (elems st)" using pairs_elems [OF wf(2)] by (metis list.set_map)
  show thesis
  proof (cases r)
    case (Inl p)
    then have p: "p < cur st" "elems st ! p = k" using r(2) by (auto simp: search_result_def length_elems [OF wf(1)])
    then have "pairs st ! p = (k, svalues st ! p)" "p < length (pairs st)" "p < length (svalues st)"
      using wf(2) by (auto simp: pairs_def length_pairs wf_map_def wf_set_def elems_def)
    moreover have "distinct (map fst (pairs st))" by (simp add: pairs_elems [OF wf(2)] strict_sorted_distinct [OF sorted])
    ultimately have "map_abs st k = Some (svalues st ! p)"
      unfolding map_abs_def by (metis map_of_is_SomeI nth_mem)
    with p Inl r(1) \<open>p < length (svalues st)\<close> show thesis by (intro that(1)) auto
  next
    case (Inr p)
    then have "p \<le> cur st" using r(2) by (auto simp: search_result_def length_elems [OF wf(1)])
    then show thesis
      using Inr r found fst search_result_insert [OF _ sorted, of k p]
      by (intro that(2)) (auto simp: map_abs_def map_of_eq_None_iff)
  qed
qed

lemma map_insert_inv:
  assumes "map_inv st" "cur st < size_limit" "p \<le> cur st" "k \<notin> fst ` set (pairs st)"
    "sorted_wrt (<) (take p (elems st) @ k # drop p (elems st))"
  obtains st' where "map_insert fk fv p k v st = Some st'" "map_inv st'" "map_abs st' = (map_abs st)(k \<mapsto> v)"
proof -
  have "wf_map st" using assms(1) by (simp add: map_inv_def)
  from map_insert_ok [OF this assms(2,3)]
  obtain st1 where "map_insert fk fv p k v st = Some st1" "wf_map st1" "elems st1 = take p (elems st) @ k # drop p (elems st)"
    "pairs st1 = take p (pairs st) @ (k, v) # drop p (pairs st)" by blast
  then show thesis using assms(4,5) by (intro that [of st1]) (auto simp: map_inv_def map_abs_def map_of_insert_at)
qed

lemma map_add_ok:
  assumes "map_inv st" "cur st < size_limit"
  shows "\<exists>st'. map_add fk fv k v st = Some (map_abs st k = None, st') \<and> map_inv st' \<and>
    map_abs st' = (if map_abs st k = None then (map_abs st)(k \<mapsto> v) else map_abs st)"
  by (rule map_search [OF assms(1), of k])
    (use assms in \<open>auto simp: map_add_def intro: map_insert_inv [OF assms]\<close>)

lemma pairs_update:
  assumes "wf_map st" "p < cur st" "elems st ! p = k"
  shows "pairs (st\<lparr>svalues := (svalues st)[p := v]\<rparr>) = (pairs st)[p := (k, v)]"
proof -
  have "take (cur st) ((svalues st)[p := v]) = (take (cur st) (svalues st))[p := v]"
    using assms(2) by (simp add: take_update_swap)
  moreover have "(elems st)[p := k] = elems st" using assms(3) by (metis list_update_id)
  ultimately show ?thesis
    using update_zip [of "elems st" "take (cur st) (svalues st)" p "(k, v)"] by (simp add: pairs_def elems_def)
qed

lemma map_replace_ok:
  assumes "map_inv st" "cur st < size_limit"
  shows "\<exists>st'. map_replace fk fv k v st = Some (map_abs st k \<noteq> Some v, st') \<and> map_inv st' \<and> map_abs st' = (map_abs st)(k \<mapsto> v)"
proof (rule map_search [OF assms(1), of k])
  fix p assume p: "search (keys st) k 0 (cur st) = Some (Inl p)" "p < cur st" "p < length (svalues st)" "elems st ! p = k" "map_abs st k = Some (svalues st ! p)"
  let ?st = "st\<lparr>svalues := (svalues st)[p := v]\<rparr>"
  have wf: "wf_map st" "sorted_wrt (<) (elems st)" using assms(1) by (auto simp: map_inv_def)
  have "fst (pairs st ! p) = k" "p < length (pairs st)"
    using p(2,4) wf(1) by (auto simp: length_pairs) (metis length_pairs nth_map pairs_elems)
  moreover have "distinct (map fst (pairs st))" by (simp add: pairs_elems [OF wf(1)] strict_sorted_distinct [OF wf(2)])
  ultimately have "map_abs ?st = (map_abs st)(k \<mapsto> v)"
    using pairs_update [OF wf(1) p(2,4), of v] by (simp add: map_abs_def map_of_update_at)
  moreover have "map_inv ?st" using assms(1) by (simp add: map_inv_def wf_map_def wf_set_def elems_def)
  moreover have "map_abs st = (map_abs st)(k \<mapsto> v)" if "svalues st ! p = v" using p(5) that by auto
  ultimately show ?thesis
    using p assms(1) by (cases "svalues st ! p = v") (auto simp: map_replace_def load_def store_def)
next
  fix p assume p: "search (keys st) k 0 (cur st) = Some (Inr p)" "p \<le> cur st" "map_abs st k = None" "k \<notin> fst ` set (pairs st)"
    "sorted_wrt (<) (take p (elems st) @ k # drop p (elems st))"
  from map_insert_inv [OF assms p(2,4,5)] obtain st' where "map_insert fk fv p k v st = Some st'" "map_inv st'" "map_abs st' = (map_abs st)(k \<mapsto> v)"
    by blast
  then show ?thesis using p by (simp add: map_replace_def)
qed

lemma map_find_ok:
  assumes "map_inv st"
  shows "map_find d st k = Some (case map_abs st k of Some v \<Rightarrow> v | None \<Rightarrow> d)"
  by (rule map_search [OF assms, of k]) (simp_all add: map_find_def load_def)

lemma map_remove_ok:
  assumes "map_inv st"
  shows "\<exists>st'. map_remove st k = Some (map_abs st k \<noteq> None, st') \<and> map_inv st' \<and> map_abs st' = (map_abs st)(k := None)"
proof (rule map_search [OF assms, of k])
  fix p assume p: "search (keys st) k 0 (cur st) = Some (Inl p)" "p < cur st" "p < length (svalues st)" "elems st ! p = k" "map_abs st k = Some (svalues st ! p)"
  have wf: "wf_map st" "sorted_wrt (<) (elems st)" using assms by (auto simp: map_inv_def)
  have *: "p + 1 \<le> cur st" "cur st \<le> length (keys st)" "cur st \<le> length (svalues st)" using p(2) wf(1) by (auto simp: wf_map_def wf_set_def)
  obtain ks where ks: "memmove p (p + 1) (cur st - p - 1) (keys st) = Some ks" "length ks = length (keys st)"
    "take (cur st - 1) ks = take p (take (cur st) (keys st)) @ drop (p + 1) (take (cur st) (keys st))"
    by (rule memmove_take [OF *(1,2)])
  obtain vs where vs: "memmove p (p + 1) (cur st - p - 1) (svalues st) = Some vs" "length vs = length (svalues st)"
    "take (cur st - 1) vs = take p (take (cur st) (svalues st)) @ drop (p + 1) (take (cur st) (svalues st))"
    by (rule memmove_take [OF *(1,3)])
  let ?st = "st\<lparr>keys := ks, svalues := vs, cur := cur st - 1\<rparr>"
  have "elems ?st = take p (elems st) @ drop (Suc p) (elems st)" using ks(3) by (simp add: elems_def)
  moreover have "pairs ?st = take p (pairs st) @ drop (Suc p) (pairs st)"
    using ks(3) vs(3) * by (simp add: pairs_def elems_def zip_append take_zip drop_zip)
  moreover have "fst (pairs st ! p) = k" "p < length (pairs st)"
    using p(2,4) wf(1) by (auto simp: length_pairs) (metis length_pairs nth_map pairs_elems)
  moreover have "distinct (map fst (pairs st))" by (simp add: pairs_elems [OF wf(1)] strict_sorted_distinct [OF wf(2)])
  moreover have "wf_map ?st" using wf(1) ks(2) vs(2) by (auto simp: wf_map_def wf_set_def)
  ultimately have "map_inv ?st" "map_abs ?st = (map_abs st)(k := None)"
    using sorted_wrt_delete [OF wf(2)] map_of_delete_at [of "pairs st" p] by (auto simp: map_inv_def map_abs_def)
  then show ?thesis using p ks(1) vs(1) by (simp add: map_remove_def)
next
  fix p assume "search (keys st) k 0 (cur st) = Some (Inr p)" "map_abs st k = None"
  then show ?thesis using assms by (auto simp: map_remove_def)
qed

text \<open>A lookup that tells a missing key from a stored default: \<open>exists\<close>, then \<open>find\<close>.\<close>

definition map_get :: "'v \<Rightarrow> ('k::linorder, 'v) s_map \<Rightarrow> 'k \<Rightarrow> 'v option option" where
  "map_get d st k = do { b \<leftarrow> set_exists st k; if b then map_option Some (map_find d st k) else Some None }"

lemma map_exists_ok:
  assumes "map_inv st"
  shows "set_exists st k = Some (map_abs st k \<noteq> None)"
proof -
  have wf: "wf_map st" "wf_set st" "sorted_wrt (<) (elems st)" using assms by (auto simp: map_inv_def wf_map_def)
  have "map_abs st k \<noteq> None \<longleftrightarrow> k \<in> set (map fst (pairs st))" by (simp add: map_abs_def map_of_eq_None_iff)
  then show ?thesis using set_exists_ok [OF wf(2,3)] pairs_elems [OF wf(1)] by simp
qed

lemma finite_map_abs: "finite (dom (map_abs st))"
  by (simp add: map_abs_def finite_dom_map_of)

lemma map_get_ok: "map_inv st \<Longrightarrow> map_get d st k = Some (map_abs st k)"
  by (auto simp: map_get_def map_exists_ok map_find_ok split: option.splits)

lemma card_map_abs:
  assumes "map_inv st"
  shows "card (dom (map_abs st)) = cur st"
proof -
  have wf: "wf_map st" "wf_set st" "sorted_wrt (<) (elems st)" using assms by (auto simp: map_inv_def wf_map_def)
  have "dom (map_abs st) = set (map fst (pairs st))" by (simp add: map_abs_def dom_map_of_conv_image_fst)
  then show ?thesis
    using wf by (simp only: pairs_elems distinct_card strict_sorted_distinct length_elems)
qed

interpretation int_map: map_contract map_inv map_abs size_limit "\<lambda>k v st. map_option snd (map_replace fk fv k v st)"
    "\<lambda>k st. map_remove st k" "\<lambda>k st. map_get d st k"
proof
  fix s :: "('a, 'b) s_map" and k v
  assume "map_inv s" "card (dom (map_abs s)) < size_limit"
  then show "\<exists>s'. map_option snd (map_replace fk fv k v s) = Some s' \<and> map_inv s' \<and> map_abs s' = (map_abs s)(k \<mapsto> v)"
    using map_replace_ok [of s fk fv k v] by (auto simp: card_map_abs)
qed (rule map_remove_ok map_get_ok finite_map_abs; assumption)+

subsection \<open>Sorted pairs\<close>

lemma load_zip: "length ks = length vs \<Longrightarrow> load i (zip ks vs) = (if i < length ks then Some (ks ! i, vs ! i) else None)"
  by (simp add: load_def)

lemma search_pair_zip:
  "length ks = length vs \<Longrightarrow> search_pair ks vs k v mn mx = search (zip ks vs) (k, v) mn mx"
proof (induction ks vs k v mn mx rule: search_pair.induct)
  case (1 ks vs k v mn mx)
  define mid where "mid = (mn + mx) div 2"
  show ?case
  proof (cases "mn < mx \<and> mid < length ks")
    case True
    then have "load mid ks = Some (ks ! mid)" "load mid vs = Some (vs ! mid)" using 1(5) by (auto simp: load_def)
    with True 1 show ?thesis
      by (simp add: search_pair.simps [of ks vs k v mn mx] search.simps [of "zip ks vs" "(k, v)" mn mx] load_zip flip: mid_def)
         (auto simp: not_less_iff_gr_or_eq)
  next
    case False
    then show ?thesis
      using 1(5) by (auto simp: search_pair.simps [of ks vs k v mn mx] search.simps [of "zip ks vs" "(k, v)" mn mx] load_def simp flip: mid_def)
  qed
qed

definition pairs_inv :: "('k::linorder, 'v::linorder) s_map \<Rightarrow> bool" where
  "pairs_inv st \<longleftrightarrow> wf_map st \<and> sorted_wrt (<) (pairs st)"

lemma map_add_pair_ok:
  assumes "pairs_inv st" "cur st < size_limit"
  shows "\<exists>st'. map_add_pair fk fv k v st = Some ((k, v) \<notin> set (pairs st), st') \<and> pairs_inv st' \<and>
    set (pairs st') = insert (k, v) (set (pairs st))"
proof -
  have wf: "wf_map st" and sorted: "sorted_wrt (<) (pairs st)" using assms by (auto simp: pairs_inv_def)
  have p: "pairs st = take (cur st) (zip (keys st) (svalues st))" by (simp add: pairs_def elems_def take_zip)
  obtain r where r: "search_pair (keys st) (svalues st) k v 0 (cur st) = Some r" "search_result (pairs st) (k, v) r"
    using search_ok [of "cur st" "zip (keys st) (svalues st)" "(k, v)"] sorted wf
    by (auto simp: p search_pair_zip wf_map_def wf_set_def)
  note found = search_resultD [OF r(2) sorted]
  show ?thesis
  proof (cases r)
    case (Inl q)
    then show ?thesis using r found assms by (auto simp: map_add_pair_def)
  next
    case (Inr q)
    then have "q \<le> cur st" using r(2) by (simp add: search_result_def length_pairs [OF wf])
    from map_insert_ok [OF wf assms(2) this] obtain st1 where st1: "map_insert fk fv q k v st = Some st1" "wf_map st1"
      "pairs st1 = take q (pairs st) @ (k, v) # drop q (pairs st)" by blast
    moreover have "sorted_wrt (<) (take q (pairs st) @ (k, v) # drop q (pairs st))"
      using search_result_insert [OF _ sorted] r(2) Inr by simp
    moreover have "set (pairs st1) = insert (k, v) (set (pairs st))"
      using set_append [of "take q (pairs st)" "drop q (pairs st)"] st1(3) by auto
    ultimately show ?thesis using r found Inr by (auto simp: map_add_pair_def pairs_inv_def)
  qed
qed

subsection \<open>Iteration\<close>

lemma for_iter_ok:
  assumes "wf_set st"
  shows "for_iter st idx = Some (drop idx (elems st))"
proof (induction "cur st - idx" arbitrary: idx)
  case 0
  then show ?case by (simp add: for_iter.simps [of st idx] s_iter_next_def length_elems [OF assms])
next
  case (Suc n)
  then have "idx < cur st" "for_iter st (idx + 1) = Some (drop (idx + 1) (elems st))" by simp_all
  moreover have "drop idx (elems st) = keys st ! idx # drop (idx + 1) (elems st)"
    using Suc(2) length_elems [OF assms] by (simp add: Cons_nth_drop_Suc [symmetric] elems_def)
  ultimately show ?case
    using assms by (simp add: for_iter.simps [of st idx] s_iter_next_def load_def wf_set_def)
qed

lemma for_iter_back_ok:
  assumes "wf_set st" "n \<le> cur st"
  shows "for_iter_back st (int n - 1) = Some (rev (take n (elems st)))"
  using assms(2)
proof (induction n)
  case 0
  then show ?case by (simp add: for_iter_back.simps [of st "- 1"] s_iter_prev_def)
next
  case (Suc n)
  then have "n < length (elems st)" "n < length (keys st)" "elems st ! n = keys st ! n"
    using assms(1) by (auto simp: length_elems) (auto simp: wf_set_def elems_def)
  with Suc show ?case
    by (simp add: for_iter_back.simps [of st "int n"] s_iter_prev_def load_def take_Suc_conv_app_nth)
qed

subsection \<open>What the containers promise\<close>

definition empty_set :: "'k s_set" where
  "empty_set = \<lparr>cur = 0, s_max = 0, keys = []\<rparr>"

definition empty_map :: "('k, 'v) s_map" where
  "empty_map = \<lparr>cur = 0, s_max = 0, keys = [], svalues = []\<rparr>"

lemma empty_set_inv [simp]: "set_inv empty_set" "set_abs empty_set = {}" "wf_set (empty_set :: 'k s_set)"
  by (simp_all add: set_inv_def wf_set_def elems_def set_abs_def empty_set_def INT_MAX_def)

lemma empty_map_inv [simp]: "map_inv empty_map" "map_abs empty_map = Map.empty"
  by (simp_all add: map_inv_def wf_map_def wf_set_def elems_def map_abs_def pairs_def empty_map_def INT_MAX_def)





text \<open>
  a list of sorted pairs (\<open>ereg_map\<close>) with room for one more takes a pair in exactly when it does not hold
  it yet, and stays strictly sorted, first by key and then by value.
\<close>

theorem add_pair_correct:
  assumes "pairs_inv st" "cur st < size_limit"
  shows "\<exists>st'. map_add_pair fk fv k v st = Some ((k, v) \<notin> set (pairs st), st') \<and> pairs_inv st' \<and>
    set (pairs st') = insert (k, v) (set (pairs st))"
  by (rule map_add_pair_ok [OF assms])

theorem add_pair_correct_witness:
  "\<exists>st'. map_add_pair 0 0 4 1 \<lparr>cur = 2, s_max = 2, keys = [4, 6], svalues = [3, 2 :: int]\<rparr> = Some (True, st') \<and>
     set (pairs st') = {(4 :: int, 1), (4, 3), (6, 2)}"
  using add_pair_correct [of "\<lparr>cur = 2, s_max = 2, keys = [4, 6], svalues = [3, 2 :: int]\<rparr>" "0 :: int" 0 4 1]
  by (auto simp: pairs_inv_def wf_map_def wf_set_def pairs_def elems_def INT_MAX_def size_limit_def)

text \<open>
  reserving elements of a growing array always ends, within the limit: the elements before are kept, the
  reserved ones lie in the array behind them, and the sizes stay valid.
\<close>

theorem reserve_room:
  assumes "wf_set st" "cur st + count \<le> size_limit"
  shows "\<exists>st'. arr_reserve fresh count st = Some (cur st, st') \<and> wf_set st' \<and> cur st' = cur st + count \<and>
    cur st + count \<le> length (keys st') \<and> take (cur st) (elems st') = elems st"
  using arr_reserve_ok [OF assms, of fresh] by (auto simp: wf_set_def)

theorem reserve_room_witness:
  "\<exists>st'. arr_reserve 0 5 \<lparr>cur = 1, s_max = 2, keys = [7, 0 :: int]\<rparr> = Some (1, st') \<and> 6 \<le> length (keys st') \<and> take 1 (elems st') = [7]"
  using reserve_room [of "\<lparr>cur = 1, s_max = 2, keys = [7, 0 :: int]\<rparr>" 5 0]
  by (auto simp: wf_set_def elems_def INT_MAX_def size_limit_def)

text \<open>
  on a growing array addition appends, removal deletes the first occurrence, the removal of a range deletes
  it, and both iteration macros visit the elements in order and in reverse.
\<close>

theorem growing_array_is_list:
  assumes "wf_set st" "cur st < size_limit" "pos + count \<le> cur st"
  shows "(\<exists>st'. arr_add fresh k st = Some st' \<and> wf_set st' \<and> elems st' = elems st @ [k]) \<and>
    (\<exists>st'. arr_remove st k = Some (arr_exists st k, st') \<and> wf_set st' \<and> elems st' = remove1 k (elems st)) \<and>
    (\<exists>st'. arr_remove_range st pos count = Some st' \<and> wf_set st' \<and> elems st' = take pos (elems st) @ drop (pos + count) (elems st)) \<and>
    for_iter st 0 = Some (elems st) \<and> for_iter_back st (int (s_count st) - 1) = Some (rev (elems st))"
  using arr_add_ok [OF assms(1,2)] arr_remove_ok [OF assms(1)] arr_remove_range_ok [OF assms(1,3)]
    for_iter_ok [OF assms(1), of 0] for_iter_back_ok [OF assms(1), of "cur st"] assms(1)
  by (simp add: arr_exists_elems s_count_def length_elems)

theorem growing_array_is_list_witness:
  "for_iter_back \<lparr>cur = 2, s_max = 2, keys = [7, 9 :: int]\<rparr> 1 = Some [9, 7] \<and>
   (\<exists>st'. arr_add 0 8 \<lparr>cur = 2, s_max = 2, keys = [7, 9 :: int]\<rparr> = Some st' \<and> elems st' = [7, 9, 8])"
  using growing_array_is_list [of "\<lparr>cur = 2, s_max = 2, keys = [7, 9 :: int]\<rparr>" 0 1 0 8]
  by (auto simp: wf_set_def elems_def INT_MAX_def size_limit_def s_count_def)

declare map_of_append [simp]

end
