(* ===== verification/FreeList.thy ===== *)
theory FreeList
  imports DataStruct
begin

text \<open>
  The free list of \<^verbatim>\<open>src/src/std/maps.c\<close>: the unused entry numbers of a hash map, as one range while that is
  possible (\<open>buckets\<close> is \<open>NULL\<close>, the range starts at \<open>head\<close> and has \<open>nbuckets\<close> numbers), and otherwise as an
  array of \<open>nbuckets\<close> buckets of which the first \<open>head\<close> are in use, sorted by position.

  Arrays are modelled as in \<open>DataStruct\<close>: an access outside of one is \<open>None\<close>. What a pool of numbers
  promises is the locale \<open>id_pool\<close>.
\<close>

record hl_free_bucket =
  fb_pos :: nat
  fb_count :: nat

record hl_free_list =
  buckets :: "hl_free_bucket list option"
  head :: nat
  nbuckets :: nat

definition bucket_zero :: hl_free_bucket where
  "bucket_zero = \<lparr>fb_pos = 0, fb_count = 0\<rparr>"

text \<open>The used buckets are copied into an array of the new size, which must hold them.\<close>

definition hl_freelist_resize :: "nat \<Rightarrow> hl_free_list \<Rightarrow> hl_free_list option" where
  "hl_freelist_resize newsize f =
     (let old = (case buckets f of None \<Rightarrow> [] | Some bs \<Rightarrow> bs) in
      if head f \<le> newsize \<and> head f \<le> length old
      then Some (f\<lparr>buckets := Some (realloc bucket_zero newsize (head f) old), nbuckets := newsize\<rparr>) else None)"

definition hl_freelist_init :: hl_free_list where
  "hl_freelist_init = \<lparr>buckets = None, head = 0, nbuckets = 0\<rparr>"

text \<open>The loop \<open>while( b < f->buckets + f->head )\<close>: the first bucket that starts after \<open>pos\<close>.\<close>

definition bucket_after :: "hl_free_bucket list \<Rightarrow> nat \<Rightarrow> nat \<Rightarrow> nat" where
  "bucket_after bs n pos = length (takeWhile (\<lambda>b. fb_pos b \<le> pos) (take n bs))"

text \<open>The part of \<open>hl_freelist_add_range\<close> that works on buckets; \<open>i\<close> is the index of \<open>b\<close>, and \<open>prev\<close> is the one before.\<close>

definition freelist_insert :: "nat \<Rightarrow> nat \<Rightarrow> nat \<Rightarrow> hl_free_bucket list \<Rightarrow> hl_free_list \<Rightarrow> hl_free_list option" where
  "freelist_insert i pos count bs f = do {
     f \<leftarrow> (if head f = nbuckets f then hl_freelist_resize ((nbuckets f * 3 + 1) div 2) (f\<lparr>buckets := Some bs\<rparr>) else Some (f\<lparr>buckets := Some bs\<rparr>));
     bs \<leftarrow> buckets f;
     bs \<leftarrow> memmove (i + 1) i (head f - i) bs;
     bs \<leftarrow> store i \<lparr>fb_pos = pos, fb_count = count\<rparr> bs;
     Some (f\<lparr>buckets := Some bs, head := head f + 1\<rparr>) }"

definition touches :: "hl_free_bucket \<Rightarrow> nat \<Rightarrow> bool" where
  "touches b pos \<longleftrightarrow> fb_pos b + fb_count b = pos"

definition freelist_add_buckets :: "nat \<Rightarrow> nat \<Rightarrow> hl_free_bucket list \<Rightarrow> hl_free_list \<Rightarrow> hl_free_list option" where
  "freelist_add_buckets pos count bs f = (let i = bucket_after bs (head f) pos in
     if i < head f \<and> fb_pos (bs ! i) = pos + count then
       (let b = \<lparr>fb_pos = pos, fb_count = fb_count (bs ! i) + count\<rparr>; bs = bs[i := b] in
        if i > 0 \<and> touches (bs ! (i - 1)) (fb_pos b) then do {
          bs \<leftarrow> memmove i (i + 1) (head f - (i + 1)) (bs[i - 1 := (bs ! (i - 1))\<lparr>fb_count := fb_count (bs ! (i - 1)) + fb_count b\<rparr>]);
          Some (f\<lparr>buckets := Some bs, head := head f - 1\<rparr>) }
        else Some (f\<lparr>buckets := Some bs\<rparr>))
     else if i > 0 \<and> touches (bs ! (i - 1)) pos then
       Some (f\<lparr>buckets := Some (bs[i - 1 := (bs ! (i - 1))\<lparr>fb_count := fb_count (bs ! (i - 1)) + count\<rparr>])\<rparr>)
     else freelist_insert i pos count bs f)"

definition hl_freelist_add_range :: "hl_free_list \<Rightarrow> nat \<Rightarrow> nat \<Rightarrow> hl_free_list option" where
  "hl_freelist_add_range f pos count = (case buckets f of
     Some bs \<Rightarrow> freelist_add_buckets pos count bs f
   | None \<Rightarrow>
       if nbuckets f = 0 then Some (f\<lparr>head := pos, nbuckets := count\<rparr>)
       else if head f + nbuckets f = pos then Some (f\<lparr>nbuckets := nbuckets f + count\<rparr>)
       else if pos + count = head f then Some (f\<lparr>head := head f - count, nbuckets := nbuckets f + count\<rparr>)
       else do {
         f1 \<leftarrow> hl_freelist_resize 2 (f\<lparr>head := 0, nbuckets := 0\<rparr>);
         bs1 \<leftarrow> buckets f1;
         f2 \<leftarrow> freelist_add_buckets (head f) (nbuckets f) bs1 f1;
         bs2 \<leftarrow> buckets f2;
         freelist_add_buckets pos count bs2 f2 })"

definition hl_freelist_add :: "hl_free_list \<Rightarrow> nat \<Rightarrow> hl_free_list option" where
  "hl_freelist_add f pos = hl_freelist_add_range f pos 1"

text \<open>The result \<open>- 1\<close> of the source is \<open>None\<close> in the first component.\<close>

definition hl_freelist_get :: "hl_free_list \<Rightarrow> (nat option \<times> hl_free_list) option" where
  "hl_freelist_get f = (case buckets f of
     None \<Rightarrow>
       if nbuckets f = 0 then Some (None, f) else Some (Some (head f), f\<lparr>nbuckets := nbuckets f - 1, head := head f + 1\<rparr>)
   | Some bs \<Rightarrow>
       if head f = 0 then Some (None, f)
       else do {
         b \<leftarrow> load (head f - 1) bs;
         let b = b\<lparr>fb_count := fb_count b - 1\<rparr>;
         let p = fb_pos b + fb_count b;
         let f1 = f\<lparr>buckets := Some (bs[head f - 1 := b])\<rparr>;
         if fb_count b = 0 then
           (let f2 = f1\<lparr>head := head f1 - 1\<rparr> in
            if head f2 < nbuckets f2 div 2 then do { f3 \<leftarrow> hl_freelist_resize (nbuckets f2 div 2) f2; Some (Some p, f3) }
            else Some (Some p, f2))
         else Some (Some p, f1) })"

subsection \<open>The contract of a pool of numbers\<close>

locale id_pool =
  fixes inv :: "'s \<Rightarrow> bool" and ids :: "'s \<Rightarrow> nat set"
    and give :: "'s \<Rightarrow> nat \<Rightarrow> nat \<Rightarrow> 's option"
    and grab :: "'s \<Rightarrow> (nat option \<times> 's) option"
  assumes finite_ids: "inv s \<Longrightarrow> finite (ids s)"
    and give: "inv s \<Longrightarrow> 0 < n \<Longrightarrow> ids s \<inter> {p..<p + n} = {} \<Longrightarrow> \<exists>s'. give s p n = Some s' \<and> inv s' \<and> ids s' = ids s \<union> {p..<p + n}"
    and grab_none: "inv s \<Longrightarrow> ids s = {} \<Longrightarrow> grab s = Some (None, s)"
    and grab_some: "inv s \<Longrightarrow> ids s \<noteq> {} \<Longrightarrow> \<exists>p s'. grab s = Some (Some p, s') \<and> p \<in> ids s \<and> inv s' \<and> ids s' = ids s - {p}"
begin

lemma give_back:
  assumes "inv s" "ids s \<noteq> {}"
  shows "\<exists>p s' s''. grab s = Some (Some p, s') \<and> give s' p 1 = Some s'' \<and> inv s'' \<and> ids s'' = ids s"
proof -
  obtain p s' where s': "grab s = Some (Some p, s')" "p \<in> ids s" "inv s'" "ids s' = ids s - {p}"
    using grab_some [OF assms] by blast
  then obtain s'' where "give s' p 1 = Some s''" "inv s''" "ids s'' = ids s' \<union> {p..<p + 1}"
    using give [of s' 1 p] by auto
  with s' show ?thesis by auto
qed

end

subsection \<open>Buckets\<close>

definition bset :: "hl_free_bucket \<Rightarrow> nat set" where
  "bset b = {fb_pos b..<fb_pos b + fb_count b}"

definition bsets :: "hl_free_bucket list \<Rightarrow> nat set" where
  "bsets bs = (\<Union>b\<in>set bs. bset b)"

definition ordered :: "hl_free_bucket list \<Rightarrow> bool" where
  "ordered bs \<longleftrightarrow> sorted_wrt (\<lambda>a b. fb_pos a + fb_count a \<le> fb_pos b) bs \<and> (\<forall>b\<in>set bs. 0 < fb_count b)"

definition fl_ids :: "hl_free_list \<Rightarrow> nat set" where
  "fl_ids f = (case buckets f of None \<Rightarrow> {head f..<head f + nbuckets f} | Some bs \<Rightarrow> bsets (take (head f) bs))"

definition fl_inv :: "hl_free_list \<Rightarrow> bool" where
  "fl_inv f = (case buckets f of None \<Rightarrow> True
     | Some bs \<Rightarrow> length bs = nbuckets f \<and> head f \<le> nbuckets f \<and> 0 < nbuckets f \<and> ordered (take (head f) bs))"

lemma bsets_simps [simp]: "bsets [] = {}" "bsets (b # bs) = bset b \<union> bsets bs" "bsets (xs @ ys) = bsets xs \<union> bsets ys"
  by (auto simp: bsets_def)

lemma finite_bsets [simp]: "finite (bsets bs)"
  by (simp add: bsets_def bset_def)

lemma bset_split: "{p..<p + (c + d)} = {p..<p + c} \<union> {p + c..<p + c + (d :: nat)}"
  by auto

lemma ordered_Nil [simp]: "ordered []"
  by (simp add: ordered_def)

lemma ordered_append: "ordered (xs @ ys) \<longleftrightarrow> ordered xs \<and> ordered ys \<and> (\<forall>a\<in>set xs. \<forall>b\<in>set ys. fb_pos a + fb_count a \<le> fb_pos b)"
  by (auto simp: ordered_def sorted_wrt_append)

lemma ordered_Cons: "ordered (x # xs) \<longleftrightarrow> 0 < fb_count x \<and> ordered xs \<and> (\<forall>b\<in>set xs. fb_pos x + fb_count x \<le> fb_pos b)"
  by (auto simp: ordered_def)

text \<open>Where a free range belongs among the buckets: behind those that end before it, ahead of the others.\<close>

lemma bucket_after_split:
  assumes "ordered us" "bsets us \<inter> {pos..<pos + count} = {}" "0 < count"
    and "i = length (takeWhile (\<lambda>b. fb_pos b \<le> pos) us)"
  shows "(\<forall>b\<in>set (take i us). fb_pos b + fb_count b \<le> pos) \<and> (\<forall>b\<in>set (drop i us). pos + count \<le> fb_pos b)"
proof -
  have disj: "bset b \<inter> {pos..<pos + count} = {}" "0 < fb_count b" if "b \<in> set us" for b
    using assms(1,2) that by (auto simp: bsets_def ordered_def)
  have "takeWhile (\<lambda>b. fb_pos b \<le> pos) us = take i us" "dropWhile (\<lambda>b. fb_pos b \<le> pos) us = drop i us"
    unfolding assms(4) by (rule takeWhile_eq_take, rule dropWhile_eq_drop)
  then have low: "b \<in> set (take i us) \<Longrightarrow> fb_pos b \<le> pos" and first: "drop i us \<noteq> [] \<Longrightarrow> pos < fb_pos (hd (drop i us))" for b
    using set_takeWhileD [of b "\<lambda>b. fb_pos b \<le> pos" us] hd_dropWhile [of "\<lambda>b. fb_pos b \<le> pos" us] by auto
  have "fb_pos b + fb_count b \<le> pos" if "b \<in> set (take i us)" for b
  proof (rule ccontr)
    assume "\<not> fb_pos b + fb_count b \<le> pos"
    then have "pos \<in> bset b" using low [OF that] by (simp add: bset_def)
    then show False using disj [of b] that assms(3) in_set_takeD [OF that] by auto
  qed
  moreover have "pos + count \<le> fb_pos b" if "b \<in> set (drop i us)" for b
  proof -
    have "ordered (drop i us)" using assms(1) ordered_append [of "take i us" "drop i us"] by simp
    then have "fb_pos (hd (drop i us)) \<le> fb_pos b"
      using that by (cases "drop i us") (auto simp: ordered_Cons)
    moreover have "drop i us \<noteq> []" using that by auto
    ultimately have "pos < fb_pos b" using first by simp
    moreover have "fb_pos b \<in> bset b" using disj(2) in_set_dropD [OF that] by (auto simp: bset_def)
    ultimately show ?thesis using disj(1) [OF in_set_dropD [OF that]] by fastforce
  qed
  ultimately show ?thesis by blast
qed

lemma ordered_mid:
  assumes "ordered xs" "ordered ys" "\<forall>b\<in>set xs. fb_pos b + fb_count b \<le> fb_pos m" "\<forall>b\<in>set ys. fb_pos m + fb_count m \<le> fb_pos b" "0 < fb_count m"
  shows "ordered (xs @ m # ys)"
  using assms by (fastforce simp: ordered_append ordered_Cons)

text \<open>An update of the used part of the array.\<close>

lemma fl_inv_Some:
  "fl_inv (f\<lparr>buckets := Some bs\<rparr>) \<longleftrightarrow> length bs = nbuckets f \<and> head f \<le> nbuckets f \<and> 0 < nbuckets f \<and> ordered (take (head f) bs)"
  "fl_ids (f\<lparr>buckets := Some bs\<rparr>) = bsets (take (head f) bs)"
  by (simp_all add: fl_inv_def fl_ids_def)

lemma resize_ok:
  assumes "buckets f = Some bs" "length bs = nbuckets f" "head f \<le> nbuckets f" "head f \<le> n"
  obtains bs' where "hl_freelist_resize n f = Some (f\<lparr>buckets := Some bs', nbuckets := n\<rparr>)" "length bs' = n" "take (head f) bs' = take (head f) bs"
proof -
  have "hl_freelist_resize n f = Some (f\<lparr>buckets := Some (realloc bucket_zero n (head f) bs), nbuckets := n\<rparr>)"
    using assms by (simp add: hl_freelist_resize_def)
  then show thesis using that assms by (simp add: length_realloc take_realloc)
qed

lemma freelist_insert_ok:
  assumes "length bs = nbuckets f" "head f \<le> nbuckets f" "0 < nbuckets f" "i \<le> head f"
    and "ordered (take i bs @ \<lparr>fb_pos = pos, fb_count = count\<rparr> # drop i (take (head f) bs))"
  shows "\<exists>f'. freelist_insert i pos count bs f = Some f' \<and> fl_inv f' \<and> fl_ids f' = bsets (take (head f) bs) \<union> {pos..<pos + count}"
proof -
  define m where "m = \<lparr>fb_pos = pos, fb_count = count\<rparr>"
  obtain f1 bs1 where f1: "(if head f = nbuckets f then hl_freelist_resize ((nbuckets f * 3 + 1) div 2) (f\<lparr>buckets := Some bs\<rparr>)
      else Some (f\<lparr>buckets := Some bs\<rparr>)) = Some f1" "buckets f1 = Some bs1" "head f1 = head f" "length bs1 = nbuckets f1" "head f1 < nbuckets f1"
    "take (head f) bs1 = take (head f) bs"
  proof (cases "head f = nbuckets f")
    case True
    have "nbuckets f \<le> (nbuckets f * 3 + 1) div 2" "nbuckets f < (nbuckets f * 3 + 1) div 2" using assms(3) by auto
    with resize_ok [of "f\<lparr>buckets := Some bs\<rparr>" bs "(nbuckets f * 3 + 1) div 2"] assms(1) True
    obtain bs' where "hl_freelist_resize ((nbuckets f * 3 + 1) div 2) (f\<lparr>buckets := Some bs\<rparr>) =
        Some (f\<lparr>buckets := Some bs', nbuckets := (nbuckets f * 3 + 1) div 2\<rparr>)"
      "length bs' = (nbuckets f * 3 + 1) div 2" "take (head f) bs' = take (head f) bs" by auto
    then show thesis
      using True \<open>nbuckets f < (nbuckets f * 3 + 1) div 2\<close>
      by (intro that [of "f\<lparr>buckets := Some bs', nbuckets := (nbuckets f * 3 + 1) div 2\<rparr>" bs']) auto
  next
    case False
    then show thesis using that [of "f\<lparr>buckets := Some bs\<rparr>" bs] assms(1,2) by auto
  qed
  have i: "i \<le> head f" "head f < length bs1" using assms(4) f1 by auto
  obtain bs2 where bs2: "arr_insert i m (head f) bs1 = Some bs2" "length bs2 = length bs1"
    "take (Suc (head f)) bs2 = take i (take (head f) bs1) @ m # drop i (take (head f) bs1)"
    by (rule arr_insert_take [OF i])
  then obtain bs3 where "memmove (i + 1) i (head f - i) bs1 = Some bs3" "store i m bs3 = Some bs2"
    unfolding arr_insert_def by (auto simp: bind_eq_Some_conv)
  then have res: "freelist_insert i pos count bs f = Some (f1\<lparr>buckets := Some bs2, head := head f1 + 1\<rparr>)"
    unfolding freelist_insert_def using f1 by (simp add: m_def)
  have used: "take (Suc (head f)) bs2 = take i bs @ m # drop i (take (head f) bs)"
    using bs2(3) f1(6) assms(4) by (simp add: min_def)
  have "bsets (take (head f) bs) = bsets (take i bs) \<union> bsets (drop i (take (head f) bs))"
    using assms(4) by (metis append_take_drop_id bsets_simps(3) take_take min.absorb1)
  then have "fl_ids (f1\<lparr>buckets := Some bs2, head := head f1 + 1\<rparr>) = bsets (take (head f) bs) \<union> {pos..<pos + count}"
    using used f1(3) by (auto simp: fl_ids_def bset_def m_def)
  moreover have "fl_inv (f1\<lparr>buckets := Some bs2, head := head f1 + 1\<rparr>)"
    using used f1 bs2(2) assms(5) by (simp add: fl_inv_def m_def)
  ultimately show ?thesis using res by blast
qed


lemma freelist_add_buckets_ok:
  assumes "length bs = nbuckets f" "head f \<le> nbuckets f" "0 < nbuckets f" "ordered (take (head f) bs)"
    and "bsets (take (head f) bs) \<inter> {pos..<pos + count} = {}" "0 < count"
  shows "\<exists>f' bs'. freelist_add_buckets pos count bs f = Some f' \<and> buckets f' = Some bs' \<and> fl_inv f' \<and>
    fl_ids f' = bsets (take (head f) bs) \<union> {pos..<pos + count}"
proof -
  define us i where "us = take (head f) bs" and "i = bucket_after bs (head f) pos"
  define xs ys where "xs = take i us" and "ys = drop i us"
  have us: "us = xs @ ys" "length us = head f" using assms(1,2) by (simp add: xs_def ys_def, simp add: us_def)
  have i: "i \<le> head f" "length xs = i" using us(2) length_takeWhile_le [of "\<lambda>b. fb_pos b \<le> pos" us]
    by (auto simp: i_def bucket_after_def xs_def simp flip: us_def)
  have order: "ordered xs" "ordered ys" "\<forall>a\<in>set xs. \<forall>b\<in>set ys. fb_pos a + fb_count a \<le> fb_pos b"
    using assms(4) us(1) by (auto simp: ordered_append simp flip: us_def)
  have "i = length (takeWhile (\<lambda>b. fb_pos b \<le> pos) us)" by (simp add: i_def bucket_after_def us_def)
  from bucket_after_split [OF _ _ assms(6) this] assms(4,5)
  have low: "\<forall>b\<in>set xs. fb_pos b + fb_count b \<le> pos" and high: "\<forall>b\<in>set ys. pos + count \<le> fb_pos b"
    by (auto simp: xs_def ys_def us_def)
  have xs_bs: "take i bs = xs" using i(1) by (simp add: xs_def us_def min_def)
  consider (D) "freelist_add_buckets pos count bs f = freelist_insert i pos count bs f"
    | (C) p xs0 where "xs = xs0 @ [p]" "touches p pos"
        "freelist_add_buckets pos count bs f = Some (f\<lparr>buckets := Some (bs[i - 1 := p\<lparr>fb_count := fb_count p + count\<rparr>])\<rparr>)"
    | (B) y ys0 where "ys = y # ys0" "fb_pos y = pos + count"
        "freelist_add_buckets pos count bs f = Some (f\<lparr>buckets := Some (bs[i := \<lparr>fb_pos = pos, fb_count = fb_count y + count\<rparr>])\<rparr>)"
    | (A) p xs0 y ys0 where "xs = xs0 @ [p]" "ys = y # ys0" "fb_pos y = pos + count" "touches p pos"
        "freelist_add_buckets pos count bs f = do {
          bs \<leftarrow> memmove i (i + 1) (head f - (i + 1)) (bs[i := \<lparr>fb_pos = pos, fb_count = fb_count y + count\<rparr>, i - 1 := p\<lparr>fb_count := fb_count p + (fb_count y + count)\<rparr>]);
          Some (f\<lparr>buckets := Some bs, head := head f - 1\<rparr>) }"
  proof -
    have y: "ys = bs ! i # tl ys" if "i < head f"
      using that us assms(1,2) i by (simp add: ys_def us_def) (metis Cons_nth_drop_Suc hd_drop_conv_nth length_take list.sel(1,3) min.absorb2 nth_take drop_Suc tl_drop)
    have p: "xs = butlast xs @ [bs ! (i - 1)]" if "0 < i"
      using that i assms(1,2) xs_bs by (cases i) (auto simp: take_Suc_conv_app_nth butlast_append simp flip: xs_bs)
    have eq: "freelist_add_buckets pos count bs f =
      (if i < head f \<and> fb_pos (bs ! i) = pos + count then
         (if 0 < i \<and> touches (bs ! (i - 1)) pos then do {
            bs \<leftarrow> memmove i (i + 1) (head f - (i + 1))
              (bs[i := \<lparr>fb_pos = pos, fb_count = fb_count (bs ! i) + count\<rparr>, i - 1 := (bs ! (i - 1))\<lparr>fb_count := fb_count (bs ! (i - 1)) + (fb_count (bs ! i) + count)\<rparr>]);
            Some (f\<lparr>buckets := Some bs, head := head f - 1\<rparr>) }
          else Some (f\<lparr>buckets := Some (bs[i := \<lparr>fb_pos = pos, fb_count = fb_count (bs ! i) + count\<rparr>])\<rparr>))
       else if 0 < i \<and> touches (bs ! (i - 1)) pos then
         Some (f\<lparr>buckets := Some (bs[i - 1 := (bs ! (i - 1))\<lparr>fb_count := fb_count (bs ! (i - 1)) + count\<rparr>])\<rparr>)
       else freelist_insert i pos count bs f)"
      by (cases "0 < i") (simp_all add: freelist_add_buckets_def Let_def flip: i_def)
    consider "i < head f" "fb_pos (bs ! i) = pos + count" "0 < i" "touches (bs ! (i - 1)) pos"
      | "i < head f" "fb_pos (bs ! i) = pos + count" "\<not> (0 < i \<and> touches (bs ! (i - 1)) pos)"
      | "\<not> (i < head f \<and> fb_pos (bs ! i) = pos + count)" "0 < i" "touches (bs ! (i - 1)) pos"
      | "\<not> (i < head f \<and> fb_pos (bs ! i) = pos + count)" "\<not> (0 < i \<and> touches (bs ! (i - 1)) pos)" by argo
    then show thesis
    proof cases
      case 1
      show thesis by (rule A [OF p y]) (use 1 in \<open>simp_all only: eq simp_thms if_True\<close>)
    next
      case 2
      show thesis by (rule B [OF y]) (use 2 in \<open>simp_all only: eq simp_thms if_True if_False\<close>)
    next
      case 3
      show thesis by (rule C [OF p]) (use 3 in \<open>simp_all only: eq simp_thms if_True if_False\<close>)
    next
      case 4
      show thesis by (rule D) (use 4 in \<open>simp_all only: eq simp_thms if_False\<close>)
    qed
  qed
  then show ?thesis
  proof cases
    case D
    have "ordered (take i bs @ \<lparr>fb_pos = pos, fb_count = count\<rparr> # drop i (take (head f) bs))"
      unfolding xs_bs using ordered_mid [OF order(1,2)] low high assms(6) by (simp add: ys_def us_def)
    from freelist_insert_ok [OF assms(1-3) i(1) this] show ?thesis
      using D by (auto simp: fl_inv_def freelist_insert_def bind_eq_Some_conv)
  next
    case C
    define m where "m = p\<lparr>fb_count := fb_count p + count\<rparr>"
    have used: "take (head f) (bs[i - 1 := m]) = xs0 @ m # ys"
      using C(1) i(2) us(1) by (auto simp: take_update_swap list_update_append simp flip: us_def)
    have "ordered (xs0 @ m # ys)"
      using C(1,2) order high by (intro ordered_mid) (auto simp: m_def touches_def ordered_append ordered_Cons)
    moreover have "bset m = bset p \<union> {pos..<pos + count}"
      using C(2) bset_split [of "fb_pos p" "fb_count p" count] by (simp add: m_def bset_def touches_def)
    ultimately show ?thesis
      using C used assms(1-3) us(1) by (auto simp: fl_inv_Some m_def simp flip: us_def)
  next
    case B
    define m where "m = \<lparr>fb_pos = pos, fb_count = fb_count y + count\<rparr>"
    have used: "take (head f) (bs[i := m]) = xs @ m # ys0"
      using B(1) i(2) us(1) by (simp add: take_update_swap list_update_append flip: us_def)
    have "ordered (xs @ m # ys0)"
      using B(1,2) order low by (intro ordered_mid) (auto simp: m_def ordered_Cons)
    moreover have "bset m = {pos..<pos + count} \<union> bset y"
      using B(2) bset_split [of pos count "fb_count y"] by (simp add: m_def bset_def add.commute)
    ultimately show ?thesis
      using B used assms(1-3) us(1) by (auto simp: fl_inv_Some m_def simp flip: us_def)
  next
    case A
    define b m where "b = \<lparr>fb_pos = pos, fb_count = fb_count y + count\<rparr>" and "m = p\<lparr>fb_count := fb_count p + (fb_count y + count)\<rparr>"
    have used: "take (head f) (bs[i := b, i - 1 := m]) = xs0 @ m # b # ys0"
    proof -
      have "i = Suc (length xs0)" using A(1) i(2) by simp
      then show ?thesis using A(1,2) us(1) by (simp add: take_update_swap list_update_append flip: us_def)
    qed
    have len: "head f = i + 1 + length ys0" using us A(1,2) i(2) by simp
    have "i + 1 \<le> head f" "head f \<le> length (bs[i := b, i - 1 := m])" using len assms(1,2) by auto
    from memmove_take [OF this] obtain bs' where bs': "memmove i (i + 1) (head f - (i + 1)) (bs[i := b, i - 1 := m]) = Some bs'"
      "length bs' = length bs" "take (head f - 1) bs' = take i (xs0 @ m # b # ys0) @ drop (i + 1) (xs0 @ m # b # ys0)"
      unfolding used by (metis diff_diff_left length_list_update)
    have used': "take (head f - 1) bs' = xs0 @ m # ys0" using bs'(3) A(1) i(2) by auto
    have "ordered (xs0 @ m # ys0)"
      using A(1-4) order by (intro ordered_mid) (auto simp: m_def touches_def ordered_append ordered_Cons)
    moreover have "bset m = bset p \<union> ({pos..<pos + count} \<union> bset y)"
      using A(3,4) bset_split [of "fb_pos p" "fb_count p" "count + fb_count y"] bset_split [of pos count "fb_count y"]
      by (simp add: m_def bset_def touches_def add.commute)
    ultimately show ?thesis
      using A bs' used' assms(1-3) us(1) by (auto simp: fl_inv_def fl_ids_def b_def m_def simp flip: us_def)
  qed
qed

lemma add_range_ok:
  assumes "fl_inv f" "0 < count" "fl_ids f \<inter> {pos..<pos + count} = {}"
  shows "\<exists>f'. hl_freelist_add_range f pos count = Some f' \<and> fl_inv f' \<and> fl_ids f' = fl_ids f \<union> {pos..<pos + count}"
proof (cases "buckets f")
  case (Some bs)
  then show ?thesis
    using freelist_add_buckets_ok [of bs f pos count] assms by (auto simp: hl_freelist_add_range_def fl_inv_def fl_ids_def)
next
  case None
  consider "nbuckets f = 0" | "nbuckets f \<noteq> 0" "head f + nbuckets f = pos" | "nbuckets f \<noteq> 0" "pos + count = head f" "head f + nbuckets f \<noteq> pos"
    | "nbuckets f \<noteq> 0" "head f + nbuckets f \<noteq> pos" "pos + count \<noteq> head f" by blast
  then show ?thesis
  proof cases
    case 4
    define f1 where "f1 = f\<lparr>head := 0, nbuckets := 2, buckets := Some [bucket_zero, bucket_zero]\<rparr>"
    have r: "hl_freelist_resize 2 (f\<lparr>head := 0, nbuckets := 0\<rparr>) = Some f1"
      using None by (simp add: hl_freelist_resize_def f1_def realloc_def numeral_2_eq_2)
    obtain f2 bs2 where f2: "freelist_add_buckets (head f) (nbuckets f) [bucket_zero, bucket_zero] f1 = Some f2" "buckets f2 = Some bs2" "fl_inv f2"
      "fl_ids f2 = {head f..<head f + nbuckets f}"
      using freelist_add_buckets_ok [of "[bucket_zero, bucket_zero]" f1 "head f" "nbuckets f"] 4(1) by (auto simp: f1_def ordered_def)
    then obtain f3 where "freelist_add_buckets pos count bs2 f2 = Some f3" "fl_inv f3" "fl_ids f3 = fl_ids f2 \<union> {pos..<pos + count}"
      using freelist_add_buckets_ok [of bs2 f2 pos count] assms None by (auto simp: fl_inv_def fl_ids_def)
    with 4 None r f2 show ?thesis by (auto simp: hl_freelist_add_range_def fl_ids_def f1_def)
  qed (use None in \<open>auto simp: hl_freelist_add_range_def fl_inv_def fl_ids_def\<close>)
qed

lemma get_none: "fl_inv f \<Longrightarrow> fl_ids f = {} \<Longrightarrow> hl_freelist_get f = Some (None, f)"
proof (cases "buckets f")
  case (Some bs)
  assume "fl_inv f" "fl_ids f = {}"
  then have "take (head f) bs = []"
    using Some by (cases "take (head f) bs") (auto simp: fl_inv_def fl_ids_def ordered_Cons bset_def)
  then show ?thesis using Some \<open>fl_inv f\<close> by (auto simp: hl_freelist_get_def fl_inv_def)
qed (auto simp: hl_freelist_get_def fl_ids_def)

lemma get_some:
  assumes "fl_inv f" "fl_ids f \<noteq> {}"
  shows "\<exists>p f'. hl_freelist_get f = Some (Some p, f') \<and> p \<in> fl_ids f \<and> fl_inv f' \<and> fl_ids f' = fl_ids f - {p}"
proof (cases "buckets f")
  case None
  then show ?thesis
    using assms(2) by (auto simp: hl_freelist_get_def fl_inv_def fl_ids_def)
next
  case (Some bs)
  have inv: "length bs = nbuckets f" "head f \<le> nbuckets f" "0 < nbuckets f" "ordered (take (head f) bs)" and ne: "head f \<noteq> 0"
    using assms Some by (auto simp: fl_inv_def fl_ids_def)
  define h b where "h = head f - 1" and "b = bs ! h"
  have used: "take (head f) bs = take h bs @ [b]" using inv ne by (cases "head f") (auto simp: take_Suc_conv_app_nth h_def b_def)
  define c p where "c = b\<lparr>fb_count := fb_count b - 1\<rparr>" and "p = fb_pos b + (fb_count b - 1)"
  have pos: "0 < fb_count b" "ordered (take h bs)" "\<forall>a\<in>set (take h bs). fb_pos a + fb_count a \<le> fb_pos b"
    using inv(4) by (auto simp: used ordered_append ordered_Cons)
  have bset: "bset b = insert p (bset c)" "p \<notin> bset c" "p \<notin> bsets (take h bs)"
    using pos by (force simp: bset_def c_def p_def bsets_def)+
  have h: "h < length bs" "head f = Suc h" using inv ne by (auto simp: h_def)
  have upd: "take h (bs[h := c]) = take h bs" "take (Suc h) (bs[h := c]) = take h bs @ [c]"
    using h(1) by (simp_all add: take_Suc_conv_app_nth)
  have ids: "fl_ids f = bsets (take h bs) \<union> bset b" using Some used by (simp add: fl_ids_def)
  have get: "hl_freelist_get f = (let f1 = f\<lparr>buckets := Some (bs[h := c])\<rparr> in
      if fb_count c = 0 then
        (let f2 = f1\<lparr>head := h\<rparr> in
         if h < nbuckets f2 div 2 then do { f3 \<leftarrow> hl_freelist_resize (nbuckets f2 div 2) f2; Some (Some p, f3) } else Some (Some p, f2))
      else Some (Some p, f1))"
    using Some h by (simp add: hl_freelist_get_def load_def Let_def c_def p_def b_def)
  consider "fb_count c \<noteq> 0" | "fb_count c = 0" "\<not> h < nbuckets f div 2" | "fb_count c = 0" "h < nbuckets f div 2" by blast
  then show ?thesis
  proof cases
    case 1
    then have "ordered (take h bs @ [c])" using pos by (intro ordered_mid) (auto simp: c_def)
    then show ?thesis
      using 1 get inv upd h ids bset by (auto simp: fl_inv_def fl_ids_def Let_def)
  next
    case 2
    then have "bset c = {}" by (simp add: bset_def)
    then show ?thesis
      using 2 get inv upd h ids bset pos(2) by (auto simp: fl_inv_def fl_ids_def Let_def)
  next
    case 3
    then have "bset c = {}" by (simp add: bset_def)
    have "h \<le> nbuckets f" "h \<le> nbuckets f div 2" "length (bs[h := c]) = nbuckets f" using 3 h inv by auto
    then obtain bs' where "hl_freelist_resize (nbuckets f div 2) (f\<lparr>buckets := Some (bs[h := c]), head := h\<rparr>) =
        Some (f\<lparr>buckets := Some (bs[h := c]), head := h\<rparr>\<lparr>buckets := Some bs', nbuckets := nbuckets f div 2\<rparr>)"
      "length bs' = nbuckets f div 2" "take h bs' = take h (bs[h := c])"
      using resize_ok [of "f\<lparr>buckets := Some (bs[h := c]), head := h\<rparr>" "bs[h := c]" "nbuckets f div 2" thesis] by simp
    with \<open>bset c = {}\<close> show ?thesis
      using 3 get inv upd h ids bset pos(2) by (auto simp: fl_inv_def fl_ids_def Let_def)
  qed
qed

lemma finite_fl_ids: "finite (fl_ids f)"
  by (simp add: fl_ids_def split: option.splits)

interpretation pool: id_pool fl_inv fl_ids hl_freelist_add_range hl_freelist_get
proof (unfold_locales, goal_cases)
  case 1
  show ?case by (rule finite_fl_ids)
next
  case 2
  then show ?case by (rule add_range_ok)
next
  case 3
  then show ?case by (rule get_none)
next
  case 4
  then show ?case by (rule get_some)
qed

end
