(* ===== verification/HashMap.thy ===== *)
theory HashMap
  imports FreeList FieldHash
begin

unbundle bit_operations_syntax

text \<open>
  The hash maps of the runtime: the template \<^verbatim>\<open>src/src/std/maps.h\<close>, instantiated in \<^verbatim>\<open>src/src/std/maps.c\<close> for
  integer, 64-bit, string and object keys.

  The model is over any key type and hash function, the template's \<open>_MNAME(hash)\<close>; \<open>_MMATCH\<close> is equality
  of keys. An entry number is an \<open>int\<close>, negative at the end of a chain. The cells and the links of a map
  are \<open>signed char\<close> arrays while it has fewer than \<open>_MLIMIT\<close> entries and \<open>int\<close> arrays from there on: each
  array carries its width, a read at the other width is \<open>None\<close>, and a number is narrowed when it is
  stored. Following a chain that does not end is \<open>None\<close> as well (\<open>partial_function\<close>), and so is any access
  outside of an array, a failed \<open>assert\<close>, and a size that does not fit an \<open>int\<close>.
\<close>

definition H_SIZE_INIT :: nat where
  "H_SIZE_INIT = 3"

definition H_PRIMES :: "nat list" where
  "H_PRIMES = [7, 17, 37, 79, 163, 331, 673, 1361, 2729, 5471, 10949, 21911, 43853, 87613, 175229, 350459, 700919, 1401857,
     2803727, 5607457, 11214943, 22429903, 44859823, 89719661, 179424673, 373587883, 776531401, 1611623773]"

definition MLIMIT :: nat where
  "MLIMIT = 128"

definition i8 :: "int \<Rightarrow> int" where
  "i8 x = (x + 128) mod 256 - 128"

text \<open>An array of entry numbers: \<open>wide\<close> tells an \<open>int\<close> array from a \<open>signed char\<close> array.\<close>

record idx_array =
  wide :: bool
  idx :: "int list"

record ('k, 'v) t_map =
  cells :: idx_array
  nexts :: idx_array
  entries :: "'k list"
  mvalues :: "'v list option"
  lfree :: hl_free_list
  ncells :: nat
  nentries :: nat
  maxentries :: nat

text \<open>What new memory holds (\<open>f_key\<close>, \<open>f_next\<close>) and what a cleared key and value is (\<open>zero_key\<close>, \<open>null\<close>).\<close>

record ('k, 'v) mem =
  f_key :: 'k
  f_next :: int
  zero_key :: 'k
  null :: 'v

definition no_array :: idx_array where
  "no_array = \<lparr>wide = False, idx = []\<rparr>"

definition map_alloc :: "('k, 'v) t_map" where
  "map_alloc = \<lparr>cells = no_array, nexts = no_array, entries = [], mvalues = None, lfree = hl_freelist_init,
     ncells = 0, nentries = 0, maxentries = 0\<rparr>"

definition is_wide :: "('k, 'v) t_map \<Rightarrow> bool" where
  "is_wide m = (\<not> maxentries m < MLIMIT)"

definition rd :: "bool \<Rightarrow> nat \<Rightarrow> idx_array \<Rightarrow> int option" where
  "rd w i a = (if wide a = w then load i (idx a) else None)"

definition wr :: "bool \<Rightarrow> nat \<Rightarrow> int \<Rightarrow> idx_array \<Rightarrow> idx_array option" where
  "wr w i c a = (if wide a = w then map_option (\<lambda>xs. a\<lparr>idx := xs\<rparr>) (store i (if w then c else i8 c) (idx a)) else None)"

definition MINDEX :: "('k, 'v) t_map \<Rightarrow> nat \<Rightarrow> int option" where
  "MINDEX m ckey = rd (is_wide m) ckey (cells m)"

definition MNEXT :: "('k, 'v) t_map \<Rightarrow> nat \<Rightarrow> int option" where
  "MNEXT m c = rd (is_wide m) c (nexts m)"

text \<open>The \<open>%\<close> of the source, which has no value for 0.\<close>

definition cell_of :: "('k \<Rightarrow> u32) \<Rightarrow> ('k, 'v) t_map \<Rightarrow> 'k \<Rightarrow> nat option" where
  "cell_of hash m key = (if ncells m = 0 then None else Some (unat (hash key) mod ncells m))"

text \<open>The loop of \<open>find\<close>, \<open>set_impl\<close> and \<open>remove\<close>: the entry with the key and the one before it.\<close>

partial_function (option) chain_find :: "('k, 'v) t_map \<Rightarrow> 'k \<Rightarrow> nat option \<Rightarrow> int \<Rightarrow> (nat option \<times> nat) option option" where
  "chain_find m key prev c =
     (if c \<ge> 0 then do {
        k \<leftarrow> load (nat c) (entries m);
        if k = key then Some (Some (prev, nat c))
        else do { c' \<leftarrow> MNEXT m (nat c); chain_find m key (Some (nat c)) c' } }
      else Some None)"

definition map_lookup :: "('k \<Rightarrow> u32) \<Rightarrow> ('k, 'v) t_map \<Rightarrow> 'k \<Rightarrow> (nat option \<times> nat) option option" where
  "map_lookup hash m key = do { ckey \<leftarrow> cell_of hash m key; c \<leftarrow> MINDEX m ckey; chain_find m key None c }"

definition hfind :: "('k \<Rightarrow> u32) \<Rightarrow> ('k, 'v) t_map \<Rightarrow> 'k \<Rightarrow> 'v option option" where
  "hfind hash m key = (case mvalues m of
     None \<Rightarrow> Some None
   | Some vs \<Rightarrow> do {
       r \<leftarrow> map_lookup hash m key;
       case r of None \<Rightarrow> Some None | Some (_, c) \<Rightarrow> map_option Some (load c vs) })"

text \<open>The end of \<open>set_impl\<close>: the new entry \<open>c\<close> becomes the first of its chain.\<close>

definition link :: "nat \<Rightarrow> nat \<Rightarrow> 'k \<Rightarrow> 'v \<Rightarrow> ('k, 'v) t_map \<Rightarrow> ('k, 'v) t_map option" where
  "link ckey c key value m = do {
     es \<leftarrow> store c key (entries m);
     first \<leftarrow> MINDEX m ckey;
     ns \<leftarrow> wr (is_wide m) c first (nexts m);
     cs \<leftarrow> wr (is_wide m) ckey (int c) (cells m);
     vs \<leftarrow> mvalues m;
     vs \<leftarrow> store c value vs;
     Some (m\<lparr>entries := es, nexts := ns, cells := cs, mvalues := Some vs, nentries := nentries m + 1\<rparr>) }"

text \<open>
  \<open>set_impl\<close>, with \<open>resize\<close> as an argument: the two call each other in the source. The resize inside of a
  rehash is the function that is nowhere defined; that it is not called is part of what is proved.
\<close>

definition set_with :: "(('k, 'v) t_map \<Rightarrow> ('k, 'v) t_map option) \<Rightarrow> ('k \<Rightarrow> u32) \<Rightarrow> 'k \<Rightarrow> 'v \<Rightarrow> ('k, 'v) t_map \<Rightarrow> ('k, 'v) t_map option" where
  "set_with resize hash key value m = do {
     found \<leftarrow> (case mvalues m of None \<Rightarrow> Some None | Some _ \<Rightarrow> map_lookup hash m key);
     case found of
       Some (_, c) \<Rightarrow> do { vs \<leftarrow> mvalues m; vs \<leftarrow> store c value vs; Some (m\<lparr>mvalues := Some vs\<rparr>) }
     | None \<Rightarrow> do {
         (c, fl) \<leftarrow> hl_freelist_get (lfree m);
         let m1 = m\<lparr>lfree := fl\<rparr>;
         case c of
           Some c \<Rightarrow> do { ckey \<leftarrow> cell_of hash m1 key; link ckey c key value m1 }
         | None \<Rightarrow> do {
             m2 \<leftarrow> resize m1;
             ckey \<leftarrow> cell_of hash m2 key;
             (c, fl) \<leftarrow> hl_freelist_get (lfree m2);
             c \<leftarrow> c;
             link ckey c key value (m2\<lparr>lfree := fl\<rparr>) } } }"

text \<open>The next prime that is not below \<open>n\<close>: the loop \<open>while( H_PRIMES[i] < ncells ) i++\<close>.\<close>

definition next_prime :: "nat \<Rightarrow> nat option" where
  "next_prime n = find (\<lambda>p. \<not> p < n) H_PRIMES"

text \<open>The chain from \<open>c\<close>, in the old map, entered one by one into the new one.\<close>

partial_function (option) rehash_chain ::
    "(('k, 'v) t_map \<Rightarrow> ('k, 'v) t_map option) \<Rightarrow> ('k \<Rightarrow> u32) \<Rightarrow> ('k, 'v) t_map \<Rightarrow> int \<Rightarrow> ('k, 'v) t_map \<Rightarrow> ('k, 'v) t_map option" where
  "rehash_chain resize hash old c m =
     (if c \<ge> 0 then do {
        k \<leftarrow> load (nat c) (entries old);
        vs \<leftarrow> mvalues old;
        v \<leftarrow> load (nat c) vs;
        m \<leftarrow> set_with resize hash k v m;
        c' \<leftarrow> MNEXT old (nat c);
        rehash_chain resize hash old c' m }
      else Some m)"

fun rehash :: "(('k, 'v) t_map \<Rightarrow> ('k, 'v) t_map option) \<Rightarrow> ('k \<Rightarrow> u32) \<Rightarrow> ('k, 'v) t_map \<Rightarrow> nat list \<Rightarrow> ('k, 'v) t_map \<Rightarrow> ('k, 'v) t_map option" where
  "rehash resize hash old [] m = Some m"
| "rehash resize hash old (i # is) m = do {
     c \<leftarrow> MINDEX old i;
     m \<leftarrow> rehash_chain resize hash old c m;
     rehash resize hash old is m }"

definition new_size :: "('k, 'v) t_map \<Rightarrow> nat option" where
  "new_size m = (if maxentries m \<noteq> 0 then do { n \<leftarrow> int_fits (maxentries m * 3 + 1); Some (n div 2) } else Some H_SIZE_INIT)"

text \<open>The two branches of \<open>resize\<close>.\<close>

definition expand :: "('k, 'v) mem \<Rightarrow> nat \<Rightarrow> ('k, 'v) t_map \<Rightarrow> ('k, 'v) t_map option" where
  "expand h n m = do {
     vs \<leftarrow> mvalues m;
     fl \<leftarrow> hl_freelist_add_range (lfree m) (maxentries m) (n - maxentries m);
     Some (m\<lparr>entries := realloc (f_key h) n (maxentries m) (entries m),
             mvalues := Some (realloc (null h) n (maxentries m) vs),
             nexts := (nexts m)\<lparr>idx := realloc (f_next h) n (maxentries m) (idx (nexts m))\<rparr>,
             lfree := fl, maxentries := n\<rparr>) }"

definition remap_base :: "('k, 'v) mem \<Rightarrow> nat \<Rightarrow> nat \<Rightarrow> ('k, 'v) t_map option" where
  "remap_base h n nc = do {
     fl \<leftarrow> hl_freelist_add_range hl_freelist_init 0 n;
     Some \<lparr>cells = \<lparr>wide = \<not> n < MLIMIT, idx = replicate nc (- 1)\<rparr>,
           nexts = \<lparr>wide = \<not> n < MLIMIT, idx = replicate n (f_next h)\<rparr>,
           entries = replicate n (f_key h), mvalues = Some (replicate n (null h)), lfree = fl,
           ncells = nc, nentries = 0, maxentries = n\<rparr> }"

definition hresize :: "('k, 'v) mem \<Rightarrow> ('k \<Rightarrow> u32) \<Rightarrow> ('k, 'v) t_map \<Rightarrow> ('k, 'v) t_map option" where
  "hresize h hash m =
     (if nentries m \<noteq> maxentries m then None
      else do {
        n \<leftarrow> new_size m;
        nc \<leftarrow> next_prime (n div 4);
        if ncells m = nc \<and> (n < MLIMIT \<or> maxentries m \<ge> MLIMIT) then expand h n m
        else do {
          m1 \<leftarrow> remap_base h n nc;
          rehash (\<lambda>_. None) hash m [0..<ncells m] m1 } })"

definition set_impl :: "('k, 'v) mem \<Rightarrow> ('k \<Rightarrow> u32) \<Rightarrow> 'k \<Rightarrow> 'v \<Rightarrow> ('k, 'v) t_map \<Rightarrow> ('k, 'v) t_map option" where
  "set_impl h hash = set_with (hresize h hash) hash"

subsection \<open>The exported operations\<close>

definition hset :: "('k, 'v) mem \<Rightarrow> ('k \<Rightarrow> u32) \<Rightarrow> ('k \<Rightarrow> 'k) \<Rightarrow> 'k \<Rightarrow> 'v \<Rightarrow> ('k, 'v) t_map \<Rightarrow> ('k, 'v) t_map option" where
  "hset h hash filt key value m = set_impl h hash (filt key) value m"

definition hexists :: "('k \<Rightarrow> u32) \<Rightarrow> ('k \<Rightarrow> 'k) \<Rightarrow> ('k, 'v) t_map \<Rightarrow> 'k \<Rightarrow> bool option" where
  "hexists hash filt m key = map_option (\<lambda>r. r \<noteq> None) (hfind hash m (filt key))"

definition hget :: "('k, 'v) mem \<Rightarrow> ('k \<Rightarrow> u32) \<Rightarrow> ('k \<Rightarrow> 'k) \<Rightarrow> ('k, 'v) t_map \<Rightarrow> 'k \<Rightarrow> 'v option" where
  "hget h hash filt m key = map_option (\<lambda>r. case r of None \<Rightarrow> null h | Some v \<Rightarrow> v) (hfind hash m (filt key))"

definition unlink :: "('k, 'v) mem \<Rightarrow> nat \<Rightarrow> nat option \<Rightarrow> nat \<Rightarrow> ('k, 'v) t_map \<Rightarrow> ('k, 'v) t_map option" where
  "unlink h ckey prev c m = do {
     fl \<leftarrow> hl_freelist_add (lfree m) c;
     vs \<leftarrow> mvalues m;
     vs \<leftarrow> store c (null h) vs;
     nxt \<leftarrow> MNEXT m c;
     m \<leftarrow> (case prev of
        Some p \<Rightarrow> do { ns \<leftarrow> wr (is_wide m) p nxt (nexts m); Some (m\<lparr>nexts := ns\<rparr>) }
      | None \<Rightarrow> do { cs \<leftarrow> wr (is_wide m) ckey nxt (cells m); Some (m\<lparr>cells := cs\<rparr>) });
     Some (m\<lparr>lfree := fl, nentries := nentries m - 1, mvalues := Some vs\<rparr>) }"

definition hremove :: "('k, 'v) mem \<Rightarrow> ('k \<Rightarrow> u32) \<Rightarrow> ('k \<Rightarrow> 'k) \<Rightarrow> ('k, 'v) t_map \<Rightarrow> 'k \<Rightarrow> (bool \<times> ('k, 'v) t_map) option" where
  "hremove h hash filt m key0 = (case mvalues m of
     None \<Rightarrow> Some (False, m)
   | Some _ \<Rightarrow> (let key = filt key0 in do {
       ckey \<leftarrow> cell_of hash m key;
       c \<leftarrow> MINDEX m ckey;
       r \<leftarrow> chain_find m key None c;
       case r of None \<Rightarrow> Some (False, m) | Some (prev, c) \<Rightarrow> map_option (Pair True) (unlink h ckey prev c m) }))"

partial_function (option) chain_list :: "('k, 'v) t_map \<Rightarrow> int \<Rightarrow> nat list option" where
  "chain_list m c = (if c \<ge> 0 then do { c' \<leftarrow> MNEXT m (nat c); rest \<leftarrow> chain_list m c'; Some (nat c # rest) } else Some [])"

text \<open>The entries in the order in which \<open>keys\<close> and \<open>values\<close> visit them.\<close>

fun visit :: "('k, 'v) t_map \<Rightarrow> nat list \<Rightarrow> nat list option" where
  "visit m [] = Some []"
| "visit m (i # is) = do { c \<leftarrow> MINDEX m i; cs \<leftarrow> chain_list m c; rest \<leftarrow> visit m is; Some (cs @ rest) }"

text \<open>The result array has \<open>nentries\<close> elements; one more would be outside of it, one less would stay cleared.\<close>

definition hkeys :: "('k, 'v) mem \<Rightarrow> ('k, 'v) t_map \<Rightarrow> 'k list option" where
  "hkeys h m = do {
     cs \<leftarrow> visit m [0..<ncells m];
     ks \<leftarrow> those (map (\<lambda>c. load c (entries m)) cs);
     if length ks \<le> nentries m then Some (ks @ replicate (nentries m - length ks) (zero_key h)) else None }"

definition hvalues :: "('k, 'v) mem \<Rightarrow> ('k, 'v) t_map \<Rightarrow> 'v list option" where
  "hvalues h m = do {
     cs \<leftarrow> visit m [0..<ncells m];
     vs \<leftarrow> those (map (\<lambda>c. case mvalues m of None \<Rightarrow> None | Some vs \<Rightarrow> load c vs) cs);
     if length vs \<le> nentries m then Some (vs @ replicate (nentries m - length vs) (null h)) else None }"

definition MCLEAR_KEEP_ENTRIES :: nat where
  "MCLEAR_KEEP_ENTRIES = 65536"

definition hclear :: "('k, 'v) mem \<Rightarrow> ('k, 'v) t_map \<Rightarrow> ('k, 'v) t_map option" where
  "hclear h m =
     (if mvalues m \<noteq> None \<and> maxentries m \<le> MCLEAR_KEEP_ENTRIES then do {
        fl \<leftarrow> hl_freelist_add_range hl_freelist_init 0 (maxentries m);
        Some (m\<lparr>cells := (cells m)\<lparr>idx := replicate (ncells m) (- 1)\<rparr>,
                entries := replicate (maxentries m) (zero_key h),
                mvalues := Some (replicate (maxentries m) (null h)),
                nentries := 0, lfree := fl\<rparr>) }
      else Some map_alloc)"

text \<open>Every buffer is duplicated, so the copy shares nothing with the original; only used free buckets are copied.\<close>

definition hcopy :: "('k, 'v) t_map \<Rightarrow> ('k, 'v) t_map" where
  "hcopy m = (case mvalues m of
     None \<Rightarrow> m
   | Some _ \<Rightarrow> m\<lparr>lfree := (case buckets (lfree m) of
       None \<Rightarrow> lfree m
     | Some bs \<Rightarrow> (lfree m)\<lparr>buckets := Some (realloc bucket_zero (nbuckets (lfree m)) (head (lfree m)) bs)\<rparr>)\<rparr>)"

definition hsize :: "('k, 'v) t_map \<Rightarrow> nat" where
  "hsize m = nentries m"

subsection \<open>Chains\<close>

fun is_chain :: "int list \<Rightarrow> int \<Rightarrow> nat list \<Rightarrow> bool" where
  "is_chain nx c [] \<longleftrightarrow> c = - 1"
| "is_chain nx c (x # xs) \<longleftrightarrow> c = int x \<and> x < length nx \<and> is_chain nx (nx ! x) xs"

lemma is_chain_frame: "c \<notin> set xs \<Longrightarrow> is_chain (nx[c := v]) a xs = is_chain nx a xs"
  by (induction xs arbitrary: a) auto

lemma is_chain_range: "is_chain nx a xs \<Longrightarrow> a = - 1 \<or> (0 \<le> a \<and> nat a < length nx \<and> nat a \<in> set xs)"
  by (cases xs) auto

lemma is_chain_set: "is_chain nx a xs \<Longrightarrow> set xs \<subseteq> {..<length nx}"
  by (induction xs arbitrary: a) auto

lemma is_chain_append: "is_chain nx a (ys @ c # zs) \<Longrightarrow> c < length nx \<and> is_chain nx (nx ! c) zs"
  by (induction ys arbitrary: a) auto

lemma is_chain_unlink_first: "is_chain nx a (c # zs) \<Longrightarrow> is_chain nx (nx ! c) zs"
  by simp

lemma is_chain_unlink:
  assumes "is_chain nx a (ys @ p # c # zs)" "distinct (ys @ p # c # zs)"
  shows "is_chain (nx[p := nx ! c]) a (ys @ p # zs)"
  using assms
proof (induction ys arbitrary: a)
  case Nil
  then show ?case using is_chain_frame [of p zs nx] by auto
next
  case (Cons y ys)
  then show ?case by (auto simp: nth_list_update)
qed

subsection \<open>The invariant\<close>

definition widths_ok :: "('k, 'v) t_map \<Rightarrow> bool" where
  "widths_ok m \<longleftrightarrow> wide (cells m) = is_wide m \<and> wide (nexts m) = is_wide m"

text \<open>The sizes of the buffers of an allocated map with the values \<open>vs\<close>.\<close>

definition sizes_ok :: "('k, 'v) t_map \<Rightarrow> 'v list \<Rightarrow> bool" where
  "sizes_ok m vs \<longleftrightarrow> 0 < ncells m \<and> 0 < maxentries m \<and> length (idx (cells m)) = ncells m \<and> length (idx (nexts m)) = maxentries m \<and>
     length (entries m) = maxentries m \<and> length vs = maxentries m \<and> widths_ok m"

text \<open>\<open>ch i\<close> is the chain of cell \<open>i\<close>: it ends, its keys are different and belong to the cell.\<close>

definition cell_ok :: "('k \<Rightarrow> u32) \<Rightarrow> ('k, 'v) t_map \<Rightarrow> nat \<Rightarrow> nat list \<Rightarrow> bool" where
  "cell_ok hash m i xs \<longleftrightarrow> is_chain (idx (nexts m)) (idx (cells m) ! i) xs \<and> distinct (map ((!) (entries m)) xs) \<and>
     (\<forall>c\<in>set xs. unat (hash (entries m ! c)) mod ncells m = i)"

definition used :: "('k, 'v) t_map \<Rightarrow> (nat \<Rightarrow> nat list) \<Rightarrow> nat set" where
  "used m ch = (\<Union>i<ncells m. set (ch i))"

definition hinv :: "('k \<Rightarrow> u32) \<Rightarrow> ('k, 'v) t_map \<Rightarrow> 'v list \<Rightarrow> (nat \<Rightarrow> nat list) \<Rightarrow> bool" where
  "hinv hash m vs ch \<longleftrightarrow> mvalues m = Some vs \<and> sizes_ok m vs \<and> (\<forall>i<ncells m. cell_ok hash m i (ch i)) \<and>
     fl_inv (lfree m) \<and> fl_ids (lfree m) = {0..<maxentries m} - used m ch \<and> nentries m = card (used m ch)"

text \<open>A map is either not allocated or has these chains.\<close>

definition hm_inv :: "('k \<Rightarrow> u32) \<Rightarrow> ('k, 'v) t_map \<Rightarrow> bool" where
  "hm_inv hash m \<longleftrightarrow> m = map_alloc \<or> (\<exists>vs ch. hinv hash m vs ch)"

text \<open>What a map stands for: for each key, the chain of its cell as an association list.\<close>

definition assoc :: "('k, 'v) t_map \<Rightarrow> 'v list \<Rightarrow> nat list \<Rightarrow> ('k \<times> 'v) list" where
  "assoc m vs xs = map (\<lambda>c. (entries m ! c, vs ! c)) xs"

definition hm_abs :: "('k \<Rightarrow> u32) \<Rightarrow> ('k, 'v) t_map \<Rightarrow> 'k \<rightharpoonup> 'v" where
  "hm_abs hash m k = (case mvalues m of
     None \<Rightarrow> None
   | Some vs \<Rightarrow> (case chain_list m (idx (cells m) ! (unat (hash k) mod ncells m)) of
       Some xs \<Rightarrow> map_of (assoc m vs xs) k
     | None \<Rightarrow> None))"

lemma hinvD:
  assumes "hinv hash m vs ch"
  shows "mvalues m = Some vs" "sizes_ok m vs" "\<And>i. i < ncells m \<Longrightarrow> cell_ok hash m i (ch i)" "fl_inv (lfree m)"
    "fl_ids (lfree m) = {0..<maxentries m} - used m ch" "nentries m = card (used m ch)"
  using assms by (auto simp: hinv_def)

lemma MNEXT_ok: "sizes_ok m vs \<Longrightarrow> c < maxentries m \<Longrightarrow> MNEXT m c = Some (idx (nexts m) ! c)"
  by (simp add: MNEXT_def rd_def sizes_ok_def widths_ok_def load_def)

lemma MINDEX_ok: "sizes_ok m vs \<Longrightarrow> i < ncells m \<Longrightarrow> MINDEX m i = Some (idx (cells m) ! i)"
  by (simp add: MINDEX_def rd_def sizes_ok_def widths_ok_def load_def)

lemma chain_list_ok:
  assumes "sizes_ok m vs" "is_chain (idx (nexts m)) a xs"
  shows "chain_list m a = Some xs"
  using assms(2)
proof (induction xs arbitrary: a)
  case Nil
  then show ?case by (subst chain_list.simps) simp
next
  case (Cons x xs)
  then have "x < maxentries m" using assms(1) by (simp add: sizes_ok_def)
  with Cons MNEXT_ok [OF assms(1)] show ?case by (subst chain_list.simps) simp
qed

lemma hm_abs_cell:
  assumes "hinv hash m vs ch"
  shows "hm_abs hash m k = map_of (assoc m vs (ch (unat (hash k) mod ncells m))) k"
proof -
  note h = hinvD [OF assms]
  have "unat (hash k) mod ncells m < ncells m" using h(2) by (simp add: sizes_ok_def)
  then have "chain_list m (idx (cells m) ! (unat (hash k) mod ncells m)) = Some (ch (unat (hash k) mod ncells m))"
    using h(3) by (intro chain_list_ok [OF h(2)]) (simp add: cell_ok_def)
  then show ?thesis by (simp add: hm_abs_def h(1))
qed

lemma chain_find_none:
  assumes "sizes_ok m vs" "is_chain (idx (nexts m)) a xs" "key \<notin> (!) (entries m) ` set xs"
  shows "chain_find m key prev a = Some None"
  using assms(2,3)
proof (induction xs arbitrary: a prev)
  case Nil
  then show ?case by (subst chain_find.simps) simp
next
  case (Cons x xs)
  then have "x < maxentries m" using assms(1) by (simp add: sizes_ok_def)
  with Cons MNEXT_ok [OF assms(1)] assms(1) show ?case
    by (subst chain_find.simps) (auto simp: load_def sizes_ok_def)
qed

lemma chain_find_some:
  assumes "sizes_ok m vs" "is_chain (idx (nexts m)) a (ys @ c # zs)" "key \<notin> (!) (entries m) ` set ys" "entries m ! c = key"
  shows "chain_find m key prev a = Some (Some (if ys = [] then prev else Some (last ys), c))"
  using assms(2,3)
proof (induction ys arbitrary: a prev)
  case Nil
  then have "c < maxentries m" using assms(1) by (simp add: sizes_ok_def)
  with Nil assms(1,4) show ?case by (subst chain_find.simps) (auto simp: load_def sizes_ok_def)
next
  case (Cons x xs)
  then have "x < maxentries m" using assms(1) by (simp add: sizes_ok_def)
  with Cons MNEXT_ok [OF assms(1)] assms(1) show ?case
    by (subst chain_find.simps) (auto simp: load_def sizes_ok_def)
qed

text \<open>Looking a key up in a map with its invariant: it is missing, or it is at one place of the chain of its cell.\<close>

lemma lookup_cases:
  assumes "hinv hash m vs ch"
  obtains i where "i = unat (hash key) mod ncells m" "i < ncells m" "cell_of hash m key = Some i" "MINDEX m i = Some (idx (cells m) ! i)"
      "chain_find m key None (idx (cells m) ! i) = Some None" "hm_abs hash m key = None" "key \<notin> (!) (entries m) ` set (ch i)"
  | i ys c zs where "i = unat (hash key) mod ncells m" "i < ncells m" "cell_of hash m key = Some i" "MINDEX m i = Some (idx (cells m) ! i)"
      "chain_find m key None (idx (cells m) ! i) = Some (Some (if ys = [] then None else Some (last ys), c))"
      "ch i = ys @ c # zs" "entries m ! c = key" "c < maxentries m" "hm_abs hash m key = Some (vs ! c)"
proof -
  note h = hinvD [OF assms]
  define i where "i = unat (hash key) mod ncells m"
  have i: "i < ncells m" "cell_of hash m key = Some i" using h(2) by (auto simp: i_def sizes_ok_def cell_of_def)
  then have chain: "is_chain (idx (nexts m)) (idx (cells m) ! i) (ch i)" "distinct (map ((!) (entries m)) (ch i))"
    using h(3) by (auto simp: cell_ok_def)
  have abs: "hm_abs hash m key = map_of (assoc m vs (ch i)) key" by (simp add: hm_abs_cell [OF assms] i_def)
  show thesis
  proof (cases "key \<in> (!) (entries m) ` set (ch i)")
    case False
    then have "map_of (assoc m vs (ch i)) key = None" by (auto simp: assoc_def map_of_eq_None_iff)
    with False abs i chain chain_find_none [OF h(2)] MINDEX_ok [OF h(2)] show thesis
      by (intro that(1) [of i]) (auto simp: i_def)
  next
    case True
    then obtain c where "c \<in> set (ch i)" "entries m ! c = key" by auto
    then obtain ys zs where s: "ch i = ys @ c # zs" by (meson split_list)
    then have "key \<notin> (!) (entries m) ` set ys" using chain(2) \<open>entries m ! c = key\<close> by auto
    moreover have "c < maxentries m" using is_chain_set [OF chain(1)] s h(2) by (auto simp: sizes_ok_def)
    moreover have "map_of (assoc m vs (ch i)) key = Some (vs ! c)"
      using chain(2) s \<open>entries m ! c = key\<close> by (intro map_of_is_SomeI) (auto simp: assoc_def comp_def)
    ultimately show thesis
      using s i chain(1) abs \<open>entries m ! c = key\<close> chain_find_some [OF h(2), of "idx (cells m) ! i" ys c zs key None] MINDEX_ok [OF h(2)]
      by (intro that(2) [of i ys c zs]) (auto simp: i_def)
  qed
qed

subsection \<open>Entering and removing an entry\<close>

lemma nth_update_notin: "c \<notin> S \<Longrightarrow> x \<in> S \<Longrightarrow> ys[c := v] ! x = ys ! x"
  by (metis nth_list_update_neq)

lemma used_iff: "c \<in> used m ch \<longleftrightarrow> (\<exists>i<ncells m. c \<in> set (ch i))"
  by (auto simp: used_def)

lemma used_entries:
  assumes "\<forall>i<ncells m. cell_ok hash m i (ch i)"
  shows "inj_on ((!) (entries m)) (used m ch)"
proof (rule inj_onI)
  fix c d assume "c \<in> used m ch" "d \<in> used m ch" and eq: "entries m ! c = entries m ! d"
  then obtain i j where ij: "i < ncells m" "c \<in> set (ch i)" "j < ncells m" "d \<in> set (ch j)" by (auto simp: used_iff)
  moreover have "i = j" using assms ij eq by (metis cell_ok_def)
  ultimately show "c = d" using assms eq by (auto simp: cell_ok_def distinct_map dest: inj_onD)
qed

lemma dom_hm_abs:
  assumes "hinv hash m vs ch"
  shows "dom (hm_abs hash m) = (!) (entries m) ` used m ch"
proof -
  note h = hinvD [OF assms]
  have "k \<in> dom (hm_abs hash m) \<longleftrightarrow> k \<in> (!) (entries m) ` used m ch" for k
  proof -
    have n: "unat (hash k) mod ncells m < ncells m" using h(2) by (simp add: sizes_ok_def)
    have "k \<in> dom (hm_abs hash m) \<longleftrightarrow> k \<in> (!) (entries m) ` set (ch (unat (hash k) mod ncells m))"
      by (simp add: hm_abs_cell [OF assms] domIff map_of_eq_None_iff assoc_def image_image)
    also have "\<dots> \<longleftrightarrow> k \<in> (!) (entries m) ` used m ch"
    proof
      assume "k \<in> (!) (entries m) ` used m ch"
      then obtain i c where "i < ncells m" "c \<in> set (ch i)" "k = entries m ! c" by (auto simp: used_iff)
      moreover from this have "unat (hash k) mod ncells m = i" using h(3) by (auto simp: cell_ok_def)
      ultimately show "k \<in> (!) (entries m) ` set (ch (unat (hash k) mod ncells m))" by auto
    qed (use n in \<open>auto simp: used_def\<close>)
    finally show ?thesis .
  qed
  then show ?thesis by blast
qed

lemma finite_used_cells [simp]: "finite (used m ch)"
  by (simp add: used_def)

lemma card_dom_hm_abs: "hinv hash m vs ch \<Longrightarrow> card (dom (hm_abs hash m)) = nentries m"
  using used_entries [of m hash ch] dom_hm_abs [of hash m vs ch] by (simp add: hinv_def card_image)

lemma used_subset:
  assumes "sizes_ok m vs" "\<forall>i<ncells m. cell_ok hash m i (ch i)"
  shows "used m ch \<subseteq> {0..<maxentries m}"
  using assms is_chain_set by (fastforce simp: used_iff cell_ok_def sizes_ok_def)

lemma i8_small: "- 128 \<le> x \<Longrightarrow> x < 128 \<Longrightarrow> i8 x = x"
  by (simp add: i8_def)

text \<open>Storing an entry number or an end of chain keeps it, at both widths.\<close>

lemma wr_ok:
  assumes "wide a = w" "i < length (idx a)" "- 1 \<le> c" "w \<or> c < int MLIMIT"
  shows "wr w i c a = Some (a\<lparr>idx := (idx a)[i := c]\<rparr>)"
  using assms i8_small [of c] by (auto simp: wr_def store_def MLIMIT_def)

lemma link_ok:
  assumes "mvalues m = Some vs" "sizes_ok m vs" "\<forall>i<ncells m. cell_ok hash m i (ch i)" "c < maxentries m" "c \<notin> used m ch"
    and "i = unat (hash key) mod ncells m" "key \<notin> (!) (entries m) ` set (ch i)"
  shows "\<exists>m'. link i c key v m = Some m' \<and> mvalues m' = Some (vs[c := v]) \<and> sizes_ok m' (vs[c := v]) \<and>
    ncells m' = ncells m \<and> maxentries m' = maxentries m \<and> lfree m' = lfree m \<and> nentries m' = nentries m + 1 \<and>
    entries m' = (entries m)[c := key] \<and> (\<forall>j<ncells m. cell_ok hash m' j ((ch(i := c # ch i)) j))"
proof -
  define m' where "m' = m\<lparr>entries := (entries m)[c := key], nexts := (nexts m)\<lparr>idx := (idx (nexts m))[c := idx (cells m) ! i]\<rparr>,
    cells := (cells m)\<lparr>idx := (idx (cells m))[i := int c]\<rparr>, mvalues := Some (vs[c := v]), nentries := nentries m + 1\<rparr>"
  have i: "i < ncells m" using assms(2,6) by (simp add: sizes_ok_def)
  have narrow: "is_wide m \<or> int x < int MLIMIT" if "x < maxentries m" for x using that by (auto simp: is_wide_def)
  have "is_chain (idx (nexts m)) (idx (cells m) ! i) (ch i)" using assms(3) i by (simp add: cell_ok_def)
  from is_chain_range [OF this] have first: "- 1 \<le> idx (cells m) ! i" "is_wide m \<or> idx (cells m) ! i < int MLIMIT"
    using narrow [of "nat (idx (cells m) ! i)"] assms(2) by (auto simp: sizes_ok_def MLIMIT_def)
  have "link i c key v m = Some m'"
    using assms(1,2,4) i MINDEX_ok [OF assms(2) i] wr_ok [OF _ _ first] wr_ok [of "cells m" "is_wide m" i "int c"] narrow [OF assms(4)]
    by (simp add: link_def m'_def store_def sizes_ok_def widths_ok_def)
  moreover have "sizes_ok m' (vs[c := v])"
    using assms(2) by (simp add: sizes_ok_def widths_ok_def m'_def is_wide_def)
  moreover have "cell_ok hash m' j ((ch(i := c # ch i)) j)" if j: "j < ncells m" for j
  proof -
    have c: "c \<notin> set (ch j)" "c \<notin> set (ch i)" using assms(5) i j by (auto simp: used_iff)
    then have keys: "map ((!) (entries m')) (ch j) = map ((!) (entries m)) (ch j)"
      by (auto simp: m'_def nth_update_notin)
    have old: "is_chain (idx (nexts m)) (idx (cells m) ! j) (ch j)" "distinct (map ((!) (entries m)) (ch j))"
      "\<forall>d\<in>set (ch j). unat (hash (entries m ! d)) mod ncells m = j"
      using assms(3) j by (auto simp: cell_ok_def)
    have chain: "is_chain (idx (nexts m')) (idx (cells m) ! j) (ch j)"
      using old(1) c by (simp add: m'_def is_chain_frame)
    have in_cell: "\<forall>d\<in>set (ch j). unat (hash (entries m' ! d)) mod ncells m' = j"
      using old(3) c(1) by (auto simp: m'_def nth_update_notin [OF c(1)])
    show ?thesis
    proof (cases "j = i")
      case False
      then have "idx (cells m') ! j = idx (cells m) ! j" by (simp add: m'_def)
      with False show ?thesis unfolding cell_ok_def using chain old(2) in_cell by (simp add: keys del: map_eq_conv)
    next
      case True
      have "entries m' ! c = key" "idx (nexts m') ! c = idx (cells m) ! i" "idx (cells m') ! i = int c" "c < length (idx (nexts m'))"
        using assms(2,4) i by (auto simp: m'_def sizes_ok_def)
      moreover have "ncells m' = ncells m" by (simp add: m'_def)
      moreover have "distinct (key # map ((!) (entries m')) (ch i))"
        unfolding keys [unfolded True] using old(2) assms(7) True by auto
      ultimately show ?thesis
        using chain in_cell assms(6) unfolding True by (simp add: cell_ok_def)
    qed
  qed
  ultimately show ?thesis by (intro exI [of _ m']) (simp add: m'_def)
qed

lemma assoc_frame: "c \<notin> set xs \<Longrightarrow> entries m' = (entries m)[c := key] \<Longrightarrow> assoc m' (vs[c := v]) xs = assoc m vs xs"
  by (auto simp: assoc_def nth_update_notin)

lemma assoc_other: "entries m ! c \<noteq> k \<Longrightarrow> map_of (assoc m (vs[c := v]) xs) k = map_of (assoc m vs xs) k"
  by (induction xs) (auto simp: assoc_def, metis nth_list_update_neq)

text \<open>Entering a new key with the free number \<open>c\<close>.\<close>

lemma insert_entry:
  assumes "hinv hash m vs ch" "hm_abs hash m key = None" "c \<in> fl_ids (lfree m)" "fl_inv fl" "fl_ids fl = fl_ids (lfree m) - {c}"
    and "i = unat (hash key) mod ncells m" "key \<notin> (!) (entries m) ` set (ch i)"
  shows "\<exists>m' vs' ch'. link i c key v (m\<lparr>lfree := fl\<rparr>) = Some m' \<and> hinv hash m' vs' ch' \<and> hm_abs hash m' = (hm_abs hash m)(key \<mapsto> v) \<and>
    ncells m' = ncells m \<and> maxentries m' = maxentries m"
proof -
  note h = hinvD [OF assms(1)]
  let ?m = "m\<lparr>lfree := fl\<rparr>" and ?ch = "ch(i := c # ch i)"
  have c: "c < maxentries m" "c \<notin> used m ch" using assms(3) h(5) by auto
  have i: "i < ncells m" using h(2) assms(6) by (simp add: sizes_ok_def)
  have "sizes_ok ?m vs" using h(2) by (simp add: sizes_ok_def widths_ok_def is_wide_def)
  moreover have "\<forall>j<ncells ?m. cell_ok hash ?m j (ch j)" using h(3) by (simp add: cell_ok_def)
  moreover have "c \<notin> used ?m ch" using c(2) by (simp add: used_def)
  ultimately obtain m' where m': "link i c key v ?m = Some m'" "mvalues m' = Some (vs[c := v])" "sizes_ok m' (vs[c := v])"
    "ncells m' = ncells m" "maxentries m' = maxentries m" "lfree m' = fl" "nentries m' = nentries m + 1"
    "entries m' = (entries m)[c := key]" "\<forall>j<ncells m. cell_ok hash m' j (?ch j)"
    using link_ok [of ?m vs hash ch c i key v] h(1) c assms(6,7) by auto
  have used: "used m' ?ch = insert c (used m ch)"
    using i m'(4) by (auto simp: used_def split: if_splits)
  then have inv: "hinv hash m' (vs[c := v]) ?ch"
    using m' assms(4,5) h(5,6) c(2) by (auto simp: hinv_def)
  have "hm_abs hash m' k = ((hm_abs hash m)(key \<mapsto> v)) k" for k
  proof -
    have frame: "assoc m' (vs[c := v]) (ch j) = assoc m vs (ch j)" if "j < ncells m" for j
      using c(2) that m'(8) by (intro assoc_frame) (auto simp: used_iff)
    have n: "unat (hash k) mod ncells m < ncells m" using i by auto
    have new: "assoc m' (vs[c := v]) (c # ch i) = (key, v) # assoc m vs (ch i)"
      using frame [OF i] c(1) h(2) m'(8) by (simp add: assoc_def sizes_ok_def)
    show ?thesis
      unfolding hm_abs_cell [OF inv] hm_abs_cell [OF assms(1)] fun_upd_apply m'(4) fun_upd_def
      using frame [OF n] new assms(6) by auto
  qed
  then have "hm_abs hash m' = (hm_abs hash m)(key \<mapsto> v)" by blast
  with m' inv show ?thesis by blast
qed

text \<open>Replacing the value of a key that is there.\<close>

lemma replace_value:
  assumes "hinv hash m vs ch" "hm_abs hash m key \<noteq> None" "entries m ! c = key" "c \<in> used m ch"
  shows "hinv hash (m\<lparr>mvalues := Some (vs[c := v])\<rparr>) (vs[c := v]) ch \<and>
    hm_abs hash (m\<lparr>mvalues := Some (vs[c := v])\<rparr>) = (hm_abs hash m)(key \<mapsto> v)"
proof -
  note h = hinvD [OF assms(1)]
  let ?m = "m\<lparr>mvalues := Some (vs[c := v])\<rparr>"
  have inv: "hinv hash ?m (vs[c := v]) ch"
    using h by (simp add: hinv_def sizes_ok_def widths_ok_def is_wide_def cell_ok_def used_def)
  have "hm_abs hash ?m k = ((hm_abs hash m)(key \<mapsto> v)) k" for k
  proof (cases "k = key")
    case False
    then show ?thesis
      using assoc_other [of m c k vs v] assms(3) by (simp add: hm_abs_cell [OF inv] hm_abs_cell [OF assms(1)] assoc_def)
  next
    case True
    obtain i where i: "i < ncells m" "c \<in> set (ch i)" using assms(4) by (auto simp: used_iff)
    then have "unat (hash key) mod ncells m = i" "distinct (map ((!) (entries m)) (ch i))" "c < length vs"
      using h(2,3) assms(3) used_subset [of m vs hash ch] assms(4) by (auto simp: cell_ok_def sizes_ok_def)
    then have "map_of (assoc ?m (vs[c := v]) (ch i)) key = Some v"
      using i(2) assms(3) by (intro map_of_is_SomeI) (auto simp: assoc_def comp_def intro: rev_image_eqI [of c])
    with True \<open>unat (hash key) mod ncells m = i\<close> show ?thesis by (simp add: hm_abs_cell [OF inv])
  qed
  with inv show ?thesis by blast
qed

lemma set_with_present:
  assumes "hinv hash m vs ch" "hm_abs hash m key \<noteq> None"
  shows "\<exists>m' vs'. set_with rs hash key v m = Some m' \<and> hinv hash m' vs' ch \<and> hm_abs hash m' = (hm_abs hash m)(key \<mapsto> v) \<and>
    ncells m' = ncells m \<and> maxentries m' = maxentries m"
proof (rule lookup_cases [OF assms(1), of key])
  note h = hinvD [OF assms(1)]
  fix i ys c zs assume i: "i < ncells m" "cell_of hash m key = Some i" "MINDEX m i = Some (idx (cells m) ! i)"
    "chain_find m key None (idx (cells m) ! i) = Some (Some (if ys = [] then None else Some (last ys), c))"
    "ch i = ys @ c # zs" "entries m ! c = key" "c < maxentries m" "hm_abs hash m key = Some (vs ! c)"
  then have "c \<in> used m ch" by (auto simp: used_iff)
  moreover have "set_with rs hash key v m = Some (m\<lparr>mvalues := Some (vs[c := v])\<rparr>)"
    using h(1,2) i by (simp add: set_with_def map_lookup_def store_def sizes_ok_def)
  ultimately show ?thesis
    using replace_value [OF assms(1,2) i(6), of v] by (intro exI [of _ "m\<lparr>mvalues := Some (vs[c := v])\<rparr>"]) auto
qed (use assms(2) in simp)

lemma grab_and_link:
  assumes "hinv hash m vs ch" "fl_ids (lfree m) \<noteq> {}" "hm_abs hash m key = None"
  shows "\<exists>c fl i m' vs' ch'. hl_freelist_get (lfree m) = Some (Some c, fl) \<and> cell_of hash m key = Some i \<and>
    link i c key v (m\<lparr>lfree := fl\<rparr>) = Some m' \<and> hinv hash m' vs' ch' \<and> hm_abs hash m' = (hm_abs hash m)(key \<mapsto> v) \<and>
    ncells m' = ncells m \<and> maxentries m' = maxentries m"
proof (rule lookup_cases [OF assms(1), of key])
  fix i assume i: "i = unat (hash key) mod ncells m" "cell_of hash m key = Some i" "key \<notin> (!) (entries m) ` set (ch i)"
  obtain c fl where g: "hl_freelist_get (lfree m) = Some (Some c, fl)" "c \<in> fl_ids (lfree m)" "fl_inv fl" "fl_ids fl = fl_ids (lfree m) - {c}"
    using pool.grab_some [OF hinvD(4) [OF assms(1)] assms(2)] by blast
  with i insert_entry [OF assms(1,3) g(2-4) i(1,3), of v] show ?thesis by auto
qed (use assms(3) in simp)

lemma lookup_absent:
  assumes "hinv hash m vs ch" "hm_abs hash m key = None"
  shows "map_lookup hash m key = Some None"
  by (rule lookup_cases [OF assms(1), of key]) (use assms(2) in \<open>auto simp: map_lookup_def\<close>)

lemma cell_of_lfree [simp]: "cell_of hash (m\<lparr>lfree := fl\<rparr>) key = cell_of hash m key"
  by (simp add: cell_of_def)

lemma set_with_room:
  assumes "hinv hash m vs ch" "fl_ids (lfree m) \<noteq> {}"
  shows "\<exists>m' vs' ch'. set_with rs hash key v m = Some m' \<and> hinv hash m' vs' ch' \<and> hm_abs hash m' = (hm_abs hash m)(key \<mapsto> v) \<and>
    ncells m' = ncells m \<and> maxentries m' = maxentries m"
proof (cases "hm_abs hash m key = None")
  case True
  obtain c fl i m' vs' ch' where "hl_freelist_get (lfree m) = Some (Some c, fl)" "cell_of hash m key = Some i"
    "link i c key v (m\<lparr>lfree := fl\<rparr>) = Some m'" "hinv hash m' vs' ch'" "hm_abs hash m' = (hm_abs hash m)(key \<mapsto> v)"
    "ncells m' = ncells m" "maxentries m' = maxentries m"
    using grab_and_link [OF assms True, of v] by blast
  moreover from this have "set_with rs hash key v m = Some m'"
    using hinvD(1) [OF assms(1)] lookup_absent [OF assms(1) True] by (simp add: set_with_def Let_def)
  ultimately show ?thesis by blast
next
  case False
  then show ?thesis using set_with_present [OF assms(1), of key rs v] by blast
qed

subsection \<open>Removing an entry\<close>

lemma used_remove:
  assumes "ncells m' = ncells m" "\<And>j. j < ncells m \<Longrightarrow> set (ch' j) = set (ch j) - {c}"
  shows "used m' ch' = used m ch - {c}"
  using assms by (auto simp: used_def)

lemma unlink_ok:
  assumes "hinv hash m vs ch" "i = unat (hash key) mod ncells m" "ch i = ys @ c # zs" "entries m ! c = key"
  shows "\<exists>m' vs' ch'. unlink h i (if ys = [] then None else Some (last ys)) c m = Some m' \<and> hinv hash m' vs' ch' \<and>
    hm_abs hash m' = (hm_abs hash m)(key := None)"
proof -
  note d = hinvD [OF assms(1)]
  have i: "i < ncells m" using d(2) assms(2) by (simp add: sizes_ok_def)
  have chain: "is_chain (idx (nexts m)) (idx (cells m) ! i) (ys @ c # zs)" "distinct (map ((!) (entries m)) (ys @ c # zs))"
    using d(3) [OF i] assms(3) by (simp_all add: cell_ok_def)
  have dist: "distinct (ys @ c # zs)" using chain(2) by (simp only: distinct_map)
  have c: "c < maxentries m" "c \<in> used m ch" using is_chain_set [OF chain(1)] d(2) i assms(3) by (auto simp: sizes_ok_def used_iff)
  have other: "set (ch j) \<inter> set (ch i) = {}" if "j < ncells m" "j \<noteq> i" for j
    using that d(3) [OF that(1)] d(3) [OF i] by (auto simp: cell_ok_def)
  define nxt where "nxt = idx (nexts m) ! c"
  have tail: "is_chain (idx (nexts m)) nxt zs" using is_chain_append [OF chain(1)] by (simp add: nxt_def)
  have nxt: "- 1 \<le> nxt" "is_wide m \<or> nxt < int MLIMIT"
    using is_chain_range [OF tail] d(2) by (auto simp: sizes_ok_def is_wide_def MLIMIT_def)
  have "fl_ids (lfree m) \<inter> {c..<c + 1} = {}" using c d(5) by auto
  from pool.give [OF d(4) _ this] obtain fl where fl: "hl_freelist_add (lfree m) c = Some fl" "fl_inv fl" "fl_ids fl = insert c (fl_ids (lfree m))"
    by (auto simp: hl_freelist_add_def)
  define m1 where "m1 = (if ys = [] then m\<lparr>cells := (cells m)\<lparr>idx := (idx (cells m))[i := nxt]\<rparr>\<rparr>
    else m\<lparr>nexts := (nexts m)\<lparr>idx := (idx (nexts m))[last ys := nxt]\<rparr>\<rparr>)"
  define m' where "m' = m1\<lparr>lfree := fl, nentries := nentries m - 1, mvalues := Some (vs[c := null h])\<rparr>"
  let ?ch = "ch(i := ys @ zs)"
  have last: "last ys < maxentries m" if "ys \<noteq> []"
    using is_chain_set [OF chain(1)] d(2) last_in_set [OF that] by (auto simp: sizes_ok_def)
  have res: "unlink h i (if ys = [] then None else Some (last ys)) c m = Some m'"
    using fl(1) d(1,2) c(1) i last MNEXT_ok [OF d(2) c(1)] wr_ok [OF _ _ nxt]
    by (simp add: unlink_def m'_def m1_def store_def sizes_ok_def widths_ok_def flip: nxt_def)
  have same: "ncells m' = ncells m" "maxentries m' = maxentries m" "entries m' = entries m" "lfree m' = fl" "mvalues m' = Some (vs[c := null h])"
    "nentries m' = nentries m - 1" by (auto simp: m'_def m1_def)
  have sizes: "sizes_ok m' (vs[c := null h])"
    using d(2) by (auto simp: sizes_ok_def widths_ok_def is_wide_def m'_def m1_def)
  have here: "is_chain (idx (nexts m')) (idx (cells m') ! i) (ys @ zs)"
  proof (cases ys rule: rev_cases)
    case Nil
    then show ?thesis using tail d(2) i by (simp add: m'_def m1_def sizes_ok_def)
  next
    case (snoc ys0 p)
    then show ?thesis using is_chain_unlink [of "idx (nexts m)" "idx (cells m) ! i" ys0 p c zs] chain(1) dist
      by (simp add: m'_def m1_def nxt_def)
  qed
  have there: "is_chain (idx (nexts m')) (idx (cells m') ! j) (ch j)" if j: "j < ncells m" "j \<noteq> i" for j
  proof -
    have "is_chain (idx (nexts m)) (idx (cells m) ! j) (ch j)" using d(3) j(1) by (simp add: cell_ok_def)
    moreover have "last ys \<notin> set (ch j)" if "ys \<noteq> []" using other [OF j] assms(3) last_in_set [OF that] by auto
    ultimately show ?thesis using j(2) is_chain_frame [of "last ys" "ch j"] by (auto simp: m'_def m1_def)
  qed
  have cells: "\<forall>j<ncells m'. cell_ok hash m' j (?ch j)"
    using here there d(3) assms(3) chain(2) by (auto simp: cell_ok_def same)
  have used': "used m' ?ch = used m ch - {c}"
  proof (rule used_remove [OF same(1)])
    fix j assume j: "j < ncells m"
    show "set (?ch j) = set (ch j) - {c}"
    proof (cases "j = i")
      case True
      then show ?thesis using assms(3) dist by auto
    next
      case False
      then show ?thesis using other [OF j False] assms(3) by auto
    qed
  qed
  have inv: "hinv hash m' (vs[c := null h]) ?ch"
    using sizes cells fl(2,3) d(5,6) c used' by (auto simp: hinv_def same)
  have "hm_abs hash m' k = ((hm_abs hash m)(key := None)) k" for k
  proof (cases "k = key")
    case True
    have "key \<notin> (!) (entries m) ` set (ys @ zs)" using chain(2) assms(4) by auto
    then show ?thesis
      using True assms(2) by (auto simp: hm_abs_cell [OF inv] same assoc_def map_of_eq_None_iff)
  next
    case False
    have "map_of (assoc m vs (ys @ zs)) k = map_of (assoc m vs (ys @ c # zs)) k"
      using False assms(4) by (induction ys) (auto simp: assoc_def)
    then have "map_of (assoc m vs (?ch j)) k = map_of (assoc m vs (ch j)) k" for j using assms(3) by simp
    moreover have "assoc m' w xs = assoc m w xs" for w xs by (simp add: assoc_def same)
    ultimately have "map_of (assoc m' (vs[c := null h]) (?ch j)) k = map_of (assoc m vs (ch j)) k" for j
      using assoc_other [of m c k vs "null h" "?ch j"] False assms(4) by metis
    then show ?thesis
      unfolding hm_abs_cell [OF inv] same(1) using False by (simp only: fun_upd_other hm_abs_cell [OF assms(1)] not_False_eq_True)
  qed
  then have "hm_abs hash m' = (hm_abs hash m)(key := None)" by blast
  with res inv show ?thesis by blast
qed

subsection \<open>Growing\<close>

lemma is_chain_mono:
  assumes "is_chain nx a xs" "length nx \<le> length nx'" "\<And>x. x < length nx \<Longrightarrow> nx' ! x = nx ! x"
  shows "is_chain nx' a xs"
  using assms(1) by (induction xs arbitrary: a) (use assms(2,3) in auto)

lemma nth_realloc: "length a = c \<Longrightarrow> i < c \<Longrightarrow> realloc f n c a ! i = a ! i"
  by (simp add: realloc_def nth_append)

lemma expand_ok:
  assumes "hinv hash m vs ch" "maxentries m < n" "n < MLIMIT \<or> maxentries m \<ge> MLIMIT"
  shows "\<exists>m' vs'. expand h n m = Some m' \<and> hinv hash m' vs' ch \<and> hm_abs hash m' = hm_abs hash m \<and> maxentries m' = n \<and> ncells m' = ncells m"
proof -
  note d = hinvD [OF assms(1)]
  have sub: "used m ch \<subseteq> {0..<maxentries m}" using d(2,3) by (intro used_subset) auto
  define k where "k = n - maxentries m"
  have k: "0 < k" "maxentries m + k = n" using assms(2) by (auto simp: k_def)
  have "fl_ids (lfree m) \<inter> {maxentries m..<maxentries m + k} = {}" using d(5) by auto
  from pool.give [OF d(4) k(1) this] obtain fl where fl: "hl_freelist_add_range (lfree m) (maxentries m) k = Some fl" "fl_inv fl"
    "fl_ids fl = fl_ids (lfree m) \<union> {maxentries m..<n}" using k by auto
  define vs' where "vs' = realloc (null h) n (maxentries m) vs"
  define m' where "m' = m\<lparr>entries := realloc (f_key h) n (maxentries m) (entries m), mvalues := Some vs',
     nexts := (nexts m)\<lparr>idx := realloc (f_next h) n (maxentries m) (idx (nexts m))\<rparr>, lfree := fl, maxentries := n\<rparr>"
  have res: "expand h n m = Some m'" using d(1) fl(1) by (simp add: expand_def m'_def vs'_def k_def)
  have wide: "is_wide m' = is_wide m" using assms(2,3) by (auto simp: is_wide_def m'_def)
  have len: "length (entries m) = maxentries m" "length vs = maxentries m" "length (idx (nexts m)) = maxentries m" using d(2) by (auto simp: sizes_ok_def)
  have sizes: "sizes_ok m' vs'"
    using d(2) assms(2) wide by (simp add: sizes_ok_def widths_ok_def m'_def vs'_def length_realloc)
  have nth: "entries m' ! c = entries m ! c" "vs' ! c = vs ! c" if "c < maxentries m" for c
    using that len by (auto simp: m'_def vs'_def nth_realloc)
  have cells: "cell_ok hash m' i (ch i)" if i: "i < ncells m" for i
  proof -
    have ok: "cell_ok hash m i (ch i)" using d(3) i by simp
    then have in_range: "\<forall>c\<in>set (ch i). c < maxentries m" using sub i by (auto simp: used_def)
    then have keys: "map ((!) (entries m')) (ch i) = map ((!) (entries m)) (ch i)" using nth by simp
    have "is_chain (idx (nexts m')) (idx (cells m') ! i) (ch i)"
      using ok assms(2) len by (auto simp: m'_def cell_ok_def length_realloc nth_realloc intro: is_chain_mono [of "idx (nexts m)"])
    with ok in_range nth show ?thesis
      unfolding cell_ok_def keys by (simp add: m'_def)
  qed
  have same: "ncells m' = ncells m" "nentries m' = nentries m" "lfree m' = fl" "maxentries m' = n" "mvalues m' = Some vs'" by (auto simp: m'_def)
  have used: "used m' ch = used m ch" by (simp add: used_def same)
  have inv: "hinv hash m' vs' ch"
    using sizes cells fl d(5,6) sub assms(2) unfolding hinv_def same used by auto
  have "hm_abs hash m' k = hm_abs hash m k" for k
  proof -
    have "unat (hash k) mod ncells m < ncells m" using d(2) by (simp add: sizes_ok_def)
    then have "c < maxentries m" if "c \<in> set (ch (unat (hash k) mod ncells m))" for c
      using sub that by (auto simp: used_def)
    then have "assoc m' vs' (ch (unat (hash k) mod ncells m)) = assoc m vs (ch (unat (hash k) mod ncells m))"
      using nth by (simp add: assoc_def)
    then show ?thesis by (simp add: hm_abs_cell [OF inv] hm_abs_cell [OF assms(1)] same)
  qed
  then show ?thesis using res inv same by blast
qed

lemma remap_base_ok:
  assumes "0 < n" "0 < nc"
  shows "\<exists>m vs. remap_base h n nc = Some m \<and> hinv hash m vs (\<lambda>_. []) \<and> hm_abs hash m = Map.empty \<and> maxentries m = n \<and> ncells m = nc"
proof -
  have init: "fl_inv hl_freelist_init" "fl_ids hl_freelist_init = {}" by (simp_all add: hl_freelist_init_def fl_inv_def fl_ids_def)
  from pool.give [OF init(1) assms(1)] init(2) obtain fl where fl: "hl_freelist_add_range hl_freelist_init 0 n = Some fl" "fl_inv fl" "fl_ids fl = {0..<n}"
    by (metis Int_empty_left add_0 sup_bot_left)
  define m where "m = \<lparr>cells = \<lparr>wide = \<not> n < MLIMIT, idx = replicate nc (- 1)\<rparr>, nexts = \<lparr>wide = \<not> n < MLIMIT, idx = replicate n (f_next h)\<rparr>,
    entries = replicate n (f_key h), mvalues = Some (replicate n (null h)), lfree = fl, ncells = nc, nentries = 0, maxentries = n\<rparr>"
  have "remap_base h n nc = Some m" using fl(1) by (simp add: remap_base_def m_def)
  moreover have inv: "hinv hash m (replicate n (null h)) (\<lambda>_. [])"
    using assms fl by (simp add: hinv_def m_def sizes_ok_def widths_ok_def is_wide_def cell_ok_def used_def)
  moreover have "hm_abs hash m = Map.empty" by (rule ext) (simp add: hm_abs_cell [OF inv] assoc_def)
  ultimately show ?thesis by (auto simp: m_def)
qed

text \<open>A map into which another one, with fewer entries than this one has room for, is being entered.\<close>

definition filling :: "('k \<Rightarrow> u32) \<Rightarrow> ('k, 'v) t_map \<Rightarrow> ('k, 'v) t_map \<Rightarrow> bool" where
  "filling hash old m \<longleftrightarrow> (\<exists>vs ch. hinv hash m vs ch) \<and> nentries old < maxentries m \<and> hm_abs hash m \<subseteq>\<^sub>m hm_abs hash old"

lemma filling_room:
  assumes "filling hash old m" "hinv hash old vs0 ch0" "hinv hash m vs ch"
  shows "fl_ids (lfree m) \<noteq> {}"
proof
  assume "fl_ids (lfree m) = {}"
  then have "{0..<maxentries m} \<subseteq> used m ch" using hinvD(5) [OF assms(3)] by auto
  then have "maxentries m \<le> nentries m"
    using card_mono [of "used m ch" "{0..<maxentries m}"] hinvD(6) [OF assms(3)] by simp
  moreover have "dom (hm_abs hash m) \<subseteq> dom (hm_abs hash old)" using assms(1) by (intro map_le_implies_dom_le) (simp add: filling_def)
  then have "nentries m \<le> nentries old"
    using card_mono [of "dom (hm_abs hash old)" "dom (hm_abs hash m)"] card_dom_hm_abs [OF assms(2)] card_dom_hm_abs [OF assms(3)]
    by (simp add: dom_hm_abs [OF assms(2)])
  ultimately show False using assms(1) by (simp add: filling_def)
qed

lemma hm_abs_entry:
  assumes "hinv hash m vs ch" "c \<in> used m ch"
  shows "hm_abs hash m (entries m ! c) = Some (vs ! c)"
proof -
  obtain i where i: "i < ncells m" "c \<in> set (ch i)" using assms(2) by (auto simp: used_iff)
  then have ok: "unat (hash (entries m ! c)) mod ncells m = i" "distinct (map ((!) (entries m)) (ch i))"
    using hinvD(3) [OF assms(1)] by (auto simp: cell_ok_def)
  then have "map_of (assoc m vs (ch i)) (entries m ! c) = Some (vs ! c)"
    using i(2) by (intro map_of_is_SomeI) (auto simp: assoc_def comp_def)
  then show ?thesis by (simp add: hm_abs_cell [OF assms(1)] ok(1))
qed

lemma rehash_chain_ok:
  assumes "hinv hash old vs0 ch0" "is_chain (idx (nexts old)) a xs" "set xs \<subseteq> used old ch0" "filling hash old m"
  shows "\<exists>m'. rehash_chain rs hash old a m = Some m' \<and> filling hash old m' \<and> maxentries m' = maxentries m \<and>
    hm_abs hash m' = (\<lambda>k. if k \<in> (!) (entries old) ` set xs then hm_abs hash old k else hm_abs hash m k)"
  using assms(2-4)
proof (induction xs arbitrary: a m)
  case Nil
  then show ?case by (subst rehash_chain.simps) simp
next
  case (Cons x xs)
  note d = hinvD [OF assms(1)]
  have x: "x < maxentries old" "a = int x" "x \<in> used old ch0" using Cons.prems d(2) by (auto simp: sizes_ok_def)
  obtain vs ch where m: "hinv hash m vs ch" using Cons.prems(3) by (auto simp: filling_def)
  have entry: "hm_abs hash old (entries old ! x) = Some (vs0 ! x)" by (rule hm_abs_entry [OF assms(1) x(3)])
  obtain m1 vs1 ch1 where m1: "set_with rs hash (entries old ! x) (vs0 ! x) m = Some m1" "hinv hash m1 vs1 ch1"
    "hm_abs hash m1 = (hm_abs hash m)(entries old ! x \<mapsto> vs0 ! x)" "maxentries m1 = maxentries m"
    using set_with_room [OF m filling_room [OF Cons.prems(3) assms(1) m]] by blast
  have "filling hash old m1"
    using Cons.prems(3) m1 entry by (auto simp: filling_def map_le_def)
  with Cons.IH [of "idx (nexts old) ! x" m1] Cons.prems
  obtain m' where m': "rehash_chain rs hash old (idx (nexts old) ! x) m1 = Some m'" "filling hash old m'" "maxentries m' = maxentries m1"
    "hm_abs hash m' = (\<lambda>k. if k \<in> (!) (entries old) ` set xs then hm_abs hash old k else hm_abs hash m1 k)" by auto
  have "rehash_chain rs hash old a m = Some m'"
    using d(1,2) x m1(1) m'(1) MNEXT_ok [OF d(2) x(1)] by (subst rehash_chain.simps) (simp add: load_def sizes_ok_def)
  moreover have "hm_abs hash m' = (\<lambda>k. if k \<in> (!) (entries old) ` set (x # xs) then hm_abs hash old k else hm_abs hash m k)"
    using m'(4) m1(3) entry by auto
  ultimately show ?case using m' m1(4) by auto
qed

lemma rehash_ok:
  assumes "hinv hash old vs0 ch0" "set is \<subseteq> {0..<ncells old}" "filling hash old m"
  shows "\<exists>m'. rehash rs hash old is m = Some m' \<and> filling hash old m' \<and> maxentries m' = maxentries m \<and>
    hm_abs hash m' = (\<lambda>k. if k \<in> (!) (entries old) ` (\<Union>i\<in>set is. set (ch0 i)) then hm_abs hash old k else hm_abs hash m k)"
  using assms(2,3)
proof (induction "is" arbitrary: m)
  case (Cons i "is")
  note d = hinvD [OF assms(1)]
  have i: "i < ncells old" using Cons.prems by simp
  then have chain: "is_chain (idx (nexts old)) (idx (cells old) ! i) (ch0 i)" "set (ch0 i) \<subseteq> used old ch0"
    using d(3) by (auto simp: cell_ok_def used_iff)
  obtain m1 where m1: "rehash_chain rs hash old (idx (cells old) ! i) m = Some m1" "filling hash old m1" "maxentries m1 = maxentries m"
    "hm_abs hash m1 = (\<lambda>k. if k \<in> (!) (entries old) ` set (ch0 i) then hm_abs hash old k else hm_abs hash m k)"
    using rehash_chain_ok [OF assms(1) chain Cons.prems(2)] by blast
  with Cons.IH [OF _ m1(2)] Cons.prems
  obtain m' where m': "rehash rs hash old is m1 = Some m'" "filling hash old m'" "maxentries m' = maxentries m1"
    "hm_abs hash m' = (\<lambda>k. if k \<in> (!) (entries old) ` (\<Union>i\<in>set is. set (ch0 i)) then hm_abs hash old k else hm_abs hash m1 k)" by auto
  have "rehash rs hash old (i # is) m = Some m'"
    using MINDEX_ok [OF d(2) i] m1(1) m'(1) by simp
  moreover have "hm_abs hash m' = (\<lambda>k. if k \<in> (!) (entries old) ` (\<Union>i\<in>set (i # is). set (ch0 i)) then hm_abs hash old k else hm_abs hash m k)"
    using m'(4) m1(4) by (auto simp: image_Un)
  ultimately show ?case using m' m1(3) by auto
qed simp

definition map_limit :: nat where
  "map_limit = 715827882"

lemma next_prime_ok:
  assumes "n \<le> 1611623773"
  shows "\<exists>p. next_prime n = Some p \<and> 0 < p"
proof -
  have "1611623773 \<in> set H_PRIMES" by (simp add: H_PRIMES_def)
  then have "next_prime n \<noteq> None" using assms by (auto simp: next_prime_def find_None_iff)
  moreover have "0 < p" if "next_prime n = Some p" for p
    using that by (auto simp: next_prime_def find_Some_iff H_PRIMES_def nth_Cons' split: if_splits)
  ultimately show ?thesis by blast
qed

lemma hresize_ok:
  assumes "hinv hash m vs ch" "nentries m = maxentries m" "maxentries m < map_limit"
  shows "\<exists>m' vs' ch'. hresize h hash m = Some m' \<and> hinv hash m' vs' ch' \<and> hm_abs hash m' = hm_abs hash m \<and> maxentries m < maxentries m'"
proof -
  note d = hinvD [OF assms(1)]
  define n where "n = (maxentries m * 3 + 1) div 2"
  have max: "0 < maxentries m" using d(2) by (simp add: sizes_ok_def)
  then have n: "maxentries m < n" "n div 4 \<le> 1611623773" using assms(3) by (auto simp: n_def map_limit_def)
  have size: "new_size m = Some n"
    using max assms(3) by (simp add: new_size_def int_fits_def INT_MAX_def map_limit_def n_def)
  obtain nc where nc: "next_prime (n div 4) = Some nc" "0 < nc" using next_prime_ok [OF n(2)] by blast
  show ?thesis
  proof (cases "ncells m = nc \<and> (n < MLIMIT \<or> maxentries m \<ge> MLIMIT)")
    case True
    then have "hresize h hash m = expand h n m" using assms(2) size nc(1) by (simp add: hresize_def)
    with expand_ok [OF assms(1) n(1), of h] True n(1) show ?thesis by auto
  next
    case False
    obtain m1 vs1 where m1: "remap_base h n nc = Some m1" "hinv hash m1 vs1 (\<lambda>_. [])" "hm_abs hash m1 = Map.empty" "maxentries m1 = n"
      using remap_base_ok [of n nc h hash] n(1) nc(2) by auto
    then have "filling hash m m1" using n(1) assms(2) by (auto simp: filling_def)
    with rehash_ok [OF assms(1), of "[0..<ncells m]" m1 "\<lambda>_. None"]
    obtain m' where m': "rehash (\<lambda>_. None) hash m [0..<ncells m] m1 = Some m'" "filling hash m m'" "maxentries m' = n"
      "hm_abs hash m' = (\<lambda>k. if k \<in> (!) (entries m) ` (\<Union>i\<in>{0..<ncells m}. set (ch i)) then hm_abs hash m k else None)"
      using m1(3,4) by (auto simp: fun_eq_iff)
    have "(\<Union>i\<in>{0..<ncells m}. set (ch i)) = used m ch" by (simp add: used_def atLeast0LessThan)
    then have keys: "(!) (entries m) ` (\<Union>i\<in>{0..<ncells m}. set (ch i)) = dom (hm_abs hash m)"
      by (simp add: dom_hm_abs [OF assms(1)])
    have "hm_abs hash m' = hm_abs hash m"
      unfolding m'(4) keys by (rule ext) (simp add: domIff)
    moreover have "hresize h hash m = Some m'" using False assms(2) size nc(1) m1(1) m'(1) by (auto simp: hresize_def)
    ultimately show ?thesis using m'(2,3) n(1) by (auto simp: filling_def)
  qed
qed

lemma hresize_alloc: "\<exists>m' vs' ch'. hresize h hash map_alloc = Some m' \<and> hinv hash m' vs' ch' \<and> hm_abs hash m' = Map.empty \<and> 0 < maxentries m'"
proof -
  have "next_prime 0 = Some 7" by (simp add: next_prime_def H_PRIMES_def)
  moreover obtain m vs where "remap_base h 3 7 = Some m" "hinv hash m vs (\<lambda>_. [])" "hm_abs hash m = Map.empty" "maxentries m = 3"
    using remap_base_ok [of 3 7 h hash] by auto
  ultimately show ?thesis by (auto simp: hresize_def map_alloc_def new_size_def H_SIZE_INIT_def)
qed

subsection \<open>The operations\<close>

lemma hm_invE:
  assumes "hm_inv hash m"
  obtains "m = map_alloc" "hm_abs hash m = Map.empty" "mvalues m = None" | vs ch where "hinv hash m vs ch" "mvalues m = Some vs"
proof -
  have "hm_abs hash map_alloc = Map.empty" "mvalues map_alloc = (None :: 'b list option)" by (auto simp: hm_abs_def map_alloc_def)
  then show thesis using assms that hinvD(1) unfolding hm_inv_def by blast
qed

lemma hm_inv_alloc [simp]: "hm_inv hash map_alloc" "hm_abs hash map_alloc = Map.empty"
  by (auto simp: hm_inv_def hm_abs_def map_alloc_def)

lemma finite_hm_abs: "hm_inv hash m \<Longrightarrow> finite (dom (hm_abs hash m))"
  by (elim hm_invE) (simp_all add: dom_hm_abs)

lemma hsize_ok: "hm_inv hash m \<Longrightarrow> hsize m = card (dom (hm_abs hash m))"
  by (elim hm_invE) (simp_all add: card_dom_hm_abs hsize_def map_alloc_def)

lemma hfind_ok:
  assumes "hm_inv hash m"
  shows "hfind hash m key = Some (hm_abs hash m key)"
  using assms
proof (cases rule: hm_invE)
  case (2 vs ch)
  note d = hinvD [OF 2(1)]
  have len: "length vs = maxentries m" using d(2) by (simp add: sizes_ok_def)
  show ?thesis
    by (rule lookup_cases [OF 2(1), of key]) (use d(1) len in \<open>auto simp: hfind_def map_lookup_def load_def\<close>)
qed (simp add: hfind_def)

lemma grown_room:
  assumes "hinv hash m vs ch" "nentries m < maxentries m"
  shows "fl_ids (lfree m) \<noteq> {}"
proof
  assume "fl_ids (lfree m) = {}"
  then have "{0..<maxentries m} \<subseteq> used m ch" using hinvD(5) [OF assms(1)] by auto
  then show False using card_mono [of "used m ch" "{0..<maxentries m}"] hinvD(6) [OF assms(1)] assms(2) by simp
qed

lemma full_entries:
  assumes "hinv hash m vs ch" "fl_ids (lfree m) = {}"
  shows "nentries m = maxentries m"
proof -
  have "used m ch = {0..<maxentries m}"
    using hinvD(5) [OF assms(1)] assms(2) used_subset [of m vs hash ch] hinvD(2,3) [OF assms(1)] by auto
  then show ?thesis using hinvD(6) [OF assms(1)] by simp
qed

text \<open>Entering a missing key after the map has grown.\<close>

lemma set_after_resize:
  assumes "hl_freelist_get (lfree m) = Some (None, lfree m)" "hresize h hash m = Some m2" "hinv hash m2 vs2 ch2" "fl_ids (lfree m2) \<noteq> {}"
    "hm_abs hash m2 = hm_abs hash m" "hm_abs hash m key = None"
    "(case mvalues m of None \<Rightarrow> Some None | Some _ \<Rightarrow> map_lookup hash m key) = Some None"
  shows "\<exists>m'. set_impl h hash key v m = Some m' \<and> hm_inv hash m' \<and> hm_abs hash m' = (hm_abs hash m)(key \<mapsto> v)"
proof -
  obtain c fl i m' vs' ch' where "hl_freelist_get (lfree m2) = Some (Some c, fl)" "cell_of hash m2 key = Some i"
    "link i c key v (m2\<lparr>lfree := fl\<rparr>) = Some m'" "hinv hash m' vs' ch'" "hm_abs hash m' = (hm_abs hash m2)(key \<mapsto> v)"
    using grab_and_link [OF assms(3,4), of key v] assms(5,6) by auto
  moreover from this have "set_impl h hash key v m = Some m'"
    using assms(1,2,7) by (simp add: set_impl_def set_with_def Let_def)
  ultimately show ?thesis using assms(5) by (auto simp: hm_inv_def)
qed

lemma set_impl_ok:
  assumes "hm_inv hash m" "card (dom (hm_abs hash m)) < map_limit"
  shows "\<exists>m'. set_impl h hash key v m = Some m' \<and> hm_inv hash m' \<and> hm_abs hash m' = (hm_abs hash m)(key \<mapsto> v)"
  using assms(1)
proof (cases rule: hm_invE)
  case 1
  obtain m2 vs2 ch2 where "hresize h hash map_alloc = Some m2" "hinv hash m2 vs2 ch2" "hm_abs hash m2 = Map.empty" "0 < maxentries m2"
    using hresize_alloc [of h hash] by blast
  moreover from this have "nentries m2 = 0" using card_dom_hm_abs [of hash m2 vs2 ch2] by simp
  ultimately show ?thesis
    using 1 set_after_resize [of map_alloc h hash m2 vs2 ch2 key v] grown_room [of hash m2 vs2 ch2]
    by (simp add: map_alloc_def hl_freelist_init_def hl_freelist_get_def)
next
  case (2 vs ch)
  note d = hinvD [OF 2(1)]
  show ?thesis
  proof (cases "fl_ids (lfree m) = {} \<and> hm_abs hash m key = None")
    case False
    then show ?thesis
      using set_with_room [OF 2(1), of "hresize h hash" key v] set_with_present [OF 2(1), of key "hresize h hash" v]
      unfolding set_impl_def hm_inv_def by blast
  next
    case True
    have full: "nentries m = maxentries m" using full_entries [OF 2(1)] True by simp
    then have "maxentries m < map_limit" using assms(2) card_dom_hm_abs [OF 2(1)] by simp
    from hresize_ok [OF 2(1) full this] obtain m2 vs2 ch2 where m2: "hresize h hash m = Some m2" "hinv hash m2 vs2 ch2"
      "hm_abs hash m2 = hm_abs hash m" "maxentries m < maxentries m2" by blast
    have "nentries m2 = nentries m" using card_dom_hm_abs [OF 2(1)] card_dom_hm_abs [OF m2(2)] m2(3) by simp
    then have "fl_ids (lfree m2) \<noteq> {}" using grown_room [OF m2(2)] m2(4) full by simp
    with m2 True 2 show ?thesis
      using set_after_resize [of m h hash m2 vs2 ch2 key v] pool.grab_none [OF d(4)] lookup_absent [OF 2(1)] by simp
  qed
qed

lemma hremove_ok:
  assumes "hm_inv hash m"
  shows "\<exists>m'. hremove h hash filt m key = Some (hm_abs hash m (filt key) \<noteq> None, m') \<and> hm_inv hash m' \<and> hm_abs hash m' = (hm_abs hash m)(filt key := None)"
  using assms
proof (cases rule: hm_invE)
  case 1
  then show ?thesis using assms by (auto simp: hremove_def)
next
  case (2 vs ch)
  show ?thesis
  proof (rule lookup_cases [OF 2(1), of "filt key"])
    fix i assume "cell_of hash m (filt key) = Some i" "MINDEX m i = Some (idx (cells m) ! i)"
      "chain_find m (filt key) None (idx (cells m) ! i) = Some None" "hm_abs hash m (filt key) = None"
    then show ?thesis using 2(2) assms by (auto simp: hremove_def Let_def)
  next
    fix i ys c zs assume i: "i = unat (hash (filt key)) mod ncells m" "cell_of hash m (filt key) = Some i" "MINDEX m i = Some (idx (cells m) ! i)"
      "chain_find m (filt key) None (idx (cells m) ! i) = Some (Some (if ys = [] then None else Some (last ys), c))"
      "ch i = ys @ c # zs" "entries m ! c = filt key" "hm_abs hash m (filt key) = Some (vs ! c)"
    from unlink_ok [OF 2(1) i(1,5,6), of h] obtain m' vs' ch' where
      "unlink h i (if ys = [] then None else Some (last ys)) c m = Some m'" "hinv hash m' vs' ch'" "hm_abs hash m' = (hm_abs hash m)(filt key := None)"
      by blast
    then show ?thesis using 2(2) i by (auto simp: hremove_def Let_def hm_inv_def)
  qed
qed

interpretation hash_map: map_contract "hm_inv hash" "hm_abs hash" map_limit "set_impl h hash"
    "\<lambda>k m. hremove h hash id m k" "\<lambda>k m. hfind hash m k"
proof (unfold_locales, goal_cases)
  case (1 s)
  then show ?case by (rule finite_hm_abs)
next
  case (2 s k v)
  then show ?case by (rule set_impl_ok)
next
  case (3 s k)
  from hremove_ok [OF 3(1), of h id k] show ?case by simp
next
  case (4 s k)
  from hfind_ok [OF 4(1)] show ?case .
qed

subsection \<open>Listing, clearing and copying\<close>

lemma visit_ok:
  assumes "hinv hash m vs ch" "set is \<subseteq> {0..<ncells m}"
  shows "visit m is = Some (concat (map ch is))"
  using assms(2)
proof (induction "is")
  case (Cons i "is")
  note d = hinvD [OF assms(1)]
  have "chain_list m (idx (cells m) ! i) = Some (ch i)"
    using d(3) Cons.prems by (intro chain_list_ok [OF d(2)]) (auto simp: cell_ok_def)
  with Cons MINDEX_ok [OF d(2)] show ?case by simp
qed simp

lemma distinct_visit:
  assumes "hinv hash m vs ch" "n \<le> ncells m"
  shows "distinct (concat (map ch [0..<n]))"
  using assms(2)
proof (induction n)
  case (Suc n)
  have ok: "cell_ok hash m i (ch i)" if "i < Suc n" for i using hinvD(3) [OF assms(1)] that Suc.prems by simp
  have "set (ch i) \<inter> set (ch n) = {}" if "i < n" for i
    using ok [of i] ok [of n] that by (auto simp: cell_ok_def)
  moreover have "distinct (ch n)" using ok [of n] by (simp add: cell_ok_def distinct_map)
  ultimately show ?case using Suc by (fastforce simp: disjoint_iff)
qed simp

lemma those_load: "\<forall>c\<in>set cs. c < length xs \<Longrightarrow> those (map (\<lambda>c. load c xs) cs) = Some (map ((!) xs) cs)"
  by (induction cs) (auto simp: load_def)

lemma hkeys_hvalues_ok:
  assumes "hm_inv hash m"
  shows "\<exists>ks. hkeys h m = Some ks \<and> distinct ks \<and> set ks = dom (hm_abs hash m) \<and> hvalues h m = Some (map (\<lambda>k. the (hm_abs hash m k)) ks)"
  using assms
proof (cases rule: hm_invE)
  case 1
  then show ?thesis by (auto simp: hkeys_def hvalues_def map_alloc_def)
next
  case (2 vs ch)
  note d = hinvD [OF 2(1)]
  define cs where "cs = concat (map ch [0..<ncells m])"
  have cs: "visit m [0..<ncells m] = Some cs" "distinct cs" "set cs = used m ch"
    using visit_ok [OF 2(1)] distinct_visit [OF 2(1), of "ncells m"] by (auto simp: cs_def used_def)
  then have range: "\<forall>c\<in>set cs. c < maxentries m" using used_subset [of m vs hash ch] d(2,3) by auto
  have len: "length cs = nentries m" using cs(2,3) d(6) by (simp flip: distinct_card)
  have "hkeys h m = Some (map ((!) (entries m)) cs)"
    using cs(1) those_load [of cs "entries m"] range d(2) len by (simp add: hkeys_def sizes_ok_def)
  moreover have "hvalues h m = Some (map ((!) vs) cs)"
    using cs(1) those_load [of cs vs] range d(1,2) len by (simp add: hvalues_def sizes_ok_def)
  moreover have "distinct (map ((!) (entries m)) cs)"
    using cs(2,3) used_entries [of m hash ch] d(3) by (simp add: distinct_map)
  moreover have "map ((!) vs) cs = map (\<lambda>k. the (hm_abs hash m k)) (map ((!) (entries m)) cs)"
    using hm_abs_entry [OF 2(1)] cs(3) by simp
  ultimately show ?thesis using cs(3) dom_hm_abs [OF 2(1)] by auto
qed

lemma hclear_ok:
  assumes "hm_inv hash m"
  shows "\<exists>m'. hclear h m = Some m' \<and> hm_inv hash m' \<and> hm_abs hash m' = Map.empty"
  using assms
proof (cases rule: hm_invE)
  case 1
  then show ?thesis by (auto simp: hclear_def)
next
  case (2 vs ch)
  note d = hinvD [OF 2(1)]
  show ?thesis
  proof (cases "maxentries m \<le> MCLEAR_KEEP_ENTRIES")
    case False
    then show ?thesis by (auto simp: hclear_def)
  next
    case True
    have "fl_inv hl_freelist_init" "fl_ids hl_freelist_init \<inter> {0..<0 + maxentries m} = {}" "0 < maxentries m"
      using d(2) by (simp_all add: hl_freelist_init_def fl_inv_def fl_ids_def sizes_ok_def)
    from pool.give [OF this(1,3,2)] obtain fl where fl: "hl_freelist_add_range hl_freelist_init 0 (maxentries m) = Some fl" "fl_inv fl" "fl_ids fl = {0..<maxentries m}"
      by (auto simp: hl_freelist_init_def fl_ids_def)
    define m' where "m' = m\<lparr>cells := (cells m)\<lparr>idx := replicate (ncells m) (- 1)\<rparr>, entries := replicate (maxentries m) (zero_key h),
      mvalues := Some (replicate (maxentries m) (null h)), nentries := 0, lfree := fl\<rparr>"
    have "hclear h m = Some m'" using True 2(2) fl(1) by (simp add: hclear_def m'_def)
    moreover have inv: "hinv hash m' (replicate (maxentries m) (null h)) (\<lambda>_. [])"
      using d(2) fl by (simp add: hinv_def m'_def sizes_ok_def widths_ok_def is_wide_def cell_ok_def used_def)
    moreover have "hm_abs hash m' = Map.empty" by (rule ext) (simp add: hm_abs_cell [OF inv] assoc_def)
    ultimately show ?thesis by (auto simp: hm_inv_def)
  qed
qed

lemma hcopy_ok:
  assumes "hm_inv hash m"
  shows "hm_inv hash (hcopy m) \<and> hm_abs hash (hcopy m) = hm_abs hash m"
  using assms
proof (cases rule: hm_invE)
  case 1
  then show ?thesis by (simp add: hcopy_def map_alloc_def [symmetric])
next
  case (2 vs ch)
  note d = hinvD [OF 2(1)]
  define fl where "fl = lfree (hcopy m)"
  have copy: "hcopy m = m\<lparr>lfree := fl\<rparr>" using 2(2) by (simp add: hcopy_def fl_def)
  have "fl_inv fl" "fl_ids fl = fl_ids (lfree m)"
    using d(4) 2(2) by (auto simp: fl_def hcopy_def fl_inv_def fl_ids_def length_realloc take_realloc split: option.splits)
  then have inv: "hinv hash (hcopy m) vs ch"
    using 2(1) by (simp add: copy hinv_def sizes_ok_def widths_ok_def is_wide_def cell_ok_def used_def)
  moreover have "hm_abs hash (hcopy m) = hm_abs hash m"
  proof
    fix k
    have "ncells (hcopy m) = ncells m" "entries (hcopy m) = entries m" by (simp_all add: copy)
    then show "hm_abs hash (hcopy m) k = hm_abs hash m k"
      by (simp add: hm_abs_cell [OF inv] hm_abs_cell [OF 2(1)] assoc_def)
  qed
  ultimately show ?thesis by (auto simp: hm_inv_def)
qed

subsection \<open>The key types\<close>

text \<open>The hashes of the four instances. A string key is its units up to the terminator, an object key its address.\<close>

definition hl_hihash :: "int \<Rightarrow> u32" where
  "hl_hihash h = word_of_int h"

definition hl_hi64hash :: "64 word \<Rightarrow> u32" where
  "hl_hi64hash h = ucast h XOR ucast (signed_drop_bit 32 h)"

definition hl_hbhash :: "uchar list \<Rightarrow> u32" where
  "hl_hbhash key = (case hash_name (key @ [0]) of Some h \<Rightarrow> word_of_int h | None \<Rightarrow> 0)"

definition hl_hohash :: "64 word \<Rightarrow> u32" where
  "hl_hohash key = ucast key"

subsection \<open>What the maps promise\<close>

text \<open>
  C32: a hash map, with any hash function, used from its allocation by any sequence of fewer than 715827882
  insertions, removals and lookups returns the results that a mathematical map gives. No operation leaves a
  buffer, follows a chain that does not end, reads links at the wrong width, resizes inside of a resize or
  fails its assertion, and the map ends with its invariant and exactly the entries of that map.
\<close>

theorem hash_map_refines_map:
  fixes hash :: "'k \<Rightarrow> u32" and cs :: "('k, 'v) map_cmd list"
  assumes "length cs \<le> map_limit"
  shows "\<exists>m. map_run (set_impl h hash) (\<lambda>k m. hremove h hash id m k) (\<lambda>k m. hfind hash m k) cs map_alloc =
      Some (fst (map_specs cs Map.empty), m) \<and> hm_inv hash m \<and> hm_abs hash m = snd (map_specs cs Map.empty)"
  using hash_map.map_run_spec [of hash map_alloc cs h] assms by simp

theorem hash_map_refines_map_witness:
  "\<exists>m. map_run (set_impl \<lparr>f_key = 0, f_next = 77, zero_key = 0, null = 0\<rparr> hl_hihash)
     (\<lambda>k m. hremove \<lparr>f_key = 0, f_next = 77, zero_key = 0, null = 0\<rparr> hl_hihash id m k) (\<lambda>k m. hfind hl_hihash m k)
     [MPut 1 10, MPut 8 11, MPut 15 12, MPut 22 13, MGet 8, MDel 15, MGet 15, MPut 8 14, MGet 8] map_alloc =
     Some ([RNone, RNone, RNone, RNone, RVal (Some 11), RBool True, RVal None, RNone, RVal (Some (14 :: int))], m)"
  using hash_map_refines_map [of "[MPut 1 10, MPut 8 11, MPut 15 12, MPut 22 13, MGet 8, MDel 15, MGet 15, MPut 8 14, MGet 8]" "\<lparr>f_key = 0, f_next = 77, zero_key = 0, null = 0\<rparr>" hl_hihash]
  by (auto simp: map_limit_def simp del: map_run.simps)

text \<open>
  \<open>keys\<close> lists each key of a map once, \<open>values\<close> lists their values in the same order, and \<open>size\<close> is their
  number: neither runs over its result array nor leaves a gap in it.
\<close>

theorem keys_values_size:
  assumes "hm_inv hash m"
  shows "\<exists>ks. hkeys h m = Some ks \<and> distinct ks \<and> set ks = dom (hm_abs hash m) \<and> length ks = hsize m \<and>
    hvalues h m = Some (map (\<lambda>k. the (hm_abs hash m k)) ks)"
proof -
  obtain ks where "hkeys h m = Some ks" "distinct ks" "set ks = dom (hm_abs hash m)" "hvalues h m = Some (map (\<lambda>k. the (hm_abs hash m k)) ks)"
    using hkeys_hvalues_ok [OF assms] by blast
  then show ?thesis using hsize_ok [OF assms] distinct_card [of ks] by auto
qed

theorem keys_values_size_witness:
  "\<exists>m ks. set_impl \<lparr>f_key = 0, f_next = 77, zero_key = 0, null = 0\<rparr> hl_hihash 5 (6 :: int) map_alloc = Some m \<and>
     hkeys \<lparr>f_key = 0, f_next = 77, zero_key = 0, null = 0\<rparr> m = Some ks \<and> set ks = {5} \<and> length ks = hsize m"
proof -
  obtain m where "set_impl \<lparr>f_key = 0, f_next = 77, zero_key = 0, null = 0\<rparr> hl_hihash 5 (6 :: int) map_alloc = Some m"
    "hm_inv hl_hihash m" "hm_abs hl_hihash m = [5 \<mapsto> 6]"
    using set_impl_ok [of hl_hihash map_alloc _ 5 6] by (auto simp: map_limit_def)
  with keys_values_size [of hl_hihash m] show ?thesis by auto
qed

text \<open>
  clearing a map leaves an empty map that can be used on, whether its storage is kept or dropped; a copy
  has the same entries, and what is then done to the one does not depend on the other.
\<close>

theorem clear_and_copy:
  assumes "hm_inv hash m"
  shows "(\<exists>m'. hclear h m = Some m' \<and> hm_inv hash m' \<and> hm_abs hash m' = Map.empty \<and> hsize m' = 0) \<and>
    hm_inv hash (hcopy m) \<and> hm_abs hash (hcopy m) = hm_abs hash m \<and> hsize (hcopy m) = hsize m"
  using hclear_ok [OF assms] hcopy_ok [OF assms] hsize_ok [of hash] assms by fastforce

theorem clear_and_copy_witness:
  "\<exists>m m'. set_impl \<lparr>f_key = 0, f_next = 77, zero_key = 0, null = 0\<rparr> hl_hihash 5 (6 :: int) map_alloc = Some m \<and>
     hclear \<lparr>f_key = 0, f_next = 77, zero_key = 0, null = 0\<rparr> m = Some m' \<and> hsize m' = 0 \<and> hm_abs hl_hihash (hcopy m) 5 = Some 6"
proof -
  obtain m where "set_impl \<lparr>f_key = 0, f_next = 77, zero_key = 0, null = 0\<rparr> hl_hihash 5 (6 :: int) map_alloc = Some m"
    "hm_inv hl_hihash m" "hm_abs hl_hihash m = [5 \<mapsto> 6]"
    using set_impl_ok [of hl_hihash map_alloc _ 5 6] by (auto simp: map_limit_def)
  with clear_and_copy [of hl_hihash m] show ?thesis by auto
qed

text \<open>
  the exported operations work on filtered keys: after a \<open>set\<close>, \<open>get\<close> and \<open>exists\<close> find the new value under
  every key with the same filtered key and see no change under any other.
\<close>

theorem set_get_filtered:
  assumes "hm_inv hash m" "hsize m < map_limit"
  shows "\<exists>m'. hset h hash filt key v m = Some m' \<and> hm_inv hash m' \<and>
    (\<forall>k. hget h hash filt m' k = (if filt k = filt key then Some v else hget h hash filt m k)) \<and>
    (\<forall>k. hexists hash filt m' k = (if filt k = filt key then Some True else hexists hash filt m k))"
proof -
  obtain m' where m': "set_impl h hash (filt key) v m = Some m'" "hm_inv hash m'" "hm_abs hash m' = (hm_abs hash m)(filt key \<mapsto> v)"
    using set_impl_ok [OF assms(1)] assms(2) hsize_ok [OF assms(1)] by metis
  then show ?thesis
    using hfind_ok [OF assms(1)] hfind_ok [OF m'(2)] by (auto simp: hset_def hget_def hexists_def)
qed

theorem set_get_filtered_witness:
  "\<exists>m. hset \<lparr>f_key = 0, f_next = 77, zero_key = 0, null = 0\<rparr> hl_hohash (\<lambda>p. p AND 0xFFF0) 0x1238 (6 :: int) map_alloc = Some m \<and>
     hget \<lparr>f_key = 0, f_next = 77, zero_key = 0, null = 0\<rparr> hl_hohash (\<lambda>p. p AND 0xFFF0) m 0x1234 = Some 6"
proof -
  have "hm_inv hl_hohash map_alloc" "hsize map_alloc < map_limit"
    by simp (simp add: hsize_def map_alloc_def map_limit_def)
  from set_get_filtered [OF this, where h = "\<lparr>f_key = 0, f_next = 77, zero_key = 0, null = 0\<rparr>" and filt = "\<lambda>p. p AND 0xFFF0" and key = "0x1238" and v = "6 :: int"]
  show ?thesis by auto
qed

text \<open>
  C33: the free list hands out each number that was given to it exactly once: an empty list gives none, and what
  it gives from a list that is not empty is one of its numbers, which is gone from it until it is added again.
\<close>

theorem freelist_correct:
  assumes "fl_inv f"
  shows "(fl_ids f = {} \<longrightarrow> hl_freelist_get f = Some (None, f)) \<and>
    (fl_ids f \<noteq> {} \<longrightarrow> (\<exists>p f' f''. hl_freelist_get f = Some (Some p, f') \<and> p \<in> fl_ids f \<and> fl_inv f' \<and> fl_ids f' = fl_ids f - {p} \<and>
      hl_freelist_add f' p = Some f'' \<and> fl_inv f'' \<and> fl_ids f'' = fl_ids f)) \<and>
    (\<forall>pos count. 0 < count \<longrightarrow> fl_ids f \<inter> {pos..<pos + count} = {} \<longrightarrow>
      (\<exists>f'. hl_freelist_add_range f pos count = Some f' \<and> fl_inv f' \<and> fl_ids f' = fl_ids f \<union> {pos..<pos + count}))"
proof (intro conjI impI allI)
  assume "fl_ids f \<noteq> {}"
  then obtain p f' where f': "hl_freelist_get f = Some (Some p, f')" "p \<in> fl_ids f" "fl_inv f'" "fl_ids f' = fl_ids f - {p}"
    using pool.grab_some [OF assms] by blast
  moreover obtain f'' where "hl_freelist_add f' p = Some f''" "fl_inv f''" "fl_ids f'' = fl_ids f"
  proof -
    have "insert p (fl_ids f) = fl_ids f" using f'(2) by blast
    then show thesis using pool.give [OF f'(3), of 1 p] f'(2,4) that by (auto simp: hl_freelist_add_def)
  qed
  ultimately show "\<exists>p f' f''. hl_freelist_get f = Some (Some p, f') \<and> p \<in> fl_ids f \<and> fl_inv f' \<and> fl_ids f' = fl_ids f - {p} \<and>
      hl_freelist_add f' p = Some f'' \<and> fl_inv f'' \<and> fl_ids f'' = fl_ids f" by blast
qed (use pool.grab_none [OF assms] pool.give [OF assms] in simp_all)

theorem freelist_correct_witness:
  "\<exists>p f'. hl_freelist_get \<lparr>buckets = Some [\<lparr>fb_pos = 2, fb_count = 1\<rparr>, \<lparr>fb_pos = 5, fb_count = 2\<rparr>], head = 2, nbuckets = 2\<rparr> = Some (Some p, f') \<and>
     p \<in> {2, 5, 6} \<and> fl_ids f' = {2, 5, 6} - {p}"
proof -
  let ?f = "\<lparr>buckets = Some [\<lparr>fb_pos = 2, fb_count = 1\<rparr>, \<lparr>fb_pos = 5, fb_count = 2\<rparr>], head = 2, nbuckets = 2\<rparr>"
  have "fl_inv ?f" "fl_ids ?f = {2, 5, 6}" by (auto simp: fl_inv_def fl_ids_def ordered_def bset_def)
  with freelist_correct [of ?f] show ?thesis by auto
qed

end
