(* ===== verification/ArmEmit.thy ===== *)
theory ArmEmit
  imports DataStruct
begin

unbundle bit_operations_syntax

text \<open>
  The AArch64 instruction encoders of \<^verbatim>\<open>src/src/jit_aarch64_emit.c\<close>: one definition for each encoder, a
  decoder after the architecture manual that reads the operands back, and the code buffer.

  An encoder gives the instruction word that the source passes to \<open>EMIT32\<close>; \<open>EMIT32\<close> itself writes the word,
  least significant byte first, into the code buffer, which is an array of \<open>DataStruct\<close>. Operands are \<open>int\<close>s,
  as in the source, and registers their numbers.
\<close>

subsection \<open>Bit fields\<close>

definition BITS :: "int \<Rightarrow> nat \<Rightarrow> nat \<Rightarrow> u32" where
  "BITS val start len = push_bit start (word_of_int val AND (push_bit len 1 - 1))"

definition BIT :: "int \<Rightarrow> nat \<Rightarrow> u32" where
  "BIT val pos = push_bit pos (word_of_int val AND 1)"

text \<open>A chain of \<open>|\<close>.\<close>

definition ORs :: "u32 list \<Rightarrow> u32" where
  "ORs ws = foldr (OR) ws 0"

definition EMIT32 :: "u32 \<Rightarrow> u8 s_set \<Rightarrow> u8 s_set option" where
  "EMIT32 insn code = do {
     ks \<leftarrow> store (cur code) (ucast insn) (keys code);
     ks \<leftarrow> store (cur code + 1) (ucast (drop_bit 8 insn)) ks;
     ks \<leftarrow> store (cur code + 2) (ucast (drop_bit 16 insn)) ks;
     ks \<leftarrow> store (cur code + 3) (ucast (drop_bit 24 insn)) ks;
     Some (code\<lparr>keys := ks, cur := cur code + 4\<rparr>) }"

subsection \<open>Arithmetic and logic\<close>

definition encode_add_sub_imm :: "int \<Rightarrow> int \<Rightarrow> int \<Rightarrow> int \<Rightarrow> int \<Rightarrow> int \<Rightarrow> int \<Rightarrow> u32" where
  "encode_add_sub_imm sf op S shift imm12 Rn Rd =
     ORs [BIT sf 31, BIT op 30, BIT S 29, BITS 0x22 23 6, BIT shift 22, BITS imm12 10 12, BITS Rn 5 5, BITS Rd 0 5]"

definition encode_add_sub_reg :: "int \<Rightarrow> int \<Rightarrow> int \<Rightarrow> int \<Rightarrow> int \<Rightarrow> int \<Rightarrow> int \<Rightarrow> int \<Rightarrow> u32" where
  "encode_add_sub_reg sf op S shift Rm imm6 Rn Rd =
     ORs [BIT sf 31, BITS op 30 1, BIT S 29, BITS 0x0B 24 5, BITS shift 22 2, BITS Rm 16 5, BITS imm6 10 6, BITS Rn 5 5, BITS Rd 0 5]"

definition encode_add_sub_ext :: "int \<Rightarrow> int \<Rightarrow> int \<Rightarrow> int \<Rightarrow> int \<Rightarrow> int \<Rightarrow> int \<Rightarrow> int \<Rightarrow> u32" where
  "encode_add_sub_ext sf op S Rm option imm3 Rn Rd =
     ORs [BIT sf 31, BITS op 30 1, BIT S 29, BITS 0x0B 24 5, BITS 1 21 2, BITS Rm 16 5, BITS option 13 3, BITS imm3 10 3,
          BITS Rn 5 5, BITS Rd 0 5]"

definition encode_logical_imm :: "int \<Rightarrow> int \<Rightarrow> int \<Rightarrow> int \<Rightarrow> int \<Rightarrow> int \<Rightarrow> int \<Rightarrow> u32" where
  "encode_logical_imm sf opc N immr imms Rn Rd =
     ORs [BIT sf 31, BITS opc 29 2, BITS 0x24 23 6, BIT N 22, BITS immr 16 6, BITS imms 10 6, BITS Rn 5 5, BITS Rd 0 5]"

definition encode_logical_reg :: "int \<Rightarrow> int \<Rightarrow> int \<Rightarrow> int \<Rightarrow> int \<Rightarrow> int \<Rightarrow> int \<Rightarrow> int \<Rightarrow> u32" where
  "encode_logical_reg sf opc shift N Rm imm6 Rn Rd =
     ORs [BIT sf 31, BITS opc 29 2, BITS 0x0A 24 5, BITS shift 22 2, BIT N 21, BITS Rm 16 5, BITS imm6 10 6, BITS Rn 5 5, BITS Rd 0 5]"

definition encode_mov_wide_imm :: "int \<Rightarrow> int \<Rightarrow> int \<Rightarrow> int \<Rightarrow> int \<Rightarrow> u32" where
  "encode_mov_wide_imm sf opc hw imm16 Rd =
     ORs [BIT sf 31, BITS opc 29 2, BITS 0x25 23 6, BITS hw 21 2, BITS imm16 5 16, BITS Rd 0 5]"

definition encode_madd_msub :: "int \<Rightarrow> int \<Rightarrow> int \<Rightarrow> int \<Rightarrow> int \<Rightarrow> int \<Rightarrow> u32" where
  "encode_madd_msub sf op Rm Ra Rn Rd =
     ORs [BIT sf 31, BITS 0xD8 21 8, BITS Rm 16 5, BIT op 15, BITS Ra 10 5, BITS Rn 5 5, BITS Rd 0 5]"

definition encode_div :: "int \<Rightarrow> int \<Rightarrow> int \<Rightarrow> int \<Rightarrow> int \<Rightarrow> u32" where
  "encode_div sf U Rm Rn Rd =
     ORs [BIT sf 31, BITS 0xD6 21 8, BITS Rm 16 5, BITS (0x2 OR U) 10 6, BITS Rn 5 5, BITS Rd 0 5]"

definition encode_shift_reg :: "int \<Rightarrow> int \<Rightarrow> int \<Rightarrow> int \<Rightarrow> int \<Rightarrow> u32" where
  "encode_shift_reg sf op2 Rm Rn Rd =
     ORs [BIT sf 31, BITS 0xD6 21 8, BITS Rm 16 5, BITS (0x08 OR op2) 10 6, BITS Rn 5 5, BITS Rd 0 5]"

subsection \<open>Loads and stores\<close>

definition encode_ldr_str_imm :: "int \<Rightarrow> int \<Rightarrow> int \<Rightarrow> int \<Rightarrow> int \<Rightarrow> int \<Rightarrow> u32" where
  "encode_ldr_str_imm sz V opc imm12 Rn Rt =
     ORs [BITS sz 30 2, BITS 7 27 3, BIT V 26, BITS 1 24 2, BITS opc 22 2, BITS imm12 10 12, BITS Rn 5 5, BITS Rt 0 5]"

definition encode_ldr_str_reg :: "int \<Rightarrow> int \<Rightarrow> int \<Rightarrow> int \<Rightarrow> int \<Rightarrow> int \<Rightarrow> int \<Rightarrow> int \<Rightarrow> u32" where
  "encode_ldr_str_reg sz V opc Rm option S Rn Rt =
     ORs [BITS sz 30 2, BITS 7 27 3, BIT V 26, BITS 0 24 2, BITS opc 22 2, BIT 1 21, BITS Rm 16 5, BITS option 13 3, BIT S 12,
          BITS 2 10 2, BITS Rn 5 5, BITS Rt 0 5]"

definition encode_ldur_stur :: "int \<Rightarrow> int \<Rightarrow> int \<Rightarrow> int \<Rightarrow> int \<Rightarrow> int \<Rightarrow> u32" where
  "encode_ldur_stur sz V opc imm9 Rn Rt =
     ORs [BITS sz 30 2, BITS 7 27 3, BIT V 26, BITS 0 24 2, BITS opc 22 2, BIT 0 21, BITS (imm9 AND 0x1FF) 12 9, BITS 0 10 2,
          BITS Rn 5 5, BITS Rt 0 5]"

text \<open>The addressing mode and the load bit that the parameter \<open>mode\<close> stands for.\<close>

definition ldp_mode :: "int \<Rightarrow> int \<times> int" where
  "ldp_mode mode =
     (if mode AND 0x10 \<noteq> 0 then (mode AND 3, 0)
      else if mode = 0x03 then (3, 0)
      else if mode = 0x01 then (1, 1)
      else (mode AND 3, 1))"

definition encode_ldp_stp :: "int \<Rightarrow> int \<Rightarrow> int \<Rightarrow> int \<Rightarrow> int \<Rightarrow> int \<Rightarrow> int \<Rightarrow> u32" where
  "encode_ldp_stp opc V mode imm7 Rt2 Rn Rt = (case ldp_mode mode of (addr_mode, L) \<Rightarrow>
     ORs [BITS opc 30 2, BITS 5 27 3, BIT V 26, BITS addr_mode 23 2, BIT L 22, BITS imm7 15 7, BITS Rt2 10 5, BITS Rn 5 5, BITS Rt 0 5])"

subsection \<open>Addresses and branches\<close>

definition encode_adrp :: "int \<Rightarrow> int \<Rightarrow> int \<Rightarrow> u32" where
  "encode_adrp immlo immhi Rd = ORs [BITS 1 31 1, BITS immlo 29 2, BITS 0x10 24 5, BITS immhi 5 19, BITS Rd 0 5]"

definition encode_adr :: "int \<Rightarrow> int \<Rightarrow> int \<Rightarrow> u32" where
  "encode_adr immlo immhi Rd = ORs [BITS 0 31 1, BITS immlo 29 2, BITS 0x10 24 5, BITS immhi 5 19, BITS Rd 0 5]"

definition encode_branch_cond :: "int \<Rightarrow> int \<Rightarrow> u32" where
  "encode_branch_cond imm19 cond = ORs [BITS 0x54 24 8, BITS imm19 5 19, BITS cond 0 4]"

definition encode_branch_uncond :: "int \<Rightarrow> u32" where
  "encode_branch_uncond imm26 = ORs [BITS 0x05 26 6, BITS imm26 0 26]"

definition encode_branch_link :: "int \<Rightarrow> u32" where
  "encode_branch_link imm26 = ORs [BITS 0x25 26 6, BITS imm26 0 26]"

definition encode_branch_reg :: "int \<Rightarrow> int \<Rightarrow> u32" where
  "encode_branch_reg opc Rn = ORs [BITS 0x6B0 21 11, BITS opc 21 2, BITS 0x1F 16 5, BITS Rn 5 5]"

definition encode_cbz_cbnz :: "int \<Rightarrow> int \<Rightarrow> int \<Rightarrow> int \<Rightarrow> u32" where
  "encode_cbz_cbnz sf op imm19 Rt = ORs [BIT sf 31, BITS 0x1A 25 6, BIT op 24, BITS imm19 5 19, BITS Rt 0 5]"

definition encode_tbz_tbnz :: "int \<Rightarrow> int \<Rightarrow> int \<Rightarrow> int \<Rightarrow> int \<Rightarrow> u32" where
  "encode_tbz_tbnz b5 op b40 imm14 Rt = ORs [BIT b5 31, BITS 0x1B 25 6, BIT op 24, BITS b40 19 5, BITS imm14 5 14, BITS Rt 0 5]"

subsection \<open>Floating point and conditional select\<close>

definition encode_fp_arith :: "int \<Rightarrow> int \<Rightarrow> int \<Rightarrow> int \<Rightarrow> int \<Rightarrow> int \<Rightarrow> int \<Rightarrow> u32" where
  "encode_fp_arith M S ty Rm opcode Rn Rd =
     ORs [BIT M 31, BIT S 29, BITS 0x1E 24 5, BITS ty 22 2, BITS 1 21 1, BITS Rm 16 5, BITS opcode 12 4, BITS 2 10 2,
          BITS Rn 5 5, BITS Rd 0 5]"

definition encode_fp_1src :: "int \<Rightarrow> int \<Rightarrow> int \<Rightarrow> int \<Rightarrow> int \<Rightarrow> int \<Rightarrow> u32" where
  "encode_fp_1src M S ty opcode Rn Rd =
     ORs [BIT M 31, BIT S 29, BITS 0x1E 24 5, BITS ty 22 2, BITS 1 21 1, BITS opcode 15 6, BITS 0x10 10 5, BITS Rn 5 5, BITS Rd 0 5]"

definition encode_fp_compare :: "int \<Rightarrow> int \<Rightarrow> int \<Rightarrow> int \<Rightarrow> int \<Rightarrow> int \<Rightarrow> u32" where
  "encode_fp_compare M S ty Rm op Rn =
     ORs [BIT M 31, BIT S 29, BITS 0x1E 24 5, BITS ty 22 2, BITS 1 21 1, BITS Rm 16 5, BITS op 14 2, BITS 8 10 4, BITS Rn 5 5]"

definition encode_fcvt_int :: "int \<Rightarrow> int \<Rightarrow> int \<Rightarrow> int \<Rightarrow> int \<Rightarrow> int \<Rightarrow> int \<Rightarrow> u32" where
  "encode_fcvt_int sf S ty rmode opc Rn Rd =
     ORs [BIT sf 31, BIT S 29, BITS 0x1E 24 5, BITS ty 22 2, BITS 1 21 1, BITS rmode 19 2, BITS opc 16 3, BITS Rn 5 5, BITS Rd 0 5]"

definition encode_int_fcvt :: "int \<Rightarrow> int \<Rightarrow> int \<Rightarrow> int \<Rightarrow> int \<Rightarrow> int \<Rightarrow> int \<Rightarrow> u32" where
  "encode_int_fcvt sf S ty rmode opc Rn Rd =
     ORs [BIT sf 31, BIT S 29, BITS 0x1E 24 5, BITS ty 22 2, BITS 1 21 1, BITS rmode 19 2, BITS opc 16 3, BITS Rn 5 5, BITS Rd 0 5]"

definition encode_cond_select :: "int \<Rightarrow> int \<Rightarrow> int \<Rightarrow> int \<Rightarrow> int \<Rightarrow> int \<Rightarrow> int \<Rightarrow> u32" where
  "encode_cond_select sf op Rm cond op2 Rn Rd =
     ORs [BIT sf 31, BIT op 30, BITS 0xD4 21 8, BITS Rm 16 5, BITS cond 12 4, BITS op2 10 2, BITS Rn 5 5, BITS Rd 0 5]"

abbreviation (input) XZR :: int where "XZR \<equiv> 31"


subsection \<open>Reading fields back\<close>

text \<open>The number in the bits \<open>[s + l - 1 : s]\<close> of a word.\<close>

definition field :: "nat \<Rightarrow> nat \<Rightarrow> u32 \<Rightarrow> int" where
  "field s l w = uint (take_bit l (drop_bit s w))"

lemma BIT_BITS: "BIT v p = BITS v p 1"
  by (simp add: BIT_def BITS_def)

lemma BITS_take_bit: "BITS v s l = push_bit s (take_bit l (word_of_int v))"
  by (simp add: BITS_def push_bit_eq_mult flip: mask_eq_exp_minus_1 take_bit_eq_mask)

lemma bit_BITS: "bit (BITS v s l) n \<longleftrightarrow> s \<le> n \<and> n < s + l \<and> n < 32 \<and> bit v (n - s)"
  by (auto simp: BITS_take_bit bit_push_bit_iff bit_take_bit_iff bit_word_of_int_iff)

lemma bit_field: "bit (field s l w) n \<longleftrightarrow> n < l \<and> bit w (s + n)"
  by (auto simp: field_def bit_uint_iff bit_take_bit_iff bit_drop_bit_eq add.commute dest: bit_imp_le_length)

lemma field_OR: "field s l (a OR b) = field s l a OR field s l b"
  by (rule bit_eqI) (auto simp: bit_field bit_or_iff)

lemma field_zero: "field s l 0 = 0"
  by (simp add: field_def)

lemma field_inside: "s' \<le> s \<Longrightarrow> s + l \<le> s' + l' \<Longrightarrow> s + l \<le> 32 \<Longrightarrow> field s l (BITS v s' l') = take_bit l (drop_bit (s - s') v)"
  by (rule bit_eqI) (auto simp: bit_field bit_BITS bit_take_bit_iff bit_drop_bit_eq add.commute)

lemma field_outside: "s' + l' \<le> s \<or> s + l \<le> s' \<Longrightarrow> field s l (BITS v s' l') = 0"
  by (rule bit_eqI) (auto simp: bit_field bit_BITS)

lemma take_bit_small: "0 \<le> v \<Longrightarrow> v < 2 ^ l \<Longrightarrow> take_bit l v = (v :: int)"
  by (simp add: take_bit_int_eq_self)

lemmas read_fields = ORs_def BIT_BITS field_OR field_zero field_inside field_outside

subsection \<open>Decoding\<close>

datatype insn =
  AddSubImm int int int int int int int
| AddSubReg int int int int int int int int
| AddSubExt int int int int int int int int
| LogicalImm int int int int int int int
| LogicalReg int int int int int int int int
| MovWide int int int int int
| MaddMsub int int int int int int
| Div int int int int int
| ShiftReg int int int int int
| LdrStrImm int int int int int int
| LdrStrReg int int int int int int int int
| LdurStur int int int int int int
| LdpStp int int int int int int int
| Adrp int int int
| Adr int int int
| BranchCond int int
| BranchUncond int
| BranchLink int
| BranchReg int int
| CbzCbnz int int int int
| TbzTbnz int int int int int
| FpArith int int int int int int int
| Fp1src int int int int int int
| FpCompare int int int int int int
| FcvtInt int int int int int int int
| CondSelect int int int int int int int

fun encode :: "insn \<Rightarrow> u32" where
  "encode (AddSubImm sf op S shift imm12 Rn Rd) = encode_add_sub_imm sf op S shift imm12 Rn Rd"
| "encode (AddSubReg sf op S shift Rm imm6 Rn Rd) = encode_add_sub_reg sf op S shift Rm imm6 Rn Rd"
| "encode (AddSubExt sf op S Rm option imm3 Rn Rd) = encode_add_sub_ext sf op S Rm option imm3 Rn Rd"
| "encode (LogicalImm sf opc N immr imms Rn Rd) = encode_logical_imm sf opc N immr imms Rn Rd"
| "encode (LogicalReg sf opc shift N Rm imm6 Rn Rd) = encode_logical_reg sf opc shift N Rm imm6 Rn Rd"
| "encode (MovWide sf opc hw imm16 Rd) = encode_mov_wide_imm sf opc hw imm16 Rd"
| "encode (MaddMsub sf op Rm Ra Rn Rd) = encode_madd_msub sf op Rm Ra Rn Rd"
| "encode (Div sf U Rm Rn Rd) = encode_div sf U Rm Rn Rd"
| "encode (ShiftReg sf op2 Rm Rn Rd) = encode_shift_reg sf op2 Rm Rn Rd"
| "encode (LdrStrImm sz V opc imm12 Rn Rt) = encode_ldr_str_imm sz V opc imm12 Rn Rt"
| "encode (LdrStrReg sz V opc Rm option S Rn Rt) = encode_ldr_str_reg sz V opc Rm option S Rn Rt"
| "encode (LdurStur sz V opc imm9 Rn Rt) = encode_ldur_stur sz V opc imm9 Rn Rt"
| "encode (LdpStp opc V mode imm7 Rt2 Rn Rt) = encode_ldp_stp opc V mode imm7 Rt2 Rn Rt"
| "encode (Adrp immlo immhi Rd) = encode_adrp immlo immhi Rd"
| "encode (Adr immlo immhi Rd) = encode_adr immlo immhi Rd"
| "encode (BranchCond imm19 cond) = encode_branch_cond imm19 cond"
| "encode (BranchUncond imm26) = encode_branch_uncond imm26"
| "encode (BranchLink imm26) = encode_branch_link imm26"
| "encode (BranchReg opc Rn) = encode_branch_reg opc Rn"
| "encode (CbzCbnz sf op imm19 Rt) = encode_cbz_cbnz sf op imm19 Rt"
| "encode (TbzTbnz b5 op b40 imm14 Rt) = encode_tbz_tbnz b5 op b40 imm14 Rt"
| "encode (FpArith M S ty Rm opcode Rn Rd) = encode_fp_arith M S ty Rm opcode Rn Rd"
| "encode (Fp1src M S ty opcode Rn Rd) = encode_fp_1src M S ty opcode Rn Rd"
| "encode (FpCompare M S ty Rm op Rn) = encode_fp_compare M S ty Rm op Rn"
| "encode (FcvtInt sf S ty rmode opc Rn Rd) = encode_fcvt_int sf S ty rmode opc Rn Rd"
| "encode (CondSelect sf op Rm cond op2 Rn Rd) = encode_cond_select sf op Rm cond op2 Rn Rd"

text \<open>Which operands fit their fields: \<open>ufit\<close> for the unsigned ones, \<open>sfit\<close> for the signed ones.\<close>

definition ufit :: "nat \<Rightarrow> int \<Rightarrow> bool" where
  "ufit l v \<longleftrightarrow> 0 \<le> v \<and> v < 2 ^ l"

definition sfit :: "nat \<Rightarrow> int \<Rightarrow> bool" where
  "sfit l v \<longleftrightarrow> - (2 ^ (l - 1)) \<le> v \<and> v < 2 ^ (l - 1)"

fun operands_fit :: "insn \<Rightarrow> bool" where
  "operands_fit (AddSubImm sf op S shift imm12 Rn Rd) \<longleftrightarrow> ufit 1 sf \<and> ufit 1 op \<and> ufit 1 S \<and> ufit 1 shift \<and> ufit 12 imm12 \<and> ufit 5 Rn \<and> ufit 5 Rd"
| "operands_fit (AddSubReg sf op S shift Rm imm6 Rn Rd) \<longleftrightarrow>
     ufit 1 sf \<and> ufit 1 op \<and> ufit 1 S \<and> ufit 2 shift \<and> ufit 5 Rm \<and> ufit 6 imm6 \<and> ufit 5 Rn \<and> ufit 5 Rd"
| "operands_fit (AddSubExt sf op S Rm option imm3 Rn Rd) \<longleftrightarrow>
     ufit 1 sf \<and> ufit 1 op \<and> ufit 1 S \<and> ufit 5 Rm \<and> ufit 3 option \<and> ufit 3 imm3 \<and> ufit 5 Rn \<and> ufit 5 Rd"
| "operands_fit (LogicalImm sf opc N immr imms Rn Rd) \<longleftrightarrow> ufit 1 sf \<and> ufit 2 opc \<and> ufit 1 N \<and> ufit 6 immr \<and> ufit 6 imms \<and> ufit 5 Rn \<and> ufit 5 Rd"
| "operands_fit (LogicalReg sf opc shift N Rm imm6 Rn Rd) \<longleftrightarrow>
     ufit 1 sf \<and> ufit 2 opc \<and> ufit 2 shift \<and> ufit 1 N \<and> ufit 5 Rm \<and> ufit 6 imm6 \<and> ufit 5 Rn \<and> ufit 5 Rd"
| "operands_fit (MovWide sf opc hw imm16 Rd) \<longleftrightarrow> ufit 1 sf \<and> ufit 2 opc \<and> ufit 2 hw \<and> ufit 16 imm16 \<and> ufit 5 Rd"
| "operands_fit (MaddMsub sf op Rm Ra Rn Rd) \<longleftrightarrow> ufit 1 sf \<and> ufit 1 op \<and> ufit 5 Rm \<and> ufit 5 Ra \<and> ufit 5 Rn \<and> ufit 5 Rd"
| "operands_fit (Div sf U Rm Rn Rd) \<longleftrightarrow> ufit 1 sf \<and> ufit 1 U \<and> ufit 5 Rm \<and> ufit 5 Rn \<and> ufit 5 Rd"
| "operands_fit (ShiftReg sf op2 Rm Rn Rd) \<longleftrightarrow> ufit 1 sf \<and> ufit 2 op2 \<and> ufit 5 Rm \<and> ufit 5 Rn \<and> ufit 5 Rd"
| "operands_fit (LdrStrImm sz V opc imm12 Rn Rt) \<longleftrightarrow> ufit 2 sz \<and> ufit 1 V \<and> ufit 2 opc \<and> ufit 12 imm12 \<and> ufit 5 Rn \<and> ufit 5 Rt"
| "operands_fit (LdrStrReg sz V opc Rm option S Rn Rt) \<longleftrightarrow>
     ufit 2 sz \<and> ufit 1 V \<and> ufit 2 opc \<and> ufit 5 Rm \<and> ufit 3 option \<and> ufit 1 S \<and> ufit 5 Rn \<and> ufit 5 Rt"
| "operands_fit (LdurStur sz V opc imm9 Rn Rt) \<longleftrightarrow> ufit 2 sz \<and> ufit 1 V \<and> ufit 2 opc \<and> sfit 9 imm9 \<and> ufit 5 Rn \<and> ufit 5 Rt"
| "operands_fit (LdpStp opc V mode imm7 Rt2 Rn Rt) \<longleftrightarrow>
     ufit 2 opc \<and> ufit 1 V \<and> mode \<in> {0x01, 0x02, 0x03, 0x11, 0x12} \<and> sfit 7 imm7 \<and> ufit 5 Rt2 \<and> ufit 5 Rn \<and> ufit 5 Rt"
| "operands_fit (Adrp immlo immhi Rd) \<longleftrightarrow> ufit 2 immlo \<and> sfit 19 immhi \<and> ufit 5 Rd"
| "operands_fit (Adr immlo immhi Rd) \<longleftrightarrow> ufit 2 immlo \<and> sfit 19 immhi \<and> ufit 5 Rd"
| "operands_fit (BranchCond imm19 cond) \<longleftrightarrow> sfit 19 imm19 \<and> ufit 4 cond"
| "operands_fit (BranchUncond imm26) \<longleftrightarrow> sfit 26 imm26"
| "operands_fit (BranchLink imm26) \<longleftrightarrow> sfit 26 imm26"
| "operands_fit (BranchReg opc Rn) \<longleftrightarrow> ufit 2 opc \<and> ufit 5 Rn"
| "operands_fit (CbzCbnz sf op imm19 Rt) \<longleftrightarrow> ufit 1 sf \<and> ufit 1 op \<and> sfit 19 imm19 \<and> ufit 5 Rt"
| "operands_fit (TbzTbnz b5 op b40 imm14 Rt) \<longleftrightarrow> ufit 1 b5 \<and> ufit 1 op \<and> ufit 5 b40 \<and> sfit 14 imm14 \<and> ufit 5 Rt"
| "operands_fit (FpArith M S ty Rm opcode Rn Rd) \<longleftrightarrow> ufit 1 M \<and> ufit 1 S \<and> ufit 2 ty \<and> ufit 5 Rm \<and> ufit 4 opcode \<and> ufit 5 Rn \<and> ufit 5 Rd"
| "operands_fit (Fp1src M S ty opcode Rn Rd) \<longleftrightarrow> ufit 1 M \<and> ufit 1 S \<and> ufit 2 ty \<and> ufit 6 opcode \<and> ufit 5 Rn \<and> ufit 5 Rd"
| "operands_fit (FpCompare M S ty Rm op Rn) \<longleftrightarrow> ufit 1 M \<and> ufit 1 S \<and> ufit 2 ty \<and> ufit 5 Rm \<and> ufit 2 op \<and> ufit 5 Rn"
| "operands_fit (FcvtInt sf S ty rmode opc Rn Rd) \<longleftrightarrow> ufit 1 sf \<and> ufit 1 S \<and> ufit 2 ty \<and> ufit 2 rmode \<and> ufit 3 opc \<and> ufit 5 Rn \<and> ufit 5 Rd"
| "operands_fit (CondSelect sf op Rm cond op2 Rn Rd) \<longleftrightarrow> ufit 1 sf \<and> ufit 1 op \<and> ufit 5 Rm \<and> ufit 4 cond \<and> ufit 2 op2 \<and> ufit 5 Rn \<and> ufit 5 Rd"

text \<open>The instruction classes of the architecture, told apart by the bits \<open>[28:25]\<close> and then by the fixed bits of
  each class. The operands are read from the positions of the architecture manual.\<close>

definition sfield :: "nat \<Rightarrow> nat \<Rightarrow> u32 \<Rightarrow> int" where
  "sfield s l w = signed_take_bit (l - 1) (field s l w)"

definition decode_dp_imm :: "u32 \<Rightarrow> insn option" where
  "decode_dp_imm w =
     (if field 24 2 w = 0 then
        Some (if field 31 1 w = 1 then Adrp (field 29 2 w) (sfield 5 19 w) (field 0 5 w)
              else Adr (field 29 2 w) (sfield 5 19 w) (field 0 5 w))
      else if field 23 3 w = 2 then
        Some (AddSubImm (field 31 1 w) (field 30 1 w) (field 29 1 w) (field 22 1 w) (field 10 12 w) (field 5 5 w) (field 0 5 w))
      else if field 23 3 w = 4 then
        Some (LogicalImm (field 31 1 w) (field 29 2 w) (field 22 1 w) (field 16 6 w) (field 10 6 w) (field 5 5 w) (field 0 5 w))
      else if field 23 3 w = 5 then
        Some (MovWide (field 31 1 w) (field 29 2 w) (field 21 2 w) (field 5 16 w) (field 0 5 w))
      else None)"

definition decode_branch :: "u32 \<Rightarrow> insn option" where
  "decode_branch w =
     (if field 29 2 w = 0 then
        Some (if field 31 1 w = 1 then BranchLink (sfield 0 26 w) else BranchUncond (sfield 0 26 w))
      else if field 29 2 w = 1 then
        Some (if field 25 1 w = 0 then CbzCbnz (field 31 1 w) (field 24 1 w) (sfield 5 19 w) (field 0 5 w)
              else TbzTbnz (field 31 1 w) (field 24 1 w) (field 19 5 w) (sfield 5 14 w) (field 0 5 w))
      else if field 24 8 w = 0x54 \<and> field 4 1 w = 0 then Some (BranchCond (sfield 5 19 w) (field 0 4 w))
      else if field 25 7 w = 0x6B \<and> field 23 2 w = 0 \<and> field 16 5 w = 0x1F \<and> field 10 6 w = 0 \<and> field 0 5 w = 0 then
        Some (BranchReg (field 21 2 w) (field 5 5 w))
      else None)"

definition decode_load_store :: "u32 \<Rightarrow> insn option" where
  "decode_load_store w =
     (if field 27 3 w = 5 \<and> field 25 1 w = 0 then
        Some (LdpStp (field 30 2 w) (field 26 1 w)
          (if field 22 1 w = 1 \<or> field 23 2 w = 3 then field 23 2 w else 0x10 + field 23 2 w) (sfield 15 7 w)
          (field 10 5 w) (field 5 5 w) (field 0 5 w))
      else if field 27 3 w = 7 \<and> field 24 2 w = 1 then
        Some (LdrStrImm (field 30 2 w) (field 26 1 w) (field 22 2 w) (field 10 12 w) (field 5 5 w) (field 0 5 w))
      else if field 27 3 w = 7 \<and> field 24 2 w = 0 \<and> field 21 1 w = 1 \<and> field 10 2 w = 2 then
        Some (LdrStrReg (field 30 2 w) (field 26 1 w) (field 22 2 w) (field 16 5 w) (field 13 3 w) (field 12 1 w)
          (field 5 5 w) (field 0 5 w))
      else if field 27 3 w = 7 \<and> field 24 2 w = 0 \<and> field 21 1 w = 0 \<and> field 10 2 w = 0 then
        Some (LdurStur (field 30 2 w) (field 26 1 w) (field 22 2 w) (sfield 12 9 w) (field 5 5 w) (field 0 5 w))
      else None)"

definition decode_dp_reg :: "u32 \<Rightarrow> insn option" where
  "decode_dp_reg w =
     (if field 24 5 w = 0x0A then
        Some (LogicalReg (field 31 1 w) (field 29 2 w) (field 22 2 w) (field 21 1 w) (field 16 5 w) (field 10 6 w)
          (field 5 5 w) (field 0 5 w))
      else if field 24 5 w = 0x0B \<and> field 21 1 w = 0 then
        Some (AddSubReg (field 31 1 w) (field 30 1 w) (field 29 1 w) (field 22 2 w) (field 16 5 w) (field 10 6 w)
          (field 5 5 w) (field 0 5 w))
      else if field 24 5 w = 0x0B \<and> field 21 2 w = 1 \<and> field 23 1 w = 0 then
        Some (AddSubExt (field 31 1 w) (field 30 1 w) (field 29 1 w) (field 16 5 w) (field 13 3 w) (field 10 3 w)
          (field 5 5 w) (field 0 5 w))
      else if field 21 8 w = 0xD8 \<and> field 29 2 w = 0 then
        Some (MaddMsub (field 31 1 w) (field 15 1 w) (field 16 5 w) (field 10 5 w) (field 5 5 w) (field 0 5 w))
      else if field 21 8 w = 0xD6 \<and> field 29 2 w = 0 \<and> field 12 4 w = 0 \<and> field 11 1 w = 1 then
        Some (Div (field 31 1 w) (field 10 1 w) (field 16 5 w) (field 5 5 w) (field 0 5 w))
      else if field 21 8 w = 0xD6 \<and> field 29 2 w = 0 \<and> field 12 4 w = 2 then
        Some (ShiftReg (field 31 1 w) (field 10 2 w) (field 16 5 w) (field 5 5 w) (field 0 5 w))
      else if field 21 8 w = 0xD4 \<and> field 29 1 w = 0 then
        Some (CondSelect (field 31 1 w) (field 30 1 w) (field 16 5 w) (field 12 4 w) (field 10 2 w) (field 5 5 w) (field 0 5 w))
      else None)"

definition decode_fp :: "u32 \<Rightarrow> insn option" where
  "decode_fp w =
     (if field 30 1 w \<noteq> 0 \<or> field 24 5 w \<noteq> 0x1E \<or> field 21 1 w \<noteq> 1 then None
      else if field 10 2 w = 2 then
        Some (FpArith (field 31 1 w) (field 29 1 w) (field 22 2 w) (field 16 5 w) (field 12 4 w) (field 5 5 w) (field 0 5 w))
      else if field 10 4 w = 8 \<and> field 0 5 w = 0 then
        Some (FpCompare (field 31 1 w) (field 29 1 w) (field 22 2 w) (field 16 5 w) (field 14 2 w) (field 5 5 w))
      else if field 10 4 w = 0 \<and> field 14 1 w = 1 then
        Some (Fp1src (field 31 1 w) (field 29 1 w) (field 22 2 w) (field 15 6 w) (field 5 5 w) (field 0 5 w))
      else if field 10 4 w = 0 \<and> field 14 2 w = 0 then
        Some (FcvtInt (field 31 1 w) (field 29 1 w) (field 22 2 w) (field 19 2 w) (field 16 3 w) (field 5 5 w) (field 0 5 w))
      else None)"

definition decode :: "u32 \<Rightarrow> insn option" where
  "decode w =
     (if field 28 1 w = 1 \<and> field 27 1 w = 0 then (if field 26 1 w = 0 then decode_dp_imm w else decode_branch w)
      else if field 27 1 w = 1 then
        (if field 25 1 w = 0 then decode_load_store w else if field 26 1 w = 0 then decode_dp_reg w else decode_fp w)
      else None)"


lemma take_bit_ufit: "ufit l v \<Longrightarrow> take_bit l v = v"
  by (simp add: ufit_def take_bit_int_eq_self)

lemma signed_take_bit_sfit: "sfit l v \<Longrightarrow> Suc n = l \<Longrightarrow> signed_take_bit n (take_bit l v) = v"
  by (auto simp: sfit_def signed_take_bit_take_bit signed_take_bit_int_eq_self)

lemma take_bit_mask9: "take_bit 9 v AND 511 = take_bit 9 (v :: int)"
proof -
  have "(511 :: int) = mask 9"
    by (simp add: mask_eq_exp_minus_1)
  then show ?thesis
    by (metis take_bit_eq_mask take_bit_take_bit min.idem)
qed

lemma drop_bit_ufit: "ufit l v \<Longrightarrow> l \<le> n \<Longrightarrow> drop_bit n v = 0"
  by (simp add: ufit_def drop_bit_eq_div) (meson div_pos_pos_trivial le_less_trans less_le_trans one_le_numeral power_increasing)

lemma mod_ufit: "ufit (Suc 0) v \<Longrightarrow> v mod 2 = v"
  by (simp add: ufit_def)

lemmas decode_defs = decode_def decode_dp_imm_def decode_branch_def decode_load_store_def decode_dp_reg_def decode_fp_def
  read_fields take_bit_ufit mod_ufit signed_take_bit_sfit sfield_def take_bit_mask9

lemma decode_encode_dp_imm:
  "operands_fit i \<Longrightarrow> i = AddSubImm sf op S shift imm12 Rn Rd \<Longrightarrow> decode (encode i) = Some i"
  "operands_fit i \<Longrightarrow> i = LogicalImm sf opc N immr imms Rn Rd \<Longrightarrow> decode (encode i) = Some i"
  "operands_fit i \<Longrightarrow> i = MovWide sf opc hw imm16 Rd \<Longrightarrow> decode (encode i) = Some i"
  "operands_fit i \<Longrightarrow> i = Adrp immlo immhi Rd \<Longrightarrow> decode (encode i) = Some i"
  "operands_fit i \<Longrightarrow> i = Adr immlo immhi Rd \<Longrightarrow> decode (encode i) = Some i"
  by (simp_all add: encode_add_sub_imm_def encode_logical_imm_def encode_mov_wide_imm_def encode_adrp_def encode_adr_def decode_defs)

lemma decode_encode_branch:
  "operands_fit i \<Longrightarrow> i = BranchCond imm19 cond \<Longrightarrow> decode (encode i) = Some i"
  "operands_fit i \<Longrightarrow> i = BranchUncond imm26 \<Longrightarrow> decode (encode i) = Some i"
  "operands_fit i \<Longrightarrow> i = BranchLink imm26 \<Longrightarrow> decode (encode i) = Some i"
  "operands_fit i \<Longrightarrow> i = BranchReg opc Rn \<Longrightarrow> decode (encode i) = Some i"
  "operands_fit i \<Longrightarrow> i = CbzCbnz sf op imm19 Rt \<Longrightarrow> decode (encode i) = Some i"
  "operands_fit i \<Longrightarrow> i = TbzTbnz b5 op b40 imm14 Rt \<Longrightarrow> decode (encode i) = Some i"
  by (simp_all add: encode_branch_cond_def encode_branch_uncond_def encode_branch_link_def encode_branch_reg_def
      encode_cbz_cbnz_def encode_tbz_tbnz_def decode_defs)

lemma decode_encode_load_store:
  "operands_fit i \<Longrightarrow> i = LdrStrImm sz V opc imm12 Rn Rt \<Longrightarrow> decode (encode i) = Some i"
  "operands_fit i \<Longrightarrow> i = LdrStrReg sz V opc Rm opt S Rn Rt \<Longrightarrow> decode (encode i) = Some i"
  "operands_fit i \<Longrightarrow> i = LdurStur sz V opc imm9 Rn Rt \<Longrightarrow> decode (encode i) = Some i"
  by (simp_all add: encode_ldr_str_imm_def encode_ldr_str_reg_def encode_ldur_stur_def decode_defs)

lemma decode_encode_ldp:
  "operands_fit i \<Longrightarrow> i = LdpStp opc V mode imm7 Rt2 Rn Rt \<Longrightarrow> decode (encode i) = Some i"
  by (hypsubst, simp only: operands_fit.simps insert_iff empty_iff simp_thms, elim conjE disjE;
      simp add: encode_ldp_stp_def ldp_mode_def decode_defs)

lemma decode_encode_dp_reg:
  "operands_fit i \<Longrightarrow> i = AddSubReg sf op S shift Rm imm6 Rn Rd \<Longrightarrow> decode (encode i) = Some i"
  "operands_fit i \<Longrightarrow> i = AddSubExt sf op S Rm opt imm3 Rn Rd \<Longrightarrow> decode (encode i) = Some i"
  "operands_fit i \<Longrightarrow> i = LogicalReg sf opc shift N Rm imm6 Rn Rd \<Longrightarrow> decode (encode i) = Some i"
  "operands_fit i \<Longrightarrow> i = MaddMsub sf op Rm Ra Rn Rd \<Longrightarrow> decode (encode i) = Some i"
  "operands_fit i \<Longrightarrow> i = CondSelect sf op Rm cond op2 Rn Rd \<Longrightarrow> decode (encode i) = Some i"
  by (simp_all add: encode_add_sub_reg_def encode_add_sub_ext_def encode_logical_reg_def encode_madd_msub_def encode_cond_select_def decode_defs)

lemma decode_encode_div:
  "operands_fit i \<Longrightarrow> i = Div sf U Rm Rn Rd \<Longrightarrow> decode (encode i) = Some i"
  "operands_fit i \<Longrightarrow> i = ShiftReg sf op2 Rm Rn Rd \<Longrightarrow> decode (encode i) = Some i"
  by (simp_all add: encode_div_def encode_shift_reg_def decode_defs drop_bit_ufit [where l = "Suc 0"] drop_bit_ufit [where l = 2])

lemma decode_encode_fp:
  "operands_fit i \<Longrightarrow> i = FpArith M S ty Rm opcode Rn Rd \<Longrightarrow> decode (encode i) = Some i"
  "operands_fit i \<Longrightarrow> i = Fp1src M S ty opcode Rn Rd \<Longrightarrow> decode (encode i) = Some i"
  "operands_fit i \<Longrightarrow> i = FpCompare M S ty Rm op Rn \<Longrightarrow> decode (encode i) = Some i"
  "operands_fit i \<Longrightarrow> i = FcvtInt sf S ty rmode opc Rn Rd \<Longrightarrow> decode (encode i) = Some i"
  by (simp_all add: encode_fp_arith_def encode_fp_1src_def encode_fp_compare_def encode_fcvt_int_def decode_defs)

lemma decode_encode: "operands_fit i \<Longrightarrow> decode (encode i) = Some i"
  by (cases i) (blast intro: decode_encode_dp_imm decode_encode_branch decode_encode_load_store decode_encode_ldp
    decode_encode_dp_reg decode_encode_div decode_encode_fp)+


subsection \<open>The code buffer\<close>

fun emit_all :: "u32 list \<Rightarrow> u8 s_set \<Rightarrow> u8 s_set option" where
  "emit_all [] code = Some code"
| "emit_all (w # ws) code = do { code \<leftarrow> EMIT32 w code; emit_all ws code }"

text \<open>How the processor fetches instructions: four bytes each, the least significant first.\<close>

definition word_of_bytes :: "u8 list \<Rightarrow> u32" where
  "word_of_bytes bs = foldr (\<lambda>b w. ucast b OR push_bit 8 w) bs 0"

fun fetch :: "u8 list \<Rightarrow> u32 list" where
  "fetch (a # b # c # d # bs) = word_of_bytes [a, b, c, d] # fetch bs"
| "fetch _ = []"

definition word_bytes :: "u32 \<Rightarrow> u8 list" where
  "word_bytes w = [ucast w, ucast (drop_bit 8 w), ucast (drop_bit 16 w), ucast (drop_bit 24 w)]"

lemma word_of_bytes_word_bytes: "word_of_bytes (word_bytes w) = w"
proof (rule bit_word_eqI)
  fix n assume "n < LENGTH(32)"
  then consider "n < 8" | "8 \<le> n" "n < 16" | "16 \<le> n" "n < 24" | "24 \<le> n" "n < 32"
    by fastforce
  then show "bit (word_of_bytes (word_bytes w)) n = bit w n"
    by cases (simp_all add: word_of_bytes_def word_bytes_def bit_or_iff bit_push_bit_iff bit_ucast_iff bit_drop_bit_eq less_diff_conv2)
qed

lemma EMIT32_ok:
  assumes "cur code + 4 \<le> length (keys code)"
  shows "EMIT32 w code = Some (code\<lparr>keys := take (cur code) (keys code) @ word_bytes w @ drop (cur code + 4) (keys code),
    cur := cur code + 4\<rparr>)"
proof -
  have upd: "(keys code)[cur code := a, Suc (cur code) := b, Suc (Suc (cur code)) := c, cur code + 3 := d]
      = take (cur code) (keys code) @ a # b # c # d # drop (cur code + 4) (keys code)" for a b c d
    using assms by (intro nth_equalityI) (auto simp: nth_append nth_list_update nth_Cons' less_Suc_eq)
  show ?thesis
    using assms by (simp add: EMIT32_def store_def word_bytes_def upd)
qed

lemma emit_all_ok:
  assumes "cur code + 4 * length ws \<le> length (keys code)"
  shows "\<exists>code'. emit_all ws code = Some code' \<and> cur code' = cur code + 4 * length ws \<and> s_max code' = s_max code \<and>
    keys code' = take (cur code) (keys code) @ concat (map word_bytes ws) @ drop (cur code + 4 * length ws) (keys code)"
  using assms
proof (induction ws arbitrary: code)
  case (Cons w ws)
  let ?c = "code\<lparr>keys := take (cur code) (keys code) @ word_bytes w @ drop (cur code + 4) (keys code), cur := cur code + 4\<rparr>"
  have "length (word_bytes w) = 4"
    by (simp add: word_bytes_def)
  then show ?case
    using Cons.prems Cons.IH [of ?c] EMIT32_ok [of code w] by (auto simp: ac_simps)
qed simp

lemma fetch_words: "fetch (concat (map word_bytes ws)) = ws"
  by (induction ws) (simp_all add: word_bytes_def word_of_bytes_word_bytes [unfolded word_bytes_def])

text \<open>
  C31: Decoding the word of an encoder by the bit positions of the architecture gives back the instruction and
  all its operands, when they fit their fields: no two fields overlap and no two instructions share a word.
\<close>
theorem encoders_roundtrip:
  assumes "operands_fit i"
  shows "decode (encode i) = Some i"
  using decode_encode assms .

theorem encoders_roundtrip_witness: "decode (encode (LdurStur 3 0 1 (- 16) 29 0)) = Some (LdurStur 3 0 1 (- 16) 29 0)"
  by (rule encoders_roundtrip) (simp add: ufit_def sfit_def)

end
