(* ===== verification/ArmImmediate.thy ===== *)
theory ArmImmediate
  imports ArmEmit
begin

unbundle bit_operations_syntax

text \<open>
  The immediates of \<^verbatim>\<open>src/src/jit_aarch64_emit.c\<close>: the recognition of logical immediates
  (\<open>rotate_right_64\<close>, \<open>is_logical_immediate_64\<close> and \<open>_32\<close>) and \<open>load_immediate\<close>, with the meaning of the
  instructions that it emits.

  \<open>load_immediate\<close> gives the list of the words it emits. The compiler's \<open>ctz\<close> and \<open>clz\<close> have no value for 0,
  which is the outer \<open>None\<close> of the recognizers.
\<close>

subsection \<open>Logical immediates\<close>

definition builtin_ctzll :: "u64 \<Rightarrow> nat option" where
  "builtin_ctzll w = find (bit w) [0..<64]"

definition builtin_clzll :: "u64 \<Rightarrow> nat option" where
  "builtin_clzll w = find (\<lambda>n. bit w (63 - n)) [0..<64]"

definition rotate_right_64 :: "u64 \<Rightarrow> int \<Rightarrow> u64" where
  "rotate_right_64 val rotation = drop_bit (nat (rotation AND 63)) val OR push_bit (nat ((- rotation) AND 63)) val"

text \<open>The result is the fields \<open>N\<close>, \<open>immr\<close> and \<open>imms\<close>; the outer \<open>None\<close> is an undefined \<open>ctz\<close> or \<open>clz\<close>.\<close>

definition is_logical_immediate_64 :: "u64 \<Rightarrow> (int \<times> int \<times> int) option option" where
  "is_logical_immediate_64 val =
     (if val = 0 \<or> NOT val = 0 then Some None
      else do {
        let tmp = val AND (val + 1);
        rotation \<leftarrow> (if tmp = 0 then Some 0 else builtin_ctzll tmp);
        let normalized = rotate_right_64 val (int rotation);
        zeroes \<leftarrow> builtin_clzll normalized;
        ones \<leftarrow> builtin_ctzll (NOT normalized);
        let size = int (zeroes + ones);
        if rotate_right_64 val size \<noteq> val then Some None
        else Some (Some (drop_bit 6 size, (- int rotation) AND (size - 1), ((- (push_bit 1 size)) OR (int ones - 1)) AND 0x3F)) })"

definition is_logical_immediate_32 :: "u32 \<Rightarrow> (int \<times> int \<times> int) option option" where
  "is_logical_immediate_32 val =
     (if val = 0 \<or> val = 0xFFFFFFFF then Some None
      else do {
        r \<leftarrow> is_logical_immediate_64 (push_bit 32 (ucast val) OR ucast val);
        case r of None \<Rightarrow> Some None | Some (N, immr, imms) \<Rightarrow> if N \<noteq> 0 then Some None else Some (Some (N, immr, imms)) })"

subsection \<open>Loading an immediate\<close>


definition halfword :: "u64 \<Rightarrow> nat \<Rightarrow> int" where
  "halfword uval i = uint (drop_bit (i * 16) uval AND 0xFFFF)"

definition count_hw :: "(int \<Rightarrow> bool) \<Rightarrow> u64 \<Rightarrow> nat \<Rightarrow> nat" where
  "count_hw P uval n = length (filter (\<lambda>i. P (halfword uval i)) [0..<n])"

text \<open>The loop over the half words: \<open>first\<close> selects the instruction that starts the value (\<open>opc0\<close>, with the
  immediate \<open>start\<close>); the others are \<open>MOVK\<close>. Half words equal to \<open>skip\<close> need no instruction.\<close>

fun mov_loop :: "int \<Rightarrow> int \<Rightarrow> int \<Rightarrow> (int \<Rightarrow> int) \<Rightarrow> int \<Rightarrow> u64 \<Rightarrow> bool \<Rightarrow> nat list \<Rightarrow> u32 list" where
  "mov_loop sf dst opc0 start skip uval first [] = []"
| "mov_loop sf dst opc0 start skip uval first (i # is) = (let hw_val = halfword uval i in
     if hw_val \<noteq> skip then
       (if first then encode_mov_wide_imm sf opc0 (int i) (start hw_val) dst # mov_loop sf dst opc0 start skip uval False is
        else encode_mov_wide_imm sf 3 (int i) hw_val dst # mov_loop sf dst opc0 start skip uval False is)
     else mov_loop sf dst opc0 start skip uval first is)"

definition load_immediate :: "int \<Rightarrow> int \<Rightarrow> bool \<Rightarrow> u32 list option" where
  "load_immediate val dst is_64bit = (let sf = (if is_64bit then 1 else 0) in
     if val = 0 then Some [encode_logical_reg sf 1 0 0 XZR 0 XZR dst]
     else if (\<not> is_64bit \<and> val = 0xFFFFFFFF) \<or> (is_64bit \<and> val = - 1) then Some [encode_mov_wide_imm sf 0 0 0 dst]
     else if val < 0 \<and> val \<ge> - 65536 then Some [encode_mov_wide_imm sf 0 0 (NOT val AND 0xFFFF) dst]
     else if val > 0 \<and> val \<le> 65535 then Some [encode_mov_wide_imm sf 2 0 val dst]
     else do {
       can_encode \<leftarrow> (if is_64bit then is_logical_immediate_64 (word_of_int val) else is_logical_immediate_32 (word_of_int val));
       case can_encode of
         Some (N, immr, imms) \<Rightarrow> Some [encode_logical_imm sf 1 N immr imms XZR dst]
       | None \<Rightarrow>
           (let uval = word_of_int val;
                total_hw = (if is_64bit then 4 else 2);
                nonzero_count = count_hw (\<lambda>h. h \<noteq> 0) uval total_hw;
                ones_count = count_hw (\<lambda>h. h = 0xFFFF) uval total_hw;
                use_movn = (ones_count > nonzero_count)
            in if use_movn then Some (mov_loop sf dst 0 (\<lambda>h. NOT h AND 0xFFFF) 0xFFFF uval True [0..<total_hw])
               else Some (mov_loop sf dst 2 id 0 uval True [0..<total_hw])) })"


subsection \<open>Logical immediates\<close>

text \<open>The bit mask that the fields \<open>N\<close>, \<open>immr\<close> and \<open>imms\<close> stand for: \<open>bitmask_size\<close> gives the element size and
  the number of ones less one, \<open>rotated_run\<close> replicates a run of \<open>S + 1\<close> ones that is rotated right by \<open>R\<close>.\<close>

definition bitmask_size :: "int \<Rightarrow> int \<Rightarrow> (nat \<times> nat) option" where
  "bitmask_size N imms = (case find (\<lambda>len. if len = 6 then N = 1 else \<not> bit imms len) (rev [0..<7]) of
     None \<Rightarrow> None
   | Some len \<Rightarrow>
       let S = nat (take_bit len imms) in if len = 0 \<or> S = 2 ^ len - 1 then None else Some (2 ^ len, S))"

definition rotated_run :: "nat \<Rightarrow> nat \<Rightarrow> nat \<Rightarrow> u64" where
  "rotated_run esize S R = horner_sum of_bool 2 (map (\<lambda>i. (i + R) mod esize \<le> S) [0..<64])"

definition decode_bit_masks :: "int \<Rightarrow> int \<Rightarrow> int \<Rightarrow> u64 option" where
  "decode_bit_masks N immr imms = (case bitmask_size N imms of
     None \<Rightarrow> None
   | Some (esize, S) \<Rightarrow> Some (rotated_run esize S (nat (immr mod int esize))))"

lemma bit_rotated_run: "bit (rotated_run esize S R) i \<longleftrightarrow> i < 64 \<and> (i + R) mod esize \<le> S"
  by (auto simp: rotated_run_def bit_horner_sum_bit_word_iff)

lemma find_upt_Some: "find P [0..<n] = Some i \<longleftrightarrow> i < n \<and> P i \<and> (\<forall>j<i. \<not> P j)"
  by (auto simp: find_Some_iff)

lemma builtin_ctzll_Some: "builtin_ctzll w = Some n \<longleftrightarrow> bit w n \<and> (\<forall>j<n. \<not> bit w j)"
  by (auto simp: builtin_ctzll_def find_upt_Some dest: bit_imp_le_length)

lemma builtin_ctzll_None: "builtin_ctzll w = None \<longleftrightarrow> w = 0"
  by (auto simp: builtin_ctzll_def find_None_iff bit_eq_iff dest: bit_imp_le_length)

lemma builtin_clzll_Some: "builtin_clzll w = Some n \<longleftrightarrow> n < 64 \<and> bit w (63 - n) \<and> (\<forall>j<n. \<not> bit w (63 - j))"
  by (simp add: builtin_clzll_def find_upt_Some)

lemma builtin_clzll_None: "builtin_clzll w = None \<longleftrightarrow> w = 0"
proof -
  have "(\<forall>n<64. \<not> bit w (63 - n)) \<longleftrightarrow> (\<forall>n. \<not> bit w n)" (is "?l = ?r")
  proof
    assume ?l
    show ?r
    proof
      fix n show "\<not> bit w n"
        using \<open>?l\<close> [rule_format, of "63 - n"] by (cases "n < 64") (auto dest: bit_imp_le_length)
    qed
  qed simp
  then show ?thesis
    by (auto simp: builtin_clzll_def find_None_iff bit_eq_iff)
qed

text \<open>The bits of a word as a function of all integers, with period 64.\<close>

definition wbit :: "u64 \<Rightarrow> int \<Rightarrow> bool" where
  "wbit w i = bit w (nat (i mod 64))"

lemma wbit_64: "wbit w (i + 64) = wbit w i" "wbit w (i mod 64) = wbit w i" "wbit w (i - 64) = wbit w i"
  by (simp_all add: wbit_def)

lemma bit_wbit: "i < 64 \<Longrightarrow> bit w i = wbit w (int i)"
  by (simp add: wbit_def)

lemma wbit_eqI: "(\<And>i. 0 \<le> i \<Longrightarrow> i < 64 \<Longrightarrow> wbit v i = wbit w i) \<Longrightarrow> v = w"
  by (rule bit_word_eqI) (simp add: bit_wbit)

lemma and_63: "(r :: int) AND 63 = r mod 64"
proof -
  have "(63 :: int) = mask 6"
    by (simp add: mask_eq_exp_minus_1)
  then show ?thesis
    by (simp only: flip: take_bit_eq_mask) (simp add: take_bit_eq_mod)
qed

lemma wbit_rotate: "wbit (rotate_right_64 v r) i = wbit v (i + r)"
proof -
  define a where "a = i mod 64"
  define b where "b = r mod 64"
  have a: "0 \<le> a" "a < 64" and b: "0 \<le> b" "b < 64"
    by (simp_all add: a_def b_def)
  have neg: "(- r) mod 64 = (if b = 0 then 0 else 64 - b)"
    by (simp add: b_def zmod_zminus1_eq_if)
  have sum: "(i + r) mod 64 = (if a + b < 64 then a + b else a + b - 64)"
  proof -
    have "(i + r) mod 64 = (a + b) mod 64" by (simp add: a_def b_def mod_add_eq)
    moreover have "(a + b) mod 64 = (a + b - 64) mod 64" by simp
    moreover have "a + b < 64 \<Longrightarrow> (a + b) mod 64 = a + b" "\<not> a + b < 64 \<Longrightarrow> (a + b - 64) mod 64 = a + b - 64"
      using a b by (simp_all del: minus_mod_self2)
    ultimately show ?thesis by metis
  qed
  have dr: "bit (drop_bit (nat b) v) (nat a) \<longleftrightarrow> a + b < 64 \<and> bit v (nat (a + b))"
    using a b by (auto simp: bit_drop_bit_eq nat_add_distrib add.commute dest: bit_imp_le_length)
  have pu: "bit (push_bit (nat (64 - b)) v) (nat a) \<longleftrightarrow> 64 \<le> a + b \<and> bit v (nat (a + b - 64))"
    using a b by (auto simp: bit_push_bit_iff nat_diff_distrib nat_add_distrib)
  show ?thesis
    using a b dr pu by (auto simp: wbit_def rotate_right_64_def and_63 bit_or_iff neg sum simp flip: a_def b_def)
qed


lemma period_mult:
  assumes "\<And>i. f (i + p) = f (i :: int)"
  shows "f (i + k * p) = f i"
proof (induction k arbitrary: i rule: int_induct [where k = 0])
  case (step1 k) then show ?case using assms [of "i + k * p"] by (simp add: algebra_simps)
next
  case (step2 k) then show ?case using assms [of "i + (k - 1) * p"] by (simp add: algebra_simps)
qed simp

lemma period_gcd:
  assumes "\<And>i. f (i + p) = f (i :: int)" and "\<And>i. f (i + q) = f i"
  shows "f (i + gcd p q) = f i"
proof -
  obtain c d where "c * p + d * q = gcd p q"
    using bezout_int by blast
  then have "f (i + gcd p q) = f (i + c * p + d * q)"
    by (simp add: add.assoc)
  then show ?thesis
    using period_mult [of f, OF assms(1)] period_mult [of f, OF assms(2)] by simp
qed

lemma period_mod:
  assumes "\<And>i. f (i + p) = f (i :: int)"
  shows "f (i mod p) = f i"
proof -
  have "i mod p = i + (- (i div p)) * p"
    by (simp add: minus_mult_div_eq_mod algebra_simps minus_div_mult_eq_mod)
  then show ?thesis
    using period_mult [of f p, OF assms] by metis
qed

text \<open>A word that starts with \<open>ones\<close> ones and ends with \<open>zeroes\<close> zeroes, and that does not change when it is rotated
  by \<open>zeroes + ones\<close>, is such a run repeated.\<close>

lemma run_period:
  assumes ones: "\<And>i. 0 \<le> i \<Longrightarrow> i < ones \<Longrightarrow> f i" "\<not> f ones" and pos: "0 < ones" "0 \<le> zeroes" "ones + zeroes \<le> 64"
    and zeroes: "\<And>i. - zeroes \<le> i \<Longrightarrow> i < 0 \<Longrightarrow> \<not> f i"
    and period: "\<And>i. f (i + 64) = f (i :: int)" "\<And>i. f (i + (ones + zeroes)) = f i"
  shows "ones + zeroes dvd 64 \<and> 0 < zeroes \<and> (\<forall>i. f i \<longleftrightarrow> i mod (ones + zeroes) < ones)"
proof -
  define g where "g = gcd (ones + zeroes) 64"
  have per: "f (i + g) = f i" for i
    unfolding g_def by (rule period_gcd) (rule period)+
  have per_minus: "f (i - g) = f i" for i
    using per [of "i - g"] by simp
  have g: "0 < g" "g dvd 64" "g dvd ones + zeroes"
    by (simp_all add: g_def)
  have "ones < g"
    using ones per_minus [of ones] g(1) by (metis diff_ge_0_iff_ge linorder_not_less diff_less_eq less_add_same_cancel1)
  have "zeroes < g"
    using zeroes [of "- g"] per [of "- g"] ones(1) [of 0] pos g by force
  have "ones \<le> g - zeroes"
  proof (rule ccontr)
    assume "\<not> ones \<le> g - zeroes"
    then have "f (g - zeroes)" using ones(1) \<open>zeroes < g\<close> by simp
    moreover have "\<not> f (- zeroes)" if "0 < zeroes"
      using zeroes that by simp
    ultimately show False
      using per [of "- zeroes"] \<open>ones < g\<close> \<open>\<not> ones \<le> g - zeroes\<close> pos by (cases "zeroes = 0") (auto simp: algebra_simps)
  qed
  moreover have "g \<le> ones + zeroes"
    using g pos by (intro zdvd_imp_le) auto
  ultimately have size: "ones + zeroes = g"
    by linarith
  have "f i \<longleftrightarrow> i mod g < ones" for i
  proof -
    have "f i = f (i mod g)"
      using period_mod [of f g i] per by simp
    moreover have "f (i mod g) \<longleftrightarrow> i mod g < ones"
    proof (cases "i mod g < ones")
      case True then show ?thesis using ones(1) [of "i mod g"] g by simp
    next
      case False
      then have "\<not> f (i mod g - g)"
        using size g(1) pos_mod_bound [of g i] by (intro zeroes) linarith+
      then show ?thesis using False per_minus by simp
    qed
    ultimately show ?thesis by simp
  qed
  then show ?thesis
    using size g \<open>ones < g\<close> by auto
qed


text \<open>Adding 1 sets the lowest clear bit and clears the ones below it.\<close>

lemma bit_plus_one:
  fixes v :: u64
  assumes t: "\<not> bit v t" "\<And>i. i < t \<Longrightarrow> bit v i" "t < 64"
  shows "bit (v + 1) i \<longleftrightarrow> i < 64 \<and> (i = t \<or> t < i \<and> bit v i)"
proof -
  define q where "q = drop_bit (Suc t) v"
  have "v = mask t OR push_bit (Suc t) q"
  proof (rule bit_word_eqI)
    fix i assume "i < LENGTH(64)"
    then show "bit v i = bit (mask t OR push_bit (Suc t) q) i"
      using t by (cases i t rule: linorder_cases) (auto simp: q_def bit_or_iff bit_mask_iff bit_push_bit_iff bit_drop_bit_eq simp del: push_bit_Suc)
  qed
  also have "\<dots> = mask t + push_bit (Suc t) q"
    by (rule sym, rule disjunctive_add) (auto simp: bit_mask_iff bit_push_bit_iff simp del: push_bit_Suc)
  finally have "v + 1 = push_bit t 1 + push_bit (Suc t) q"
    by (simp add: mask_eq_exp_minus_1 push_bit_eq_mult)
  also have "\<dots> = push_bit t 1 OR push_bit (Suc t) q"
    by (rule disjunctive_add) (auto simp: bit_push_bit_iff bit_exp_iff simp del: push_bit_Suc)
  finally show ?thesis
    using t(3) by (cases "i < 64") (auto simp: q_def bit_or_iff bit_push_bit_iff bit_exp_iff bit_drop_bit_eq simp del: push_bit_Suc dest: bit_imp_le_length)
qed

lemma lowest_clear:
  fixes v :: u64
  assumes "NOT v \<noteq> 0"
  obtains t where "t < 64" "\<not> bit v t" "\<And>i. i < t \<Longrightarrow> bit v i"
proof -
  obtain t where "builtin_ctzll (NOT v) = Some t"
    using assms builtin_ctzll_None by (metis option.exhaust)
  then have *: "bit (NOT v) t" "\<forall>j<t. \<not> bit (NOT v) j"
    by (simp_all add: builtin_ctzll_Some)
  moreover from *(1) have "t < 64"
    by (auto dest: bit_imp_le_length)
  ultimately show ?thesis
    by (intro that [of t]) (auto simp: bit_not_iff)
qed

lemma start_of_run:
  fixes val :: u64
  assumes "val \<noteq> 0" "NOT val \<noteq> 0"
  obtains r where "(if val AND (val + 1) = 0 then Some 0 else builtin_ctzll (val AND (val + 1))) = Some r" "r < 64"
    "wbit val (int r)" "\<not> wbit val (int r - 1)"
proof -
  obtain t where t: "t < 64" "\<not> bit val t" "\<And>i. i < t \<Longrightarrow> bit val i"
    using lowest_clear assms(2) by blast
  have tmp: "bit (val AND (val + 1)) i \<longleftrightarrow> t < i \<and> bit val i" for i
    using bit_plus_one [OF t(2,3,1)] t by (auto simp: bit_and_iff dest: bit_imp_le_length)
  show ?thesis
  proof (cases "val AND (val + 1) = 0")
    case True
    then have above: "\<not> bit val i" if "t < i" for i
      using tmp that by simp
    have "0 < t"
      using above t(2) assms(1) by (metis bit_eqI bit_0_eq bot_apply bot_bool_def gr0I linorder_neqE_nat)
    moreover have "\<not> bit val 63"
      using above [of 63] t by (cases "t = 63") auto
    ultimately show ?thesis
      using True t(3) by (intro that [of 0]) (simp_all add: wbit_def)
  next
    case False
    then obtain r where r: "builtin_ctzll (val AND (val + 1)) = Some r"
      using builtin_ctzll_None by (metis option.exhaust)
    then have b: "t < r" "bit val r" "\<And>j. j < r \<Longrightarrow> \<not> (t < j \<and> bit val j)"
      by (simp_all add: builtin_ctzll_Some tmp)
    have "r < 64"
      using b(2) by (auto dest: bit_imp_le_length)
    moreover have "\<not> bit val (r - 1)"
      using b(1) b(3) [of "r - 1"] t(2) by (cases "r - 1 = t") auto
    moreover have "int r - 1 = int (r - 1)"
      using b(1) by simp
    ultimately have "wbit val (int r)" "\<not> wbit val (int r - 1)"
      using b(2) bit_wbit [of r val] bit_wbit [of "r - 1" val] less_imp_diff_less by metis+
    then show ?thesis
      using r False b(2) by (intro that [of r]) (auto dest: bit_imp_le_length)
  qed
qed

text \<open>A bit mask: a run of \<open>ones\<close> ones from position \<open>r\<close> on in elements of \<open>esize\<close> bits.\<close>

definition is_run :: "u64 \<Rightarrow> int \<Rightarrow> int \<Rightarrow> int \<Rightarrow> bool" where
  "is_run v r esize ones \<longleftrightarrow> 0 < ones \<and> ones < esize \<and> esize dvd 64 \<and> (\<forall>i. wbit v i \<longleftrightarrow> (i - r) mod esize < ones)"

lemma wbit_below: "0 \<le> i \<Longrightarrow> i < 64 \<Longrightarrow> wbit w i = bit w (nat i)" "- 64 \<le> i \<Longrightarrow> i < 0 \<Longrightarrow> wbit w i = bit w (63 - nat (- i - 1))"
proof -
  show "0 \<le> i \<Longrightarrow> i < 64 \<Longrightarrow> wbit w i = bit w (nat i)"
    by (simp add: wbit_def)
  assume i: "- 64 \<le> i" "i < 0"
  have "i mod 64 = (i + 64) mod 64" by simp
  also have "\<dots> = i + 64" using i by (simp del: mod_add_self2)
  finally show "wbit w i = bit w (63 - nat (- i - 1))"
    using i by (auto simp: wbit_def nat_diff_distrib intro!: arg_cong [of _ _ "bit w"])
qed

text \<open>The number of zeroes at the end and of ones at the start of a normalized word.\<close>

lemma ones_and_zeroes:
  assumes "bit n 0" "\<not> bit n 63"
  obtains z o' where "builtin_clzll n = Some z" "builtin_ctzll (NOT n) = Some o'" "0 < z" "0 < o'" "z + o' \<le> 64"
    "\<And>i. 0 \<le> i \<Longrightarrow> i < int o' \<Longrightarrow> wbit n i" "\<not> wbit n (int o')" "\<And>i. - int z \<le> i \<Longrightarrow> i < 0 \<Longrightarrow> \<not> wbit n i"
    "wbit n (- int z - 1)"
proof -
  have "n \<noteq> 0" using assms by auto
  then obtain z where z: "builtin_clzll n = Some z"
    using builtin_clzll_None by (metis option.exhaust)
  have "bit (NOT n) 63" using assms by (simp add: bit_not_iff)
  then have "NOT n \<noteq> 0" by auto
  then obtain o' where o': "builtin_ctzll (NOT n) = Some o'"
    using builtin_ctzll_None by (metis option.exhaust)
  have zb: "z < 64" "bit n (63 - z)" "\<forall>j<z. \<not> bit n (63 - j)"
    using z by (simp_all add: builtin_clzll_Some)
  have ob: "o' < 64" "\<not> bit n o'" "\<forall>j<o'. bit n j"
    using o' by (auto simp: builtin_ctzll_Some bit_not_iff dest: bit_imp_le_length)
  have "0 < z" "0 < o'"
    using assms zb ob by (auto intro!: gr0I)
  moreover have "z + o' \<le> 64"
  proof (rule ccontr)
    assume "\<not> z + o' \<le> 64"
    then have "64 - z < o'" using zb(1) by linarith
    then have "bit n (64 - z)" using ob(3) by simp
    moreover have "64 - z = 63 - (z - 1)" using zb(1) \<open>0 < z\<close> by simp
    ultimately show False using zb(3) \<open>0 < z\<close> by (metis diff_less zero_less_one)
  qed
  moreover have "\<not> wbit n i" if "- int z \<le> i" "i < 0" for i
    using that zb by (simp add: wbit_below(2))
  ultimately show ?thesis
    using zb ob by (intro that [OF z o']) (simp_all add: wbit_below)
qed


text \<open>The fields of a run.\<close>

definition imms_of :: "int \<Rightarrow> int \<Rightarrow> int" where
  "imms_of esize ones = ((- (push_bit 1 esize)) OR (ones - 1)) AND 0x3F"

lemma bitmask_size_imms_of:
  "list_all (\<lambda>k. list_all (\<lambda>m. bitmask_size (drop_bit 6 (2 ^ k)) (imms_of (2 ^ k) (int m)) = Some (2 ^ k, m - 1) \<and>
       ufit 6 (imms_of (2 ^ k) (int m)) \<and> ufit 1 (drop_bit 6 (2 ^ k))) [1..<2 ^ k]) [1..<7]"
  by code_simp

lemma dvd_64: "(e :: int) dvd 64 \<Longrightarrow> 1 < e \<Longrightarrow> \<exists>k\<in>set [1..<7]. e = 2 ^ k"
proof -
  assume e: "e dvd 64" "1 < e"
  have "list_all (\<lambda>e. e dvd 64 \<longrightarrow> list_ex (\<lambda>k. e = 2 ^ k) [1..<7]) [2..64 :: int]"
    by code_simp
  moreover have "e \<in> set [2..64]"
    unfolding set_upto using e zdvd_imp_le [of e 64] by simp
  ultimately show ?thesis
    using e(1) unfolding list_all_iff list_ex_iff by blast
qed

lemma fields_of_run:
  assumes "0 < ones" "ones < esize" "esize dvd 64"
  shows "bitmask_size (drop_bit 6 esize) (imms_of esize ones) = Some (nat esize, nat ones - 1)"
    "ufit 6 (imms_of esize ones)" "ufit 1 (drop_bit 6 esize)" "(x AND (esize - 1)) = x mod esize" "esize \<le> 64"
proof -
  obtain k where k: "k \<in> set [1..<7]" "esize = 2 ^ k"
    using dvd_64 [of esize] assms by auto
  define m where "m = nat ones"
  have m: "ones = int m" "m \<in> set [1..<2 ^ k]"
    using assms k by (auto simp: m_def nat_less_iff)
  have "bitmask_size (drop_bit 6 (2 ^ k)) (imms_of (2 ^ k) (int m)) = Some (2 ^ k, m - 1) \<and>
       ufit 6 (imms_of (2 ^ k) (int m)) \<and> ufit 1 (drop_bit 6 (2 ^ k))"
    using bitmask_size_imms_of k(1) m(2) unfolding list_all_iff by blast
  then show "bitmask_size (drop_bit 6 esize) (imms_of esize ones) = Some (nat esize, nat ones - 1)"
    "ufit 6 (imms_of esize ones)" "ufit 1 (drop_bit 6 esize)"
    by (simp_all add: k(2) m(1) nat_power_eq)
  have "esize - 1 = mask k"
    using k by (simp add: mask_eq_exp_minus_1)
  then show "(x AND (esize - 1)) = x mod esize"
    using k by (metis take_bit_eq_mask take_bit_eq_mod)
  show "esize \<le> 64"
    using assms by (simp add: zdvd_imp_le)
qed

lemma nat_mod_less: "0 \<le> x \<Longrightarrow> 0 \<le> y \<Longrightarrow> 0 < e \<Longrightarrow> 0 \<le> n \<Longrightarrow> (nat x + nat y) mod nat e < nat n \<longleftrightarrow> (x + y) mod e < n"
  by (auto simp: nat_less_eq_zless simp flip: nat_add_distrib nat_mod_distrib intro: le_less_trans [OF pos_mod_sign])

lemma find_in_set: "find P xs = Some x \<Longrightarrow> x \<in> set xs"
  by (induction xs) (auto split: if_splits)

lemma decode_fields_of_run:
  assumes "is_run val r esize ones"
  shows "decode_bit_masks (drop_bit 6 esize) ((- r) AND (esize - 1)) (imms_of esize ones) = Some val"
proof -
  from assms have e: "0 < ones" "ones < esize" "esize dvd 64" and b: "\<And>i. wbit val i \<longleftrightarrow> (i - r) mod esize < ones"
    by (auto simp: is_run_def)
  have "rotated_run (nat esize) (nat ones - 1) (nat ((- r) mod esize)) = val" (is "?w = _")
  proof (rule bit_word_eqI)
    fix i assume "i < LENGTH(64)"
    then have "bit ?w i \<longleftrightarrow> (i + nat ((- r) mod esize)) mod nat esize < nat ones"
      using e by (auto simp: bit_rotated_run)
    also have "\<dots> \<longleftrightarrow> (int i + (- r) mod esize) mod esize < ones"
      using nat_mod_less [of "int i" "(- r) mod esize" esize ones] e by simp
    also have "\<dots> \<longleftrightarrow> bit val i"
      using b [of "int i"] bit_wbit [of i val] \<open>i < LENGTH(64)\<close> by (simp add: mod_add_right_eq)
    finally show "bit ?w i = bit val i" .
  qed
  then show ?thesis
    using fields_of_run [OF e] e by (simp add: decode_bit_masks_def)
qed

lemma decode_bit_masks_run:
  assumes "decode_bit_masks N immr imms = Some val"
  obtains r esize ones where "is_run val r esize ones"
proof -
  from assms obtain esize S where *: "bitmask_size N imms = Some (esize, S)" "val = rotated_run esize S (nat (immr mod int esize))"
    by (auto simp: decode_bit_masks_def split: option.splits)
  then obtain len where len: "len < 7" "esize = 2 ^ len" "S = nat (take_bit len imms)" "S \<noteq> 2 ^ len - 1"
    by (auto simp: bitmask_size_def Let_def split: option.splits if_splits dest!: find_in_set)
  have "nat (take_bit len imms) < 2 ^ len"
    by (simp add: nat_less_iff take_bit_int_less_exp)
  then have "S + 1 < esize"
    using len by linarith
  moreover have "int esize dvd 64"
  proof -
    have "(2 :: int) ^ len dvd 2 ^ 6" using len by (intro le_imp_power_dvd) simp
    then show ?thesis using len by simp
  qed
  moreover have "wbit val i \<longleftrightarrow> (i - (- (immr mod int esize))) mod int esize < int (S + 1)" for i
  proof -
    have e: "0 < int esize" using calculation by simp
    have "wbit val i \<longleftrightarrow> (nat (i mod 64) + nat (immr mod int esize)) mod esize < S + 1"
      using nat_less_iff [of "i mod 64" 64] by (simp add: wbit_def *(2) bit_rotated_run less_Suc_eq_le)
    also have "\<dots> \<longleftrightarrow> (i mod 64 + immr mod int esize) mod int esize < int (S + 1)"
      using nat_mod_less [of "i mod 64" "immr mod int esize" "int esize" "int (S + 1)"] e by (simp add: nat_add_distrib)
    also have "\<dots> \<longleftrightarrow> (i + immr mod int esize) mod int esize < int (S + 1)"
      using mod_mod_cancel [OF \<open>int esize dvd 64\<close>, of i] by (metis mod_add_left_eq)
    finally show ?thesis by simp
  qed
  ultimately show ?thesis
    by (intro that [of "- (immr mod int esize)" "int esize" "int (S + 1)"]) (simp add: is_run_def)
qed


lemma mod_pred: "0 < (e :: int) \<Longrightarrow> 0 < x mod e \<Longrightarrow> (x - 1) mod e = x mod e - 1"
proof -
  assume e: "0 < e" "0 < x mod e"
  have "(x - 1) mod e = (x mod e - 1) mod e"
    by (simp add: mod_diff_left_eq)
  also have "\<dots> = x mod e - 1"
    using e pos_mod_bound [of e x] by (intro mod_pos_pos_trivial) linarith+
  finally show ?thesis .
qed

lemma mod_neg: "0 < x \<Longrightarrow> x \<le> (e :: int) \<Longrightarrow> (- x) mod e = e - x"
proof -
  assume x: "0 < x" "x \<le> e"
  have "(- x) mod e = (e - x) mod e"
    by simp
  also have "\<dots> = e - x"
    using x by (intro mod_pos_pos_trivial) linarith+
  finally show ?thesis .
qed

lemma run_start: "is_run val r' esize ones \<Longrightarrow> wbit val r \<Longrightarrow> \<not> wbit val (r - 1) \<Longrightarrow> (r - r') mod esize = 0"
proof (rule ccontr)
  assume *: "is_run val r' esize ones" "wbit val r" "\<not> wbit val (r - 1)" "(r - r') mod esize \<noteq> 0"
  then have "0 < esize"
    by (auto simp: is_run_def)
  moreover have "0 < (r - r') mod esize"
    using pos_mod_sign [OF \<open>0 < esize\<close>, of "r - r'"] *(4) by linarith
  ultimately show False
    using mod_pred [of esize "r - r'"] * by (auto simp: is_run_def algebra_simps)
qed

lemma run_measures:
  assumes run: "0 < ones" "ones < esize" "\<And>i. f i \<longleftrightarrow> i mod esize < ones"
    and m: "0 \<le> m" "\<And>i. 0 \<le> i \<Longrightarrow> i < m \<Longrightarrow> f i" "\<not> f m"
    and z: "0 \<le> z" "\<And>i. - z \<le> i \<Longrightarrow> i < 0 \<Longrightarrow> \<not> f i" "f (- z - 1)"
  shows "m = ones \<and> z = esize - (ones :: int)"
proof
  have "\<not> ones < m"
    using m(2) [of ones] run by auto
  moreover have "\<not> m < ones"
    using m run by auto
  ultimately show "m = ones" by simp
  have neg: "f (- x) \<longleftrightarrow> esize - x < ones" if "0 < x" "x \<le> esize" for x
    using run(3) [of "- x"] mod_neg [OF that] by simp
  have "\<not> esize - ones < z"
    using z(2) [of "- (esize - ones + 1)"] neg [of "esize - ones + 1"] run by auto
  moreover have "- z - 1 = - (z + 1)"
    by simp
  then have "f (- (z + 1))"
    using z(3) by metis
  then have "\<not> z < esize - ones"
    using z(1) neg [of "z + 1"] run(1) by auto
  ultimately show "z = esize - ones" by simp
qed

lemma is_logical_immediate_64_cases:
  assumes "val \<noteq> 0" "NOT val \<noteq> 0"
  obtains r esize ones where "is_run val r esize ones"
      "is_logical_immediate_64 val = Some (Some (drop_bit 6 esize, (- r) AND (esize - 1), imms_of esize ones))"
  | "is_logical_immediate_64 val = Some None" "\<And>r esize ones. \<not> is_run val r esize ones"
proof -
  obtain r where r: "(if val AND (val + 1) = 0 then Some 0 else builtin_ctzll (val AND (val + 1))) = Some r" "r < 64"
    "wbit val (int r)" "\<not> wbit val (int r - 1)"
    using start_of_run [OF assms] by blast
  define n where "n = rotate_right_64 val (int r)"
  have nbit: "wbit n i = wbit val (i + int r)" for i
    by (simp add: n_def wbit_rotate)
  have "bit n 0" "\<not> bit n 63"
    using r nbit [of 0] nbit [of "- 1"] by (simp_all add: wbit_def)
  then obtain z m where zm: "builtin_clzll n = Some z" "builtin_ctzll (NOT n) = Some m" "0 < z" "0 < m" "z + m \<le> 64"
    "\<And>i. 0 \<le> i \<Longrightarrow> i < int m \<Longrightarrow> wbit n i" "\<not> wbit n (int m)" "\<And>i. - int z \<le> i \<Longrightarrow> i < 0 \<Longrightarrow> \<not> wbit n i"
    "wbit n (- int z - 1)"
    using ones_and_zeroes [of n] by blast
  define sz where "sz = int (z + m)"
  have result: "is_logical_immediate_64 val = (if rotate_right_64 val sz \<noteq> val then Some None
      else Some (Some (drop_bit 6 sz, (- int r) AND (sz - 1), imms_of sz (int m))))"
    using assms r(1) zm(1,2) by (simp add: is_logical_immediate_64_def Let_def n_def [symmetric] sz_def imms_of_def)
  show ?thesis
  proof (cases "rotate_right_64 val sz = val")
    case True
    have "wbit n (i + sz) = wbit n i" for i
      using wbit_rotate [of val sz "i + int r"] True by (simp add: nbit algebra_simps)
    then have "int m + int z dvd 64 \<and> 0 < int z \<and> (\<forall>i. wbit n i \<longleftrightarrow> i mod (int m + int z) < int m)"
      using zm by (intro run_period) (simp_all add: sz_def wbit_64 add.commute)
    then have "is_run val (int r) sz (int m)"
      using zm nbit [of "i - int r" for i] by (auto simp: is_run_def sz_def add.commute)
    then show ?thesis
      using that(1) result True by simp
  next
    case False
    have "\<not> is_run val r' esize ones" for r' esize ones
    proof
      assume "is_run val r' esize ones"
      then have e: "0 < ones" "ones < esize" "esize dvd 64" and b: "\<And>i. wbit val i \<longleftrightarrow> (i - r') mod esize < ones"
        by (auto simp: is_run_def)
      have "(int r - r') mod esize = 0"
        using run_start \<open>is_run val r' esize ones\<close> r by blast
      then have "wbit n i \<longleftrightarrow> i mod esize < ones" for i
        using nbit [of i] b [of "i + int r"] by (metis add_diff_eq mod_add_right_eq add.right_neutral)
      then have "int m = ones \<and> int z = esize - ones"
        using run_measures [where f = "wbit n", OF e(1,2) _ _ zm(6,7) _ zm(8,9)] by simp
      then have "sz = esize"
        by (simp add: sz_def)
      then have "wbit (rotate_right_64 val sz) i = wbit val i" for i
        using b by (simp add: wbit_rotate) (metis add_diff_eq diff_add_eq mod_add_self2)
      then show False
        using False wbit_eqI by blast
    qed
    then show ?thesis
      using that(2) result False by simp
  qed
qed


lemma is_logical_immediate_64_spec:
  "\<exists>r. is_logical_immediate_64 val = Some r \<and> (case r of
     Some (N, immr, imms) \<Rightarrow> decode_bit_masks N immr imms = Some val \<and> ufit 1 N \<and> ufit 6 immr \<and> ufit 6 imms
   | None \<Rightarrow> \<forall>N immr imms. decode_bit_masks N immr imms \<noteq> Some val)"
proof (cases "val = 0 \<or> NOT val = 0")
  case True
  have "\<not> is_run val r esize ones" for r esize ones
  proof
    assume *: "is_run val r esize ones"
    then have "wbit val r" "\<not> wbit val (r - 1)"
      using mod_neg [of 1 esize] by (auto simp: is_run_def)
    then show False
      using True by (auto simp: wbit_def bit_not_iff [symmetric] word_not_not nat_less_iff dest: arg_cong [of "NOT val" 0 NOT])
  qed
  then show ?thesis
    using True decode_bit_masks_run by (auto simp: is_logical_immediate_64_def) metis+
next
  case False
  then have "val \<noteq> 0" "NOT val \<noteq> 0" by auto
  then show ?thesis
  proof (cases rule: is_logical_immediate_64_cases)
    case (1 r esize ones)
    then have e: "0 < ones" "ones < esize" "esize dvd 64"
      by (auto simp: is_run_def)
    have "(- r) mod esize < 64"
      using pos_mod_bound [of esize "- r"] fields_of_run(5) [OF e] e by linarith
    then have "ufit 6 ((- r) mod esize)"
      using e by (simp add: ufit_def)
    then show ?thesis
      using 1 decode_fields_of_run [OF 1(1)] fields_of_run [OF e] by simp
  next
    case 2
    then show ?thesis
      using decode_bit_masks_run by (auto elim: decode_bit_masks_run)
  qed
qed


subsection \<open>What the emitted instructions do\<close>

text \<open>The general registers, and the instructions that \<open>load_immediate\<close> uses: moves of a half word, and the logical
  operations on registers without shift and on immediates. Register 31 reads as zero; a 32-bit operation clears
  the upper half of its destination.\<close>

type_synonym regs = "int \<Rightarrow> u64"

definition read_reg :: "int \<Rightarrow> regs \<Rightarrow> u64" where
  "read_reg r rs = (if r = XZR then 0 else rs r)"

definition write_reg :: "int \<Rightarrow> int \<Rightarrow> u64 \<Rightarrow> regs \<Rightarrow> regs" where
  "write_reg sf r v rs = (if r = XZR then rs else rs(r := if sf = 1 then v else take_bit 32 v))"

definition logical_op :: "int \<Rightarrow> u64 \<Rightarrow> u64 \<Rightarrow> u64 option" where
  "logical_op opc a b = (if opc = 0 then Some (a AND b) else if opc = 1 then Some (a OR b)
     else if opc = 2 then Some (a XOR b) else None)"

fun exec_insn :: "insn \<Rightarrow> regs \<Rightarrow> regs option" where
  "exec_insn (MovWide sf opc hw imm16 Rd) rs =
     (let p = nat (16 * hw); v = push_bit p (word_of_int imm16) in
      if sf = 0 \<and> 2 \<le> hw then None
      else if opc = 0 then Some (write_reg sf Rd (NOT v) rs)
      else if opc = 2 then Some (write_reg sf Rd v rs)
      else if opc = 3 then Some (write_reg sf Rd (read_reg Rd rs AND NOT (push_bit p 0xFFFF) OR v) rs)
      else None)"
| "exec_insn (LogicalImm sf opc N immr imms Rn Rd) rs =
     (if Rd = XZR \<or> sf = 0 \<and> N \<noteq> 0 then None
      else do {
        m \<leftarrow> decode_bit_masks N immr imms;
        v \<leftarrow> logical_op opc (read_reg Rn rs) m;
        Some (write_reg sf Rd v rs) })"
| "exec_insn (LogicalReg sf opc shift N Rm imm6 Rn Rd) rs =
     (if shift \<noteq> 0 \<or> imm6 \<noteq> 0 then None
      else do {
        let m = read_reg Rm rs;
        v \<leftarrow> logical_op opc (read_reg Rn rs) (if N = 1 then NOT m else m);
        Some (write_reg sf Rd v rs) })"
| "exec_insn _ rs = None"

definition exec_word :: "u32 \<Rightarrow> regs \<Rightarrow> regs option" where
  "exec_word w rs = do { i \<leftarrow> decode w; exec_insn i rs }"

fun exec_words :: "u32 list \<Rightarrow> regs \<Rightarrow> regs option" where
  "exec_words [] rs = Some rs"
| "exec_words (w # ws) rs = do { rs \<leftarrow> exec_word w rs; exec_words ws rs }"

lemma exec_encode: "operands_fit i \<Longrightarrow> exec_word (encode i) rs = exec_insn i rs"
  by (simp add: exec_word_def decode_encode)

lemma exec_mov_wide:
  "ufit 1 sf \<Longrightarrow> ufit 2 opc \<Longrightarrow> ufit 2 hw \<Longrightarrow> ufit 16 imm16 \<Longrightarrow> ufit 5 Rd \<Longrightarrow>
   exec_word (encode_mov_wide_imm sf opc hw imm16 Rd) rs = exec_insn (MovWide sf opc hw imm16 Rd) rs"
  using exec_encode [of "MovWide sf opc hw imm16 Rd"] by simp

text \<open>The value that a register holds for the immediate \<open>val\<close>.\<close>

definition reg_value :: "bool \<Rightarrow> int \<Rightarrow> u64" where
  "reg_value is_64bit val = (if is_64bit then word_of_int val else take_bit 32 (word_of_int val))"

definition sf_of :: "bool \<Rightarrow> int" where
  "sf_of is_64bit = (if is_64bit then 1 else 0)"

lemma ufit_sf_of [simp]: "ufit 1 (sf_of b)" "ufit (Suc 0) (sf_of b)" "sf_of True = 1" "sf_of False = 0"
  by (auto simp: sf_of_def ufit_def)

lemma write_value: "dst \<noteq> XZR \<Longrightarrow> write_reg (sf_of is_64bit) dst (word_of_int val) rs = rs(dst := reg_value is_64bit val)"
  by (simp add: write_reg_def sf_of_def reg_value_def)

lemma halfword_take_bit: "halfword uval i = uint (take_bit 16 (drop_bit (i * 16) uval))"
  by (simp add: halfword_def take_bit_eq_mask mask_eq_exp_minus_1)

lemma ufit_halfword [simp]: "ufit 16 (halfword uval i)"
  using take_bit_int_less_exp [of 16 "uint (drop_bit (i * 16) uval)"]
  by (simp add: ufit_def unsigned_take_bit_eq halfword_take_bit)

lemma bit_halfword: "bit (halfword uval i) n \<longleftrightarrow> n < 16 \<and> bit uval (16 * i + n)"
  by (auto simp: halfword_take_bit bit_uint_iff bit_take_bit_iff bit_drop_bit_eq ac_simps dest: bit_imp_le_length)

lemma take_bit_halfword:
  "i < 4 \<Longrightarrow> take_bit (16 * Suc i) uval = take_bit (16 * i) uval OR push_bit (16 * i) (word_of_int (halfword uval i))"
  by (rule bit_word_eqI) (auto simp: bit_or_iff bit_take_bit_iff bit_push_bit_iff bit_word_of_int_iff bit_halfword)

lemma movk_value:
  "i < 4 \<Longrightarrow> take_bit (16 * i) uval AND NOT (push_bit (16 * i) 0xFFFF) OR push_bit (16 * i) (word_of_int (halfword uval i))
     = take_bit (16 * Suc i) uval"
proof -
  assume i: "i < 4"
  have "(0xFFFF :: u64) = mask 16"
    by (simp add: mask_eq_exp_minus_1)
  moreover have "take_bit (16 * i) uval AND NOT (push_bit (16 * i) (mask 16)) = take_bit (16 * i) uval"
    by (rule bit_word_eqI) (auto simp: bit_and_iff bit_not_iff bit_take_bit_iff bit_push_bit_iff bit_mask_iff)
  ultimately show ?thesis
    using take_bit_halfword [OF i] by simp
qed

lemma halfword_nonzero:
  "i < 4 \<Longrightarrow> i < n \<Longrightarrow> halfword uval i \<noteq> 0 \<Longrightarrow> take_bit (16 * n) uval \<noteq> 0"
proof
  assume *: "i < 4" "i < n" "halfword uval i \<noteq> 0" "take_bit (16 * n) uval = 0"
  then obtain b where "b < 16" "bit uval (16 * i + b)"
    by (metis bit_halfword bit_eqI bit_0_eq bot_apply bot_bool_def)
  then have "bit (take_bit (16 * n) uval) (16 * i + b)"
    using *(2) by (simp add: bit_take_bit_iff)
  then show False using *(4) by simp
qed

lemma halfword_zero: "i < 4 \<Longrightarrow> halfword uval i = 0 \<Longrightarrow> take_bit (16 * Suc i) uval = take_bit (16 * i) uval"
  by (simp only: take_bit_halfword) simp

lemma exec_mov_loop:
  assumes "k \<le> n" "n \<le> (if is_64bit then 4 else 2)" "ufit 5 dst" "dst \<noteq> XZR"
    and "if first then take_bit (16 * k) uval = 0 else rs dst = take_bit (16 * k) uval"
  shows "exec_words (mov_loop (sf_of is_64bit) dst 2 id 0 uval first [k..<n]) rs
       = Some (if first \<and> take_bit (16 * n) uval = 0 then rs else rs(dst := take_bit (16 * n) uval))"
  using assms
proof (induction "n - k" arbitrary: k first rs)
  case 0
  then show ?case by (auto)
next
  case (Suc d)
  then have k: "k < n" "k < 4" "[k..<n] = k # [Suc k..<n]" "sf_of is_64bit = 0 \<Longrightarrow> k < 2"
    by (auto simp: upt_conv_Cons sf_of_def split: if_splits)
  have IH: "if f then take_bit (16 * Suc k) uval = 0 else rs' dst = take_bit (16 * Suc k) uval \<Longrightarrow>
      exec_words (mov_loop (sf_of is_64bit) dst 2 id 0 uval f [Suc k..<n]) rs'
       = Some (if f \<and> take_bit (16 * n) uval = 0 then rs' else rs'(dst := take_bit (16 * n) uval))" for f rs'
    using Suc k by (intro Suc.hyps(1)) auto
  have small: "(if sf_of is_64bit = 1 then w else take_bit 32 w) = w" if "w = take_bit (16 * Suc k) uval" for w
    using that k by (auto simp: sf_of_def)
  have fit: "ufit 2 (int k)"
    using k by (simp add: ufit_def)
  show ?case
  proof (cases "halfword uval k = 0")
    case True
    then show ?thesis
      using IH [of first rs] Suc.prems(5) halfword_zero [OF k(2) True] k(3) by (simp del: take_bit_eq_0_iff)
  next
    case False
    let ?rs = "rs(dst := take_bit (16 * Suc k) uval)"
    have nz: "take_bit (16 * n) uval \<noteq> 0"
      using halfword_nonzero [OF k(2,1) False] .
    have p: "nat (16 * int k) = 16 * k"
      by simp
    have "exec_insn (MovWide (sf_of is_64bit) (if first then 2 else 3) (int k) (halfword uval k) dst) rs
        = Some (write_reg (sf_of is_64bit) dst (take_bit (16 * Suc k) uval) rs)"
    proof (cases first)
      case True
      then have "push_bit (16 * k) (word_of_int (halfword uval k)) = take_bit (16 * Suc k) uval"
        using Suc.prems(5) by (simp only: take_bit_halfword [OF k(2)]) simp
      then show ?thesis
        using True k(4) by (simp add: Let_def p not_le del: mult_Suc_right)
    next
      case False
      then have "read_reg dst rs = take_bit (16 * k) uval"
        using Suc.prems(4,5) by (simp add: read_reg_def)
      then show ?thesis
        using False k(4) by (simp add: Let_def p not_le movk_value [OF k(2)] del: mult_Suc_right)
    qed
    also have "write_reg (sf_of is_64bit) dst (take_bit (16 * Suc k) uval) rs = ?rs"
      using Suc.prems(4) small [OF refl] by (simp add: write_reg_def del: mult_Suc_right)
    finally have "exec_word (encode_mov_wide_imm (sf_of is_64bit) (if first then 2 else 3) (int k) (halfword uval k) dst) rs = Some ?rs"
      using Suc.prems(3) fit by (subst exec_mov_wide) (auto simp: ufit_def [of 2])
    moreover have "exec_words (mov_loop (sf_of is_64bit) dst 2 id 0 uval False [Suc k..<n]) ?rs = Some (?rs(dst := take_bit (16 * n) uval))"
      using IH [of False ?rs] by simp
    ultimately show ?thesis
      using nz False k(3) by (cases first) simp_all
  qed
qed


text \<open>The 32-bit recognizer gives fields of the value in both halves, with \<open>N\<close> clear.\<close>

lemma is_logical_immediate_32_ok:
  obtains "is_logical_immediate_32 val = Some None"
  | immr imms where "is_logical_immediate_32 val = Some (Some (0, immr, imms))" "ufit 6 immr" "ufit 6 imms"
      "decode_bit_masks 0 immr imms = Some (push_bit 32 (ucast val) OR ucast val)"
proof -
  obtain r where r: "is_logical_immediate_64 (push_bit 32 (ucast val) OR ucast val) = Some r"
    "case r of Some (N, immr, imms) \<Rightarrow> decode_bit_masks N immr imms = Some (push_bit 32 (ucast val) OR ucast val) \<and>
       ufit 1 N \<and> ufit 6 immr \<and> ufit 6 imms | None \<Rightarrow> True"
    using is_logical_immediate_64_spec [of "push_bit 32 (ucast val) OR ucast val"] by (auto split: option.splits)
  show ?thesis
  proof (cases "val = 0 \<or> val = 0xFFFFFFFF")
    case True
    then show ?thesis using that(1) by (auto simp: is_logical_immediate_32_def)
  next
    case False
    show ?thesis
    proof (cases r)
      case None
      then show ?thesis using that(1) False r by (simp add: is_logical_immediate_32_def)
    next
      case (Some f)
      obtain N immr imms where "f = (N, immr, imms)" by (cases f)
      then show ?thesis
        using that False r Some by (cases "N = 0") (simp_all add: is_logical_immediate_32_def)
    qed
  qed
qed

lemma length_filter_mono: "(\<And>x. P x \<Longrightarrow> Q x) \<Longrightarrow> length (filter P xs) \<le> length (filter Q xs)"
  by (induction xs) auto

lemma not_word_of_int: "NOT (word_of_int v :: u64) = word_of_int (NOT v)"
  by (rule bit_word_eqI) (simp add: bit_not_iff bit_word_of_int_iff)

lemma take_bit_word_of_int: "n \<le> 64 \<Longrightarrow> take_bit n (word_of_int v :: u64) = word_of_int (take_bit n v)"
  by (rule bit_word_eqI) (auto simp: bit_take_bit_iff bit_word_of_int_iff)

lemma use_movn_never: "\<not> count_hw (\<lambda>h. h = 0xFFFF) uval n > count_hw (\<lambda>h. h \<noteq> 0) uval n"
  by (auto simp: count_hw_def not_less intro!: length_filter_mono)

text \<open>The encoders that \<open>load_immediate\<close> uses, on its operands.\<close>

lemma exec_zero:
  "ufit 5 dst \<Longrightarrow> dst \<noteq> XZR \<Longrightarrow>
   exec_word (encode_logical_reg (sf_of is_64bit) 1 0 0 XZR 0 XZR dst) rs = Some (rs(dst := 0))"
  using exec_encode [of "LogicalReg (sf_of is_64bit) 1 0 0 XZR 0 XZR dst" rs]
  by (simp add: ufit_def [of _ 0] ufit_def [of _ 1] ufit_def [of _ XZR] logical_op_def write_reg_def read_reg_def)

lemma exec_orr_imm:
  "ufit 5 dst \<Longrightarrow> dst \<noteq> XZR \<Longrightarrow> ufit 1 N \<Longrightarrow> ufit 6 immr \<Longrightarrow> ufit 6 imms \<Longrightarrow> is_64bit \<or> N = 0 \<Longrightarrow>
   decode_bit_masks N immr imms = Some m \<Longrightarrow>
   exec_word (encode_logical_imm (sf_of is_64bit) 1 N immr imms XZR dst) rs = Some (write_reg (sf_of is_64bit) dst m rs)"
  using exec_encode [of "LogicalImm (sf_of is_64bit) 1 N immr imms XZR dst" rs]
  by (auto simp: ufit_def [of _ 1] ufit_def [of _ XZR] logical_op_def read_reg_def)

lemma exec_movn:
  "ufit 5 dst \<Longrightarrow> dst \<noteq> XZR \<Longrightarrow> ufit 16 v \<Longrightarrow>
   exec_word (encode_mov_wide_imm (sf_of is_64bit) 0 0 v dst) rs = Some (rs(dst := reg_value is_64bit (NOT v)))"
  by (simp add: exec_mov_wide ufit_def [of _ 0] write_value not_word_of_int)

lemma exec_movz:
  "ufit 5 dst \<Longrightarrow> dst \<noteq> XZR \<Longrightarrow> ufit 16 v \<Longrightarrow>
   exec_word (encode_mov_wide_imm (sf_of is_64bit) 2 0 v dst) rs = Some (rs(dst := reg_value is_64bit v))"
  by (simp add: exec_mov_wide ufit_def [of _ 0] ufit_def [of _ 2] write_value)

lemma take_bit_twice: "take_bit 32 (push_bit 32 (ucast (w :: u32)) OR ucast w :: u64) = ucast w"
  by (rule bit_word_eqI) (auto simp: bit_take_bit_iff bit_or_iff bit_push_bit_iff bit_ucast_iff dest: bit_imp_le_length)

lemma ucast_word_of_int: "ucast (word_of_int val :: u32) = (take_bit 32 (word_of_int val) :: u64)"
  by (rule bit_word_eqI) (auto simp: bit_take_bit_iff bit_ucast_iff bit_word_of_int_iff)

lemma take_bit_twice_value:
  "take_bit 32 (push_bit 32 (ucast (word_of_int val :: u32)) OR ucast (word_of_int val :: u32)) = reg_value False val"
  by (simp only: take_bit_twice) (simp add: ucast_word_of_int reg_value_def)

lemma length_mov_loop: "length (mov_loop sf dst opc0 start skip uval first is) \<le> length is"
  by (induction sf dst opc0 start skip uval first "is" rule: mov_loop.induct) (auto simp: Let_def)

definition in_range :: "bool \<Rightarrow> int \<Rightarrow> bool" where
  "in_range is_64bit val \<longleftrightarrow> (if is_64bit then - (2 ^ 63) \<le> val \<and> val < 2 ^ 63 else - (2 ^ 31) \<le> val \<and> val < 2 ^ 32)"

lemma take_bit_64: "take_bit 64 (w :: u64) = w"
  by (rule bit_word_eqI) (simp add: bit_take_bit_iff)

lemma take_bit_reg_value: "take_bit (16 * (if is_64bit then 4 else 2)) (word_of_int val) = reg_value is_64bit val"
  by (simp add: reg_value_def take_bit_64)

lemma uint_reg_value: "uint (reg_value is_64bit val) = take_bit (if is_64bit then 64 else 32) val"
  by (simp add: reg_value_def unsigned_take_bit_eq uint_word_of_int_eq)

lemma reg_value_nonzero:
  assumes "in_range is_64bit val" "val \<noteq> 0"
  shows "reg_value is_64bit val \<noteq> 0"
proof
  assume "reg_value is_64bit val = 0"
  then have "val mod 2 ^ (if is_64bit then 64 else 32) = 0"
    using uint_reg_value [of is_64bit val] by (simp only: take_bit_eq_mod unsigned_0)
  then have "\<bar>2 ^ (if is_64bit then 64 else 32)\<bar> \<le> \<bar>val\<bar>"
    using assms(2) by (intro dvd_imp_le_int) (simp_all add: dvd_eq_mod_eq_0)
  then show False
    using assms by (cases is_64bit) (auto simp: in_range_def abs_if split: if_splits)
qed

definition loads :: "int \<Rightarrow> int \<Rightarrow> bool \<Rightarrow> regs \<Rightarrow> u32 list \<Rightarrow> bool" where
  "loads val dst is_64bit rs ws \<longleftrightarrow> length ws \<le> (if is_64bit then 4 else 2) \<and>
     exec_words ws rs = Some (rs(dst := reg_value is_64bit val))"

lemma load_immediate_loads:
  assumes dst: "ufit 5 dst" "dst \<noteq> XZR" and range: "in_range is_64bit val"
  shows "\<exists>ws. load_immediate val dst is_64bit = Some ws \<and> loads val dst is_64bit rs ws"
proof -
  let ?R = "load_immediate val dst is_64bit"
  have one: "?R = Some [w] \<Longrightarrow> exec_word w rs = Some (rs(dst := reg_value is_64bit val)) \<Longrightarrow> ?thesis" for w
    by (auto simp: loads_def)
  consider "val = 0" | "val \<noteq> 0" "(\<not> is_64bit \<and> val = 0xFFFFFFFF) \<or> (is_64bit \<and> val = - 1)"
    | "\<not> ((\<not> is_64bit \<and> val = 0xFFFFFFFF) \<or> (is_64bit \<and> val = - 1))" "- 65536 \<le> val" "val < 0"
    | "0 < val" "val \<le> 65535" | "val < - 65536 \<or> 65535 < val" "\<not> ((\<not> is_64bit \<and> val = 0xFFFFFFFF) \<or> (is_64bit \<and> val = - 1))"
    by linarith
  then show ?thesis
  proof cases
    case 1 then show ?thesis
      using exec_zero [OF dst] by (intro one) (auto simp: load_immediate_def sf_of_def reg_value_def)
  next
    case 2
    moreover have "reg_value is_64bit (NOT 0) = reg_value is_64bit val"
      using 2 by (auto simp: reg_value_def take_bit_minus_one_eq_mask mask_eq_exp_minus_1)
    ultimately show ?thesis
      using exec_movn [OF dst, of 0 is_64bit rs] by (intro one) (auto simp: load_immediate_def sf_of_def ufit_def [of _ 0])
  next
    case 3
    then have fit: "ufit 16 (NOT val)"
      by (auto simp: ufit_def not_int_def)
    moreover have "(NOT val) AND 0xFFFF = NOT val"
      using take_bit_ufit [OF fit] by (simp add: take_bit_eq_mask mask_eq_exp_minus_1)
    ultimately show ?thesis
      using 3 exec_movn [OF dst, of "NOT val" is_64bit rs] by (intro one) (auto simp: load_immediate_def sf_of_def)
  next
    case 4
    then show ?thesis
      using exec_movz [OF dst, of val is_64bit rs] by (intro one) (auto simp: load_immediate_def sf_of_def ufit_def [of _ val])
  next
    case 5
    then have rest: "?R = do {
       can_encode \<leftarrow> (if is_64bit then is_logical_immediate_64 (word_of_int val) else is_logical_immediate_32 (word_of_int val));
       case can_encode of
         Some (N, immr, imms) \<Rightarrow> Some [encode_logical_imm (sf_of is_64bit) 1 N immr imms XZR dst]
       | None \<Rightarrow> Some (mov_loop (sf_of is_64bit) dst 2 id 0 (word_of_int val) True [0..<if is_64bit then 4 else 2]) }"
      by (auto simp: load_immediate_def Let_def use_movn_never sf_of_def simp del: upt_rec_numeral)
    let ?ws = "mov_loop (sf_of is_64bit) dst 2 id 0 (word_of_int val) True [0..<if is_64bit then 4 else 2]"
    have nz: "reg_value is_64bit val \<noteq> 0"
      using reg_value_nonzero [OF range] 5 by auto
    have loop: "loads val dst is_64bit rs ?ws"
    proof -
      have "exec_words ?ws rs = Some (rs(dst := reg_value is_64bit val))"
        using exec_mov_loop [of 0 "if is_64bit then 4 else 2" is_64bit dst True "word_of_int val" rs] dst nz
        unfolding take_bit_reg_value by (simp del: upt_rec_numeral)
      then show ?thesis
        using length_mov_loop [of "sf_of is_64bit" dst 2 id 0 "word_of_int val" True "[0..<if is_64bit then 4 else 2]"]
        by (simp add: loads_def del: upt_rec_numeral)
    qed
    show ?thesis
    proof (cases is_64bit)
      case True
      obtain r where r: "is_logical_immediate_64 (word_of_int val) = Some r" "case r of
           Some (N, immr, imms) \<Rightarrow> decode_bit_masks N immr imms = Some (word_of_int val) \<and> ufit 1 N \<and> ufit 6 immr \<and> ufit 6 imms
         | None \<Rightarrow> True"
        using is_logical_immediate_64_spec [of "word_of_int val"] by (auto split: option.splits)
      show ?thesis
      proof (cases r)
        case None
        then show ?thesis using rest loop r True by simp
      next
        case (Some f)
        obtain N immr imms where f: "f = (N, immr, imms)" by (cases f)
        then show ?thesis
          using Some rest r True exec_orr_imm [OF dst, of N immr imms is_64bit "word_of_int val" rs] write_value [OF dst(2), of True]
          by (intro one [of "encode_logical_imm (sf_of is_64bit) 1 N immr imms XZR dst"]) simp_all
      qed
    next
      case False
      consider "is_logical_immediate_32 (word_of_int val) = Some None"
        | immr imms where "is_logical_immediate_32 (word_of_int val) = Some (Some (0, immr, imms))" "ufit 6 immr" "ufit 6 imms"
          "decode_bit_masks 0 immr imms = Some (push_bit 32 (ucast (word_of_int val :: u32)) OR ucast (word_of_int val :: u32))"
        by (rule is_logical_immediate_32_ok)
      then show ?thesis
      proof cases
        case 1
        then show ?thesis using rest loop False by simp
      next
        case (2 immr imms)
        have "ufit 1 0"
          by (simp add: ufit_def)
        then have "exec_word (encode_logical_imm (sf_of is_64bit) 1 0 immr imms XZR dst) rs
            = Some (write_reg 0 dst (push_bit 32 (ucast (word_of_int val :: u32)) OR ucast (word_of_int val :: u32)) rs)"
          using exec_orr_imm [OF dst _ 2(2,3) _ 2(4), of is_64bit rs] False by simp
        then show ?thesis
          using 2 rest False dst(2)
          by (intro one [of "encode_logical_imm (sf_of is_64bit) 1 0 immr imms XZR dst"])
             (simp_all add: write_reg_def take_bit_twice_value del: take_bit_or)
      qed
    qed
  qed
qed


subsection \<open>Correctness\<close>

text \<open>
  C30: The recognizer of logical immediates never meets an undefined count; the fields that it returns decode to the
  value and fit the instruction, and it only refuses a value that no fields decode to.
\<close>
theorem logical_immediate_correct:
  "\<exists>r. is_logical_immediate_64 val = Some r \<and> (case r of
     Some (N, immr, imms) \<Rightarrow> decode_bit_masks N immr imms = Some val \<and> ufit 1 N \<and> ufit 6 immr \<and> ufit 6 imms
   | None \<Rightarrow> (\<nexists>N immr imms. decode_bit_masks N immr imms = Some val))"
  using is_logical_immediate_64_spec [of val] by (auto split: option.splits)

text \<open>
  C29: The bytes that \<open>load_immediate\<close> emits follow the code already in the buffer and leave it unchanged; the
  processor that executes them puts the value into the destination register and changes no other register,
  for every value of 64 bits, and of 32 bits signed or unsigned.
\<close>
theorem load_immediate_correct:
  assumes "ufit 5 dst" "dst \<noteq> 31" and "in_range is_64bit val" and "cur code + 16 \<le> length (keys code)"
  shows "\<exists>ws code'. load_immediate val dst is_64bit = Some ws \<and> emit_all ws code = Some code' \<and>
    take (cur code) (keys code') = take (cur code) (keys code) \<and>
    exec_words (fetch (drop (cur code) (take (cur code') (keys code')))) rs = Some (rs(dst := reg_value is_64bit val))"
proof -
  obtain ws where ws: "load_immediate val dst is_64bit = Some ws" "loads val dst is_64bit rs ws"
    using load_immediate_loads [OF assms(1-3)] by blast
  then have "length ws \<le> 4" and exec: "exec_words ws rs = Some (rs(dst := reg_value is_64bit val))"
    by (auto simp: loads_def split: if_splits)
  then have room: "cur code + 4 * length ws \<le> length (keys code)"
    using assms(4) by linarith
  obtain code' where code': "emit_all ws code = Some code'" "cur code' = cur code + 4 * length ws"
    "keys code' = take (cur code) (keys code) @ concat (map word_bytes ws) @ drop (cur code + 4 * length ws) (keys code)"
    using emit_all_ok [OF room] by blast
  have "length (concat (map word_bytes ws)) = 4 * length ws"
    by (induction ws) (simp_all add: word_bytes_def)
  then have "drop (cur code) (take (cur code') (keys code')) = concat (map word_bytes ws)"
    using code' room by simp
  then show ?thesis
    using ws(1) code' exec room by (simp add: fetch_words)
qed

theorem load_immediate_correct_witness:
  "\<exists>ws code'. load_immediate 0x123456789 5 True = Some ws \<and> emit_all ws \<lparr>cur = 0, s_max = 16, keys = replicate 16 0\<rparr> = Some code' \<and>
    take 0 (keys code') = [] \<and>
    exec_words (fetch (drop 0 (take (cur code') (keys code')))) (\<lambda>_. 7) = Some ((\<lambda>_. 7)(5 := 0x123456789))"
  using load_immediate_correct [of 5 True "0x123456789" "\<lparr>cur = 0, s_max = 16, keys = replicate 16 0\<rparr>" "\<lambda>_. 7"]
  by (simp add: ufit_def in_range_def reg_value_def)


end
