(* ===== verification/GcPage.thy ===== *)
theory GcPage
  imports DataStruct
begin

unbundle bit_operations_syntax

text \<open>
  The block allocator of the garbage collector, \<^verbatim>\<open>src/src/allocator.c\<close> (with \<^verbatim>\<open>allocator.h\<close> and the page header of
  \<^verbatim>\<open>gc.c\<close>), for 64-bit platforms and without the debug checks.

  A page is cut into blocks of one size. Pages of fixed partitions hand out single blocks; pages of variable
  partitions hand out runs of blocks and keep the length of each run in \<open>sizes\<close>, at its first block. The free blocks of a
  page are the runs of its free list from \<open>current\<close> on. The mark phase leaves a bit map with a bit for each
  first block that is alive; the page is swept by \<open>flush_free_list\<close> when the allocator next visits it.

  Positions and lengths of runs are \<open>nat\<close>: the invariant keeps them below the number of blocks of a page, which is at most
  65536, so that the 32-bit arithmetic of the source does not wrap. The array of a free list has room for
  \<open>2 ^ size_bits\<close> runs; the cache of such arrays is not modelled. \<open>None\<close> is an access outside of an array or a call of
  \<open>hl_fatal\<close>. The memory of a new page is an argument, as the operating system gives it.
\<close>

subsection \<open>Free lists\<close>

record gc_freelist =
  fl_current :: nat
  fl_size_bits :: nat
  fl_data :: "(nat \<times> nat) list"

definition alloc_freelist :: "nat \<Rightarrow> gc_freelist" where
  "alloc_freelist bits = \<lparr>fl_current = 0, fl_size_bits = bits, fl_data = []\<rparr>"

definition freelist_append :: "gc_freelist \<Rightarrow> nat \<Rightarrow> nat \<Rightarrow> gc_freelist option" where
  "freelist_append fl pos count =
     (let fl = (if length (fl_data fl) = 2 ^ fl_size_bits fl then fl\<lparr>fl_size_bits := fl_size_bits fl + 1\<rparr> else fl) in
      if length (fl_data fl) < 2 ^ fl_size_bits fl then Some (fl\<lparr>fl_data := fl_data fl @ [(pos, count)]\<rparr>) else None)"

text \<open>\<open>cur_pos\<close> is the last run of the list; it ends at the block \<open>bid\<close>.\<close>

definition ends_at :: "gc_freelist \<Rightarrow> nat \<Rightarrow> bool" where
  "ends_at fl bid \<longleftrightarrow> fl_data fl \<noteq> [] \<and> fst (last (fl_data fl)) + snd (last (fl_data fl)) = bid"

definition extend_last :: "gc_freelist \<Rightarrow> nat \<Rightarrow> gc_freelist" where
  "extend_last fl count = fl\<lparr>fl_data := butlast (fl_data fl) @ [(fst (last (fl_data fl)), snd (last (fl_data fl)) + count)]\<rparr>"

definition add_run :: "gc_freelist \<Rightarrow> nat \<Rightarrow> nat \<Rightarrow> gc_freelist option" where
  "add_run fl bid count = (if ends_at fl bid then Some (extend_last fl count) else freelist_append fl bid count)"

subsection \<open>Pages\<close>

record gc_page =
  base :: nat
  page_size :: nat
  page_kind :: nat
  bmp :: "u8 list option"
  block_size :: nat
  size_bits :: nat
  need_flush :: bool
  first_block :: nat
  max_blocks :: nat
  free :: gc_freelist
  sizes :: "u8 list option"

definition GC_PAGE_SIZE :: nat where
  "GC_PAGE_SIZE = 2 ^ 16"

definition SIZES_PADDING :: nat where
  "SIZES_PADDING = 8"

definition get_bit :: "u8 list \<Rightarrow> nat \<Rightarrow> bool option" where
  "get_bit m bid = map_option (\<lambda>b. bit b (bid mod 8)) (load (bid div 8) m)"

definition set_mark :: "u8 list \<Rightarrow> nat \<Rightarrow> u8 list option" where
  "set_mark m bid = do { b \<leftarrow> load (bid div 8) m; store (bid div 8) (set_bit (bid mod 8) b) m }"

text \<open>The address of the memory that the operating system gives for a page of a size, and whether an incremental mark is active.\<close>

record gc_os =
  os_memory :: "nat \<Rightarrow> nat"
  incremental_active :: bool

definition gc_alloc_page :: "gc_os \<Rightarrow> nat \<Rightarrow> nat \<Rightarrow> nat \<Rightarrow> gc_page" where
  "gc_alloc_page os psize kind block_count =
     \<lparr>base = os_memory os psize, page_size = psize, page_kind = kind,
      bmp = (if incremental_active os then Some (replicate ((block_count + 7) div 8 * 2) 0) else None),
      block_size = 0, size_bits = 0, need_flush = False, first_block = 0, max_blocks = 0,
      free = \<lparr>fl_current = 0, fl_size_bits = 0, fl_data = []\<rparr>, sizes = None\<rparr>"

function grow_page :: "nat \<Rightarrow> nat \<Rightarrow> nat \<Rightarrow> nat" where
  "grow_page num_pages psize block =
     (if num_pages > 8 \<and> 2 * psize div block \<le> GC_PAGE_SIZE then grow_page (num_pages div 3) (2 * psize) block else psize)"
  by pat_completeness auto
termination
  by (relation "measure (\<lambda>(n, _, _). n)") auto

function shift_bits :: "nat \<Rightarrow> nat \<Rightarrow> nat" where
  "shift_bits block bits = (if block > 2 ^ bits then shift_bits block (bits + 1) else bits)"
  by pat_completeness auto
termination
  by (relation "measure (\<lambda>(b, n). b - 2 ^ n)") (auto intro: diff_less_mono2)

definition align_up :: "nat \<Rightarrow> nat \<Rightarrow> nat" where
  "align_up n a = (if n mod a = 0 then n else n + (a - n mod a))"

function freelist_bits :: "nat \<Rightarrow> nat \<Rightarrow> nat" where
  "freelist_bits blocks bits = (if bits < 8 \<and> 2 ^ bits < blocks div 8 then freelist_bits blocks (bits + 1) else bits)"
  by pat_completeness auto
termination
  by (relation "measure (\<lambda>(_, n). 8 - n)") auto

definition gc_allocator_new_page :: "gc_os \<Rightarrow> gc_page list \<Rightarrow> nat \<Rightarrow> nat \<Rightarrow> nat \<Rightarrow> bool \<Rightarrow> gc_page option" where
  "gc_allocator_new_page os pages block psize kind varsize = do {
     let psize = (if block < 256 then grow_page (length pages) psize block else psize);
     let blocks = psize div block;
     let ph = gc_alloc_page os psize kind blocks;
     let bits = shift_bits block 0;
     let bits = (if block \<noteq> 2 ^ bits then 0 else bits);
     if blocks > GC_PAGE_SIZE then None
     else do {
       let start_pos = (if varsize \<and> blocks > SIZES_PADDING then align_up blocks 64 else 0);
       let szs = (if varsize then Some (replicate blocks 0) else None);
       let start_pos = align_up start_pos block;
       let first = start_pos div block;
       fl \<leftarrow> freelist_append (alloc_freelist (freelist_bits blocks 1)) first (blocks - first);
       Some (ph\<lparr>block_size := block, size_bits := bits, max_blocks := blocks, sizes := szs, first_block := first,
                free := fl, need_flush := False\<rparr>) } }"

subsection \<open>Sweeping\<close>

text \<open>The number of blocks that the sweep steps over at \<open>bid\<close>.\<close>

definition run_length :: "u8 list option \<Rightarrow> nat \<Rightarrow> nat option" where
  "run_length szs bid = (case szs of None \<Rightarrow> Some 1
     | Some s \<Rightarrow> map_option (\<lambda>c. if c = 0 then 1 else unat c) (load bid s))"

lemma run_length_pos: "run_length szs bid = Some n \<Longrightarrow> 0 < n"
  by (auto simp: run_length_def unat_gt_0 split: option.splits if_splits)

definition clear_size :: "u8 list option \<Rightarrow> nat \<Rightarrow> u8 list option option" where
  "clear_size szs bid = (case szs of None \<Rightarrow> Some None | Some s \<Rightarrow> map_option Some (store bid 0 s))"

text \<open>The loop of \<open>flush_free_list\<close>: \<open>reuse\<close> are the runs of the old list that are still to come.\<close>

function flush_loop :: "u8 list \<Rightarrow> nat \<Rightarrow> u8 list option \<Rightarrow> nat \<Rightarrow> (nat \<times> nat) list \<Rightarrow> gc_freelist \<Rightarrow> (u8 list option \<times> gc_freelist) option" where
  "flush_loop m last_bid szs bid reuse fl =
     (if bid \<ge> last_bid then Some (szs, fl)
      else if reuse \<noteq> [] \<and> fst (hd reuse) = bid then do {
        fl \<leftarrow> add_run fl bid (snd (hd reuse));
        flush_loop m last_bid szs (bid + snd (hd reuse)) (tl reuse) fl }
      else do {
        count \<leftarrow> run_length szs bid;
        marked \<leftarrow> get_bit m bid;
        if marked then flush_loop m last_bid szs (bid + count) reuse fl
        else do {
          szs \<leftarrow> clear_size szs bid;
          fl \<leftarrow> add_run fl bid count;
          flush_loop m last_bid szs (bid + count) reuse fl } })"
  by pat_completeness auto
termination
  by (relation "measures [\<lambda>(_, last_bid, _, bid, _, _). last_bid - bid, \<lambda>(_, _, _, _, reuse, _). length reuse]")
     (auto dest!: run_length_pos)

definition flush_free_list :: "gc_page \<Rightarrow> gc_page option" where
  "flush_free_list ph = do {
     m \<leftarrow> bmp ph;
     (szs, fl) \<leftarrow> flush_loop m (max_blocks ph) (sizes ph) (first_block ph) (drop (fl_current (free ph)) (fl_data (free ph)))
       (alloc_freelist (fl_size_bits (free ph)));
     Some (ph\<lparr>sizes := szs, free := fl, need_flush := False\<rparr>) }"


subsection \<open>Allocation\<close>

definition GC_PARTITIONS :: nat where
  "GC_PARTITIONS = 9"

definition GC_FIXED_PARTS :: nat where
  "GC_FIXED_PARTS = 5"

definition GC_LARGE_PART :: nat where
  "GC_LARGE_PART = GC_PARTITIONS - 1"

definition GC_LARGE_BLOCK :: nat where
  "GC_LARGE_BLOCK = 2 ^ 20"

definition GC_SBITS :: "nat list" where
  "GC_SBITS = [0, 0, 0, 0, 0, 3, 6, 13, 0]"

definition GC_SIZES :: "nat list" where
  "GC_SIZES = [8, 16, 24, 32, 40, 8, 64, 2 ^ 13, 0]"

definition GC_ALL_PAGES :: nat where
  "GC_ALL_PAGES = GC_PARTITIONS * 4"

definition GC_PAGE_CLASSES :: nat where
  "GC_PAGE_CLASSES = 16 + 2"

definition GC_PAGE_SLOTS :: nat where
  "GC_PAGE_SLOTS = GC_PAGE_CLASSES * GC_ALL_PAGES"

definition GC_PID_PART :: "nat \<Rightarrow> nat" where
  "GC_PID_PART pid = pid mod GC_ALL_PAGES div 4"

definition GC_PID :: "nat \<Rightarrow> nat \<Rightarrow> nat \<Rightarrow> nat" where
  "GC_PID oc part kind = oc * GC_ALL_PAGES + (part * 4 + kind)"

text \<open>The page lists. \<open>gc_free_pages\<close> points into a list: it is the number of pages from the one it points to up to the end,
  which is 0 for the null pointer and does not change when a page is put in front.\<close>

record gc_heap =
  gc_pages :: "nat \<Rightarrow> gc_page list"
  gc_free_pages :: "nat \<Rightarrow> nat"

text \<open>Taking up to \<open>want\<close> blocks from the current run.\<close>

definition take_fixed :: "nat \<Rightarrow> gc_freelist \<Rightarrow> (nat \<times> nat \<times> gc_freelist) option" where
  "take_fixed want fl = (let k = fl_current fl in
     if k < length (fl_data fl) then
       case fl_data fl ! k of (pos, count) \<Rightarrow>
         let taken = (if count < want then count else want) in
         Some (pos, taken, fl\<lparr>fl_data := (fl_data fl)[k := (pos + taken, count - taken)],
                              fl_current := (if count - taken = 0 then k + 1 else k)\<rparr>)
     else None)"

definition flush_if_needed :: "gc_page \<Rightarrow> gc_page option" where
  "flush_if_needed ph = (if need_flush ph then flush_free_list ph else Some ph)"

text \<open>The walk along the pages: the updated pages, and the index of the page that had room with what \<open>take\<close> gave.\<close>

fun find_page :: "(gc_freelist \<Rightarrow> ('a \<times> gc_freelist) option) \<Rightarrow> gc_page list \<Rightarrow> (gc_page list \<times> (nat \<times> 'a) option) option" where
  "find_page tk [] = Some ([], None)"
| "find_page tk (ph # phs) = do {
     ph \<leftarrow> flush_if_needed ph;
     case tk (free ph) of
       Some (a, fl) \<Rightarrow> Some (ph\<lparr>free := fl\<rparr> # phs, Some (0, a))
     | None \<Rightarrow> do {
         (phs, r) \<leftarrow> find_page tk phs;
         Some (ph # phs, map_option (\<lambda>(k, a). (k + 1, a)) r) } }"

text \<open>The pages before the pointer stay; a new page is put in front of all of them.\<close>

definition find_from :: "gc_heap \<Rightarrow> nat \<Rightarrow> (gc_freelist \<Rightarrow> ('a \<times> gc_freelist) option) \<Rightarrow> (gc_page list \<times> (nat \<times> 'a) option) option" where
  "find_from h pid tk = (let pages = gc_pages h pid; start = length pages - gc_free_pages h pid in do {
     (phs, r) \<leftarrow> find_page tk (drop start pages);
     Some (take start pages @ phs, map_option (\<lambda>(k, a). (start + k, a)) r) })"

definition put_pages :: "gc_heap \<Rightarrow> nat \<Rightarrow> gc_page list \<Rightarrow> nat \<Rightarrow> gc_heap" where
  "put_pages h pid pages k =
     h\<lparr>gc_pages := (gc_pages h)(pid := pages), gc_free_pages := (gc_free_pages h)(pid := length pages - k)\<rparr>"

definition block_addr :: "gc_page \<Rightarrow> nat \<Rightarrow> nat" where
  "block_addr ph bid = base ph + bid * block_size ph"

definition gc_alloc_fixed_run :: "gc_os \<Rightarrow> nat \<Rightarrow> nat \<Rightarrow> nat \<Rightarrow> nat \<Rightarrow> gc_heap \<Rightarrow> (nat \<times> nat \<times> gc_heap) option" where
  "gc_alloc_fixed_run os oc part kind want h = (let pid = GC_PID oc part kind in do {
     (pages, r) \<leftarrow> find_from h pid (\<lambda>fl. map_option (\<lambda>(b, t, fl). ((b, t), fl)) (take_fixed want fl));
     (pages, k, bid, taken) \<leftarrow> (case r of
         Some (k, bid, taken) \<Rightarrow> Some (pages, k, bid, taken)
       | None \<Rightarrow> do {
           ph \<leftarrow> gc_allocator_new_page os pages (GC_SIZES ! part) GC_PAGE_SIZE kind False;
           (bid, count) \<leftarrow> load 0 (fl_data (free ph));
           let taken = (if count < want then count else want);
           let fl = (free ph)\<lparr>fl_data := (fl_data (free ph))[0 := (bid + taken, count - taken)]\<rparr>;
           Some (ph\<lparr>free := fl\<rparr> # pages, 0, bid, taken) });
     if taken = 0 \<or> taken > want then None
     else Some (block_addr (pages ! k) bid, taken, put_pages h pid pages k) })"

definition gc_alloc_fixed :: "gc_os \<Rightarrow> nat \<Rightarrow> nat \<Rightarrow> nat \<Rightarrow> gc_heap \<Rightarrow> (nat \<times> gc_heap) option" where
  "gc_alloc_fixed os oc part kind h = map_option (\<lambda>(ptr, got, h). (ptr, h)) (gc_alloc_fixed_run os oc part kind 1 h)"

text \<open>The first run that is long enough. The source moves \<open>current\<close> on when it empties a run, also when that run is not
  the current one.\<close>

definition take_var :: "nat \<Rightarrow> gc_freelist \<Rightarrow> (nat \<times> gc_freelist) option" where
  "take_var nblocks fl = do {
     k \<leftarrow> find (\<lambda>k. snd (fl_data fl ! k) \<ge> nblocks) [fl_current fl..<length (fl_data fl)];
     let (pos, count) = fl_data fl ! k;
     Some (pos, fl\<lparr>fl_data := (fl_data fl)[k := (pos + nblocks, count - nblocks)],
                    fl_current := (if count - nblocks = 0 then fl_current fl + 1 else fl_current fl)\<rparr>) }"

definition mark_allocated :: "gc_page \<Rightarrow> nat \<Rightarrow> nat \<Rightarrow> gc_page option" where
  "mark_allocated ph bid nblocks = do {
     m \<leftarrow> (case bmp ph of None \<Rightarrow> Some None | Some m \<Rightarrow> map_option Some (set_mark m bid));
     szs \<leftarrow> sizes ph;
     szs \<leftarrow> (if nblocks > 1
              then if bid + nblocks \<le> length szs then Some (take bid szs @ replicate nblocks 0 @ drop (bid + nblocks) szs) else None
              else Some szs);
     szs \<leftarrow> store bid (of_nat nblocks) szs;
     Some (ph\<lparr>bmp := m, sizes := Some szs\<rparr>) }"

function var_page_size :: "nat \<Rightarrow> nat \<Rightarrow> nat" where
  "var_page_size psize sz = (if 0 < psize \<and> psize < sz + 1024 then var_page_size (2 * psize) sz else psize)"
  by pat_completeness auto
termination
  by (relation "measure (\<lambda>(p, s). s + 1024 - p)") auto

definition gc_alloc_var :: "gc_os \<Rightarrow> nat \<Rightarrow> nat \<Rightarrow> nat \<Rightarrow> nat \<Rightarrow> gc_heap \<Rightarrow> (nat \<times> gc_heap) option" where
  "gc_alloc_var os oc part sz kind h = (let pid = GC_PID oc part kind; nblocks = drop_bit (GC_SBITS ! part) sz in do {
     (pages, r) \<leftarrow> find_from h pid (take_var nblocks);
     (pages, k, bid) \<leftarrow> (case r of
         Some (k, bid) \<Rightarrow> Some (pages, k, bid)
       | None \<Rightarrow> do {
           ph \<leftarrow> gc_allocator_new_page os pages (GC_SIZES ! part) (var_page_size GC_PAGE_SIZE sz) kind True;
           (pos, count) \<leftarrow> load 0 (fl_data (free ph));
           if nblocks \<le> count then do {
             let fl = (free ph)\<lparr>fl_data := (fl_data (free ph))[0 := (pos + nblocks, count - nblocks)]\<rparr>;
             Some (ph\<lparr>free := fl\<rparr> # pages, 0, first_block ph) }
           else None });
     ph \<leftarrow> mark_allocated (pages ! k) bid nblocks;
     Some (block_addr ph bid, put_pages h pid (pages[k := ph]) k) })"

definition MEM_KIND_FINALIZER :: nat where
  "MEM_KIND_FINALIZER = 3"

text \<open>The request rounded up to a multiple of a power of two.\<close>

definition round_up :: "nat \<Rightarrow> nat \<Rightarrow> nat" where
  "round_up sz a = sz + nat ((- int sz) AND (int a - 1))"

text \<open>Sizes are of type \<open>int\<close>: rounding one beyond the range is an overflow, \<open>None\<close>.\<close>

definition INT_LIMIT :: nat where
  "INT_LIMIT = 2 ^ 31"

definition gc_allocator_alloc :: "gc_os \<Rightarrow> nat \<Rightarrow> nat \<Rightarrow> nat \<Rightarrow> gc_heap \<Rightarrow> (int \<times> nat option \<times> gc_heap) option" where
  "gc_allocator_alloc os sz kind oc h = (let sz = round_up sz 8 in
     if sz \<ge> INT_LIMIT then None
     else if sz \<ge> GC_LARGE_BLOCK then
       (let sz = round_up sz GC_PAGE_SIZE; pid = GC_PID oc GC_LARGE_PART kind in if sz \<ge> INT_LIMIT then None else do {
          ph \<leftarrow> gc_allocator_new_page os (gc_pages h pid) sz sz kind False;
          Some (int sz, Some (base ph), h\<lparr>gc_pages := (gc_pages h)(pid := ph # gc_pages h pid)\<rparr>) })
     else if sz \<le> GC_SIZES ! (GC_FIXED_PARTS - 1) \<and> kind \<noteq> MEM_KIND_FINALIZER then
       (if sz = 0 then None
        else let part = drop_bit 3 sz - 1 in
          map_option (\<lambda>(ptr, h). (int (GC_SIZES ! part), Some ptr, h)) (gc_alloc_fixed os oc part kind h))
     else case find (\<lambda>p. round_up sz (GC_SIZES ! p) < GC_SIZES ! p * 255) [GC_FIXED_PARTS..<GC_PARTITIONS] of
       Some p \<Rightarrow> (let query = round_up sz (GC_SIZES ! p) in
         map_option (\<lambda>(ptr, h). (int query, Some ptr, h)) (gc_alloc_var os oc p query kind h))
     | None \<Rightarrow> Some (- 1, None, h))"

subsection \<open>Looking up blocks\<close>

definition block_alive :: "gc_page \<Rightarrow> nat \<Rightarrow> bool option" where
  "block_alive ph bid = (case sizes ph of None \<Rightarrow> Some True
     | Some szs \<Rightarrow> if bid < first_block ph then Some False else map_option (\<lambda>c. c \<noteq> 0) (load bid szs))"

definition gc_allocator_get_block_id :: "gc_page \<Rightarrow> nat \<Rightarrow> nat option option" where
  "gc_allocator_get_block_id ph offset =
     (let bid = (if size_bits ph \<noteq> 0 then drop_bit (size_bits ph) offset else offset div block_size ph);
          exact = (if size_bits ph \<noteq> 0 then push_bit (size_bits ph) bid = offset else bid * block_size ph = offset)
      in if \<not> exact \<or> bid \<ge> max_blocks ph then Some None
         else map_option (\<lambda>alive. if alive then Some bid else None) (block_alive ph bid))"

fun block_head :: "u8 list \<Rightarrow> nat \<Rightarrow> nat \<Rightarrow> nat option option" where
  "block_head szs first bid = do {
     c \<leftarrow> load bid szs;
     if c \<noteq> 0 then Some (Some bid)
     else if bid \<le> first then Some None
     else block_head szs first (bid - 1) }"

definition gc_allocator_get_block_interior :: "gc_page \<Rightarrow> nat \<Rightarrow> (nat \<times> nat) option option" where
  "gc_allocator_get_block_interior ph offset = (let start = offset div block_size ph in
     if start \<ge> max_blocks ph then Some None
     else case sizes ph of
       None \<Rightarrow> Some (Some (start, block_addr ph start))
     | Some szs \<Rightarrow>
         if start < first_block ph then Some None
         else do {
           r \<leftarrow> block_head szs (first_block ph) start;
           case r of
             None \<Rightarrow> Some None
           | Some bid \<Rightarrow> do {
               c \<leftarrow> load bid szs;
               if start - bid \<ge> unat c then Some None else Some (Some (bid, block_addr ph bid)) } })"

definition is_zero :: "u8 list \<Rightarrow> bool" where
  "is_zero bs = list_all (\<lambda>b. b = 0) bs"

definition gc_page_is_empty :: "gc_page \<Rightarrow> bool" where
  "gc_page_is_empty ph = (case bmp ph of None \<Rightarrow> False
     | Some m \<Rightarrow> is_zero (take ((max_blocks ph + 7) div 8 - first_block ph div 8) (drop (first_block ph div 8) m)))"

definition gc_free_memory :: "gc_page \<Rightarrow> (nat \<times> gc_page) option" where
  "gc_free_memory ph = do {
     ph \<leftarrow> flush_if_needed ph;
     Some (sum_list (map (\<lambda>(pos, count). count * block_size ph) (drop (fl_current (free ph)) (fl_data (free ph)))), ph) }"

declare grow_page.simps [simp del] shift_bits.simps [simp del] freelist_bits.simps [simp del] flush_loop.simps [simp del]
  var_page_size.simps [simp del] block_head.simps [simp del]


subsection \<open>Runs\<close>

definition run_blocks :: "(nat \<times> nat) list \<Rightarrow> nat set" where
  "run_blocks rs = (\<Union>(p, c)\<in>set rs. {p..<p + c})"

fun ordered_runs :: "nat \<Rightarrow> nat \<Rightarrow> (nat \<times> nat) list \<Rightarrow> bool" where
  "ordered_runs lo hi [] \<longleftrightarrow> lo \<le> hi"
| "ordered_runs lo hi ((p, c) # rs) \<longleftrightarrow> lo \<le> p \<and> ordered_runs (p + c) hi rs"

lemma run_blocks_simps [simp]:
  "run_blocks [] = {}" "run_blocks ((p, c) # rs) = {p..<p + c} \<union> run_blocks rs" "run_blocks (rs @ rs') = run_blocks rs \<union> run_blocks rs'"
  by (auto simp: run_blocks_def)

lemma ordered_runs_le: "ordered_runs lo hi rs \<Longrightarrow> lo \<le> hi"
  by (induction lo hi rs rule: ordered_runs.induct) auto

lemma ordered_runs_range: "ordered_runs lo hi rs \<Longrightarrow> run_blocks rs \<subseteq> {lo..<hi}"
  by (induction lo hi rs rule: ordered_runs.induct) (auto dest: ordered_runs_le)

lemma ordered_runs_append: "ordered_runs lo hi (rs @ rs') \<longleftrightarrow> (\<exists>mid. ordered_runs lo mid rs \<and> ordered_runs mid hi rs')"
proof (induction lo hi rs rule: ordered_runs.induct)
  case (1 lo hi)
  then show ?case by (cases rs') (auto intro: order_trans)
qed auto

lemma ordered_runs_weaken: "ordered_runs lo hi rs \<Longrightarrow> lo' \<le> lo \<Longrightarrow> hi \<le> hi' \<Longrightarrow> ordered_runs lo' hi' rs"
  by (induction lo hi rs arbitrary: lo' rule: ordered_runs.induct) auto

definition fl_wf :: "gc_freelist \<Rightarrow> bool" where
  "fl_wf fl \<longleftrightarrow> length (fl_data fl) \<le> 2 ^ fl_size_bits fl"

definition fl_runs :: "gc_freelist \<Rightarrow> (nat \<times> nat) list" where
  "fl_runs fl = drop (fl_current fl) (fl_data fl)"

lemma freelist_append_ok:
  assumes "fl_wf fl"
  obtains fl' where "freelist_append fl pos count = Some fl'" "fl_wf fl'" "fl_current fl' = fl_current fl"
    "fl_data fl' = fl_data fl @ [(pos, count)]"
proof -
  have "(1 :: nat) \<le> 2 ^ fl_size_bits fl" by simp
  then show ?thesis
    using assms that by (cases "length (fl_data fl) = 2 ^ fl_size_bits fl") (auto simp: freelist_append_def fl_wf_def)
qed

text \<open>Adding a run behind the runs of a list.\<close>

lemma add_run_ok:
  assumes "fl_wf fl" "ordered_runs lo bid (fl_data fl)"
  obtains fl' where "add_run fl bid count = Some fl'" "fl_wf fl'" "fl_current fl' = fl_current fl"
    "ordered_runs lo (bid + count) (fl_data fl')" "run_blocks (fl_data fl') = run_blocks (fl_data fl) \<union> {bid..<bid + count}"
    "\<And>r. r \<in> set (fl_data fl') \<Longrightarrow> snd r = 0 \<Longrightarrow> r = (bid, count) \<or> r \<in> set (fl_data fl)"
proof (cases "ends_at fl bid")
  case True
  then obtain rs p c where d: "fl_data fl = rs @ [(p, c)]" "p + c = bid"
    by (metis ends_at_def append_butlast_last_id prod.collapse)
  moreover have "{p..<p + (c + count)} = {p..<p + c} \<union> {bid..<bid + count}"
    using d by auto
  ultimately show ?thesis
    using assms True
    by (intro that [of "extend_last fl count"])
       (auto simp: add_run_def extend_last_def fl_wf_def ordered_runs_append intro: ordered_runs_weaken)
next
  case False
  obtain fl' where "freelist_append fl bid count = Some fl'" "fl_wf fl'" "fl_current fl' = fl_current fl"
    "fl_data fl' = fl_data fl @ [(bid, count)]"
    using freelist_append_ok [OF assms(1)] .
  then show ?thesis
    using assms(2) False by (intro that [of fl']) (auto simp: add_run_def ordered_runs_append)
qed

subsection \<open>The sweep\<close>

text \<open>The marked blocks from \<open>bid\<close> on with their lengths: those of a variable page have a size, those of a fixed page
  are not in a free run.\<close>

definition kept :: "u8 list \<Rightarrow> nat \<Rightarrow> u8 list option \<Rightarrow> nat \<Rightarrow> (nat \<times> nat) list \<Rightarrow> (nat \<times> nat) set" where
  "kept m last_bid szs bid reuse = {(b, n). bid \<le> b \<and> b < last_bid \<and> get_bit m b = Some True \<and>
     (case szs of None \<Rightarrow> n = 1 \<and> b \<notin> run_blocks reuse | Some s \<Rightarrow> s ! b \<noteq> 0 \<and> n = unat (s ! b))}"

definition obj_blocks :: "(nat \<times> nat) set \<Rightarrow> nat set" where
  "obj_blocks obs = (\<Union>(b, n)\<in>obs. {b..<b + n})"

text \<open>The sizes of a page from \<open>bid\<close> on: each run of blocks ends in the page, does not meet a free run, and has no other
  size inside.\<close>

definition block_sizes_ok :: "nat \<Rightarrow> nat \<Rightarrow> u8 list option \<Rightarrow> (nat \<times> nat) list \<Rightarrow> bool" where
  "block_sizes_ok last_bid bid szs reuse \<longleftrightarrow> (case szs of None \<Rightarrow> True
   | Some s \<Rightarrow> length s = last_bid \<and> (\<forall>b. bid \<le> b \<longrightarrow> b < last_bid \<longrightarrow> s ! b \<noteq> 0 \<longrightarrow>
       b + unat (s ! b) \<le> last_bid \<and> (\<forall>(p, c)\<in>set reuse. p + c \<le> b \<or> b + unat (s ! b) \<le> p) \<and>
       (\<forall>b'. b < b' \<longrightarrow> b' < b + unat (s ! b) \<longrightarrow> s ! b' = 0)))"

definition marks_ok :: "u8 list \<Rightarrow> nat \<Rightarrow> nat \<Rightarrow> u8 list option \<Rightarrow> bool" where
  "marks_ok m last_bid bid szs \<longleftrightarrow> (last_bid + 7) div 8 \<le> length m \<and>
     (case szs of None \<Rightarrow> True | Some s \<Rightarrow> \<forall>b. bid \<le> b \<longrightarrow> b < last_bid \<longrightarrow> get_bit m b = Some True \<longrightarrow> s ! b \<noteq> 0)"

definition swept :: "u8 list \<Rightarrow> nat \<Rightarrow> u8 list option \<Rightarrow> nat \<Rightarrow> u8 list option" where
  "swept m last_bid szs bid = map_option (\<lambda>s. map (\<lambda>b. if bid \<le> b \<and> b < last_bid \<and> get_bit m b \<noteq> Some True then 0 else s ! b) [0..<length s]) szs"

lemma get_bit_ok: "marks_ok m last_bid bid szs \<Longrightarrow> b < last_bid \<Longrightarrow> \<exists>x. get_bit m b = Some x"
  by (auto simp: marks_ok_def get_bit_def load_def)

lemma not_in_runs: "ordered_runs bid hi rs \<Longrightarrow> \<not> (rs \<noteq> [] \<and> fst (hd rs) = bid) \<Longrightarrow> bid \<notin> run_blocks rs"
  using ordered_runs_range [of "fst (hd rs) + snd (hd rs)" hi "tl rs"] by (cases rs) (force simp: subset_iff)+

lemma block_sizes_okI:
  assumes "length s = last_bid"
    and "\<And>b. bid \<le> b \<Longrightarrow> b < last_bid \<Longrightarrow> s ! b \<noteq> 0 \<Longrightarrow> b + unat (s ! b) \<le> last_bid"
    and "\<And>b p c. bid \<le> b \<Longrightarrow> b < last_bid \<Longrightarrow> s ! b \<noteq> 0 \<Longrightarrow> (p, c) \<in> set reuse \<Longrightarrow> p + c \<le> b \<or> b + unat (s ! b) \<le> p"
    and "\<And>b b'. bid \<le> b \<Longrightarrow> b < last_bid \<Longrightarrow> s ! b \<noteq> 0 \<Longrightarrow> b < b' \<Longrightarrow> b' < b + unat (s ! b) \<Longrightarrow> s ! b' = 0"
  shows "block_sizes_ok last_bid bid (Some s) reuse"
  unfolding block_sizes_ok_def using assms by simp blast

lemma block_sizes_okD:
  assumes "block_sizes_ok last_bid bid (Some s) reuse"
  shows "length s = last_bid"
    and "bid \<le> b \<Longrightarrow> b < last_bid \<Longrightarrow> s ! b \<noteq> 0 \<Longrightarrow> b + unat (s ! b) \<le> last_bid"
    and "bid \<le> b \<Longrightarrow> b < last_bid \<Longrightarrow> s ! b \<noteq> 0 \<Longrightarrow> (p, c) \<in> set reuse \<Longrightarrow> p + c \<le> b \<or> b + unat (s ! b) \<le> p"
    and "bid \<le> b \<Longrightarrow> b < last_bid \<Longrightarrow> s ! b \<noteq> 0 \<Longrightarrow> b < b' \<Longrightarrow> b' < b + unat (s ! b) \<Longrightarrow> s ! b' = 0"
  using assms unfolding block_sizes_ok_def by simp_all blast+

lemma block_sizes_ok_mono: "block_sizes_ok last_bid bid szs reuse \<Longrightarrow> bid \<le> bid' \<Longrightarrow> set reuse' \<subseteq> set reuse \<Longrightarrow> block_sizes_ok last_bid bid' szs reuse'"
proof (cases szs)
  case (Some s)
  assume "block_sizes_ok last_bid bid szs reuse" "bid \<le> bid'" "set reuse' \<subseteq> set reuse"
  then show ?thesis
    unfolding Some by (intro block_sizes_okI) (blast dest: block_sizes_okD order_trans)+
qed (simp add: block_sizes_ok_def)

lemma marks_ok_mono: "marks_ok m last_bid bid szs \<Longrightarrow> bid \<le> bid' \<Longrightarrow> marks_ok m last_bid bid' szs"
  by (auto simp: marks_ok_def split: option.splits)

lemma size_in_run:
  "block_sizes_ok last_bid bid (Some s) ((p, c) # rs) \<Longrightarrow> bid \<le> b \<Longrightarrow> p \<le> b \<Longrightarrow> b < p + c \<Longrightarrow> b < last_bid \<Longrightarrow> s ! b = 0"
  using block_sizes_okD(3) [of last_bid bid s "(p, c) # rs" b p c] unat_gt_0 [of "s ! b"] by (cases "s ! b = 0") auto

text \<open>The three steps of the loop: over a free run, over a marked block, over an unmarked one.\<close>

lemma swept_over_run:
  assumes "block_sizes_ok last_bid bid szs ((bid, c) # rs)"
  shows "swept m last_bid szs (bid + c) = swept m last_bid szs bid"
  using size_in_run [of last_bid bid _ bid c rs] assms by (cases szs) (auto simp: swept_def)

lemma kept_over_run:
  assumes "block_sizes_ok last_bid bid szs ((bid, c) # rs)" "ordered_runs (bid + c) last_bid rs"
  shows "kept m last_bid szs bid ((bid, c) # rs) = kept m last_bid szs (bid + c) rs"
proof (cases szs)
  case None
  then show ?thesis
    using ordered_runs_range [OF assms(2)] by (auto simp: kept_def)
next
  case (Some s)
  have "bid + c \<le> b" if "bid \<le> b" "b < last_bid" "s ! b \<noteq> 0" for b
    using size_in_run [of last_bid bid s bid c rs b] assms(1) that Some by (cases "b < bid + c") auto
  then show ?thesis
    using Some by (auto simp: kept_def)
qed


lemma run_length_ok:
  assumes "block_sizes_ok last_bid bid szs reuse" "bid < last_bid" "ordered_runs bid last_bid reuse" "\<not> (reuse \<noteq> [] \<and> fst (hd reuse) = bid)"
  obtains n where "run_length szs bid = Some n" "0 < n" "ordered_runs (bid + n) last_bid reuse"
    "\<And>s b. szs = Some s \<Longrightarrow> bid < b \<Longrightarrow> b < bid + n \<Longrightarrow> s ! b = 0" "\<And>s. szs = Some s \<Longrightarrow> s ! bid \<noteq> 0 \<Longrightarrow> n = unat (s ! bid)"
    "n = 1 \<or> (\<exists>s. szs = Some s \<and> s ! bid \<noteq> 0)"
proof -
  have later: "ordered_runs (bid + 1) last_bid reuse"
    using assms(2-4) by (cases reuse) auto
  show ?thesis
  proof (cases szs)
    case None
    then show ?thesis
      using that [of 1] later by (simp add: run_length_def)
  next
    case (Some s)
    have ok: "block_sizes_ok last_bid bid (Some s) reuse"
      using assms(1) Some by simp
    show ?thesis
    proof (cases "s ! bid = 0")
      case True
      then show ?thesis
        using that [of 1] later Some block_sizes_okD(1) [OF ok] assms(2) by (simp add: run_length_def load_def)
    next
      case False
      let ?n = "unat (s ! bid)"
      have "ordered_runs (bid + ?n) last_bid reuse"
      proof (cases reuse)
        case Nil
        then show ?thesis using block_sizes_okD(2) [OF ok, of bid] False assms(2) by simp
      next
        case (Cons r rs)
        then obtain p c where r: "reuse = (p, c) # rs" by (cases r) auto
        then have "p + c \<le> bid \<or> bid + ?n \<le> p"
          using block_sizes_okD(3) [OF ok, of bid p c] False assms(2) by simp
        then show ?thesis using later r by auto
      qed
      moreover have "s ! b = 0" if "bid < b" "b < bid + ?n" for b
        using block_sizes_okD(4) [OF ok, of bid b] False assms(2) that by simp
      moreover have "run_length szs bid = Some ?n"
        using Some False block_sizes_okD(1) [OF ok] assms(2) by (simp add: run_length_def load_def)
      ultimately show ?thesis
        using Some False by (intro that [of ?n]) (simp_all add: unat_gt_0)
    qed
  qed
qed

lemma kept_marked:
  assumes "get_bit m bid = Some True" "bid < last_bid" "bid \<notin> run_blocks reuse" "0 < n"
    and "\<And>s b. szs = Some s \<Longrightarrow> bid < b \<Longrightarrow> b < bid + n \<Longrightarrow> s ! b = 0" "\<And>s. szs = Some s \<Longrightarrow> s ! bid \<noteq> 0 \<and> n = unat (s ! bid)"
    and "n = 1 \<or> szs \<noteq> None"
  shows "kept m last_bid szs bid reuse = insert (bid, n) (kept m last_bid szs (bid + n) reuse)"
proof (cases szs)
  case None
  then show ?thesis
    using assms by (auto simp: kept_def not_less_eq_eq [symmetric] le_less_Suc_eq)
next
  case (Some s)
  have "b = bid \<or> bid + n \<le> b" if "bid \<le> b" "s ! b \<noteq> 0" for b
    using assms(5) [OF Some, of b] that by (cases "b < bid + n"; cases "b = bid") auto
  then show ?thesis
    using assms(1,2) assms(6) [OF Some] Some by (auto simp: kept_def)
qed

lemma kept_unmarked:
  assumes "get_bit m bid = Some False" "clear_size szs bid = Some szs'"
    and "\<And>s b. szs = Some s \<Longrightarrow> bid < b \<Longrightarrow> b < bid + n \<Longrightarrow> s ! b = 0" "n = 1 \<or> szs \<noteq> None" "0 < n"
  shows "kept m last_bid szs bid reuse = kept m last_bid szs' (bid + n) reuse"
proof (cases szs)
  case None
  then have "kept m last_bid szs bid reuse = kept m last_bid szs (bid + 1) reuse"
    using assms(1) by (auto simp: kept_def Suc_le_eq order.order_iff_strict)
  then show ?thesis
    using assms(2,4) None by (auto simp: clear_size_def)
next
  case (Some s)
  have "bid + n \<le> b" if "bid \<le> b" "s ! b \<noteq> 0" "get_bit m b = Some True" for b
    using assms(1) assms(3) [OF Some, of b] that by (cases "b < bid + n"; cases "b = bid") auto
  then show ?thesis
    using assms(1,2,5) Some by (auto simp: kept_def clear_size_def store_def nth_list_update split: if_splits)
qed


lemma obj_blocks_insert: "obj_blocks (insert (b, n) obs) = {b..<b + n} \<union> obj_blocks obs"
  by (auto simp: obj_blocks_def)

lemma obj_blocks_kept: "obj_blocks (kept m last_bid szs bid reuse) \<subseteq> {bid..}"
  by (auto simp: obj_blocks_def kept_def)

lemma swept_marked:
  assumes "get_bit m bid = Some True" "0 < n" "\<And>s b. szs = Some s \<Longrightarrow> bid < b \<Longrightarrow> b < bid + n \<Longrightarrow> s ! b = 0"
  shows "swept m last_bid szs (bid + n) = swept m last_bid szs bid"
proof (cases szs)
  case (Some s)
  have "(if bid + n \<le> b \<and> b < last_bid \<and> get_bit m b \<noteq> Some True then 0 else s ! b)
      = (if bid \<le> b \<and> b < last_bid \<and> get_bit m b \<noteq> Some True then 0 else s ! b)" for b
    using assms(1,2) assms(3) [OF Some, of b] by (cases b bid rule: linorder_cases; cases "b < bid + n") auto
  then show ?thesis
    by (simp add: Some swept_def)
qed (simp add: swept_def)

lemma swept_unmarked:
  assumes "get_bit m bid = Some False" "clear_size szs bid = Some szs'" "0 < n" "bid < last_bid"
    and "\<And>s b. szs = Some s \<Longrightarrow> bid < b \<Longrightarrow> b < bid + n \<Longrightarrow> s ! b = 0"
  shows "swept m last_bid szs' (bid + n) = swept m last_bid szs bid"
proof (cases szs)
  case None
  then show ?thesis using assms(2) by (auto simp: clear_size_def swept_def)
next
  case (Some s)
  then have szs': "szs' = Some (s[bid := 0])" "bid < length s"
    using assms(2) by (auto simp: clear_size_def store_def split: if_splits)
  have "(if bid + n \<le> b \<and> b < last_bid \<and> get_bit m b \<noteq> Some True then 0 else s[bid := 0] ! b)
      = (if bid \<le> b \<and> b < last_bid \<and> get_bit m b \<noteq> Some True then 0 else s ! b)" if "b < length s" for b
    using assms(1,3,4) assms(5) [OF Some, of b] that by (cases b bid rule: linorder_cases; cases "b < bid + n") (auto simp: nth_list_update)
  then show ?thesis
    by (simp add: Some szs' swept_def)
qed

lemma clear_size_ok:
  assumes "block_sizes_ok last_bid bid szs reuse" "bid < last_bid" "marks_ok m last_bid bid szs" "0 < n"
  obtains szs' where "clear_size szs bid = Some szs'" "block_sizes_ok last_bid (bid + n) szs' reuse" "marks_ok m last_bid (bid + n) szs'"
proof (cases szs)
  case None
  then show ?thesis
    using assms that [of None] by (auto simp: clear_size_def block_sizes_ok_def marks_ok_def)
next
  case (Some s)
  then have ok: "block_sizes_ok last_bid bid (Some s) reuse"
    using assms(1) by simp
  have "block_sizes_ok last_bid (bid + n) (Some (s[bid := 0])) reuse"
  proof (rule block_sizes_okI, goal_cases)
    case (4 b b')
    then show ?case using block_sizes_okD(4) [OF ok, of b b'] assms(4) by (cases "b' = bid") (auto simp: nth_list_update split: if_splits)
  next
    case (3 b p c)
    then show ?case using block_sizes_okD(3) [OF ok, of b p c] assms(4) by (auto simp: nth_list_update)
  next
    case (2 b)
    then show ?case using block_sizes_okD(2) [OF ok, of b] assms(4) by (auto simp: nth_list_update)
  qed (use block_sizes_okD(1) [OF ok] in simp)
  moreover have "marks_ok m last_bid (bid + n) (Some (s[bid := 0]))"
    using assms(3,4) Some by (auto simp: marks_ok_def nth_list_update)
  ultimately show ?thesis
    using Some block_sizes_okD(1) [OF ok] assms(2) that [of "Some (s[bid := 0])"] by (simp add: clear_size_def store_def)
qed

definition sweep_result :: "u8 list \<Rightarrow> nat \<Rightarrow> u8 list option \<Rightarrow> nat \<Rightarrow> (nat \<times> nat) list \<Rightarrow> gc_freelist \<Rightarrow> nat \<Rightarrow> gc_freelist \<Rightarrow> bool" where
  "sweep_result m last_bid szs bid reuse fl lo fl' \<longleftrightarrow>
    flush_loop m last_bid szs bid reuse fl = Some (swept m last_bid szs bid, fl') \<and> fl_wf fl' \<and> fl_current fl' = fl_current fl \<and>
    ordered_runs lo last_bid (fl_data fl') \<and>
    run_blocks (fl_data fl') = run_blocks (fl_data fl) \<union> ({bid..<last_bid} - obj_blocks (kept m last_bid szs bid reuse)) \<and>
    (\<forall>r\<in>set (fl_data fl'). snd r = 0 \<longrightarrow> r \<in> set (fl_data fl) \<union> set reuse)"

lemma flush_loop_ok:
  assumes "fl_wf fl" "ordered_runs lo bid (fl_data fl)" "ordered_runs bid last_bid reuse"
    "block_sizes_ok last_bid bid szs reuse" "marks_ok m last_bid bid szs"
  shows "\<exists>fl'. sweep_result m last_bid szs bid reuse fl lo fl'"
  using assms
proof (induction m last_bid szs bid reuse fl rule: flush_loop.induct)
  case (1 m last_bid szs bid reuse fl)
  note wf = "1.prems"(1) and fl = "1.prems"(2) and reuse = "1.prems"(3) and szs = "1.prems"(4) and marks = "1.prems"(5)
  have le: "bid \<le> last_bid"
    using reuse by (rule ordered_runs_le)
  consider "bid = last_bid" | "bid < last_bid" "reuse \<noteq> [] \<and> fst (hd reuse) = bid" | "bid < last_bid" "\<not> (reuse \<noteq> [] \<and> fst (hd reuse) = bid)"
    using le by linarith
  then show ?case
  proof cases
    case 1
    have "swept m bid szs bid = szs"
      by (cases szs) (auto simp: swept_def intro!: nth_equalityI)
    then show ?thesis
      using 1 wf fl by (auto simp: flush_loop.simps [of m last_bid] sweep_result_def)
  next
    case 2
    then obtain c rs where r: "reuse = (bid, c) # rs"
      by (cases reuse) auto
    obtain fl' where fl': "add_run fl bid c = Some fl'" "fl_wf fl'" "fl_current fl' = fl_current fl"
      "ordered_runs lo (bid + c) (fl_data fl')" "run_blocks (fl_data fl') = run_blocks (fl_data fl) \<union> {bid..<bid + c}"
      "\<And>r. r \<in> set (fl_data fl') \<Longrightarrow> snd r = 0 \<Longrightarrow> r = (bid, c) \<or> r \<in> set (fl_data fl)"
      using add_run_ok [OF wf fl, of c] by blast
    have rest: "ordered_runs (bid + c) last_bid rs"
      using reuse r by simp
    have ok: "block_sizes_ok last_bid bid szs ((bid, c) # rs)"
      using szs r by simp
    obtain fl'' where IH: "sweep_result m last_bid szs (bid + c) rs fl' lo fl''"
      using "1.IH"(1) [of fl'] 2 r fl' rest block_sizes_ok_mono [OF ok, of "bid + c" rs] marks_ok_mono [OF marks, of "bid + c"] by auto
    have "{bid..<bid + c} \<union> ({bid + c..<last_bid} - obj_blocks (kept m last_bid szs (bid + c) rs))
        = {bid..<last_bid} - obj_blocks (kept m last_bid szs (bid + c) rs)"
      using obj_blocks_kept [of m last_bid szs "bid + c" rs] ordered_runs_le [OF rest] by auto
    moreover have "r \<in> set (fl_data fl) \<union> set reuse" if "r \<in> set (fl_data fl'')" "snd r = 0" for r
      using IH fl'(6) [of r] r that by (auto simp: sweep_result_def)
    ultimately have "sweep_result m last_bid szs bid reuse fl lo fl''"
      using IH 2 r fl'(1-5) swept_over_run [OF ok] kept_over_run [OF ok rest]
      by (auto simp: sweep_result_def flush_loop.simps [of m last_bid szs bid] Un_assoc)
    then show ?thesis by blast
  next
    case 3
    obtain n where n: "run_length szs bid = Some n" "0 < n" "ordered_runs (bid + n) last_bid reuse"
      "\<And>s b. szs = Some s \<Longrightarrow> bid < b \<Longrightarrow> b < bid + n \<Longrightarrow> s ! b = 0" "\<And>s. szs = Some s \<Longrightarrow> s ! bid \<noteq> 0 \<Longrightarrow> n = unat (s ! bid)"
      "n = 1 \<or> (\<exists>s. szs = Some s \<and> s ! bid \<noteq> 0)"
      using run_length_ok [OF szs 3(1) reuse 3(2)] by blast
    have notin: "bid \<notin> run_blocks reuse"
      using not_in_runs [OF reuse 3(2)] .
    have n2: "bid + n \<le> last_bid"
      using n(3) by (rule ordered_runs_le)
    obtain marked where marked: "get_bit m bid = Some marked"
      using get_bit_ok [OF marks 3(1)] by blast
    show ?thesis
    proof (cases marked)
      case True
      obtain fl'' where IH: "sweep_result m last_bid szs (bid + n) reuse fl lo fl''"
        using "1.IH"(2) [of n marked] 3 True marked n wf fl block_sizes_ok_mono [OF szs, of "bid + n" reuse] marks_ok_mono [OF marks, of "bid + n"]
          ordered_runs_weaken [OF fl, of lo "bid + n"] by auto
      have "s ! bid \<noteq> 0 \<and> n = unat (s ! bid)" if "szs = Some s" for s
        using marks marked True 3(1) that n(5) [OF that] by (simp add: marks_ok_def)
      then have kept: "kept m last_bid szs bid reuse = insert (bid, n) (kept m last_bid szs (bid + n) reuse)"
        using marked True n(6) by (intro kept_marked [OF _ 3(1) notin n(2)] n(4)) auto
      have "{bid + n..<last_bid} - obj_blocks (kept m last_bid szs (bid + n) reuse)
          = {bid..<last_bid} - obj_blocks (kept m last_bid szs bid reuse)"
        unfolding kept obj_blocks_insert using n2 by auto
      then have "sweep_result m last_bid szs bid reuse fl lo fl''"
        using IH 3 n(1) marked True swept_marked [of m bid n szs] n
        by (auto simp: sweep_result_def flush_loop.simps [of m last_bid szs bid])
      then show ?thesis by blast
    next
      case False
      obtain szs' where szs': "clear_size szs bid = Some szs'" "block_sizes_ok last_bid (bid + n) szs' reuse" "marks_ok m last_bid (bid + n) szs'"
        using clear_size_ok [OF szs 3(1) marks n(2)] by blast
      obtain fl' where fl': "add_run fl bid n = Some fl'" "fl_wf fl'" "fl_current fl' = fl_current fl"
        "ordered_runs lo (bid + n) (fl_data fl')" "run_blocks (fl_data fl') = run_blocks (fl_data fl) \<union> {bid..<bid + n}"
        "\<And>r. r \<in> set (fl_data fl') \<Longrightarrow> snd r = 0 \<Longrightarrow> r = (bid, n) \<or> r \<in> set (fl_data fl)"
        using add_run_ok [OF wf fl, of n] by blast
      obtain fl'' where IH: "sweep_result m last_bid szs' (bid + n) reuse fl' lo fl''"
        using "1.IH"(3) [of n marked szs' fl'] 3 False marked n fl' szs' by auto
      have kept: "kept m last_bid szs bid reuse = kept m last_bid szs' (bid + n) reuse"
        using marked False szs'(1) n by (intro kept_unmarked) auto
      have "{bid..<bid + n} \<union> ({bid + n..<last_bid} - obj_blocks (kept m last_bid szs' (bid + n) reuse))
          = {bid..<last_bid} - obj_blocks (kept m last_bid szs bid reuse)"
        unfolding kept using obj_blocks_kept [of m last_bid szs' "bid + n" reuse] n2 by auto
      moreover have "r \<in> set (fl_data fl) \<union> set reuse" if "r \<in> set (fl_data fl'')" "snd r = 0" for r
        using IH fl'(6) [of r] n(2) that by (cases "r = (bid, n)") (auto simp: sweep_result_def)
      ultimately have "sweep_result m last_bid szs bid reuse fl lo fl''"
        using IH 3 n(1,2) marked False fl'(1-5) szs'(1) swept_unmarked [OF _ szs'(1) n(2) 3(1), of m] n(4)
        by (auto simp: sweep_result_def flush_loop.simps [of m last_bid szs bid] Un_assoc)
      then show ?thesis by blast
    qed
  qed
qed


subsection \<open>Pages\<close>

definition free_runs :: "gc_page \<Rightarrow> (nat \<times> nat) list" where
  "free_runs ph = fl_runs (free ph)"

definition free_blocks :: "gc_page \<Rightarrow> nat set" where
  "free_blocks ph = run_blocks (free_runs ph)"

text \<open>The objects of a page, by first block and number of blocks.\<close>

definition objs :: "gc_page \<Rightarrow> (nat \<times> nat) set" where
  "objs ph = (case sizes ph of
     None \<Rightarrow> {(b, 1) |b. first_block ph \<le> b \<and> b < max_blocks ph \<and> b \<notin> free_blocks ph}
   | Some s \<Rightarrow> {(b, unat (s ! b)) |b. b < max_blocks ph \<and> s ! b \<noteq> 0})"

definition marked :: "gc_page \<Rightarrow> nat \<Rightarrow> bool" where
  "marked ph b \<longleftrightarrow> (\<exists>m. bmp ph = Some m \<and> get_bit m b = Some True)"

text \<open>Well-formed pages: the free runs are in order in the page and the objects are apart from them and from each other.
  The runs of a fixed page are not empty.\<close>

definition page_shape :: "gc_page \<Rightarrow> bool" where
  "page_shape ph \<longleftrightarrow> 0 < block_size ph \<and> first_block ph \<le> max_blocks ph \<and> max_blocks ph \<le> GC_PAGE_SIZE \<and>
     max_blocks ph * block_size ph \<le> page_size ph \<and> (size_bits ph \<noteq> 0 \<longrightarrow> block_size ph = 2 ^ size_bits ph)"

definition page_wf :: "gc_page \<Rightarrow> bool" where
  "page_wf ph \<longleftrightarrow> page_shape ph \<and> fl_wf (free ph) \<and> ordered_runs (first_block ph) (max_blocks ph) (free_runs ph) \<and>
     block_sizes_ok (max_blocks ph) 0 (sizes ph) (free_runs ph) \<and>
     (case sizes ph of None \<Rightarrow> \<forall>r\<in>set (free_runs ph). snd r \<noteq> 0 | Some s \<Rightarrow> \<forall>b<first_block ph. s ! b = 0) \<and>
     (case bmp ph of None \<Rightarrow> True | Some m \<Rightarrow> (max_blocks ph + 7) div 8 \<le> length m) \<and>
     (need_flush ph \<longrightarrow> bmp ph \<noteq> None \<and> (sizes ph \<noteq> None \<longrightarrow> (\<forall>b. marked ph b \<longrightarrow> b < max_blocks ph \<longrightarrow> (\<exists>n. (b, n) \<in> objs ph))))"

definition same_page :: "gc_page \<Rightarrow> gc_page \<Rightarrow> bool" where
  "same_page ph ph' \<longleftrightarrow> base ph' = base ph \<and> page_size ph' = page_size ph \<and> page_kind ph' = page_kind ph \<and>
     block_size ph' = block_size ph \<and> size_bits ph' = size_bits ph \<and> first_block ph' = first_block ph \<and> max_blocks ph' = max_blocks ph \<and>
     (sizes ph' = None \<longleftrightarrow> sizes ph = None)"

lemma intervals_apart: "{p..<p + c} \<inter> {b..<b + n} = {} \<Longrightarrow> 0 < c \<Longrightarrow> 0 < n \<Longrightarrow> p + c \<le> b \<or> b + n \<le> (p :: nat)"
  by (cases "p \<le> b") (auto simp: disjoint_iff not_le dest: spec [of _ b] spec [of _ p])

text \<open>Sweeping keeps exactly the marked objects and frees every other block.\<close>

lemma flush_free_list_ok:
  assumes wf: "page_wf ph" and flush: "need_flush ph"
  obtains ph' where "flush_free_list ph = Some ph'" "page_wf ph'" "same_page ph ph'" "\<not> need_flush ph'" "bmp ph' = bmp ph"
    "objs ph' = {(b, n) \<in> objs ph. marked ph b}" "free_blocks ph' = {first_block ph..<max_blocks ph} - obj_blocks (objs ph')"
proof -
  let ?lo = "first_block ph" and ?hi = "max_blocks ph"
  obtain m where m: "bmp ph = Some m"
    using wf flush by (auto simp: page_wf_def)
  have w: "page_shape ph" "ordered_runs ?lo ?hi (free_runs ph)" "block_sizes_ok ?hi 0 (sizes ph) (free_runs ph)" "(?hi + 7) div 8 \<le> length m"
    using wf m by (auto simp: page_wf_def)
  have marks: "marks_ok m ?hi 0 (sizes ph)"
    using wf flush m w(4) by (auto simp: marks_ok_def page_wf_def marked_def objs_def split: option.splits)
  have "block_sizes_ok ?hi ?lo (sizes ph) (free_runs ph)" "marks_ok m ?hi ?lo (sizes ph)"
    using block_sizes_ok_mono [OF w(3)] marks_ok_mono [OF marks] by auto
  moreover have "fl_wf (alloc_freelist (fl_size_bits (free ph)))" "ordered_runs ?lo ?lo (fl_data (alloc_freelist (fl_size_bits (free ph))))"
    by (simp_all add: alloc_freelist_def fl_wf_def)
  ultimately obtain fl where fl: "sweep_result m ?hi (sizes ph) ?lo (free_runs ph) (alloc_freelist (fl_size_bits (free ph))) ?lo fl"
    using flush_loop_ok [where lo = ?lo] w(2) by blast
  define ph' where "ph' = ph\<lparr>sizes := swept m ?hi (sizes ph) ?lo, free := fl, need_flush := False\<rparr>"
  have runs: "free_runs ph' = fl_data fl" "free_blocks ph' = {?lo..<?hi} - obj_blocks (kept m ?hi (sizes ph) ?lo (free_runs ph))"
    using fl by (auto simp: ph'_def free_runs_def free_blocks_def fl_runs_def sweep_result_def alloc_freelist_def)
  have zero: "r \<in> set (free_runs ph)" if "r \<in> set (fl_data fl)" "snd r = 0" for r
    using fl that by (auto simp: sweep_result_def alloc_freelist_def)
  have kept: "kept m ?hi (sizes ph) ?lo (free_runs ph) = {(b, n) \<in> objs ph. marked ph b}"
    using wf m by (auto simp: kept_def objs_def marked_def free_blocks_def page_wf_def not_less split: option.splits)

  have objs: "objs ph' = {(b, n) \<in> objs ph. marked ph b}"
  proof (cases "sizes ph")
    case None
    then have "objs ph' = {(b, 1) |b. ?lo \<le> b \<and> b < ?hi \<and> b \<notin> free_blocks ph'}"
      by (simp add: objs_def ph'_def swept_def free_blocks_def free_runs_def)
    also have "\<dots> = kept m ?hi (sizes ph) ?lo (free_runs ph)"
      unfolding runs(2) by (auto simp: obj_blocks_def kept_def None less_Suc_eq_le dest: le_antisym)
    finally show ?thesis unfolding kept .
  next
    case (Some s)
    then have "length s = ?hi" "\<forall>b<?lo. s ! b = 0"
      using wf block_sizes_okD(1) by (auto simp: page_wf_def)
    moreover have "map (\<lambda>b. if ?lo \<le> b \<and> b < ?hi \<and> get_bit m b \<noteq> Some True then 0 else s ! b) [0..<?hi] ! b
        = (if ?lo \<le> b \<and> b < ?hi \<and> get_bit m b \<noteq> Some True then 0 else s ! b)" if "b < ?hi" for b
      using that by simp
    ultimately show ?thesis
      using Some m by (auto simp: objs_def ph'_def swept_def marked_def not_le simp del: nth_map split: if_splits)
  qed
  have "block_sizes_ok ?hi 0 (sizes ph') (fl_data fl)"
  proof (cases "sizes ph")
    case None
    then show ?thesis by (simp add: ph'_def block_sizes_ok_def swept_def)
  next
    case (Some s)
    then have ok: "block_sizes_ok ?hi 0 (Some s) (free_runs ph)"
      using w(3) by simp
    define s' where "s' = map (\<lambda>b. if ?lo \<le> b \<and> b < ?hi \<and> get_bit m b \<noteq> Some True then 0 else s ! b) [0..<length s]"
    have s': "sizes ph' = Some s'" "length s' = ?hi" "\<And>b. b < ?hi \<Longrightarrow> s' ! b \<noteq> 0 \<Longrightarrow> s' ! b = s ! b" "\<And>b. b < ?hi \<Longrightarrow> s ! b = 0 \<Longrightarrow> s' ! b = 0"
      using block_sizes_okD(1) [OF ok] Some by (auto simp: ph'_def swept_def s'_def)
    have "p + c \<le> b \<or> b + unat (s' ! b) \<le> p" if b: "b < ?hi" "s' ! b \<noteq> 0" "(p, c) \<in> set (fl_data fl)" for b p c
    proof (cases "c = 0")
      case True
      then show ?thesis
        using block_sizes_okD(3) [OF ok, of b p c] zero [of "(p, c)"] b s'(3) [of b] by simp
    next
      case False
      have "(b, unat (s' ! b)) \<in> objs ph'"
        using b s'(1) by (auto simp: objs_def ph'_def)
      then have "{b..<b + unat (s' ! b)} \<subseteq> obj_blocks (objs ph')" "{p..<p + c} \<subseteq> free_blocks ph'"
        using b(3) runs(1) by (auto simp: obj_blocks_def free_blocks_def run_blocks_def)
      then have "{p..<p + c} \<inter> {b..<b + unat (s' ! b)} = {}"
        using runs(2) unfolding objs kept by blast
      then show ?thesis
        using False b(2) by (intro intervals_apart) (simp_all add: unat_gt_0)
    qed
    moreover have "b + unat (s' ! b) \<le> ?hi" if "b < ?hi" "s' ! b \<noteq> 0" for b
      using block_sizes_okD(2) [OF ok, of b] s'(3) [of b] that by simp
    moreover have "s' ! b' = 0" if "b < ?hi" "s' ! b \<noteq> 0" "b < b'" "b' < b + unat (s' ! b)" for b b'
      using block_sizes_okD(2,4) [OF ok, of b] s'(3) [of b] s'(4) [of b'] that by (metis le0 order_less_le_trans)
    ultimately show ?thesis
      unfolding s'(1) by (intro block_sizes_okI s'(2))
  qed
  moreover have "s' ! b = 0" if "sizes ph' = Some s'" "b < ?lo" for s' b
    using that wf w(3) block_sizes_okD(1) [of ?hi 0 _ "free_runs ph"] by (auto simp: ph'_def swept_def page_wf_def page_shape_def)
  moreover have "sizes ph' = None \<longleftrightarrow> sizes ph = None" "bmp ph' = bmp ph" "\<not> need_flush ph'" "free ph' = fl" "page_shape ph'"
      "first_block ph' = ?lo" "max_blocks ph' = ?hi"
    using w(1) by (simp_all add: ph'_def swept_def page_shape_def)
  moreover have "\<forall>r\<in>set (fl_data fl). snd r \<noteq> 0" if "sizes ph = None"
    using wf zero that by (auto simp: page_wf_def)
  ultimately have "page_wf ph'"
    using fl runs(1) w(4) m by (auto simp: page_wf_def sweep_result_def split: option.splits)
  then show ?thesis
    using fl m runs(2) objs unfolding kept
    by (intro that [of ph']) (auto simp: flush_free_list_def ph'_def sweep_result_def same_page_def swept_def free_runs_def fl_runs_def)
qed


text \<open>The objects that the next sweep keeps.\<close>

definition page_alive :: "gc_page \<Rightarrow> (nat \<times> nat) set" where
  "page_alive ph = {(b, n) \<in> objs ph. need_flush ph \<longrightarrow> marked ph b}"

definition keeps_page :: "gc_page \<Rightarrow> gc_page \<Rightarrow> bool" where
  "keeps_page ph ph' \<longleftrightarrow> page_wf ph' \<and> same_page ph ph' \<and> page_alive ph' = page_alive ph"

lemma keeps_page_refl: "page_wf ph \<Longrightarrow> keeps_page ph ph"
  by (simp add: keeps_page_def same_page_def)

lemma flush_if_needed_ok:
  assumes "page_wf ph"
  obtains ph' where "flush_if_needed ph = Some ph'" "keeps_page ph ph'" "\<not> need_flush ph'"
proof (cases "need_flush ph")
  case True
  obtain ph' where "flush_free_list ph = Some ph'" "page_wf ph'" "same_page ph ph'" "\<not> need_flush ph'" "bmp ph' = bmp ph"
    "objs ph' = {(b, n) \<in> objs ph. marked ph b}" "free_blocks ph' = {first_block ph..<max_blocks ph} - obj_blocks (objs ph')"
    using flush_free_list_ok [OF assms True] by blast
  then show ?thesis
    using True by (intro that [of ph']) (auto simp: flush_if_needed_def keeps_page_def page_alive_def)
next
  case False
  then show ?thesis
    using assms that [of ph] by (simp add: flush_if_needed_def keeps_page_refl)
qed

lemma page_wfD:
  assumes "page_wf ph"
  shows "page_shape ph" "fl_wf (free ph)" "ordered_runs (first_block ph) (max_blocks ph) (free_runs ph)"
    "block_sizes_ok (max_blocks ph) 0 (sizes ph) (free_runs ph)"
    "sizes ph = None \<Longrightarrow> r \<in> set (free_runs ph) \<Longrightarrow> snd r \<noteq> 0" "sizes ph = Some s \<Longrightarrow> b < first_block ph \<Longrightarrow> s ! b = 0"
    "bmp ph = Some m \<Longrightarrow> (max_blocks ph + 7) div 8 \<le> length m"
  using assms by (auto simp: page_wf_def)

subsection \<open>Taking blocks\<close>

lemma take_fixed_ok:
  assumes wf: "page_wf ph" and fixed: "sizes ph = None" "\<not> need_flush ph" and want: "0 < want"
    and take: "take_fixed want (free ph) = Some (bid, taken, fl)"
  shows "page_wf (ph\<lparr>free := fl\<rparr>)" "0 < taken" "taken \<le> want" "bid + taken \<le> max_blocks ph"
    "page_alive (ph\<lparr>free := fl\<rparr>) = page_alive ph \<union> {(b, 1) |b. bid \<le> b \<and> b < bid + taken}"
    "\<And>b n. (b, n) \<in> page_alive ph \<Longrightarrow> {b..<b + n} \<inter> {bid..<bid + taken} = {}"
proof -
  let ?cur = "fl_current (free ph)"
  have lt: "?cur < length (fl_data (free ph))"
    using take by (auto simp: take_fixed_def Let_def split: if_splits)
  obtain pos count where r: "fl_data (free ph) ! ?cur = (pos, count)"
    by (cases "fl_data (free ph) ! ?cur")
  define rs where "rs = drop (Suc ?cur) (fl_data (free ph))"
  have runs: "free_runs ph = (pos, count) # rs"
    using lt r by (simp add: free_runs_def fl_runs_def rs_def Cons_nth_drop_Suc [symmetric])
  define t where "t = (if count < want then count else want)"
  have eqs: "bid = pos" "taken = t" "fl = (free ph)\<lparr>fl_data := (fl_data (free ph))[?cur := (pos + t, count - t)],
      fl_current := (if count - t = 0 then ?cur + 1 else ?cur)\<rparr>"
    using take lt r by (auto simp: take_fixed_def Let_def t_def)
  have t: "0 < t" "t \<le> count" "t \<le> want"
    using page_wfD(5) [OF wf fixed(1), of "(pos, count)"] runs want by (auto simp: t_def)
  have runs': "free_runs (ph\<lparr>free := fl\<rparr>) = (if count - t = 0 then rs else (pos + t, count - t) # rs)"
    using lt by (simp add: free_runs_def fl_runs_def eqs rs_def Cons_nth_drop_Suc [symmetric] drop_update_cancel)
  have ordered: "first_block ph \<le> pos" "ordered_runs (pos + count) (max_blocks ph) rs"
    using page_wfD(3) [OF wf] runs by auto
  show "0 < taken" "taken \<le> want"
    using t eqs by auto
  show "bid + taken \<le> max_blocks ph"
    using t eqs ordered_runs_le [OF ordered(2)] by simp
  have blocks: "free_blocks ph = {pos..<pos + t} \<union> free_blocks (ph\<lparr>free := fl\<rparr>)" "{pos..<pos + t} \<inter> free_blocks (ph\<lparr>free := fl\<rparr>) = {}"
    using t ordered_runs_range [OF ordered(2)] by (auto simp: free_blocks_def runs runs' subset_iff)
  show "page_alive (ph\<lparr>free := fl\<rparr>) = page_alive ph \<union> {(b, 1) |b. bid \<le> b \<and> b < bid + taken}"
    using fixed blocks ordered t ordered_runs_le [OF ordered(2)] by (auto simp: page_alive_def objs_def eqs)
  show "\<And>b n. (b, n) \<in> page_alive ph \<Longrightarrow> {b..<b + n} \<inter> {bid..<bid + taken} = {}"
    using fixed blocks by (auto simp: page_alive_def objs_def eqs)
  have "ordered_runs (first_block ph) (max_blocks ph) (free_runs (ph\<lparr>free := fl\<rparr>))"
    using ordered t ordered_runs_weaken [OF ordered(2), of "first_block ph" "max_blocks ph"] by (simp add: runs')
  moreover have "fl_wf fl"
    using page_wfD(2) [OF wf] by (simp add: fl_wf_def eqs)
  moreover have "snd r \<noteq> 0" if "r \<in> set (free_runs (ph\<lparr>free := fl\<rparr>))" for r
    using that page_wfD(5) [OF wf fixed(1), of r] runs by (auto simp: runs' split: if_splits)
  ultimately show "page_wf (ph\<lparr>free := fl\<rparr>)"
    using wf fixed by (auto simp: page_wf_def page_shape_def block_sizes_ok_def split: option.splits)
qed

lemma take_fixed_None: "take_fixed want fl = None \<longleftrightarrow> fl_runs fl = []"
  by (auto simp: take_fixed_def fl_runs_def Let_def split: prod.splits)


text \<open>Objects of a variable page with a free list that has shrunk.\<close>

lemma ordered_runs_bounds: "ordered_runs lo hi rs \<Longrightarrow> (q, d) \<in> set rs \<Longrightarrow> lo \<le> q \<and> q + d \<le> hi"
  by (induction lo hi rs rule: ordered_runs.induct) (auto dest: ordered_runs_le)

lemma ordered_runs_update:
  assumes "ordered_runs lo hi rs" "j < length rs" "rs ! j = (p, c)" "n \<le> c"
  shows "ordered_runs lo hi (rs[j := (p + n, c - n)])"
    and "\<And>q d. (q, d) \<in> set (rs[j := (p + n, c - n)]) \<Longrightarrow> q + d \<le> p \<or> p + n \<le> q"
    and "\<And>q d. (q, d) \<in> set (rs[j := (p + n, c - n)]) \<Longrightarrow> (q, d) \<in> set rs \<or> q = p + n \<and> q + d = p + c"
    and "lo \<le> p \<and> p + c \<le> hi"
proof -
  obtain rs1 rs2 where rs: "rs = rs1 @ (p, c) # rs2" "length rs1 = j"
    using assms(2,3) by (metis id_take_nth_drop length_take min.absorb4)
  then have upd: "rs[j := (p + n, c - n)] = rs1 @ (p + n, c - n) # rs2"
    by (metis list_update_length)
  obtain mid where o: "ordered_runs lo mid rs1" "mid \<le> p" "ordered_runs (p + c) hi rs2"
    using assms(1) rs by (auto simp: ordered_runs_append)
  show "ordered_runs lo hi (rs[j := (p + n, c - n)])"
    unfolding upd ordered_runs_append using o assms(4) by (intro exI [of _ mid]) auto
  note 1 = ordered_runs_bounds [OF o(1)] and 2 = ordered_runs_bounds [OF o(3)]
  show "\<And>q d. (q, d) \<in> set (rs[j := (p + n, c - n)]) \<Longrightarrow> q + d \<le> p \<or> p + n \<le> q"
    using 1 2 o(2) assms(4) unfolding upd by fastforce
  show "\<And>q d. (q, d) \<in> set (rs[j := (p + n, c - n)]) \<Longrightarrow> (q, d) \<in> set rs \<or> q = p + n \<and> q + d = p + c"
    unfolding upd using assms(4) rs(1) by auto
  show "lo \<le> p \<and> p + c \<le> hi"
    using o ordered_runs_le [OF o(1)] ordered_runs_le [OF o(3)] by simp
qed

lemma take_var_runs:
  assumes "take_var n fl = Some (p, fl')" "0 < n"
  obtains j c where "j < length (fl_runs fl)" "fl_runs fl ! j = (p, c)" "n \<le> c" "fl_size_bits fl' = fl_size_bits fl"
    "length (fl_data fl') = length (fl_data fl)"
    "fl_runs fl' = (if c = n then tl ((fl_runs fl)[j := (p + n, c - n)]) else (fl_runs fl)[j := (p + n, c - n)])"
proof -
  let ?cur = "fl_current fl"
  obtain k where k: "find (\<lambda>k. snd (fl_data fl ! k) \<ge> n) [?cur..<length (fl_data fl)] = Some k"
    using assms(1) by (auto simp: take_var_def split: bind_splits)
  obtain c where c: "fl_data fl ! k = (p, c)"
    using assms(1) k by (auto simp: take_var_def split: prod.splits)
  have "k \<in> set [?cur..<length (fl_data fl)]" "n \<le> snd (fl_data fl ! k)"
    using k by (auto simp: find_Some_iff in_set_conv_nth)
  then have kb: "?cur \<le> k" "k < length (fl_data fl)" "n \<le> c"
    using c by auto
  have fl': "fl' = fl\<lparr>fl_data := (fl_data fl)[k := (p + n, c - n)], fl_current := (if c - n = 0 then ?cur + 1 else ?cur)\<rparr>"
    using assms(1) k c by (auto simp: take_var_def)
  have "drop ?cur ((fl_data fl)[k := x]) = (fl_runs fl)[k - ?cur := x]" for x
    using kb by (simp add: fl_runs_def drop_update_swap)
  moreover have "drop (?cur + 1) xs = tl (drop ?cur xs)" for xs :: "(nat \<times> nat) list"
    by (simp add: drop_Suc tl_drop)
  ultimately show ?thesis
    using kb c by (intro that [of "k - ?cur" c]) (auto simp: fl' fl_runs_def)
qed


lemma get_bit_set_mark: "set_mark m bid = Some m' \<Longrightarrow> length m' = length m"
  by (auto simp: set_mark_def store_def load_def split: if_splits bind_splits)

lemma set_mark_ok: "bid < hi \<Longrightarrow> (hi + 7) div 8 \<le> length m \<Longrightarrow> \<exists>m'. set_mark m bid = Some m'"
  by (auto simp: set_mark_def store_def load_def)

lemma zero_range:
  assumes "p + n \<le> length s" "\<And>b. p \<le> b \<Longrightarrow> b < p + n \<Longrightarrow> s ! b = 0"
  shows "take p s @ replicate n 0 @ drop (p + n) s = s"
  using assms by (intro nth_equalityI) (auto simp: nth_append min_absorb2)

text \<open>Placing an object of \<open>n\<close> blocks at \<open>p\<close>, apart from all runs and objects of a variable page.\<close>

lemma place_object:
  assumes wf: "page_wf ph" and s: "sizes ph = Some s" and flush: "\<not> need_flush ph" and n: "0 < n" "n < 256"
    and range: "first_block ph \<le> p" "p + n \<le> max_blocks ph"
    and apart: "\<And>b m. (b, m) \<in> objs ph \<Longrightarrow> p + n \<le> b \<or> b + m \<le> p"
    and fl: "fl_wf fl" "ordered_runs (first_block ph) (max_blocks ph) (fl_runs fl)"
    and fl_p: "\<And>q d. (q, d) \<in> set (fl_runs fl) \<Longrightarrow> q + d \<le> p \<or> p + n \<le> q"
    and fl_apart: "\<And>q d b m. (q, d) \<in> set (fl_runs fl) \<Longrightarrow> (b, m) \<in> objs ph \<Longrightarrow> q + d \<le> b \<or> b + m \<le> q"
  obtains ph' where "mark_allocated (ph\<lparr>free := fl\<rparr>) p n = Some ph'" "page_wf ph'" "same_page ph ph'" "\<not> need_flush ph'"
    "page_alive ph' = insert (p, n) (page_alive ph)"
proof -
  have ok: "block_sizes_ok (max_blocks ph) 0 (Some s) (free_runs ph)"
    using page_wfD(4) [OF wf] s by simp
  have len: "length s = max_blocks ph"
    using block_sizes_okD(1) [OF ok] .
  have obj: "(b, unat (s ! b)) \<in> objs ph" if "b < max_blocks ph" "s ! b \<noteq> 0" for b
    using that s by (auto simp: objs_def)
  have zero: "s ! b = 0" if "p \<le> b" "b < p + n" for b
    using apart [OF obj, of b] that range unat_gt_0 [of "s ! b"] by (cases "s ! b = 0") auto
  obtain m' where m': "(case bmp ph of None \<Rightarrow> Some None | Some m \<Rightarrow> map_option Some (set_mark m p)) = Some m'"
    "\<And>m. m' = Some m \<Longrightarrow> (max_blocks ph + 7) div 8 \<le> length m" "m' = None \<longleftrightarrow> bmp ph = None"
  proof (cases "bmp ph")
    case None
    then show ?thesis using that [of None] by simp
  next
    case (Some m)
    then obtain m1 where "set_mark m p = Some m1"
      using set_mark_ok [of p "max_blocks ph" m] page_wfD(7) [OF wf Some] range n by auto
    then show ?thesis
      using that [of "Some m1"] Some page_wfD(7) [OF wf Some] get_bit_set_mark by simp
  qed
  define s' where "s' = s[p := of_nat n]"
  have u: "unat (of_nat n :: u8) = n"
    using n by (simp add: unat_of_nat)
  then have u: "unat (of_nat n :: u8) = n" "(of_nat n :: u8) \<noteq> 0"
    using n(1) by (auto simp del: unat_of_nat)
  define ph' where "ph' = ph\<lparr>free := fl, bmp := m', sizes := Some s'\<rparr>"
  have result: "mark_allocated (ph\<lparr>free := fl\<rparr>) p n = Some ph'"
    using m'(1) s zero_range [of p n s] zero range len n by (simp add: mark_allocated_def store_def ph'_def s'_def)
  have objs: "objs ph' = insert (p, n) (objs ph)"
    using s range n len zero [of p] u by (auto simp: objs_def ph'_def s'_def nth_list_update split: if_splits)
  have s'_obj: "(b, unat (s' ! b)) \<in> insert (p, n) (objs ph)" if "b < max_blocks ph" "s' ! b \<noteq> 0" for b
    using that objs [symmetric] by (auto simp: objs_def ph'_def)
  have "block_sizes_ok (max_blocks ph) 0 (Some s') (fl_runs fl)"
  proof (rule block_sizes_okI, goal_cases)
    case 1 then show ?case using len by (simp add: s'_def)
  next
    case (2 b)
    then show ?case
      using block_sizes_okD(2) [OF ok, of b] range u len n(1) by (cases "b = p") (auto simp: s'_def)
  next
    case (3 b q d)
    then show ?case using s'_obj [of b] fl_p [of q d] fl_apart [of q d b] by auto
  next
    case (4 b b')
    have b': "b' < max_blocks ph"
      using 4 block_sizes_okD(2) [OF ok, of b] range u len n(1) by (cases "b = p") (auto simp: s'_def)
    show ?case
    proof (cases "b = p")
      case True
      then show ?thesis using 4 zero [of b'] u len range by (auto simp: s'_def)
    next
      case False
      then have "s ! b \<noteq> 0" "s' ! b = s ! b" using 4 by (auto simp: s'_def)
      then show ?thesis
        using 4 block_sizes_okD(4) [OF ok, of b b'] apart [OF obj, of b] False n by (auto simp: s'_def nth_list_update)
    qed
  qed
  then have "page_wf ph'"
    using wf fl m'(2,3) flush range page_wfD(6) [OF wf s]
    by (auto simp: page_wf_def page_shape_def ph'_def s'_def nth_list_update free_runs_def split: option.splits)
  then show ?thesis
    using result objs s flush by (intro that [of ph']) (auto simp: same_page_def ph'_def page_alive_def)
qed

lemma objs_apart_runs: "page_wf ph \<Longrightarrow> sizes ph = Some s \<Longrightarrow> (b, m) \<in> objs ph \<Longrightarrow> (q, d) \<in> set (free_runs ph) \<Longrightarrow> q + d \<le> b \<or> b + m \<le> q"
  using block_sizes_okD(3) [of "max_blocks ph" 0 s "free_runs ph" b q d] page_wfD(4) [of ph] by (auto simp: objs_def)

lemma in_set_tlD: "x \<in> set (tl xs) \<Longrightarrow> x \<in> set xs"
  by (cases xs) auto

lemma take_var_ok:
  assumes wf: "page_wf ph" and s: "sizes ph = Some s" and flush: "\<not> need_flush ph" and n: "0 < n" "n < 256"
    and take: "take_var n (free ph) = Some (p, fl)"
  obtains ph' where "mark_allocated (ph\<lparr>free := fl\<rparr>) p n = Some ph'" "page_wf ph'" "same_page ph ph'" "\<not> need_flush ph'"
    "page_alive ph' = insert (p, n) (page_alive ph)" "first_block ph \<le> p" "p + n \<le> max_blocks ph"
    "\<And>b m. (b, m) \<in> page_alive ph \<Longrightarrow> {b..<b + m} \<inter> {p..<p + n} = {}"
proof -
  obtain j c where j: "j < length (free_runs ph)" "free_runs ph ! j = (p, c)" "n \<le> c" "fl_size_bits fl = fl_size_bits (free ph)"
    "length (fl_data fl) = length (fl_data (free ph))"
    "fl_runs fl = (if c = n then tl ((free_runs ph)[j := (p + n, c - n)]) else (free_runs ph)[j := (p + n, c - n)])"
    using take_var_runs [OF take n(1)] unfolding free_runs_def by blast
  note upd = ordered_runs_update [OF page_wfD(3) [OF wf] j(1-3)]
  have sub: "set (fl_runs fl) \<subseteq> set ((free_runs ph)[j := (p + n, c - n)])"
    unfolding j(6) by (auto dest: in_set_tlD)
  have "ordered_runs lo hi (tl rs)" if "ordered_runs lo hi rs" for lo hi rs
    using that by (cases rs) (auto intro: ordered_runs_weaken)
  then have ordered: "ordered_runs (first_block ph) (max_blocks ph) (fl_runs fl)"
    unfolding j(6) using upd(1) by (cases "c = n") auto
  have pc: "(p, c) \<in> set (free_runs ph)"
    using j(1,2) by (metis nth_mem)
  have apart: "p + n \<le> b \<or> b + m \<le> p" if "(b, m) \<in> objs ph" for b m
    using objs_apart_runs [OF wf s that pc] j(3) by linarith
  have "q + d \<le> b \<or> b + m \<le> q" if "(q, d) \<in> set (fl_runs fl)" "(b, m) \<in> objs ph" for q d b m
  proof -
    have "(q, d) \<in> set (free_runs ph) \<or> q = p + n \<and> q + d = p + c"
      using upd(3) [of q d] sub that(1) by blast
    then show ?thesis
      using objs_apart_runs [OF wf s that(2), of q d] objs_apart_runs [OF wf s that(2) pc] by auto
  qed
  moreover have "fl_wf fl"
    using page_wfD(2) [OF wf] j(4,5) by (simp add: fl_wf_def)
  moreover have "q + d \<le> p \<or> p + n \<le> q" if "(q, d) \<in> set (fl_runs fl)" for q d
    using upd(2) [of q d] sub that by auto
  moreover have "first_block ph \<le> p" "p + n \<le> max_blocks ph"
    using upd(4) j(3) by auto
  ultimately obtain ph' where ph': "mark_allocated (ph\<lparr>free := fl\<rparr>) p n = Some ph'" "page_wf ph'" "same_page ph ph'" "\<not> need_flush ph'"
    "page_alive ph' = insert (p, n) (page_alive ph)"
    using place_object [OF wf s flush n _ _ apart _ ordered] by blast
  moreover have "{b..<b + m} \<inter> {p..<p + n} = {}" if "(b, m) \<in> page_alive ph" for b m
    using apart [of b m] that by (auto simp: page_alive_def)
  ultimately show ?thesis
    using \<open>first_block ph \<le> p\<close> \<open>p + n \<le> max_blocks ph\<close> that by blast
qed


subsection \<open>New pages\<close>

lemma grow_page_ok: "\<exists>j. grow_page n psize block = psize * 2 ^ j \<and> (j = 0 \<or> grow_page n psize block div block \<le> GC_PAGE_SIZE)"
proof (induction n psize block rule: grow_page.induct)
  case (1 n psize block)
  show ?case
  proof (cases "n > 8 \<and> 2 * psize div block \<le> GC_PAGE_SIZE")
    case True
    then obtain j where "grow_page (n div 3) (2 * psize) block = 2 * psize * 2 ^ j"
      "j = 0 \<or> grow_page (n div 3) (2 * psize) block div block \<le> GC_PAGE_SIZE"
      using 1 by blast
    then show ?thesis
      using True by (intro exI [of _ "Suc j"]) (auto simp: grow_page.simps [of n psize block])
  next
    case False
    then show ?thesis by (intro exI [of _ 0]) (auto simp: grow_page.simps [of n psize block])
  qed
qed

definition new_page_size :: "nat \<Rightarrow> nat \<Rightarrow> nat \<Rightarrow> nat" where
  "new_page_size npages psize block = (if block < 256 then grow_page npages psize block else psize)"

definition new_first :: "nat \<Rightarrow> nat \<Rightarrow> bool \<Rightarrow> nat" where
  "new_first blocks block varsize = align_up (if varsize \<and> blocks > SIZES_PADDING then align_up blocks 64 else 0) block div block"

lemma new_page_ok:
  assumes "0 < block" and psize: "psize' = new_page_size (length pages) psize block" and blocks: "blocks = psize' div block"
    and "blocks \<le> GC_PAGE_SIZE" and first: "first = new_first blocks block varsize" "first < blocks"
  obtains ph where "gc_allocator_new_page os pages block psize kind varsize = Some ph" "page_wf ph" "objs ph = {}"
    "base ph = os_memory os (page_size ph)" "page_size ph = psize'" "block_size ph = block" "first_block ph = first" "max_blocks ph = blocks"
    "sizes ph = (if varsize then Some (replicate blocks 0) else None)" "\<not> need_flush ph"
    "fl_data (free ph) = [(first, blocks - first)]" "fl_current (free ph) = 0"
proof -
  obtain fl where fl: "freelist_append (alloc_freelist (freelist_bits blocks 1)) first (blocks - first) = Some fl" "fl_wf fl"
    "fl_current fl = 0" "fl_data fl = [(first, blocks - first)]"
    using freelist_append_ok [of "alloc_freelist (freelist_bits blocks 1)" first "blocks - first"]
    by (auto simp: alloc_freelist_def fl_wf_def)
  define ph where "ph = (gc_alloc_page os psize' kind blocks)\<lparr>block_size := block,
     size_bits := (if block \<noteq> 2 ^ shift_bits block 0 then 0 else shift_bits block 0), max_blocks := blocks,
     sizes := (if varsize then Some (replicate blocks 0) else None), first_block := first, free := fl, need_flush := False\<rparr>"
  have "gc_allocator_new_page os pages block psize kind varsize = Some ph"
    using assms(4) fl(1) unfolding psize blocks first(1) new_first_def new_page_size_def ph_def
    by (simp add: gc_allocator_new_page_def Let_def not_less)
  moreover have "page_wf ph"
    using assms fl div_times_less_eq_dividend [of psize' block]
    by (auto simp: page_wf_def page_shape_def ph_def gc_alloc_page_def free_runs_def fl_runs_def block_sizes_ok_def)
  moreover have "objs ph = {}"
    using first(2) fl by (auto simp: objs_def ph_def gc_alloc_page_def free_blocks_def free_runs_def fl_runs_def)
  ultimately show ?thesis
    using fl by (intro that [of ph]) (simp_all add: ph_def gc_alloc_page_def)
qed

text \<open>The pages of the fixed and of the variable partitions have room.\<close>

lemma fixed_page_room:
  assumes "part < GC_FIXED_PARTS" "block = GC_SIZES ! part" "blocks = new_page_size n GC_PAGE_SIZE block div block"
  shows "0 < block" "blocks \<le> GC_PAGE_SIZE" "new_first blocks block False = 0" "1000 < blocks"
proof -
  have "part = 0 \<or> part = 1 \<or> part = 2 \<or> part = 3 \<or> part = 4"
    using assms(1) unfolding GC_FIXED_PARTS_def by arith
  then have block: "block \<in> {8, 16, 24, 32, 40}"
    using assms(2) by (auto simp: GC_SIZES_def)
  have np: "new_page_size n GC_PAGE_SIZE block = grow_page n GC_PAGE_SIZE block"
    using block by (auto simp: new_page_size_def)
  obtain j where j: "new_page_size n GC_PAGE_SIZE block = GC_PAGE_SIZE * 2 ^ j" "j = 0 \<or> blocks \<le> GC_PAGE_SIZE"
    using grow_page_ok [of n GC_PAGE_SIZE block] unfolding assms(3) np by blast
  show "0 < block" "new_first blocks block False = 0"
    using block by (auto simp: new_first_def align_up_def)
  show "blocks \<le> GC_PAGE_SIZE"
    using j block assms(3) by (auto simp: GC_PAGE_SIZE_def)
  have "GC_PAGE_SIZE div block \<le> blocks"
    unfolding assms(3) j(1) by (intro div_le_mono) simp
  then show "1000 < blocks"
    using block by (auto simp: GC_PAGE_SIZE_def)
qed


lemma align_up_exact: "0 < a \<Longrightarrow> align_up (k * a) a = k * a"
  by (simp add: align_up_def)

lemma align_up_le: "align_up x a \<le> x + a"
  by (simp add: align_up_def)

lemma align_up_small: "x \<le> a \<Longrightarrow> 0 < a \<Longrightarrow> align_up x a \<le> a"
  by (cases "x = a") (auto simp: align_up_def)

lemma new_first_exact:
  assumes "8 < blocks" "blocks = k * 64" "k * 64 = f * block" "0 < block"
  shows "new_first blocks block True = f"
  using assms align_up_exact [of 64 k] align_up_exact [of block f] by (simp add: new_first_def SIZES_PADDING_def)

lemma pow2_bound: "c * 2 ^ j \<le> c * 2 ^ i \<Longrightarrow> 0 < c \<Longrightarrow> j \<le> (i :: nat)" for c :: nat
  by simp

lemma var_page_size_ok: "0 < psize \<Longrightarrow> \<exists>j. var_page_size psize sz = psize * 2 ^ j \<and> sz + 1024 \<le> var_page_size psize sz \<and>
    (j = 0 \<or> var_page_size psize sz < 2 * (sz + 1024))"
proof (induction psize sz rule: var_page_size.induct)
  case (1 psize sz)
  show ?case
  proof (cases "psize < sz + 1024")
    case True
    then obtain j where "var_page_size (2 * psize) sz = 2 * psize * 2 ^ j" "sz + 1024 \<le> var_page_size (2 * psize) sz"
      "j = 0 \<or> var_page_size (2 * psize) sz < 2 * (sz + 1024)"
      using 1(1) [OF conjI [OF 1(2) True]] 1(2) by (metis nat_0_less_mult_iff zero_less_numeral)
    then show ?thesis
      using True 1(2) by (intro exI [of _ "Suc j"]) (auto simp: var_page_size.simps [of psize sz])
  next
    case False
    then show ?thesis
      by (intro exI [of _ 0]) (auto simp: var_page_size.simps [of psize sz])
  qed
qed

text \<open>The sizes of the small variable blocks: a page of \<open>2 ^ j\<close> times the least size.\<close>

lemma small_var_room:
  assumes "block = 8 \<or> block = 64" "blocks = new_page_size n GC_PAGE_SIZE block div block"
  shows "blocks \<le> GC_PAGE_SIZE" "new_first blocks block True + 254 \<le> blocks"
proof -
  have np: "new_page_size n GC_PAGE_SIZE block = grow_page n GC_PAGE_SIZE block"
    using assms(1) by (auto simp: new_page_size_def)
  obtain j where j: "new_page_size n GC_PAGE_SIZE block = GC_PAGE_SIZE * 2 ^ j" "j = 0 \<or> blocks \<le> GC_PAGE_SIZE"
    using grow_page_ok [of n GC_PAGE_SIZE block] unfolding assms(2) np by blast
  then show "blocks \<le> GC_PAGE_SIZE"
    using assms by (auto simp: GC_PAGE_SIZE_def)
  have one: "1 \<le> (2 :: nat) ^ j"
    by simp
  show "new_first blocks block True + 254 \<le> blocks"
  proof (cases "block = 8")
    case True
    then have b: "blocks = 8192 * 2 ^ j"
      using assms(2) j(1) by (simp add: GC_PAGE_SIZE_def)
    have "new_first blocks 8 True = 1024 * 2 ^ j"
      using b one by (intro new_first_exact [where k = "128 * 2 ^ j"]) linarith+
    then show ?thesis using b one unfolding True by linarith
  next
    case False
    then have b: "blocks = 1024 * 2 ^ j" "block = 64"
      using assms j(1) by (simp_all add: GC_PAGE_SIZE_def)
    have "new_first blocks 64 True = 16 * 2 ^ j"
      using b one by (intro new_first_exact [where k = "16 * 2 ^ j"]) linarith+
    then show ?thesis using b(1) one unfolding b(2) by linarith
  qed
qed

lemma large_var_room:
  assumes "sz = n * 8192" "n < 255" "blocks = var_page_size GC_PAGE_SIZE sz div 8192"
  shows "blocks \<le> GC_PAGE_SIZE" "new_first blocks 8192 True + n \<le> blocks" "0 < blocks"
proof -
  obtain j where j: "var_page_size GC_PAGE_SIZE sz = GC_PAGE_SIZE * 2 ^ j" "sz + 1024 \<le> var_page_size GC_PAGE_SIZE sz"
    "j = 0 \<or> var_page_size GC_PAGE_SIZE sz < 2 * (sz + 1024)"
    using var_page_size_ok [of GC_PAGE_SIZE sz] unfolding GC_PAGE_SIZE_def by (metis zero_less_numeral zero_less_power)
  have b: "blocks = 8 * 2 ^ j"
    using assms(3) j(1) by (simp add: GC_PAGE_SIZE_def)
  have "n < blocks"
    using j(1,2) assms(1) b by (simp add: GC_PAGE_SIZE_def)
  have "(2 :: nat) ^ j < 2 ^ 7"
    using j(1,3) assms(1,2) by (cases "j = 0") (auto simp: GC_PAGE_SIZE_def)
  then have le: "blocks < 1024"
    using b by simp
  then show "blocks \<le> GC_PAGE_SIZE"
    by (simp add: GC_PAGE_SIZE_def)
  show "0 < blocks"
    using b by simp
  define x where "x = (if True \<and> blocks > SIZES_PADDING then align_up blocks 64 else 0)"
  have "x \<le> 8192"
    using align_up_le [of blocks 64] le by (simp add: x_def)
  then have "align_up x 8192 div 8192 \<le> 8192 div 8192"
    by (intro div_le_mono align_up_small) simp_all
  then have "new_first blocks 8192 True \<le> 1"
    by (simp add: new_first_def x_def)
  then show "new_first blocks 8192 True + n \<le> blocks"
    using \<open>n < blocks\<close> by linarith
qed

end
