(* ===== verification/GcHeap.thy ===== *)
theory GcHeap
  imports GcPage
begin
unbundle bit_operations_syntax

text \<open>
  The heap of the block allocator, \<^verbatim>\<open>src/src/allocator.c\<close>: lists of pages per owner class, partition and kind. The theory has the
  invariant of the heap (pages are well-formed and do not overlap), the set of its objects as places in memory, and the lemmas
  that \<open>gc_alloc_fixed_run\<close>, \<open>gc_alloc_var\<close> and \<open>gc_allocator_alloc\<close> keep the invariant, never fail and add new objects only.
\<close>


subsection \<open>The heap\<close>

lemma part_of_GC_PID: "part < GC_PARTITIONS \<Longrightarrow> kind < 4 \<Longrightarrow> GC_PID_PART (GC_PID oc part kind) = part"
  by (simp add: GC_PID_PART_def GC_PID_def GC_ALL_PAGES_def GC_PARTITIONS_def)

lemma GC_PID_kind: "kind < 4 \<Longrightarrow> GC_PID oc part kind mod 4 = kind"
  unfolding GC_PID_def GC_ALL_PAGES_def GC_PARTITIONS_def by presburger

lemma GC_PID_slot: "oc < GC_PAGE_CLASSES \<Longrightarrow> part < GC_PARTITIONS \<Longrightarrow> kind < 4 \<Longrightarrow> GC_PID oc part kind < GC_PAGE_SLOTS"
  by (simp add: GC_PID_def GC_PAGE_SLOTS_def GC_PAGE_CLASSES_def GC_ALL_PAGES_def GC_PARTITIONS_def)

definition page_of_part :: "nat \<Rightarrow> gc_page \<Rightarrow> bool" where
  "page_of_part part ph \<longleftrightarrow>
     (if part = GC_LARGE_PART then sizes ph = None \<and> first_block ph = 0 \<and> max_blocks ph = 1 \<and> block_size ph = page_size ph
      else block_size ph = GC_SIZES ! part \<and> (sizes ph = None \<longleftrightarrow> part < GC_FIXED_PARTS))"

text \<open>The objects of a heap: their addresses and sizes. A large page is one object.\<close>

definition alive_in :: "nat \<Rightarrow> gc_page \<Rightarrow> (nat \<times> nat) set" where
  "alive_in pid ph = (if GC_PID_PART pid = GC_LARGE_PART then {(b, n). b = 0 \<and> n = 1 \<and> (need_flush ph \<longrightarrow> marked ph 0)} else page_alive ph)"

definition place_of :: "gc_page \<Rightarrow> nat \<times> nat \<Rightarrow> nat \<times> nat" where
  "place_of ph = (\<lambda>(b, n). (block_addr ph b, n * block_size ph))"

definition alive :: "gc_heap \<Rightarrow> (nat \<times> nat) set" where
  "alive h = (\<Union>pid. \<Union>ph\<in>set (gc_pages h pid). place_of ph ` alive_in pid ph)"

definition region :: "nat \<times> nat \<Rightarrow> nat set" where
  "region = (\<lambda>(addr, len). {addr..<addr + len})"

definition page_region :: "gc_page \<Rightarrow> nat set" where
  "page_region ph = {base ph..<base ph + page_size ph}"

definition heap_pages_wf :: "gc_heap \<Rightarrow> bool" where
  "heap_pages_wf h \<longleftrightarrow> (\<forall>pid. \<forall>ph\<in>set (gc_pages h pid). page_wf ph \<and> page_of_part (GC_PID_PART pid) ph \<and> (pid mod 4 = MEM_KIND_FINALIZER \<longrightarrow> sizes ph \<noteq> None)) \<and>
     (\<forall>pid. gc_free_pages h pid \<le> length (gc_pages h pid)) \<and> (\<forall>pid\<ge>GC_PAGE_SLOTS. gc_pages h pid = [])"

definition pages_apart :: "gc_heap \<Rightarrow> bool" where
  "pages_apart h \<longleftrightarrow> (\<forall>pid k pid' k'. k < length (gc_pages h pid) \<longrightarrow> k' < length (gc_pages h pid') \<longrightarrow> (pid, k) \<noteq> (pid', k') \<longrightarrow>
     page_region (gc_pages h pid ! k) \<inter> page_region (gc_pages h pid' ! k') = {})"

definition heap_wf :: "gc_heap \<Rightarrow> bool" where
  "heap_wf h \<longleftrightarrow> heap_pages_wf h \<and> pages_apart h"

lemma heap_wfD:
  assumes "heap_wf h" "k < length (gc_pages h pid)"
  shows "page_wf (gc_pages h pid ! k)" "page_of_part (GC_PID_PART pid) (gc_pages h pid ! k)"
    "pid mod 4 = MEM_KIND_FINALIZER \<Longrightarrow> sizes (gc_pages h pid ! k) \<noteq> None"
  using assms nth_mem [of k "gc_pages h pid"] unfolding heap_wf_def heap_pages_wf_def by blast+

lemma objs_range:
  assumes "page_wf ph" "(b, n) \<in> objs ph"
  shows "b + n \<le> max_blocks ph" "0 < n"
proof -
  show "b + n \<le> max_blocks ph"
    using assms block_sizes_okD(2) [of "max_blocks ph" 0 _ "free_runs ph" b] page_wfD(4) [OF assms(1)] by (auto simp: objs_def split: option.splits)
  show "0 < n"
    using assms(2) by (auto simp: objs_def unat_gt_0 split: option.splits)
qed

lemma objs_disjoint:
  assumes "page_wf ph" "(b, n) \<in> objs ph" "(b', n') \<in> objs ph" "b < b'"
  shows "b + n \<le> b'"
proof (cases "sizes ph")
  case None
  then show ?thesis using assms by (auto simp: objs_def)
next
  case (Some s)
  then have ok: "block_sizes_ok (max_blocks ph) 0 (Some s) (free_runs ph)"
    using page_wfD(4) [OF assms(1)] by simp
  show ?thesis
    using block_sizes_okD(4) [OF ok, of b b'] assms Some by (cases "b + n \<le> b'") (auto simp: objs_def)
qed

lemma objs_same_block: "(b, n) \<in> objs ph \<Longrightarrow> (b, n') \<in> objs ph \<Longrightarrow> n = n'"
  by (auto simp: objs_def split: option.splits)

lemma place_in_page: "b + n \<le> max_blocks ph \<Longrightarrow> page_shape ph \<Longrightarrow> region (place_of ph (b, n)) \<subseteq> page_region ph"
proof -
  assume *: "b + n \<le> max_blocks ph" "page_shape ph"
  have "(b + n) * block_size ph \<le> max_blocks ph * block_size ph"
    using *(1) by (rule mult_le_mono1)
  then have "b * block_size ph + n * block_size ph \<le> page_size ph"
    using *(2) by (simp add: page_shape_def add_mult_distrib)
  then show ?thesis
    by (auto simp: region_def place_of_def block_addr_def page_region_def)
qed

lemma places_apart: "b + n \<le> b' \<Longrightarrow> region (place_of ph (b, n)) \<inter> region (place_of ph (b', n')) = {}"
proof -
  assume "b + n \<le> b'"
  then have "(b + n) * block_size ph \<le> b' * block_size ph"
    by (rule mult_le_mono1)
  then show ?thesis
    by (auto simp: region_def place_of_def block_addr_def add_mult_distrib)
qed

lemma alive_in_range:
  assumes "page_wf ph" "page_of_part (GC_PID_PART pid) ph" "(b, n) \<in> alive_in pid ph"
  shows "b + n \<le> max_blocks ph" "0 < n"
  using assms objs_range [OF assms(1), of b n] by (auto simp: alive_in_def page_alive_def page_of_part_def split: if_splits)

text \<open>No two objects overlap.\<close>

lemma alive_disjoint:
  assumes wf: "heap_wf h" and x: "x \<in> alive h" "y \<in> alive h" "x \<noteq> y"
  shows "region x \<inter> region y = {}"
proof -
  obtain pid k b n where x': "k < length (gc_pages h pid)" "(b, n) \<in> alive_in pid (gc_pages h pid ! k)" "x = place_of (gc_pages h pid ! k) (b, n)"
    using x(1) by (auto simp: alive_def in_set_conv_nth)
  obtain pid' k' b' n' where y': "k' < length (gc_pages h pid')" "(b', n') \<in> alive_in pid' (gc_pages h pid' ! k')"
    "y = place_of (gc_pages h pid' ! k') (b', n')"
    using x(2) by (auto simp: alive_def in_set_conv_nth)
  let ?p = "gc_pages h pid ! k" and ?q = "gc_pages h pid' ! k'"
  have p: "page_wf ?p" "page_of_part (GC_PID_PART pid) ?p" and q: "page_wf ?q" "page_of_part (GC_PID_PART pid') ?q"
    using heap_wfD(1,2) [OF wf x'(1)] heap_wfD(1,2) [OF wf y'(1)] by auto
  show ?thesis
  proof (cases "(pid, k) = (pid', k')")
    case True
    then have eq: "?q = ?p" "pid' = pid" by auto
    have bn: "(b, n) \<noteq> (b', n')"
      using x(3) x'(3) y'(3) eq by auto
    show ?thesis
    proof (cases "GC_PID_PART pid = GC_LARGE_PART")
      case True
      then show ?thesis using x'(2) y'(2) eq bn by (auto simp: alive_in_def)
    next
      case False
      then have o: "(b, n) \<in> objs ?p" "(b', n') \<in> objs ?p"
        using x'(2) y'(2) eq by (auto simp: alive_in_def page_alive_def)
      then have "b \<noteq> b'"
        using bn objs_same_block by auto
      then have "b + n \<le> b' \<or> b' + n' \<le> b"
        using objs_disjoint [OF p(1) o] objs_disjoint [OF p(1) o(2,1)] by (cases b b' rule: linorder_cases) auto
      then show ?thesis
        using places_apart [of b n b' ?p n'] places_apart [of b' n' b ?p n] x'(3) y'(3) eq by auto
    qed
  next
    case False
    then have "page_region ?p \<inter> page_region ?q = {}"
      using wf x'(1) y'(1) unfolding heap_wf_def pages_apart_def by blast
    moreover have "region x \<subseteq> page_region ?p" "region y \<subseteq> page_region ?q"
      using place_in_page alive_in_range [OF p x'(2)] alive_in_range [OF q y'(2)] page_wfD(1) [OF p(1)] page_wfD(1) [OF q(1)] x'(3) y'(3) by auto
    ultimately show ?thesis by blast
  qed
qed


text \<open>Walking along the pages sweeps some of them and takes blocks from one.\<close>

definition walked :: "(gc_freelist \<Rightarrow> ('a \<times> gc_freelist) option) \<Rightarrow> gc_page list \<Rightarrow> gc_page list \<Rightarrow> (nat \<times> 'a) option \<Rightarrow> bool" where
  "walked tk phs phs' r \<longleftrightarrow> length phs' = length phs \<and>
    (case r of None \<Rightarrow> \<forall>i<length phs. keeps_page (phs ! i) (phs' ! i)
     | Some (k, a) \<Rightarrow> k < length phs \<and> (\<forall>i<length phs. i \<noteq> k \<longrightarrow> keeps_page (phs ! i) (phs' ! i)) \<and>
         (\<exists>ph fl. keeps_page (phs ! k) ph \<and> \<not> need_flush ph \<and> tk (free ph) = Some (a, fl) \<and> phs' ! k = ph\<lparr>free := fl\<rparr>))"

lemma walked_Cons:
  assumes "walked tk phs phs' r" "keeps_page ph ph'"
  shows "walked tk (ph # phs) (ph' # phs') (map_option (\<lambda>(k, a). (k + 1, a)) r)"
proof -
  have all: "keeps_page ((ph # phs) ! i) ((ph' # phs') ! i)" if "i = 0 \<or> keeps_page (phs ! (i - 1)) (phs' ! (i - 1))" for i
    using that assms(2) by (cases i) auto
  show ?thesis
  proof (cases r)
    case None
    then have k: "keeps_page (phs ! i) (phs' ! i)" if "i < length phs" for i
      using assms(1) that by (auto simp: walked_def)
    have "keeps_page ((ph # phs) ! i) ((ph' # phs') ! i)" if "i < Suc (length phs)" for i
      using all [of i] k [of "i - 1"] that by (cases i) auto
    then show ?thesis
      using assms(1) None by (auto simp: walked_def)
  next
    case (Some ka)
    obtain k a where ka: "ka = (k, a)" by (cases ka)
    then obtain p fl where k: "k < length phs" "\<And>i. i < length phs \<Longrightarrow> i \<noteq> k \<Longrightarrow> keeps_page (phs ! i) (phs' ! i)"
      "keeps_page (phs ! k) p" "\<not> need_flush p" "tk (free p) = Some (a, fl)" "phs' ! k = p\<lparr>free := fl\<rparr>"
      using assms(1) Some by (auto simp: walked_def)
    have "keeps_page ((ph # phs) ! i) ((ph' # phs') ! i)" if "i < Suc (length phs)" "i \<noteq> Suc k" for i
      using all [of i] k(2) [of "i - 1"] that by (cases i) auto
    then show ?thesis
      using assms(1) Some ka k by (auto simp: walked_def)
  qed
qed

lemma find_page_ok:
  assumes "\<And>ph. ph \<in> set phs \<Longrightarrow> page_wf ph"
  shows "\<exists>phs' r. find_page tk phs = Some (phs', r) \<and> walked tk phs phs' r"
  using assms
proof (induction phs)
  case (Cons ph phs)
  obtain ph1 where ph1: "flush_if_needed ph = Some ph1" "keeps_page ph ph1" "\<not> need_flush ph1"
    using flush_if_needed_ok Cons.prems by (metis list.set_intros(1))
  show ?case
  proof (cases "tk (free ph1)")
    case (Some afl)
    obtain a fl where "afl = (a, fl)" by (cases afl)
    moreover have "keeps_page ((ph # phs) ! i) ((ph1\<lparr>free := fl\<rparr> # phs) ! i)" if "i < length (ph # phs)" "i \<noteq> 0" for i
      using that keeps_page_refl Cons.prems by (cases i) auto
    ultimately show ?thesis
      using Some ph1 by (intro exI [of _ "ph1\<lparr>free := fl\<rparr> # phs"] exI [of _ "Some (0, a)"]) (auto simp: walked_def)
  next
    case None
    obtain phs' r where IH: "find_page tk phs = Some (phs', r)" "walked tk phs phs' r"
      using Cons by auto
    then show ?thesis
      using None ph1(1) walked_Cons [OF IH(2) ph1(2)] by auto
  qed
qed (simp add: walked_def)

lemma find_from_ok:
  assumes wf: "heap_wf h"
  obtains (none) ps where "find_from h pid tk = Some (ps, None)" "length ps = length (gc_pages h pid)"
      "\<And>i. i < length ps \<Longrightarrow> keeps_page (gc_pages h pid ! i) (ps ! i)"
  | (some) ps k a ph fl where "find_from h pid tk = Some (ps, Some (k, a))" "length ps = length (gc_pages h pid)" "k < length ps"
      "\<And>i. i < length ps \<Longrightarrow> i \<noteq> k \<Longrightarrow> keeps_page (gc_pages h pid ! i) (ps ! i)"
      "keeps_page (gc_pages h pid ! k) ph" "\<not> need_flush ph" "tk (free ph) = Some (a, fl)" "ps ! k = ph\<lparr>free := fl\<rparr>"
proof -
  let ?ps = "gc_pages h pid"
  define start where "start = length ?ps - gc_free_pages h pid"
  have start: "start \<le> length ?ps"
    by (simp add: start_def)
  have pages: "page_wf ph" if "ph \<in> set ?ps" for ph
    using wf that by (auto simp: heap_wf_def heap_pages_wf_def)
  obtain phs r where fp: "find_page tk (drop start ?ps) = Some (phs, r)" "walked tk (drop start ?ps) phs r"
    using find_page_ok [of "drop start ?ps" tk] pages by (meson in_set_dropD)
  define ps where "ps = take start ?ps @ phs"
  have len: "length ps = length ?ps"
    using fp(2) start by (simp add: ps_def walked_def)
  have result: "find_from h pid tk = Some (ps, map_option (\<lambda>(k, a). (start + k, a)) r)"
    using fp(1) by (simp add: find_from_def Let_def start_def [symmetric] ps_def)
  have at: "ps ! i = (if i < start then ?ps ! i else phs ! (i - start))" if "i < length ps" for i
    using that start by (simp add: ps_def nth_append)
  have keep: "keeps_page (?ps ! i) (ps ! i)" if "i < length ps" "start \<le> i \<Longrightarrow> keeps_page (drop start ?ps ! (i - start)) (phs ! (i - start))" for i
    using that at [of i] len pages [of "?ps ! i"] keeps_page_refl start by (cases "i < start") auto
  show ?thesis
  proof (cases r)
    case None
    then have all: "keeps_page (drop start ?ps ! j) (phs ! j)" if "j < length ?ps - start" for j
      using fp(2) that by (simp add: walked_def)
    have "keeps_page (?ps ! i) (ps ! i)" if "i < length ps" for i
    proof (rule keep [OF that])
      show "keeps_page (drop start ?ps ! (i - start)) (phs ! (i - start))" if "start \<le> i"
        using all [of "i - start"] \<open>i < length ps\<close> that by (simp add: len)
    qed
    then show ?thesis
      using result len None none [of ps] by simp
  next
    case (Some ka)
    obtain k a where ka: "ka = (k, a)" by (cases ka)
    then obtain ph fl where k: "k < length ?ps - start" "\<And>i. i < length ?ps - start \<Longrightarrow> i \<noteq> k \<Longrightarrow> keeps_page (drop start ?ps ! i) (phs ! i)"
      "keeps_page (drop start ?ps ! k) ph" "\<not> need_flush ph" "tk (free ph) = Some (a, fl)" "phs ! k = ph\<lparr>free := fl\<rparr>"
      using fp(2) Some by (auto simp: walked_def)
    show ?thesis
    proof (rule some)
      show "find_from h pid tk = Some (ps, Some (start + k, a))"
        using result Some ka by simp
      show "keeps_page (?ps ! i) (ps ! i)" if "i < length ps" "i \<noteq> start + k" for i
      proof (rule keep [OF that(1)])
        show "keeps_page (drop start ?ps ! (i - start)) (phs ! (i - start))" if "start \<le> i"
          using k(2) [of "i - start"] \<open>i < length ps\<close> \<open>i \<noteq> start + k\<close> that len by (metis diff_less_mono le_add_diff_inverse)
      qed
    qed (use k len at [of "start + k"] start in auto)
  qed
qed


subsection \<open>Updating the heap\<close>

lemma keeps_page_alive: "keeps_page ph ph' \<Longrightarrow> GC_PID_PART pid \<noteq> GC_LARGE_PART \<Longrightarrow> place_of ph' ` alive_in pid ph' = place_of ph ` alive_in pid ph"
  by (auto simp: keeps_page_def same_page_def place_of_def block_addr_def alive_in_def)

lemma same_page_part: "same_page ph ph' \<Longrightarrow> page_of_part part ph \<Longrightarrow> page_of_part part ph'"
  by (auto simp: same_page_def page_of_part_def)

lemma same_page_sizes: "same_page ph ph' \<Longrightarrow> sizes ph \<noteq> None \<Longrightarrow> sizes ph' \<noteq> None"
  by (auto simp: same_page_def)

lemma same_page_region: "same_page ph ph' \<Longrightarrow> page_region ph' = page_region ph"
  by (auto simp: same_page_def page_region_def)

lemma UN_nth: "(\<Union>x\<in>set xs. F x) = (\<Union>i<length xs. F (xs ! i))"
  by (auto simp: set_conv_nth)

lemma alive_index: "alive h = (\<Union>pid. \<Union>k<length (gc_pages h pid). place_of (gc_pages h pid ! k) ` alive_in pid (gc_pages h pid ! k))"
  unfolding alive_def UN_nth ..

lemma heap_update:
  assumes wf: "heap_wf h" and part: "GC_PID_PART pid \<noteq> GC_LARGE_PART" and len: "length ps = length (gc_pages h pid)" "k < length ps"
    and keep: "\<And>i. i < length ps \<Longrightarrow> i \<noteq> k \<Longrightarrow> keeps_page (gc_pages h pid ! i) (ps ! i)"
    and new: "page_wf (ps ! k)" "same_page (gc_pages h pid ! k) (ps ! k)" "page_alive (ps ! k) = page_alive (gc_pages h pid ! k) \<union> N"
  shows "heap_wf (put_pages h pid ps k)" "alive (put_pages h pid ps k) = alive h \<union> place_of (ps ! k) ` N"
proof -
  let ?h = "put_pages h pid ps k"
  have same: "same_page (gc_pages h pid ! i) (ps ! i)" "page_wf (ps ! i)" if "i < length ps" for i
    using keep [OF that] new that by (cases "i = k"; auto simp: keeps_page_def)+
  have pages: "gc_pages ?h p = (if p = pid then ps else gc_pages h p)" for p
    by (simp add: put_pages_def)
  have reg: "page_region (gc_pages ?h p ! i) = page_region (gc_pages h p ! i)" if "i < length (gc_pages h p)" for p i
    using same(1) [of i] same_page_region that len(1) by (auto simp: pages)
  have wf_at: "page_wf (gc_pages ?h p ! i) \<and> page_of_part (GC_PID_PART p) (gc_pages ?h p ! i) \<and>
      (p mod 4 = MEM_KIND_FINALIZER \<longrightarrow> sizes (gc_pages ?h p ! i) \<noteq> None)" if "i < length (gc_pages ?h p)" for p i
    using same [of i] same_page_part same_page_sizes heap_wfD [OF wf, of i p] that len(1) by (auto simp: pages)
  have "gc_free_pages ?h p \<le> length (gc_pages ?h p)" for p
    using wf by (auto simp: put_pages_def heap_wf_def heap_pages_wf_def)
  moreover have "gc_pages ?h p = []" if "p \<ge> GC_PAGE_SLOTS" for p
    using wf len(1) that by (auto simp: pages heap_wf_def heap_pages_wf_def)
  ultimately have "heap_pages_wf ?h"
    using wf_at unfolding heap_pages_wf_def by (metis in_set_conv_nth)
  moreover have "pages_apart ?h"
    using wf reg len(1) unfolding heap_wf_def pages_apart_def by (metis pages)
  ultimately show "heap_wf ?h"
    by (simp add: heap_wf_def)
  have at: "place_of (ps ! i) ` alive_in pid (ps ! i) = place_of (gc_pages h pid ! i) ` alive_in pid (gc_pages h pid ! i) \<union>
      (if i = k then place_of (ps ! k) ` N else {})" if "i < length ps" for i
  proof (cases "i = k")
    case True
    have "place_of (ps ! k) = place_of (gc_pages h pid ! k)"
      using new(2) by (auto simp: same_page_def place_of_def block_addr_def)
    then show ?thesis using True new(3) part by (auto simp: alive_in_def)
  next
    case False
    then show ?thesis using keeps_page_alive keep that part by simp
  qed
  have split: "(\<Union>p. F p) = F pid \<union> (\<Union>p\<in>- {pid}. F p)" for F :: "nat \<Rightarrow> (nat \<times> nat) set"
    by auto
  have "(\<Union>i<length ps. place_of (ps ! i) ` alive_in pid (ps ! i)) =
      (\<Union>i<length ps. place_of (gc_pages h pid ! i) ` alive_in pid (gc_pages h pid ! i)) \<union> place_of (ps ! k) ` N"
    using at len(2) by (auto split: if_splits)
  then show "alive ?h = alive h \<union> place_of (ps ! k) ` N"
    unfolding alive_index split [of "\<lambda>p. \<Union>k<length (gc_pages ?h p). _ p k"] split [of "\<lambda>p. \<Union>k<length (gc_pages h p). _ p k"]
    by (auto simp: pages len(1))
qed


lemma heap_add:
  assumes wf: "heap_wf h" and slot: "pid < GC_PAGE_SLOTS" and len: "length ps = length (gc_pages h pid)"
    and keep: "\<And>i. i < length ps \<Longrightarrow> ps ! i = gc_pages h pid ! i \<or> GC_PID_PART pid \<noteq> GC_LARGE_PART \<and> keeps_page (gc_pages h pid ! i) (ps ! i)"
    and new: "page_wf ph" "page_of_part (GC_PID_PART pid) ph" "pid mod 4 = MEM_KIND_FINALIZER \<Longrightarrow> sizes ph \<noteq> None"
    and fresh: "\<And>p i. i < length (gc_pages h p) \<Longrightarrow> page_region (gc_pages h p ! i) \<inter> page_region ph = {}"
    and h': "gc_pages h' = (gc_pages h)(pid := ph # ps)" "\<And>p. gc_free_pages h' p \<le> length (gc_pages h' p)"
  shows "heap_wf h'" "alive h' = alive h \<union> place_of ph ` alive_in pid ph"
proof -
  have same: "same_page (gc_pages h pid ! i) (ps ! i)" "page_wf (ps ! i)" if "i < length ps" for i
    using keep [OF that] heap_wfD(1) [OF wf, of i pid] that len by (auto simp: keeps_page_def same_page_def)
  define old where "old p i = (if p = pid then i - 1 else i)" for p i :: nat
  have cases: "(p = pid \<and> i = 0 \<and> gc_pages h' p ! i = ph) \<or>
      (old p i < length (gc_pages h p) \<and> same_page (gc_pages h p ! old p i) (gc_pages h' p ! i) \<and> page_wf (gc_pages h' p ! i) \<and> (p = pid \<longrightarrow> i \<noteq> 0))"
    if "i < length (gc_pages h' p)" for p i
    using that same [of "i - 1"] heap_wfD(1) [OF wf, of i p] len
    by (cases "p = pid"; cases i) (auto simp: h'(1) old_def same_page_def)
  have wf_at: "page_wf (gc_pages h' p ! i) \<and> page_of_part (GC_PID_PART p) (gc_pages h' p ! i) \<and>
      (p mod 4 = MEM_KIND_FINALIZER \<longrightarrow> sizes (gc_pages h' p ! i) \<noteq> None)" if "i < length (gc_pages h' p)" for p i
    using cases [OF that] new same_page_part same_page_sizes heap_wfD(2,3) [OF wf, of "old p i" p] by blast
  moreover have "gc_pages h' p = []" if "p \<ge> GC_PAGE_SLOTS" for p
    using wf slot that by (auto simp: h'(1) heap_wf_def heap_pages_wf_def)
  ultimately have "heap_pages_wf h'"
    using h'(2) unfolding heap_pages_wf_def by (metis in_set_conv_nth)
  moreover have "page_region (gc_pages h' p ! i) \<inter> page_region (gc_pages h' q ! j) = {}"
    if ij: "i < length (gc_pages h' p)" "j < length (gc_pages h' q)" "(p, i) \<noteq> (q, j)" for p i q j
  proof -
    have apart: "page_region (gc_pages h p ! old p i) \<inter> page_region (gc_pages h q ! old q j) = {}"
      if "old p i < length (gc_pages h p)" "old q j < length (gc_pages h q)" "p = pid \<longrightarrow> i \<noteq> 0" "q = pid \<longrightarrow> j \<noteq> 0"
    proof -
      have "(p, old p i) \<noteq> (q, old q j)"
        using that(3,4) ij(3) by (auto simp: old_def)
      then show ?thesis
        using wf that(1,2) unfolding heap_wf_def pages_apart_def by blast
    qed
    show ?thesis
      using cases [OF ij(1)] cases [OF ij(2)] ij(3) apart same_page_region fresh [of "old p i" p] fresh [of "old q j" q] by (auto simp: Int_commute)
  qed
  ultimately show "heap_wf h'"
    unfolding heap_wf_def pages_apart_def by blast
  have at: "place_of (ps ! i) ` alive_in pid (ps ! i) = place_of (gc_pages h pid ! i) ` alive_in pid (gc_pages h pid ! i)" if "i < length ps" for i
    using keep [OF that] keeps_page_alive [of "gc_pages h pid ! i" "ps ! i" pid] by (elim disjE conjE) simp_all
  then have "(\<Union>x\<in>set ps. place_of x ` alive_in pid x) = (\<Union>x\<in>set (gc_pages h pid). place_of x ` alive_in pid x)"
    unfolding UN_nth using len by simp
  then have "(\<Union>x\<in>set (gc_pages h' p). place_of x ` alive_in p x) =
      (\<Union>x\<in>set (gc_pages h p). place_of x ` alive_in p x) \<union> (if p = pid then place_of ph ` alive_in pid ph else {})" for p
    by (auto simp: h'(1))
  then show "alive h' = alive h \<union> place_of ph ` alive_in pid ph"
    unfolding alive_def by (auto split: if_splits)
qed

text \<open>The memory of a new page is not part of any page.\<close>

definition fresh_memory :: "gc_os \<Rightarrow> gc_heap \<Rightarrow> bool" where
  "fresh_memory os h \<longleftrightarrow> (\<forall>n pid. \<forall>ph\<in>set (gc_pages h pid). page_region ph \<inter> {os_memory os n..<os_memory os n + n} = {})"

lemma fresh_memoryD:
  "fresh_memory os h \<Longrightarrow> i < length (gc_pages h p) \<Longrightarrow> base ph = os_memory os (page_size ph) \<Longrightarrow> page_region (gc_pages h p ! i) \<inter> page_region ph = {}"
  using nth_mem [of i "gc_pages h p"] unfolding fresh_memory_def page_region_def by metis

subsection \<open>Allocating single blocks\<close>

lemma fixed_part_facts:
  "part < GC_FIXED_PARTS \<Longrightarrow> part < GC_PARTITIONS \<and> part \<noteq> GC_LARGE_PART"
  by (simp add: GC_FIXED_PARTS_def GC_PARTITIONS_def GC_LARGE_PART_def)

definition new_blocks :: "nat \<Rightarrow> nat \<Rightarrow> nat \<Rightarrow> (nat \<times> nat) set" where
  "new_blocks ptr got sz = {(ptr + i * sz, sz) |i. i < got}"

lemma place_of_singles: "block_size ph = sz \<Longrightarrow> place_of ph ` {(b, 1) |b. bid \<le> b \<and> b < bid + taken} = new_blocks (block_addr ph bid) taken sz"
proof -
  assume sz: "block_size ph = sz"
  have "place_of ph (bid + i, 1) = (block_addr ph bid + i * sz, sz)" for i
    using sz by (simp add: place_of_def block_addr_def add_mult_distrib)
  moreover have "{(b, 1) |b. bid \<le> b \<and> b < bid + taken} = (\<lambda>i. (bid + i, 1 :: nat)) ` {..<taken}"
    by (auto simp: image_iff) (metis le_Suc_ex nat_add_left_cancel_less lessThan_iff)
  ultimately show ?thesis
    by (simp only: image_image) (auto simp: new_blocks_def)
qed

lemma fixed_page:
  assumes "heap_wf h" "i < length (gc_pages h (GC_PID oc part kind))" "part < GC_FIXED_PARTS" "kind < 4"
  shows "sizes (gc_pages h (GC_PID oc part kind) ! i) = None" "block_size (gc_pages h (GC_PID oc part kind) ! i) = GC_SIZES ! part"
  using heap_wfD(2) [OF assms(1,2)] fixed_part_facts [OF assms(3)] part_of_GC_PID [of part kind oc] assms(3,4) by (auto simp: page_of_part_def)

text \<open>The blocks of a page that no object covers are not part of any object.\<close>

lemma place_inj: "0 < block_size ph \<Longrightarrow> place_of ph x = place_of ph y \<Longrightarrow> x = y"
  by (cases x; cases y) (auto simp: place_of_def block_addr_def)

lemma not_alive:
  assumes wf: "heap_wf h" and k: "k < length (gc_pages h pid)" and same: "same_page (gc_pages h pid ! k) ph"
    and x: "x \<notin> alive_in pid (gc_pages h pid ! k)" "fst x + snd x \<le> max_blocks ph" "0 < snd x"
  shows "place_of ph x \<notin> alive h"
proof
  let ?p = "gc_pages h pid ! k"
  obtain b n where bn: "x = (b, n)" by (cases x)
  assume "place_of ph x \<in> alive h"
  then obtain q j y where y: "j < length (gc_pages h q)" "y \<in> alive_in q (gc_pages h q ! j)" "place_of ph x = place_of (gc_pages h q ! j) y"
    by (auto simp: alive_index)
  obtain c d where cd: "y = (c, d)" by (cases y)
  have p: "page_shape ?p" "page_shape (gc_pages h q ! j)"
    using heap_wfD(1) [OF wf k] heap_wfD(1) [OF wf y(1)] page_wfD(1) by auto
  have eq: "place_of ph x = place_of ?p x" "max_blocks ph = max_blocks ?p"
    using same by (auto simp: same_page_def place_of_def block_addr_def)
  have sub: "region (place_of ?p x) \<subseteq> page_region ?p" "region (place_of ?p x) \<subseteq> page_region (gc_pages h q ! j)"
    using place_in_page [of b n ?p] place_in_page [of c d "gc_pages h q ! j"] x(2) bn cd eq p y
      alive_in_range(1) [OF heap_wfD(1,2) [OF wf y(1)], of c d] by auto
  have "region (place_of ?p x) \<noteq> {}"
    using x(3) bn p(1) by (auto simp: region_def place_of_def page_shape_def)
  then have "(pid, k) = (q, j)"
    using wf k y(1) sub unfolding heap_wf_def pages_apart_def by blast
  then show False
    using place_inj [of ?p x y] p(1) y(2,3) x(1) eq by (auto simp: page_shape_def)
qed


lemma heap_update_new:
  assumes wf: "heap_wf h" and part: "GC_PID_PART pid \<noteq> GC_LARGE_PART" and len: "length ps = length (gc_pages h pid)" "k < length ps"
    and keep: "\<And>i. i < length ps \<Longrightarrow> i \<noteq> k \<Longrightarrow> keeps_page (gc_pages h pid ! i) (ps ! i)"
    and ph: "keeps_page (gc_pages h pid ! k) ph" "page_wf (ps ! k)" "same_page ph (ps ! k)" "page_alive (ps ! k) = page_alive ph \<union> N"
    and N: "\<And>b n. (b, n) \<in> N \<Longrightarrow> b + n \<le> max_blocks ph \<and> 0 < n \<and> (\<forall>(c, d)\<in>page_alive ph. {c..<c + d} \<inter> {b..<b + n} = {})"
  shows "heap_wf (put_pages h pid ps k)" "alive (put_pages h pid ps k) = alive h \<union> place_of (ps ! k) ` N"
    "place_of (ps ! k) ` N \<inter> alive h = {}"
proof -
  have same: "same_page (gc_pages h pid ! k) (ps ! k)" "page_alive ph = page_alive (gc_pages h pid ! k)"
    using ph(1,3) by (auto simp: keeps_page_def same_page_def)
  then show "heap_wf (put_pages h pid ps k)" "alive (put_pages h pid ps k) = alive h \<union> place_of (ps ! k) ` N"
    using heap_update [OF wf part len keep ph(2) same(1)] ph(4) by auto
  have "place_of (ps ! k) (b, n) \<notin> alive h" if "(b, n) \<in> N" for b n
  proof (rule not_alive [OF wf _ same(1)])
    show "(b, n) \<notin> alive_in pid (gc_pages h pid ! k)"
    proof
      assume "(b, n) \<in> alive_in pid (gc_pages h pid ! k)"
      then have "{b..<b + n} \<inter> {b..<b + n} = {}"
        using N [OF that] part unfolding alive_in_def same(2) [symmetric] by auto
      then show False using N [OF that] by simp
    qed
  qed (use N [OF that] len ph(3) in \<open>auto simp: same_page_def\<close>)
  then show "place_of (ps ! k) ` N \<inter> alive h = {}"
    by auto
qed

lemma heap_add_new:
  assumes wf: "heap_wf h" and slot: "pid < GC_PAGE_SLOTS" and part: "GC_PID_PART pid \<noteq> GC_LARGE_PART" and len: "length ps = length (gc_pages h pid)"
    and keep: "\<And>i. i < length ps \<Longrightarrow> keeps_page (gc_pages h pid ! i) (ps ! i)"
    and new: "page_wf ph" "page_of_part (GC_PID_PART pid) ph" "pid mod 4 = MEM_KIND_FINALIZER \<Longrightarrow> sizes ph \<noteq> None" "base ph = os_memory os (page_size ph)" "page_alive ph = N" and os: "fresh_memory os h"
  shows "heap_wf (put_pages h pid (ph # ps) 0)" "alive (put_pages h pid (ph # ps) 0) = alive h \<union> place_of ph ` N"
    "place_of ph ` N \<inter> alive h = {}"
proof -
  let ?h = "put_pages h pid (ph # ps) 0"
  note fresh = fresh_memoryD [OF os _ new(4)]
  have free: "gc_free_pages ?h p \<le> length (gc_pages ?h p)" for p
    using wf by (auto simp: put_pages_def heap_wf_def heap_pages_wf_def)
  have N: "alive_in pid ph = N"
    using part new(5) by (simp add: alive_in_def)
  show "heap_wf ?h" "alive ?h = alive h \<union> place_of ph ` N"
    using heap_add [OF wf slot len _ new(1-3) fresh _ free] keep part unfolding N by (auto simp: put_pages_def)
  show "place_of ph ` N \<inter> alive h = {}"
  proof (rule ccontr)
    assume "place_of ph ` N \<inter> alive h \<noteq> {}"
    then obtain x where "x \<in> N" "place_of ph x \<in> alive h"
      by blast
    moreover obtain b n where "x = (b, n)"
      by (cases x)
    ultimately obtain q j c d where y: "(b, n) \<in> alive_in pid ph" "j < length (gc_pages h q)" "(c, d) \<in> alive_in q (gc_pages h q ! j)"
      "place_of ph (b, n) = place_of (gc_pages h q ! j) (c, d)"
      unfolding N alive_index by auto
    let ?p = "gc_pages h q ! j"
    have "region (place_of ph (b, n)) \<subseteq> page_region ph"
      using place_in_page alive_in_range(1) [OF new(1,2) y(1)] page_wfD(1) [OF new(1)] by blast
    moreover have "region (place_of ph (b, n)) \<subseteq> page_region ?p"
      unfolding y(4) using place_in_page alive_in_range(1) [OF heap_wfD(1,2) [OF wf y(2)] y(3)] page_wfD(1) [OF heap_wfD(1) [OF wf y(2)]] by blast
    moreover have "region (place_of ph (b, n)) \<noteq> {}"
      using alive_in_range(2) [OF new(1,2) y(1)] page_wfD(1) [OF new(1)] by (auto simp: region_def place_of_def page_shape_def)
    ultimately show False
      using fresh [OF y(2)] by blast
  qed
qed

lemma gc_alloc_fixed_run_ok:
  assumes wf: "heap_wf h" and part: "part < GC_FIXED_PARTS" "kind < 4" "kind \<noteq> MEM_KIND_FINALIZER" and oc: "oc < GC_PAGE_CLASSES" and want: "0 < want" "want \<le> 1000" and os: "fresh_memory os h"
  obtains ptr got h' where "gc_alloc_fixed_run os oc part kind want h = Some (ptr, got, h')" "0 < got" "got \<le> want" "heap_wf h'"
    "alive h' = alive h \<union> new_blocks ptr got (GC_SIZES ! part)" "new_blocks ptr got (GC_SIZES ! part) \<inter> alive h = {}"
proof -
  define pid where "pid = GC_PID oc part kind"
  have pid: "GC_PID_PART pid = part" "GC_PID_PART pid \<noteq> GC_LARGE_PART"
    using fixed_part_facts [OF part(1)] part_of_GC_PID [of part kind oc] part(2) by (auto simp: pid_def)
  have slot: "pid < GC_PAGE_SLOTS"
    using GC_PID_slot [OF oc] fixed_part_facts [OF part(1)] part(2) by (simp add: pid_def)
  let ?tk = "\<lambda>fl. map_option (\<lambda>(b, t, fl). ((b, t), fl)) (take_fixed want fl)"
  from wf show ?thesis
  proof (cases rule: find_from_ok [where pid = pid and tk = ?tk])
    case (some ps k a ph fl)
    obtain bid taken where a: "a = (bid, taken)" "take_fixed want (free ph) = Some (bid, taken, fl)"
      using some(7) by auto
    have k: "k < length (gc_pages h pid)"
      using some by simp
    have ph: "page_wf ph" "sizes ph = None" "block_size ph = GC_SIZES ! part"
      using some(5) fixed_page [OF wf k [unfolded pid_def] part(1,2)] by (auto simp: keeps_page_def same_page_def pid_def)
    note take = take_fixed_ok [OF ph(1,2) some(6) want(1) a(2)]
    let ?N = "{(b, 1) |b. bid \<le> b \<and> b < bid + taken}"
    have N: "b + n \<le> max_blocks ph \<and> 0 < n \<and> (\<forall>(c, d)\<in>page_alive ph. {c..<c + d} \<inter> {b..<b + n} = {})" if "(b, n) \<in> ?N" for b n
    proof -
      have "{b..<b + n} \<subseteq> {bid..<bid + taken}" "b + n \<le> bid + taken" "0 < n"
        using that by auto
      then show ?thesis using take(4,6) by fastforce
    qed
    have pg: "page_wf (ps ! k)" "same_page ph (ps ! k)" "page_alive (ps ! k) = page_alive ph \<union> ?N"
      using take(1,5) some(8) by (auto simp: same_page_def)
    note upd = heap_update_new [OF wf pid(2) some(2-5) pg N]
    have "place_of (ps ! k) ` ?N = new_blocks (block_addr (ps ! k) bid) taken (GC_SIZES ! part)"
      using ph(3) some(8) by (intro place_of_singles) simp
    then show ?thesis
      using upd take(2,3) some(1) a(1)
      by (intro that [of "block_addr (ps ! k) bid" taken "put_pages h pid ps k"]) (simp_all add: gc_alloc_fixed_run_def pid_def)
  next
    case (none ps)
    define blocks where "blocks = new_page_size (length ps) GC_PAGE_SIZE (GC_SIZES ! part) div (GC_SIZES ! part)"
    note room = fixed_page_room [OF part(1) refl blocks_def]
    have "0 < blocks" using room by simp
    then obtain ph where ph: "gc_allocator_new_page os ps (GC_SIZES ! part) GC_PAGE_SIZE kind False = Some ph" "page_wf ph" "objs ph = {}"
      "base ph = os_memory os (page_size ph)" "block_size ph = GC_SIZES ! part" "first_block ph = 0" "max_blocks ph = blocks" "sizes ph = None"
      "\<not> need_flush ph" "fl_data (free ph) = [(0, blocks)]" "fl_current (free ph) = 0"
      "page_size ph = new_page_size (length ps) GC_PAGE_SIZE (GC_SIZES ! part)"
      using new_page_ok [OF room(1) refl blocks_def room(2) refl, where os = os and kind = kind and varsize = False] room(3)
      by (simp only: if_False diff_zero) blast
    define fl where "fl = (free ph)\<lparr>fl_data := [(want, blocks - want)]\<rparr>"
    have "take_fixed want (free ph) = Some (0, want, fl)"
      using ph(10,11) room(4) want(2) by (simp add: take_fixed_def fl_def)
    note take = take_fixed_ok [OF ph(2,8,9) want(1) this]
    let ?N = "{(b, 1) |b. 0 \<le> b \<and> b < 0 + want}"
    have part_ok: "page_of_part (GC_PID_PART pid) (ph\<lparr>free := fl\<rparr>)"
      using pid ph(5,8) part(1) by (simp add: page_of_part_def)
    have alive: "page_alive (ph\<lparr>free := fl\<rparr>) = ?N"
      using take(5) ph(3) by (simp add: page_alive_def)
    have kind: "pid mod 4 \<noteq> MEM_KIND_FINALIZER"
      using part(2,3) by (simp add: pid_def GC_PID_kind)
    have "heap_wf (put_pages h pid (ph\<lparr>free := fl\<rparr> # ps) 0)"
        "alive (put_pages h pid (ph\<lparr>free := fl\<rparr> # ps) 0) = alive h \<union> place_of (ph\<lparr>free := fl\<rparr>) ` ?N"
        "place_of (ph\<lparr>free := fl\<rparr>) ` ?N \<inter> alive h = {}"
      using heap_add_new [OF wf slot pid(2) none(2,3) take(1) part_ok _ _ alive os] ph(4) kind by simp_all
    moreover have "place_of (ph\<lparr>free := fl\<rparr>) ` ?N = new_blocks (block_addr (ph\<lparr>free := fl\<rparr>) 0) want (GC_SIZES ! part)"
      using ph(5) by (intro place_of_singles) simp
    ultimately show ?thesis
      using none(1) ph(1,10) want room(4)
      by (intro that [of "block_addr (ph\<lparr>free := fl\<rparr>) 0" want "put_pages h pid (ph\<lparr>free := fl\<rparr> # ps) 0"])
        (simp_all add: gc_alloc_fixed_run_def pid_def [symmetric] load_def fl_def)
  qed
qed


subsection \<open>Allocating runs of blocks\<close>

definition var_part :: "nat \<Rightarrow> bool" where
  "var_part part \<longleftrightarrow> part \<in> {5, 6, 7}"

lemma var_part_facts:
  assumes "var_part part"
  shows "part < GC_PARTITIONS" "part \<noteq> GC_LARGE_PART" "\<not> part < GC_FIXED_PARTS" "GC_SIZES ! part = 2 ^ (GC_SBITS ! part)"
    "GC_SIZES ! part = 8 \<or> GC_SIZES ! part = 64 \<or> GC_SIZES ! part = 8192"
  using assms by (auto simp: var_part_def GC_PARTITIONS_def GC_LARGE_PART_def GC_FIXED_PARTS_def GC_SIZES_def GC_SBITS_def)

lemma var_page_room:
  assumes part: "block = 8 \<or> block = 64 \<or> block = 8192" and sz: "sz = n * block" "0 < n" "n < 255"
    and blocks: "blocks = new_page_size npages (var_page_size GC_PAGE_SIZE sz) block div block"
  shows "blocks \<le> GC_PAGE_SIZE" "new_first blocks block True + n \<le> blocks"
proof -
  have "blocks \<le> GC_PAGE_SIZE \<and> new_first blocks block True + n \<le> blocks"
  proof (cases "block = 8192")
    case True
    then have "blocks = var_page_size GC_PAGE_SIZE sz div 8192"
      using blocks by (simp add: new_page_size_def)
    then show ?thesis
      using large_var_room [of sz n blocks] sz True by simp
  next
    case False
    then have block: "block = 8 \<or> block = 64"
      using part by simp
    then have "\<not> GC_PAGE_SIZE < sz + 1024"
      using sz by (auto simp: GC_PAGE_SIZE_def)
    then have "var_page_size GC_PAGE_SIZE sz = GC_PAGE_SIZE"
      by (simp add: var_page_size.simps [of GC_PAGE_SIZE sz])
    then have "blocks = new_page_size npages GC_PAGE_SIZE block div block"
      using blocks by simp
    then show ?thesis
      using small_var_room [OF block] sz(3) by fastforce
  qed
  then show "blocks \<le> GC_PAGE_SIZE" "new_first blocks block True + n \<le> blocks"
    by auto
qed

lemma place_of_same: "same_page ph ph' \<Longrightarrow> place_of ph' = place_of ph"
  by (auto simp: same_page_def place_of_def block_addr_def)

lemma gc_alloc_var_ok:
  assumes wf: "heap_wf h" and part: "var_part part" "kind < 4" and oc: "oc < GC_PAGE_CLASSES" and sz: "sz = n * (GC_SIZES ! part)" "0 < n" "n < 255" and os: "fresh_memory os h"
  obtains ptr h' where "gc_alloc_var os oc part sz kind h = Some (ptr, h')" "heap_wf h'"
    "alive h' = insert (ptr, sz) (alive h)" "(ptr, sz) \<notin> alive h"
proof -
  define pid where "pid = GC_PID oc part kind"
  note facts = var_part_facts [OF part(1)]
  have pid: "GC_PID_PART pid = part" "GC_PID_PART pid \<noteq> GC_LARGE_PART"
    using facts part_of_GC_PID [of part kind oc] part(2) by (auto simp: pid_def)
  have slot: "pid < GC_PAGE_SLOTS"
    using GC_PID_slot [OF oc facts(1) part(2)] by (simp add: pid_def)
  have n: "drop_bit (GC_SBITS ! part) sz = n"
    using sz(1) facts(4) by (simp add: drop_bit_eq_div)
  have n256: "n < 256"
    using sz(3) by simp
  have at: "place_of ph (b, n) = (block_addr ph b, sz)" if "block_size ph = GC_SIZES ! part" for ph b
    using that sz(1) by (simp add: place_of_def)
  from wf show ?thesis
  proof (cases rule: find_from_ok [where pid = pid and tk = "take_var n"])
    case (some ps k p ph fl)
    have k: "k < length (gc_pages h pid)"
      using some by simp
    obtain s where ph: "page_wf ph" "sizes ph = Some s" "block_size ph = GC_SIZES ! part"
      using some(5) heap_wfD(2) [OF wf k] pid facts by (auto simp: keeps_page_def same_page_def page_of_part_def)
    obtain ph' where ph': "mark_allocated (ph\<lparr>free := fl\<rparr>) p n = Some ph'" "page_wf ph'" "same_page ph ph'" "\<not> need_flush ph'"
      "page_alive ph' = insert (p, n) (page_alive ph)" "first_block ph \<le> p" "p + n \<le> max_blocks ph"
      "\<And>b m. (b, m) \<in> page_alive ph \<Longrightarrow> {b..<b + m} \<inter> {p..<p + n} = {}"
      using take_var_ok [OF ph(1,2) some(6) sz(2) n256 some(7)] by blast
    let ?ps = "ps[k := ph']"
    have ps: "length ?ps = length (gc_pages h pid)" "k < length ?ps" "?ps ! k = ph'"
      using some(2,3) by auto
    have keep: "keeps_page (gc_pages h pid ! i) (?ps ! i)" if "i < length ?ps" "i \<noteq> k" for i
      using some(4) [of i] that by simp
    have pg: "page_wf (?ps ! k)" "same_page ph (?ps ! k)" "page_alive (?ps ! k) = page_alive ph \<union> {(p, n)}"
      using ph' ps(3) by auto
    have N: "b + m \<le> max_blocks ph \<and> 0 < m \<and> (\<forall>(c, d)\<in>page_alive ph. {c..<c + d} \<inter> {b..<b + m} = {})" if "(b, m) \<in> {(p, n)}" for b m
      using that ph'(7,8) sz(2) by auto
    note upd = heap_update_new [OF wf pid(2) ps(1,2) keep some(5) pg N]
    have "place_of (?ps ! k) ` {(p, n)} = {(block_addr ph' p, sz)}"
      using at [of ph' p] ph'(3) ph(3) ps(3) by (simp add: same_page_def)
    then show ?thesis
      using upd some(1,8) ph'(1) n
      by (intro that [of "block_addr ph' p" "put_pages h pid ?ps k"]) (simp_all add: gc_alloc_var_def pid_def)
  next
    case (none ps)
    define psz where "psz = var_page_size GC_PAGE_SIZE sz"
    define blocks where "blocks = new_page_size (length ps) psz (GC_SIZES ! part) div (GC_SIZES ! part)"
    define first where "first = new_first blocks (GC_SIZES ! part) True"
    have room: "blocks \<le> GC_PAGE_SIZE" "first + n \<le> blocks"
      using var_page_room [OF facts(5) sz blocks_def [unfolded psz_def]] by (auto simp: first_def)
    have pos: "0 < GC_SIZES ! part" "first < blocks"
      using facts(5) room(2) sz(2) by auto
    obtain ph where ph: "gc_allocator_new_page os ps (GC_SIZES ! part) psz kind True = Some ph" "page_wf ph" "objs ph = {}"
      "base ph = os_memory os (page_size ph)" "page_size ph = new_page_size (length ps) psz (GC_SIZES ! part)"
      "block_size ph = GC_SIZES ! part" "first_block ph = first" "max_blocks ph = blocks" "sizes ph = Some (replicate blocks 0)"
      "\<not> need_flush ph" "fl_data (free ph) = [(first, blocks - first)]" "fl_current (free ph) = 0"
      using new_page_ok [OF pos(1) refl blocks_def room(1) first_def pos(2), where os = os and kind = kind]
      by (simp only: if_True) blast
    define fl where "fl = (free ph)\<lparr>fl_data := [(first + n, blocks - (first + n))]\<rparr>"
    have fl: "fl_wf fl" "fl_runs fl = [(first + n, blocks - (first + n))]"
      using page_wfD(2) [OF ph(2)] ph(11,12) by (auto simp: fl_def fl_wf_def fl_runs_def)
    obtain ph' where ph': "mark_allocated (ph\<lparr>free := fl\<rparr>) first n = Some ph'" "page_wf ph'" "same_page ph ph'" "\<not> need_flush ph'"
      "page_alive ph' = insert (first, n) (page_alive ph)"
      using place_object [OF ph(2,9,10) sz(2) n256, of first fl] ph(3,7,8) fl room(2) by (auto simp: numeral_2_eq_2)
    have "page_of_part (GC_PID_PART pid) ph"
      using pid ph(6,9) facts(2,3) by (simp add: page_of_part_def)
    then have part_ok: "page_of_part (GC_PID_PART pid) ph'"
      by (rule same_page_part [OF ph'(3)])
    have new: "base ph' = os_memory os (page_size ph')" "page_alive ph' = {(first, n)}"
      using ph(3,4) ph'(3,5) by (auto simp: same_page_def page_alive_def)
    have "sizes ph' \<noteq> None"
      using ph(9) ph'(3) by (auto simp: same_page_def)
    note add = heap_add_new [OF wf slot pid(2) none(2,3) ph'(2) part_ok this new os]
    have "place_of ph' ` {(first, n)} = {(block_addr ph' first, sz)}"
      using at [of ph' first] ph'(3) ph(6) by (simp add: same_page_def)
    moreover have "n \<le> blocks - first"
      using room(2) by simp
    ultimately show ?thesis
      using add none(1) ph(1,7,11) ph'(1) n room(2)
      by (intro that [of "block_addr ph' first" "put_pages h pid (ph' # ps) 0"])
        (simp_all add: gc_alloc_var_def pid_def [symmetric] load_def fl_def [symmetric] psz_def [symmetric])
  qed
qed


subsection \<open>Size classes\<close>

lemma round_up_pow2:
  obtains m where "round_up sz (2 ^ k) = m * 2 ^ k" "sz \<le> round_up sz (2 ^ k)" "round_up sz (2 ^ k) < sz + 2 ^ k"
proof -
  have "(- int sz) AND (int (2 ^ k) - 1) = (- int sz) mod 2 ^ k"
    by (simp add: take_bit_eq_mask [symmetric] mask_eq_exp_minus_1 [symmetric] take_bit_eq_mod)
  then have eq: "round_up sz (2 ^ k) = sz + nat ((- int sz) mod 2 ^ k)"
    by (simp add: round_up_def)
  define r where "r = (- int sz) mod 2 ^ k"
  have r: "0 \<le> r" "r < 2 ^ k"
    by (simp_all add: r_def)
  have "(int sz + r) mod 2 ^ k = 0"
    by (simp add: r_def mod_simps)
  then have "2 ^ k dvd int sz + r"
    by (simp add: dvd_eq_mod_eq_0)
  then have "int (2 ^ k) dvd int (sz + nat r)"
    using r by simp
  then have "2 ^ k dvd sz + nat r"
    by (simp only: int_dvd_int_iff)
  then obtain m where "sz + nat r = m * 2 ^ k"
    by (metis dvd_def mult.commute)
  moreover have "nat r < 2 ^ k"
    using r by (simp add: nat_less_iff)
  ultimately show ?thesis
    using that [of m] eq unfolding r_def [symmetric] by linarith
qed

definition in_class :: "nat \<Rightarrow> nat \<Rightarrow> bool" where
  "in_class sz p \<longleftrightarrow> round_up sz (GC_SIZES ! p) < GC_SIZES ! p * 255"

lemma size_class_range:
  assumes "0 < sz" "sz < GC_LARGE_BLOCK" "find (in_class sz) [GC_FIXED_PARTS..<GC_PARTITIONS] = r"
  obtains p n where "r = Some p" "var_part p" "round_up sz (GC_SIZES ! p) = n * (GC_SIZES ! p)" "0 < n" "n < 255" "sz \<le> n * (GC_SIZES ! p)"
proof -
  have parts: "[GC_FIXED_PARTS..<GC_PARTITIONS] = [5, 6, 7, 8]"
    by (simp add: GC_FIXED_PARTS_def GC_PARTITIONS_def upt_rec)
  have "round_up sz (2 ^ 13) < sz + 2 ^ 13"
    using round_up_pow2 [of sz 13] by blast
  then have seven: "in_class sz 7"
    using assms(2) by (simp add: in_class_def GC_SIZES_def GC_LARGE_BLOCK_def)
  obtain p where p: "r = Some p" "var_part p" "in_class sz p"
    using assms(3) seven that unfolding parts by (auto simp: var_part_def split: if_splits)
  obtain n where n: "round_up sz (GC_SIZES ! p) = n * (GC_SIZES ! p)" "sz \<le> round_up sz (GC_SIZES ! p)"
    using round_up_pow2 [of sz "GC_SBITS ! p"] unfolding var_part_facts(4) [OF p(2), symmetric] by blast
  have "n < 255"
    using p(3) n(1) by (simp add: in_class_def mult.commute)
  moreover have "0 < n"
    using n assms(1) by (cases n) auto
  ultimately show ?thesis
    using that [OF p(1,2) n(1)] n by simp
qed

lemma fixed_class:
  assumes "sz = m * 8" "0 < m" "sz \<le> GC_SIZES ! (GC_FIXED_PARTS - 1)"
  shows "drop_bit 3 sz - 1 < GC_FIXED_PARTS" "GC_SIZES ! (drop_bit 3 sz - 1) = sz"
proof -
  have "m = 1 \<or> m = 2 \<or> m = 3 \<or> m = 4 \<or> m = 5"
    using assms by (simp add: GC_SIZES_def GC_FIXED_PARTS_def) arith
  then show "drop_bit 3 sz - 1 < GC_FIXED_PARTS" "GC_SIZES ! (drop_bit 3 sz - 1) = sz"
    using assms(1) by (auto simp: drop_bit_eq_div GC_SIZES_def GC_FIXED_PARTS_def)
qed

lemma new_blocks_one: "new_blocks ptr 1 sz = {(ptr, sz)}"
  by (auto simp: new_blocks_def)

definition allocated :: "gc_heap \<Rightarrow> nat \<Rightarrow> nat \<Rightarrow> gc_heap \<Rightarrow> bool" where
  "allocated h ptr sz h' \<longleftrightarrow> heap_wf h' \<and> alive h' = insert (ptr, sz) (alive h) \<and> (ptr, sz) \<notin> alive h"

lemma gc_alloc_large_ok:
  assumes wf: "heap_wf h" and kind: "kind < 4" and oc: "oc < GC_PAGE_CLASSES" and fin: "kind \<noteq> MEM_KIND_FINALIZER" and sz: "256 \<le> sz" and os: "fresh_memory os h" and pid: "pid = GC_PID oc GC_LARGE_PART kind"
  obtains ph where "gc_allocator_new_page os (gc_pages h pid) sz sz kind False = Some ph"
    "allocated h (base ph) sz (h\<lparr>gc_pages := (gc_pages h)(pid := ph # gc_pages h pid)\<rparr>)"
proof -
  have part: "GC_PID_PART pid = GC_LARGE_PART"
    using kind by (simp add: pid part_of_GC_PID GC_LARGE_PART_def GC_PARTITIONS_def)
  have slot: "pid < GC_PAGE_SLOTS"
    using GC_PID_slot [OF oc _ kind, of GC_LARGE_PART] by (simp add: pid GC_LARGE_PART_def GC_PARTITIONS_def)
  have new: "new_page_size (length (gc_pages h pid)) sz sz = sz" "sz div sz = 1" "0 < sz" "new_first 1 sz False = 0" "1 \<le> GC_PAGE_SIZE"
    using sz by (auto simp: new_page_size_def new_first_def align_up_def GC_PAGE_SIZE_def)
  obtain ph where ph: "gc_allocator_new_page os (gc_pages h pid) sz sz kind False = Some ph" "page_wf ph" "objs ph = {}"
    "base ph = os_memory os (page_size ph)" "page_size ph = sz" "block_size ph = sz" "first_block ph = 0" "max_blocks ph = 1"
    "sizes ph = None" "\<not> need_flush ph"
    using new_page_ok [OF new(3) new(1) [symmetric] new(2) [symmetric] new(5) new(4) [symmetric], where os = os and kind = kind]
    by (simp only: if_False) force
  let ?h = "h\<lparr>gc_pages := (gc_pages h)(pid := ph # gc_pages h pid)\<rparr>"
  have one: "alive_in pid ph = {(0, 1)}" "place_of ph (0, 1) = (base ph, sz)"
    using ph(6,10) part by (auto simp: alive_in_def place_of_def block_addr_def)
  have part_ok: "page_of_part (GC_PID_PART pid) ph"
    using part ph by (simp add: page_of_part_def)
  have free: "gc_free_pages ?h p \<le> length (gc_pages ?h p)" for p
    using wf by (auto simp: heap_wf_def heap_pages_wf_def le_SucI)
  have fin': "sizes ph \<noteq> None" if "pid mod 4 = MEM_KIND_FINALIZER"
    using that fin kind by (simp add: pid GC_PID_kind)
  note fresh = fresh_memoryD [OF os _ ph(4)]
  have "heap_wf ?h" "alive ?h = alive h \<union> place_of ph ` alive_in pid ph"
    using heap_add [OF wf slot refl _ ph(2) part_ok fin' fresh _ free] by auto
  moreover have "(base ph, sz) \<notin> alive h"
  proof
    assume "(base ph, sz) \<in> alive h"
    then obtain q j x where y: "j < length (gc_pages h q)" "x \<in> alive_in q (gc_pages h q ! j)" "(base ph, sz) = place_of (gc_pages h q ! j) x"
      unfolding alive_index by auto
    obtain c d where x: "x = (c, d)" by (cases x)
    have "region (base ph, sz) \<subseteq> page_region (gc_pages h q ! j)"
      using place_in_page [of c d "gc_pages h q ! j"] alive_in_range(1) [OF heap_wfD(1,2) [OF wf y(1)]] y x page_wfD(1) [OF heap_wfD(1) [OF wf y(1)]] by simp
    moreover have "base ph \<in> region (base ph, sz)" "base ph \<in> page_region ph"
      using new(3) ph(5) by (auto simp: region_def page_region_def)
    ultimately show False using fresh [OF y(1)] by blast
  qed
  ultimately show ?thesis
    using that [OF ph(1)] one by (simp add: allocated_def)
qed

lemma gc_allocator_alloc_ok:
  assumes wf: "heap_wf h" and sz: "0 < sz" "sz + 2 * GC_PAGE_SIZE \<le> INT_LIMIT" and kind: "kind < 4" and oc: "oc < GC_PAGE_CLASSES"
    and fin: "kind = MEM_KIND_FINALIZER \<longrightarrow> round_up sz 8 < GC_LARGE_BLOCK" and os: "fresh_memory os h"
  obtains sz' ptr h' where "gc_allocator_alloc os sz kind oc h = Some (int sz', Some ptr, h')" "sz \<le> sz'" "allocated h ptr sz' h'"
proof -
  obtain m where m: "round_up sz 8 = m * 8" "sz \<le> round_up sz 8" "round_up sz 8 < sz + 8"
    using round_up_pow2 [of sz 3] by auto
  define s where "s = round_up sz 8"
  have s: "s = m * 8" "0 < m" "sz \<le> s"
    using m sz by (auto simp: s_def)
  have int: "\<not> INT_LIMIT \<le> s"
    using m(3) sz(2) by (simp add: s_def GC_PAGE_SIZE_def)
  show ?thesis
  proof (cases "s \<ge> GC_LARGE_BLOCK")
    case True
    have up: "round_up s GC_PAGE_SIZE < INT_LIMIT"
      using round_up_pow2 [of s 16] sz(2) m(3) unfolding s_def [symmetric] GC_PAGE_SIZE_def by fastforce
    obtain l where "s \<le> round_up s GC_PAGE_SIZE"
      using round_up_pow2 [of s 16] unfolding GC_PAGE_SIZE_def by blast
    moreover obtain ph where "gc_allocator_new_page os (gc_pages h (GC_PID oc GC_LARGE_PART kind)) (round_up s GC_PAGE_SIZE) (round_up s GC_PAGE_SIZE) kind False = Some ph"
      "allocated h (base ph) (round_up s GC_PAGE_SIZE)
         (h\<lparr>gc_pages := (gc_pages h)(GC_PID oc GC_LARGE_PART kind := ph # gc_pages h (GC_PID oc GC_LARGE_PART kind))\<rparr>)"
      using gc_alloc_large_ok [OF wf kind oc _ _ os refl, of "round_up s GC_PAGE_SIZE"] True fin calculation unfolding s_def [symmetric] by (auto simp: GC_LARGE_BLOCK_def)
    ultimately show ?thesis
      using True s(3) up int by (intro that) (auto simp: gc_allocator_alloc_def Let_def s_def [symmetric])
  next
    case False
    note small = False
    show ?thesis
    proof (cases "s \<le> GC_SIZES ! (GC_FIXED_PARTS - 1) \<and> kind \<noteq> MEM_KIND_FINALIZER")
      case True
      note cls = fixed_class [OF s(1,2)]
      obtain ptr got h' where r: "gc_alloc_fixed_run os oc (drop_bit 3 s - 1) kind 1 h = Some (ptr, got, h')" "0 < got" "got \<le> 1" "heap_wf h'"
        "alive h' = alive h \<union> new_blocks ptr got s" "new_blocks ptr got s \<inter> alive h = {}"
        using gc_alloc_fixed_run_ok [OF wf cls(1) kind _ oc _ _ os, of 1] cls(2) True by auto
      have "got = 1"
        using r by simp
      then have "allocated h ptr s h'"
        using r(4-6) by (simp add: allocated_def new_blocks_one [simplified])
      then show ?thesis
        using r(1) True small int s cls(2) by (intro that [of s ptr h']) (auto simp: gc_allocator_alloc_def gc_alloc_fixed_def Let_def s_def [symmetric])
    next
      case False
      obtain p n where p: "find (in_class s) [GC_FIXED_PARTS..<GC_PARTITIONS] = Some p" "var_part p"
        "round_up s (GC_SIZES ! p) = n * (GC_SIZES ! p)" "0 < n" "n < 255" "s \<le> n * (GC_SIZES ! p)"
        using size_class_range [OF _ _ refl, of s] s sz small by auto
      obtain ptr h' where "gc_alloc_var os oc p (n * (GC_SIZES ! p)) kind h = Some (ptr, h')" "heap_wf h'"
          "alive h' = insert (ptr, n * (GC_SIZES ! p)) (alive h)" "(ptr, n * (GC_SIZES ! p)) \<notin> alive h"
        using gc_alloc_var_ok [OF wf p(2) kind oc refl p(4,5) os] by blast
      then show ?thesis
        using False small int p(1,3,6) s(3) unfolding in_class_def
        by (intro that [of "n * (GC_SIZES ! p)" ptr h']) (auto simp: gc_allocator_alloc_def Let_def s_def [symmetric] allocated_def)
    qed
  qed
qed

end
