(* ===== verification/GcMark.thy ===== *)
theory GcMark
  imports GcHeap
begin
unbundle bit_operations_syntax

text \<open>
  A collection: the stop-the-world marking of \<^verbatim>\<open>src/src/gc.c\<close> with one marking thread, and what
  \<^verbatim>\<open>src/src/allocator.c\<close> does before and after it.

  The mark bits of all pages are parts of one array; a page keeps its part in \<open>bmp\<close>. The page map of the source gives the
  page of an address; it is the search for the page that contains it. Memory is a function from addresses to 8-byte words.
  The sentinel at the bottom of the mark stack is the empty list.
\<close>

subsection \<open>Preparing the mark bits\<close>

fun assign_marks :: "u8 list \<Rightarrow> gc_page list \<Rightarrow> gc_page list \<times> u8 list" where
  "assign_marks mc [] = ([], mc)"
| "assign_marks mc (p # ps) = (let n = (max_blocks p + 7) div 8; (qs, rest) = assign_marks (drop n mc) ps in
     (p\<lparr>bmp := Some (take n mc), need_flush := True\<rparr> # qs, rest))"

definition before_mark_slot :: "nat \<Rightarrow> gc_heap \<times> u8 list \<Rightarrow> gc_heap \<times> u8 list" where
  "before_mark_slot pid = (\<lambda>(h, mc). let (ps, rest) = assign_marks mc (gc_pages h pid) in
     (h\<lparr>gc_pages := (gc_pages h)(pid := ps), gc_free_pages := (gc_free_pages h)(pid := length ps)\<rparr>, rest))"

definition gc_allocator_before_mark :: "u8 list \<Rightarrow> gc_heap \<Rightarrow> gc_heap" where
  "gc_allocator_before_mark mark_cur h = fst (fold before_mark_slot [0..<GC_PAGE_SLOTS] (h, mark_cur))"

text \<open>\<open>gc_stats.mark_bytes\<close>, which \<open>gc_alloc_page\<close> and \<open>gc_free_page\<close> keep up to date.\<close>

definition mark_bytes :: "gc_heap \<Rightarrow> nat" where
  "mark_bytes h = sum_list (map (\<lambda>pid. sum_list (map (\<lambda>p. (max_blocks p + 7) div 8) (gc_pages h pid))) [0..<GC_PAGE_SLOTS])"

subsection \<open>Pages and blocks of pointers\<close>

definition INPAGE :: "nat \<Rightarrow> gc_page \<Rightarrow> bool" where
  "INPAGE ptr page \<longleftrightarrow> base page \<le> ptr \<and> ptr < base page + page_size page"

definition page_ids :: "gc_heap \<Rightarrow> (nat \<times> nat) list" where
  "page_ids h = concat (map (\<lambda>pid. map (Pair pid) [0..<length (gc_pages h pid)]) [0..<GC_PAGE_SLOTS])"

definition hl_gc_get_page :: "gc_heap \<Rightarrow> nat \<Rightarrow> (nat \<times> nat) option" where
  "hl_gc_get_page h p = find (\<lambda>(pid, k). INPAGE p (gc_pages h pid ! k)) (page_ids h)"

text \<open>The page and block that a pointer refers to, with \<open>gc_allocator_get_block_id\<close> or \<open>gc_allocator_get_block_interior\<close>.\<close>

definition gc_block_exact :: "gc_heap \<Rightarrow> nat \<Rightarrow> (nat \<times> nat \<times> nat) option option" where
  "gc_block_exact h p = (case hl_gc_get_page h p of None \<Rightarrow> Some None
     | Some (pid, k) \<Rightarrow> let page = gc_pages h pid ! k in
         map_option (map_option (\<lambda>bid. (pid, k, bid))) (gc_allocator_get_block_id page (p - base page)))"

definition gc_block_interior :: "gc_heap \<Rightarrow> nat \<Rightarrow> ((nat \<times> nat \<times> nat) \<times> nat) option option" where
  "gc_block_interior h p = (case hl_gc_get_page h p of None \<Rightarrow> Some None
     | Some (pid, k) \<Rightarrow> let page = gc_pages h pid ! k in
         map_option (map_option (\<lambda>(bid, block). ((pid, k, bid), block))) (gc_allocator_get_block_interior page (p - base page)))"

subsection \<open>Marking\<close>

type_synonym mark_state = "gc_heap \<times> nat list"

definition MEM_KIND_DYNAMIC :: nat where
  "MEM_KIND_DYNAMIC = 0"

definition MEM_HAS_PTR :: "nat \<Rightarrow> bool" where
  "MEM_HAS_PTR kind \<longleftrightarrow> kind AND 2 = 0"

definition set_page :: "gc_heap \<Rightarrow> nat \<Rightarrow> nat \<Rightarrow> gc_page \<Rightarrow> gc_heap" where
  "set_page h pid k page = h\<lparr>gc_pages := (gc_pages h)(pid := (gc_pages h pid)[k := page])\<rparr>"

definition gc_mark_block :: "nat \<times> nat \<times> nat \<Rightarrow> nat \<Rightarrow> mark_state \<Rightarrow> mark_state option" where
  "gc_mark_block = (\<lambda>(pid, k, bid) p (h, stack). let page = gc_pages h pid ! k in do {
     m \<leftarrow> bmp page;
     b \<leftarrow> get_bit m bid;
     if b then Some (h, stack)
     else do {
       m \<leftarrow> set_mark m bid;
       Some (set_page h pid k (page\<lparr>bmp := Some m\<rparr>), if MEM_HAS_PTR (page_kind page) then p # stack else stack) } })"

definition gc_mark_ptr :: "nat \<Rightarrow> mark_state \<Rightarrow> mark_state option" where
  "gc_mark_ptr p st = (if p = 0 then Some st else do {
     r \<leftarrow> gc_block_exact (fst st) p;
     case r of None \<Rightarrow> Some st | Some block \<Rightarrow> gc_mark_block block p st })"

definition gc_mark_interior :: "nat \<Rightarrow> mark_state \<Rightarrow> mark_state option" where
  "gc_mark_interior p st = do {
     r \<leftarrow> gc_block_interior (fst st) p;
     case r of None \<Rightarrow> Some st | Some (block, p) \<Rightarrow> gc_mark_block block p st }"

fun mark_all :: "('a \<Rightarrow> mark_state \<Rightarrow> mark_state option) \<Rightarrow> 'a list \<Rightarrow> mark_state \<Rightarrow> mark_state option" where
  "mark_all f [] st = Some st"
| "mark_all f (p # ps) st = do { st \<leftarrow> f p st; mark_all f ps st }"

definition gc_mark_stack :: "nat list \<Rightarrow> mark_state \<Rightarrow> mark_state option" where
  "gc_mark_stack = mark_all gc_mark_interior"

subsection \<open>Scanning\<close>

record gc_type =
  t_is_fun :: bool
  t_is_enum :: bool
  t_mark_bits :: "u32 list option"

record gc_memory =
  word_at :: "nat \<Rightarrow> nat"
  type_at :: "nat \<Rightarrow> gc_type"

definition gc_allocator_fast_block_size :: "gc_page \<Rightarrow> nat \<Rightarrow> nat option" where
  "gc_allocator_fast_block_size page block = (case sizes page of None \<Rightarrow> Some (block_size page)
     | Some szs \<Rightarrow> map_option (\<lambda>c. unat c * block_size page) (load ((block - base page) div block_size page) szs))"

function scan_loop :: "gc_memory \<Rightarrow> u32 list option \<Rightarrow> nat \<Rightarrow> nat \<Rightarrow> nat \<Rightarrow> nat list option" where
  "scan_loop mem mark_bits block pos nwords =
     (if pos \<ge> nwords then Some []
      else do {
        scan \<leftarrow> (case mark_bits of None \<Rightarrow> Some True | Some mb \<Rightarrow> map_option (\<lambda>w. bit w (pos mod 32)) (load (pos div 32) mb));
        ps \<leftarrow> scan_loop mem mark_bits (block + 8) (pos + 1) nwords;
        Some (if scan then word_at mem block # ps else ps) })"
  by pat_completeness auto
termination
  by (relation "measure (\<lambda>(_, _, _, pos, nwords). nwords - pos)") auto

text \<open>The pointers that \<open>gc_flush_mark\<close> reads in a block.\<close>

definition gc_scan :: "gc_memory \<Rightarrow> gc_page \<Rightarrow> nat \<Rightarrow> nat list option" where
  "gc_scan mem page block = do {
     sz \<leftarrow> gc_allocator_fast_block_size page block;
     let nwords = sz div 8;
     if page_kind page = MEM_KIND_DYNAMIC
     then let t = word_at mem block in
       if t = 0 then Some []
       else case t_mark_bits (type_at mem t) of
           None \<Rightarrow> scan_loop mem None block 0 nwords
         | Some mb \<Rightarrow>
             if t_is_fun (type_at mem t) then scan_loop mem None block 0 nwords
             else if t_is_enum (type_at mem t)
             then scan_loop mem (Some (drop (word_at mem (block + 8) mod 2 ^ 32) mb)) (block + 16) 0 (nwords - 2)
             else scan_loop mem (Some mb) (block + 8) 1 nwords
     else scan_loop mem None block 0 nwords }"

fun gc_flush_mark :: "nat \<Rightarrow> gc_memory \<Rightarrow> mark_state \<Rightarrow> mark_state option" where
  "gc_flush_mark fuel mem (h, []) = Some (h, [])"
| "gc_flush_mark 0 mem (h, block # stack) = None"
| "gc_flush_mark (Suc fuel) mem (h, block # stack) = do {
     (pid, k) \<leftarrow> hl_gc_get_page h block;
     ps \<leftarrow> gc_scan mem (gc_pages h pid ! k) block;
     st \<leftarrow> mark_all gc_mark_ptr ps (h, stack);
     gc_flush_mark fuel mem st }"

text \<open>\<open>gc_mark\<close> up to the call of \<open>gc_allocator_after_mark\<close>. The words of pinned lists, thread stacks and registers are \<open>stacks\<close>.\<close>

definition gc_blocks :: "gc_heap \<Rightarrow> nat" where
  "gc_blocks h = sum_list (map (\<lambda>pid. sum_list (map max_blocks (gc_pages h pid))) [0..<GC_PAGE_SLOTS])"

definition gc_mark :: "gc_memory \<Rightarrow> nat list \<Rightarrow> nat list \<Rightarrow> gc_heap \<Rightarrow> gc_heap option" where
  "gc_mark mem roots stacks h = do {
     let h = gc_allocator_before_mark (replicate (mark_bytes h) 0) h;
     st \<leftarrow> mark_all gc_mark_ptr roots (h, []);
     st \<leftarrow> gc_mark_stack stacks st;
     (h, _) \<leftarrow> gc_flush_mark (gc_blocks h) mem st;
     Some h }"

subsection \<open>After the mark\<close>

text \<open>Calls of finalizers: the dead blocks of a finalizer page that hold one, in order.\<close>

fun finalize_blocks :: "gc_memory \<Rightarrow> gc_page \<Rightarrow> nat list \<Rightarrow> u8 list \<Rightarrow> ((nat \<times> nat) list \<times> u8 list) option" where
  "finalize_blocks mem ph [] szs = Some ([], szs)"
| "finalize_blocks mem ph (bid # bids) szs = do {
     c \<leftarrow> load bid szs;
     if c = 0 then finalize_blocks mem ph bids szs
     else do {
       m \<leftarrow> bmp ph;
       b \<leftarrow> get_bit m bid;
       if b then finalize_blocks mem ph bids szs
       else do {
         szs \<leftarrow> store bid 0 szs;
         (calls, szs) \<leftarrow> finalize_blocks mem ph bids szs;
         let ptr = block_addr ph bid;
         Some (if word_at mem ptr \<noteq> 0 then (word_at mem ptr, ptr) # calls else calls, szs) } } }"

definition finalize_page :: "gc_memory \<Rightarrow> gc_page \<Rightarrow> ((nat \<times> nat) list \<times> gc_page) option" where
  "finalize_page mem ph =
     (if first_block ph \<ge> max_blocks ph then Some ([], ph)
      else do {
        szs \<leftarrow> sizes ph;
        (calls, szs) \<leftarrow> finalize_blocks mem ph [first_block ph..<max_blocks ph] szs;
        Some (calls, ph\<lparr>sizes := Some szs\<rparr>) })"

fun finalize_pages :: "gc_memory \<Rightarrow> gc_page list \<Rightarrow> ((nat \<times> nat) list \<times> gc_page list) option" where
  "finalize_pages mem [] = Some ([], [])"
| "finalize_pages mem (ph # phs) = do {
     (calls, ph) \<leftarrow> finalize_page mem ph;
     (calls', phs) \<leftarrow> finalize_pages mem phs;
     Some (calls @ calls', ph # phs) }"

fun finalize_slots :: "gc_memory \<Rightarrow> nat list \<Rightarrow> gc_heap \<Rightarrow> ((nat \<times> nat) list \<times> gc_heap) option" where
  "finalize_slots mem [] h = Some ([], h)"
| "finalize_slots mem (pid # pids) h = do {
     (calls, ps) \<leftarrow> finalize_pages mem (gc_pages h pid);
     (calls', h) \<leftarrow> finalize_slots mem pids (h\<lparr>gc_pages := (gc_pages h)(pid := ps)\<rparr>);
     Some (calls @ calls', h) }"

definition gc_call_finalizers :: "gc_memory \<Rightarrow> gc_heap \<Rightarrow> ((nat \<times> nat) list \<times> gc_heap) option" where
  "gc_call_finalizers mem h = finalize_slots mem (filter (\<lambda>pid. pid mod 4 = MEM_KIND_FINALIZER) [0..<GC_PAGE_SLOTS]) h"

text \<open>Releasing empty pages. The number of pages from \<open>gc_free_pages\<close> on follows the pages that are removed.\<close>

fun sweep_pages :: "nat \<Rightarrow> int \<Rightarrow> int \<Rightarrow> nat \<Rightarrow> gc_page list \<Rightarrow> gc_page list \<times> int \<times> nat" where
  "sweep_pages part budget retained free_count [] = ([], retained, 0)"
| "sweep_pages part budget retained free_count (ph # phs) =
     (let keep = \<not> gc_page_is_empty ph; cached = part \<noteq> GC_LARGE_PART \<and> int (page_size ph) \<le> budget - retained;
          (rest, retained, n) = sweep_pages part budget (if \<not> keep \<and> cached then retained + int (page_size ph) else retained) free_count phs;
          pages = (if keep \<or> cached then ph # rest else rest)
      in (pages, retained, if free_count = length (ph # phs) then length pages else n))"

definition sweep_slot :: "int \<Rightarrow> nat \<Rightarrow> gc_heap \<times> int \<Rightarrow> gc_heap \<times> int" where
  "sweep_slot budget pid = (\<lambda>(h, retained). let (ps, retained, n) = sweep_pages (GC_PID_PART pid) budget retained (gc_free_pages h pid) (gc_pages h pid) in
     (h\<lparr>gc_pages := (gc_pages h)(pid := ps), gc_free_pages := (gc_free_pages h)(pid := n)\<rparr>, retained))"

definition gc_empty_sweep :: "int \<Rightarrow> gc_heap \<Rightarrow> gc_heap" where
  "gc_empty_sweep budget h = fst (fold (sweep_slot budget) [0..<GC_PAGE_SLOTS] (h, 0))"

record sweep_history =
  recent :: "int list"
  last_total :: int
  collection :: nat

definition gc_empty_sweep_begin :: "bool \<Rightarrow> int \<Rightarrow> int \<Rightarrow> sweep_history \<Rightarrow> int \<times> sweep_history" where
  "gc_empty_sweep_begin keep cap bytes s =
     (if keep then
        let recent' = (recent s)[collection s mod 4 := bytes - last_total s];
            budget = fold (\<lambda>r b. if r > b then r else b) recent' 0
        in (if budget > cap then cap else budget, \<lparr>recent = recent', last_total = bytes, collection = collection s + 1\<rparr>)
      else (0, s))"

definition gc_allocator_after_mark :: "gc_memory \<Rightarrow> int \<Rightarrow> gc_heap \<Rightarrow> ((nat \<times> nat) list \<times> gc_heap) option" where
  "gc_allocator_after_mark mem budget h = do {
     (calls, h) \<leftarrow> gc_call_finalizers mem h;
     Some (calls, gc_empty_sweep budget h) }"

definition gc_collect :: "gc_memory \<Rightarrow> nat list \<Rightarrow> nat list \<Rightarrow> int \<Rightarrow> gc_heap \<Rightarrow> ((nat \<times> nat) list \<times> gc_heap) option" where
  "gc_collect mem roots stacks budget h = do {
     h \<leftarrow> gc_mark mem roots stacks h;
     gc_allocator_after_mark mem budget h }"

declare scan_loop.simps [simp del]


subsection \<open>The cleared mark bits\<close>

definition cleared :: "gc_page \<Rightarrow> gc_page" where
  "cleared ph = ph\<lparr>bmp := Some (replicate ((max_blocks ph + 7) div 8) 0), need_flush := True\<rparr>"

definition page_bytes :: "gc_page list \<Rightarrow> nat" where
  "page_bytes ps = sum_list (map (\<lambda>p. (max_blocks p + 7) div 8) ps)"

lemma assign_marks_zero: "page_bytes ps \<le> n \<Longrightarrow> assign_marks (replicate n 0) ps = (map cleared ps, replicate (n - page_bytes ps) 0)"
  by (induction ps arbitrary: n) (auto simp: page_bytes_def Let_def cleared_def min_absorb1)

definition clear_slots :: "nat set \<Rightarrow> gc_heap \<Rightarrow> gc_heap" where
  "clear_slots P h = h\<lparr>gc_pages := (\<lambda>pid. if pid \<in> P then map cleared (gc_pages h pid) else gc_pages h pid),
     gc_free_pages := (\<lambda>pid. if pid \<in> P then length (gc_pages h pid) else gc_free_pages h pid)\<rparr>"

lemma before_mark_slots:
  "sum_list (map (\<lambda>pid. page_bytes (gc_pages h pid)) pids) \<le> n \<Longrightarrow> distinct pids \<Longrightarrow> P \<inter> set pids = {} \<Longrightarrow>
   fst (fold before_mark_slot pids (clear_slots P h, replicate n 0)) = clear_slots (P \<union> set pids) h"
proof (induction pids arbitrary: n P)
  case (Cons pid pids)
  have "gc_pages (clear_slots P h) pid = gc_pages h pid"
    using Cons.prems by (auto simp: clear_slots_def)
  then have "before_mark_slot pid (clear_slots P h, replicate n 0) = (clear_slots (insert pid P) h, replicate (n - page_bytes (gc_pages h pid)) 0)"
    using Cons.prems assign_marks_zero [of "gc_pages h pid" n] by (auto simp: before_mark_slot_def clear_slots_def fun_eq_iff)
  then show ?case
    using Cons.IH [of "n - page_bytes (gc_pages h pid)" "insert pid P"] Cons.prems by (simp add: insert_commute)
qed simp

lemma before_mark_pages:
  assumes "heap_wf h"
  shows "gc_pages (gc_allocator_before_mark (replicate (mark_bytes h) 0) h) = (\<lambda>pid. map cleared (gc_pages h pid))"
    "gc_free_pages (gc_allocator_before_mark (replicate (mark_bytes h) 0) h) pid \<le> length (gc_pages h pid)"
proof -
  have zero: "clear_slots {} h = h"
    by (simp add: clear_slots_def)
  have eq: "gc_allocator_before_mark (replicate (mark_bytes h) 0) h = clear_slots {0..<GC_PAGE_SLOTS} h"
    using before_mark_slots [of h "[0..<GC_PAGE_SLOTS]" "mark_bytes h" "{}"] unfolding zero gc_allocator_before_mark_def
    by (simp add: mark_bytes_def page_bytes_def [abs_def])
  have "gc_pages h pid = []" if "pid \<ge> GC_PAGE_SLOTS" for pid
    using assms that by (auto simp: heap_wf_def heap_pages_wf_def)
  then show "gc_pages (gc_allocator_before_mark (replicate (mark_bytes h) 0) h) = (\<lambda>pid. map cleared (gc_pages h pid))"
    unfolding eq by (auto simp: clear_slots_def fun_eq_iff not_less)
  show "gc_free_pages (gc_allocator_before_mark (replicate (mark_bytes h) 0) h) pid \<le> length (gc_pages h pid)"
    using spec [of _ pid, OF conjunct1 [OF conjunct2 [OF assms [unfolded heap_wf_def heap_pages_wf_def, THEN conjunct1]]]] unfolding eq
    by (simp add: clear_slots_def)
qed

lemma get_bit_zero: "get_bit (replicate n 0) b \<noteq> Some True"
  by (auto simp: get_bit_def load_def)

lemma cleared_simps [simp]:
  "base (cleared ph) = base ph" "page_size (cleared ph) = page_size ph" "page_kind (cleared ph) = page_kind ph"
  "block_size (cleared ph) = block_size ph" "size_bits (cleared ph) = size_bits ph" "need_flush (cleared ph)"
  "first_block (cleared ph) = first_block ph" "max_blocks (cleared ph) = max_blocks ph" "free (cleared ph) = free ph"
  "sizes (cleared ph) = sizes ph" "bmp (cleared ph) = Some (replicate ((max_blocks ph + 7) div 8) 0)"
  by (simp_all add: cleared_def)

lemma not_marked_cleared: "\<not> marked (cleared ph) b"
  using get_bit_zero by (auto simp: marked_def)

lemma page_wf_cleared:
  assumes "page_wf ph"
  shows "page_wf (cleared ph)"
  using page_wfD(1-6) [OF assms] not_marked_cleared
  by (auto simp: page_wf_def page_shape_def free_runs_def split: option.splits)

subsection \<open>Pages that differ in their mark bits\<close>

text \<open>Every page waits for its sweep and differs from the page of \<open>h\<close> in its mark bits only.\<close>

definition but_marks :: "gc_page \<Rightarrow> gc_page \<Rightarrow> bool" where
  "but_marks ph ph' \<longleftrightarrow> (\<exists>m. ph' = ph\<lparr>bmp := Some m, need_flush := True\<rparr>)"

definition marking :: "gc_heap \<Rightarrow> gc_heap \<Rightarrow> bool" where
  "marking h h' \<longleftrightarrow> (\<forall>pid. length (gc_pages h' pid) = length (gc_pages h pid)) \<and>
     (\<forall>pid k. k < length (gc_pages h pid) \<longrightarrow> but_marks (gc_pages h pid ! k) (gc_pages h' pid ! k) \<and> page_wf (gc_pages h' pid ! k)) \<and>
     (\<forall>pid. gc_free_pages h' pid \<le> length (gc_pages h' pid))"

lemma but_marks_simps:
  assumes "but_marks ph ph'"
  shows "base ph' = base ph" "page_size ph' = page_size ph" "page_kind ph' = page_kind ph" "block_size ph' = block_size ph"
    "size_bits ph' = size_bits ph" "first_block ph' = first_block ph" "max_blocks ph' = max_blocks ph" "free ph' = free ph"
    "sizes ph' = sizes ph" "need_flush ph'" "same_page ph ph'" "objs ph' = objs ph"
  using assms by (auto simp: but_marks_def same_page_def objs_def free_blocks_def free_runs_def split: option.splits)

lemma markingD:
  assumes "marking h h'"
  shows "length (gc_pages h' pid) = length (gc_pages h pid)"
    "k < length (gc_pages h pid) \<Longrightarrow> but_marks (gc_pages h pid ! k) (gc_pages h' pid ! k)"
    "k < length (gc_pages h pid) \<Longrightarrow> page_wf (gc_pages h' pid ! k)"
  using assms by (auto simp: marking_def)

lemma marking_start:
  assumes "heap_wf h"
  shows "marking h (gc_allocator_before_mark (replicate (mark_bytes h) 0) h)"
proof -
  have "page_wf (gc_pages h pid ! k)" if "k < length (gc_pages h pid)" for pid k
    using heap_wfD(1) [OF assms that] .
  then show ?thesis
    using before_mark_pages(2) [OF assms] unfolding marking_def before_mark_pages(1) [OF assms] but_marks_def
    by (auto simp: page_wf_cleared) (auto simp: cleared_def)
qed

lemma heap_wf_marking:
  assumes wf: "heap_wf h" and m: "marking h h'"
  shows "heap_wf h'"
proof -
  have "page_of_part (GC_PID_PART pid) (gc_pages h' pid ! k) \<and> (pid mod 4 = MEM_KIND_FINALIZER \<longrightarrow> sizes (gc_pages h' pid ! k) \<noteq> None)" "page_region (gc_pages h' pid ! k) = page_region (gc_pages h pid ! k)"
    if "k < length (gc_pages h pid)" for pid k
    using heap_wfD(2,3) [OF wf that] same_page_part same_page_region but_marks_simps(9,11) [OF markingD(2) [OF m that]] by auto
  then have pg: "page_of_part (GC_PID_PART pid) ph \<and> (pid mod 4 = MEM_KIND_FINALIZER \<longrightarrow> sizes ph \<noteq> None) \<and> page_wf ph" if "ph \<in> set (gc_pages h' pid)" for pid ph
    using that markingD(1,3) [OF m] by (metis in_set_conv_nth)
  moreover have "gc_pages h' pid = []" if "pid \<ge> GC_PAGE_SLOTS" for pid
    using wf that markingD(1) [OF m, of pid] by (auto simp: heap_wf_def heap_pages_wf_def)
  ultimately have "heap_pages_wf h'"
    using m by (auto simp: heap_pages_wf_def marking_def)
  moreover have "pages_apart h'"
    using wf markingD(1) [OF m] \<open>\<And>pid k. k < length (gc_pages h pid) \<Longrightarrow> page_region (gc_pages h' pid ! k) = page_region (gc_pages h pid ! k)\<close>
    unfolding heap_wf_def pages_apart_def by metis
  ultimately show ?thesis by (simp add: heap_wf_def)
qed


subsection \<open>Looking up pointers\<close>

lemma hl_gc_get_page_Some:
  assumes wf: "heap_wf h" and k: "k < length (gc_pages h pid)" and p: "INPAGE p (gc_pages h pid ! k)"
  shows "hl_gc_get_page h p = Some (pid, k)"
proof -
  have slot: "pid < GC_PAGE_SLOTS"
    using wf k by (cases "pid < GC_PAGE_SLOTS") (auto simp: heap_wf_def heap_pages_wf_def not_less)
  have uniq: "(pid', k') = (pid, k)" if "k' < length (gc_pages h pid')" "INPAGE p (gc_pages h pid' ! k')" for pid' k'
  proof (rule ccontr)
    assume "(pid', k') \<noteq> (pid, k)"
    then have "page_region (gc_pages h pid' ! k') \<inter> page_region (gc_pages h pid ! k) = {}"
      using wf k that(1) unfolding heap_wf_def pages_apart_def by blast
    then show False
      using p that(2) by (auto simp: INPAGE_def page_region_def)
  qed
  have "(pid, k) \<in> set (page_ids h)"
    using slot k by (auto simp: page_ids_def intro!: bexI [of _ pid])
  then obtain r where r: "hl_gc_get_page h p = Some r"
    using p unfolding hl_gc_get_page_def by (cases "find (\<lambda>(pid, k). INPAGE p (gc_pages h pid ! k)) (page_ids h)") (auto simp: find_None_iff)
  then obtain i where "i < length (page_ids h)" "r = page_ids h ! i" "case r of (pid, k) \<Rightarrow> INPAGE p (gc_pages h pid ! k)"
    by (auto simp: hl_gc_get_page_def find_Some_iff)
  then have "r \<in> set (page_ids h)" "INPAGE p (gc_pages h (fst r) ! snd r)"
    by (auto simp: case_prod_beta)
  then have "r = (pid, k)"
    using uniq [of "snd r" "fst r"] by (auto simp: page_ids_def)
  then show ?thesis using r by simp
qed

lemma hl_gc_get_page_cases:
  assumes "hl_gc_get_page h p = Some (pid, k)"
  shows "k < length (gc_pages h pid)" "INPAGE p (gc_pages h pid ! k)"
proof -
  obtain i where "i < length (page_ids h)" "(pid, k) = page_ids h ! i" "INPAGE p (gc_pages h pid ! k)"
    using assms by (auto simp: hl_gc_get_page_def find_Some_iff)
  then have "(pid, k) \<in> set (page_ids h)" "INPAGE p (gc_pages h pid ! k)"
    by auto
  then show "k < length (gc_pages h pid)" "INPAGE p (gc_pages h pid ! k)"
    by (auto simp: page_ids_def)
qed

text \<open>The blocks that a mark bit may belong to: the blocks of fixed pages and the first blocks of objects of variable pages.\<close>

definition block_ok :: "gc_page \<Rightarrow> nat \<Rightarrow> bool" where
  "block_ok ph b \<longleftrightarrow> b < max_blocks ph \<and> (sizes ph \<noteq> None \<longrightarrow> (\<exists>n. (b, n) \<in> objs ph))"

lemma block_id_eq:
  assumes "page_shape ph"
  shows "gc_allocator_get_block_id ph off = (let bid = off div block_size ph in
     if bid * block_size ph \<noteq> off \<or> bid \<ge> max_blocks ph then Some None
     else map_option (\<lambda>alive. if alive then Some bid else None) (block_alive ph bid))"
  using assms by (cases "size_bits ph = 0") (simp_all add: gc_allocator_get_block_id_def page_shape_def Let_def drop_bit_eq_div push_bit_eq_mult)

lemma block_alive_ok:
  assumes "page_wf ph" "b < max_blocks ph"
  shows "block_alive ph b = Some (block_ok ph b)"
proof (cases "sizes ph")
  case None
  then show ?thesis using assms by (simp add: block_alive_def block_ok_def)
next
  case (Some s)
  then have "length s = max_blocks ph"
    using page_wfD(4) [OF assms(1)] block_sizes_okD(1) by simp
  then show ?thesis
    using Some assms page_wfD(6) [OF assms(1) Some, of b] by (auto simp: block_alive_def block_ok_def objs_def load_def)
qed

lemma get_block_id_ok:
  assumes "page_wf ph"
  shows "gc_allocator_get_block_id ph off = Some (if off = off div block_size ph * block_size ph \<and> block_ok ph (off div block_size ph) then Some (off div block_size ph) else None)"
  unfolding block_id_eq [OF page_wfD(1) [OF assms]] using block_alive_ok [OF assms] by (auto simp: Let_def block_ok_def not_le)

lemma block_head_ok:
  assumes "b \<le> start" "first \<le> b" "start < length szs" "szs ! b \<noteq> 0" "\<And>b'. b < b' \<Longrightarrow> b' \<le> start \<Longrightarrow> szs ! b' = 0"
  shows "block_head szs first start = Some (Some b)"
  using assms
proof (induction start)
  case 0
  then show ?case by (subst block_head.simps) (simp add: load_def)
next
  case (Suc start)
  show ?case
  proof (cases "b = Suc start")
    case True
    then show ?thesis using Suc.prems by (simp add: block_head.simps [of szs first "Suc start"] load_def)
  next
    case False
    then have "block_head szs first start = Some (Some b)"
      using Suc by simp
    moreover have "szs ! Suc start = 0"
      using Suc.prems False by simp
    ultimately show ?thesis
      using Suc.prems False by (simp add: block_head.simps [of szs first "Suc start"] load_def)
  qed
qed

lemma block_head_total:
  assumes "first \<le> start" "start < length szs"
  obtains "block_head szs first start = Some None"
  | b where "block_head szs first start = Some (Some b)" "b \<le> start" "first \<le> b" "szs ! b \<noteq> 0"
proof -
  have "block_head szs first start = Some None \<or> (\<exists>b. block_head szs first start = Some (Some b) \<and> b \<le> start \<and> first \<le> b \<and> szs ! b \<noteq> 0)"
    using assms
  proof (induction start)
    case 0
    then show ?case by (simp add: block_head.simps [of szs 0 0] load_def)
  next
    case (Suc start)
    then show ?case
      by (cases "first = Suc start") (auto simp: block_head.simps [of szs first "Suc start"] block_head.simps [of szs "Suc start" "Suc start"] load_def)
  qed
  then show ?thesis using that by blast
qed

lemma get_block_interior_total:
  assumes wf: "page_wf ph"
  obtains "gc_allocator_get_block_interior ph off = Some None"
  | b where "gc_allocator_get_block_interior ph off = Some (Some (b, block_addr ph b))" "block_ok ph b"
proof -
  let ?start = "off div block_size ph"
  show ?thesis
  proof (cases "sizes ph")
    case None
    then show ?thesis
      using that by (cases "?start \<ge> max_blocks ph") (auto simp: gc_allocator_get_block_interior_def Let_def block_ok_def)
  next
    case (Some s)
    then have len: "length s = max_blocks ph"
      using page_wfD(4) [OF wf] block_sizes_okD(1) by simp
    show ?thesis
    proof (cases "?start \<ge> max_blocks ph \<or> ?start < first_block ph")
      case True
      then show ?thesis using that Some by (auto simp: gc_allocator_get_block_interior_def Let_def)
    next
      case False
      then have "first_block ph \<le> ?start" "?start < length s"
        using len by auto
      then show ?thesis
      proof (cases rule: block_head_total)
        case (2 b)
        then have "load b s = Some (s ! b)" "block_ok ph b"
          using Some False len by (auto simp: load_def block_ok_def objs_def)
        then show ?thesis
          using 2 Some False that by (cases "?start - b \<ge> unat (s ! b)") (auto simp: gc_allocator_get_block_interior_def Let_def)
      qed (use Some False that in \<open>auto simp: gc_allocator_get_block_interior_def Let_def\<close>)
    qed
  qed
qed

lemma interior_start:
  assumes "b * bs \<le> off" "off < b * bs + n * bs" "0 < (bs :: nat)"
  shows "b \<le> off div bs" "off div bs < b + n"
  using assms by (simp_all add: less_eq_div_iff_mult_less_eq div_less_iff_less_mult add_mult_distrib)

lemma get_block_interior_ok:
  assumes wf: "page_wf ph" and obj: "(b, n) \<in> objs ph" and off: "b * block_size ph \<le> off" "off < b * block_size ph + n * block_size ph"
  shows "gc_allocator_get_block_interior ph off = Some (Some (b, block_addr ph b))"
proof -
  obtain start where st: "off div block_size ph = start"
    by simp
  have start: "b \<le> start" "start < b + n"
    using interior_start [OF off] page_wfD(1) [OF wf] by (auto simp: page_shape_def st)
  have range: "b + n \<le> max_blocks ph"
    using objs_range [OF wf obj] by simp
  show ?thesis
  proof (cases "sizes ph")
    case None
    then have "n = 1" using obj by (simp add: objs_def)
    then have "start = b" using start by simp
    then show ?thesis using None range start by (simp add: gc_allocator_get_block_interior_def st)
  next
    case (Some s)
    have ok: "block_sizes_ok (max_blocks ph) 0 (Some s) (free_runs ph)"
      using page_wfD(4) [OF wf] Some by simp
    have b: "b < max_blocks ph" "s ! b \<noteq> 0" "n = unat (s ! b)" "length s = max_blocks ph"
      using obj Some block_sizes_okD(1) [OF ok] by (auto simp: objs_def)
    have first: "first_block ph \<le> b"
      using page_wfD(6) [OF wf Some, of b] b(2) by (cases "b < first_block ph") auto
    have zero: "s ! b' = 0" if "b < b'" "b' \<le> start" for b'
      using that b(3) start(2) by (intro block_sizes_okD(4) [OF ok _ b(1,2) that(1)]) simp_all
    have "start < length s"
      using start(2) range b(4) by simp
    then have "block_head s (first_block ph) start = Some (Some b)"
      by (rule block_head_ok [OF start(1) first _ b(2) zero])
    moreover have "load b s = Some (s ! b)"
      using b(1,4) by (simp add: load_def)
    moreover have "\<not> start \<ge> max_blocks ph" "\<not> start < first_block ph"
      using first start range by simp_all
    moreover have "\<not> start - b \<ge> n"
      using start by simp
    ultimately show ?thesis
      using Some unfolding b(3) by (simp add: gc_allocator_get_block_interior_def st Let_def)
  qed
qed


subsection \<open>Blocks of the heap\<close>

text \<open>A block is given by the slot of its page, the index of the page and the number of the block.\<close>

type_synonym gc_block = "nat \<times> nat \<times> nat"

definition page_at :: "gc_heap \<Rightarrow> gc_block \<Rightarrow> gc_page" where
  "page_at h = (\<lambda>(pid, k, b). gc_pages h pid ! k)"

definition addr_of :: "gc_heap \<Rightarrow> gc_block \<Rightarrow> nat" where
  "addr_of h = (\<lambda>(pid, k, b). block_addr (gc_pages h pid ! k) b)"

definition blocks :: "gc_heap \<Rightarrow> gc_block set" where
  "blocks h = {(pid, k, b). k < length (gc_pages h pid) \<and> block_ok (gc_pages h pid ! k) b}"

definition marks :: "gc_heap \<Rightarrow> gc_block set" where
  "marks h = {(pid, k, b). k < length (gc_pages h pid) \<and> b < max_blocks (gc_pages h pid ! k) \<and> marked (gc_pages h pid ! k) b}"

lemma block_inpage: "page_shape ph \<Longrightarrow> b < max_blocks ph \<Longrightarrow> INPAGE (block_addr ph b) ph"
proof -
  assume *: "page_shape ph" "b < max_blocks ph"
  have "b * block_size ph < max_blocks ph * block_size ph"
    using * by (intro mult_less_mono1) (simp_all add: page_shape_def)
  also have "\<dots> \<le> page_size ph"
    using *(1) by (simp add: page_shape_def)
  finally show ?thesis
    by (simp add: INPAGE_def block_addr_def)
qed

lemma gc_block_exact_cases:
  assumes wf: "heap_wf h"
  obtains "gc_block_exact h p = Some None" | blk where "gc_block_exact h p = Some (Some blk)" "blk \<in> blocks h" "addr_of h blk = p"
proof (cases "hl_gc_get_page h p")
  case None
  then show ?thesis using that by (simp add: gc_block_exact_def)
next
  case (Some pk)
  obtain pid k where pk: "pk = (pid, k)" by (cases pk)
  let ?p = "gc_pages h pid ! k" and ?b = "(p - base (gc_pages h pid ! k)) div block_size (gc_pages h pid ! k)"
  have k: "k < length (gc_pages h pid)" "INPAGE p ?p"
    using hl_gc_get_page_cases Some pk by auto
  show ?thesis
  proof (cases "p - base ?p = ?b * block_size ?p \<and> block_ok ?p ?b")
    case True
    then have "block_addr ?p ?b = p"
      using k(2) by (auto simp: block_addr_def INPAGE_def)
    then show ?thesis
      using that(2) [of "(pid, k, ?b)"] True Some pk k(1) get_block_id_ok [OF heap_wfD(1) [OF wf k(1)], of "p - base ?p"]
      by (simp add: gc_block_exact_def Let_def blocks_def addr_of_def)
  next
    case False
    then have "gc_allocator_get_block_id ?p (p - base ?p) = Some None"
      using get_block_id_ok [OF heap_wfD(1) [OF wf k(1)], of "p - base ?p"] by (simp only: if_False simp_thms)
    then show ?thesis
      using that(1) Some pk by (simp add: gc_block_exact_def Let_def)
  qed
qed

lemma gc_block_exact_addr:
  assumes wf: "heap_wf h" and blk: "blk \<in> blocks h"
  shows "gc_block_exact h (addr_of h blk) = Some (Some blk)" "hl_gc_get_page h (addr_of h blk) = Some (fst blk, fst (snd blk))"
proof -
  obtain pid k b where b: "blk = (pid, k, b)" by (cases blk)
  let ?p = "gc_pages h pid ! k"
  have k: "k < length (gc_pages h pid)" "block_ok ?p b"
    using blk by (auto simp: blocks_def b)
  have shape: "page_shape ?p" "0 < block_size ?p"
    using page_wfD(1) [OF heap_wfD(1) [OF wf k(1)]] by (auto simp: page_shape_def)
  have page: "hl_gc_get_page h (block_addr ?p b) = Some (pid, k)"
    using k block_inpage [OF shape(1)] by (intro hl_gc_get_page_Some [OF wf]) (auto simp: block_ok_def)
  moreover have "block_addr ?p b - base ?p = b * block_size ?p" "b * block_size ?p div block_size ?p = b"
    using shape(2) by (simp_all add: block_addr_def)
  ultimately show "gc_block_exact h (addr_of h blk) = Some (Some blk)" "hl_gc_get_page h (addr_of h blk) = Some (fst blk, fst (snd blk))"
    using k(2) get_block_id_ok [OF heap_wfD(1) [OF wf k(1)], of "b * block_size ?p"] by (simp_all add: gc_block_exact_def addr_of_def b Let_def)
qed

lemma gc_block_interior_cases:
  assumes wf: "heap_wf h"
  obtains "gc_block_interior h p = Some None" | blk where "gc_block_interior h p = Some (Some (blk, addr_of h blk))" "blk \<in> blocks h"
proof (cases "hl_gc_get_page h p")
  case None
  then show ?thesis using that by (simp add: gc_block_interior_def)
next
  case (Some pk)
  obtain pid k where pk: "pk = (pid, k)" by (cases pk)
  let ?p = "gc_pages h pid ! k"
  have k: "k < length (gc_pages h pid)"
    using hl_gc_get_page_cases Some pk by auto
  from heap_wfD(1) [OF wf k] show ?thesis
  proof (cases rule: get_block_interior_total [where off = "p - base ?p"])
    case 1
    then show ?thesis using that(1) Some pk by (simp add: gc_block_interior_def Let_def)
  next
    case (2 b)
    then show ?thesis
      using that(2) [of "(pid, k, b)"] Some pk k by (simp add: gc_block_interior_def Let_def blocks_def addr_of_def)
  qed
qed

text \<open>A pointer into an object finds the object.\<close>

lemma gc_block_interior_obj:
  assumes wf: "heap_wf h" and k: "k < length (gc_pages h pid)" and obj: "(b, n) \<in> objs (gc_pages h pid ! k)"
    and p: "p \<in> region (place_of (gc_pages h pid ! k) (b, n))"
  shows "gc_block_interior h p = Some (Some ((pid, k, b), addr_of h (pid, k, b)))"
proof -
  let ?p = "gc_pages h pid ! k"
  have "p \<in> page_region ?p"
    using place_in_page [of b n ?p] objs_range [OF heap_wfD(1) [OF wf k] obj] page_wfD(1) [OF heap_wfD(1) [OF wf k]] p by blast
  then have "hl_gc_get_page h p = Some (pid, k)"
    by (intro hl_gc_get_page_Some [OF wf k]) (simp add: INPAGE_def page_region_def)
  moreover have "b * block_size ?p \<le> p - base ?p" "p - base ?p < b * block_size ?p + n * block_size ?p"
    using p by (auto simp: region_def place_of_def block_addr_def)
  ultimately show ?thesis
    using get_block_interior_ok [OF heap_wfD(1) [OF wf k] obj] by (simp add: gc_block_interior_def addr_of_def Let_def)
qed

lemma objs_block_ok: "page_wf ph \<Longrightarrow> (b, n) \<in> objs ph \<Longrightarrow> block_ok ph b"
  using objs_range [of ph b n] by (auto simp: block_ok_def)

lemma finite_blocks: "heap_wf h \<Longrightarrow> finite (blocks h)" and card_blocks: "heap_wf h \<Longrightarrow> card (blocks h) \<le> gc_blocks h"
proof -
  assume wf: "heap_wf h"
  let ?K = "\<lambda>pid. SIGMA k:{..<length (gc_pages h pid)}. {..<max_blocks (gc_pages h pid ! k)}"
  let ?B = "SIGMA pid:{..<GC_PAGE_SLOTS}. ?K pid"
  have slot: "pid < GC_PAGE_SLOTS" if "k < length (gc_pages h pid)" for pid k
    using wf that by (cases "pid < GC_PAGE_SLOTS") (auto simp: heap_wf_def heap_pages_wf_def not_less)
  have sub: "blocks h \<subseteq> ?B"
    using slot by (auto simp: blocks_def block_ok_def)
  then show "finite (blocks h)"
    by (rule finite_subset) auto
  have "card (?K pid) = sum_list (map max_blocks (gc_pages h pid))" for pid
    by (simp add: sum_list_sum_nth atLeast0LessThan)
  then have "card ?B = gc_blocks h"
    by (simp add: gc_blocks_def sum_list_sum_nth atLeast0LessThan)
  then show "card (blocks h) \<le> gc_blocks h"
    using card_mono [OF _ sub] by simp
qed


subsection \<open>Marking a block\<close>

lemma but_marks_lookup:
  assumes "but_marks ph ph'"
  shows "gc_allocator_get_block_id ph' off = gc_allocator_get_block_id ph off"
    "gc_allocator_get_block_interior ph' off = gc_allocator_get_block_interior ph off" "gc_scan mem ph' block = gc_scan mem ph block"
  using assms unfolding but_marks_def
  by (auto simp: gc_allocator_get_block_id_def gc_allocator_get_block_interior_def block_alive_def block_addr_def gc_scan_def
      gc_allocator_fast_block_size_def cong: option.case_cong if_cong)

lemma marking_lookup:
  assumes m: "marking h h'"
  shows "hl_gc_get_page h' p = hl_gc_get_page h p" "gc_block_exact h' p = gc_block_exact h p" "gc_block_interior h' p = gc_block_interior h p"
proof -
  have ids: "page_ids h' = page_ids h"
    by (simp add: page_ids_def markingD(1) [OF m])
  have pg: "but_marks (gc_pages h pid ! k) (gc_pages h' pid ! k)" if "(pid, k) \<in> set (page_ids h)" for pid k
    using markingD(2) [OF m] that by (auto simp: page_ids_def)
  have "INPAGE p (gc_pages h' pid ! k) = INPAGE p (gc_pages h pid ! k)" if "(pid, k) \<in> set (page_ids h)" for pid k
    using but_marks_simps [OF pg [OF that]] by (simp add: INPAGE_def)
  then show eq: "hl_gc_get_page h' p = hl_gc_get_page h p"
    unfolding hl_gc_get_page_def ids by (intro find_cong refl) auto
  have fields: "gc_allocator_get_block_id (gc_pages h' pid ! k) off = gc_allocator_get_block_id (gc_pages h pid ! k) off"
      "gc_allocator_get_block_interior (gc_pages h' pid ! k) off = gc_allocator_get_block_interior (gc_pages h pid ! k) off"
      "base (gc_pages h' pid ! k) = base (gc_pages h pid ! k)"
    if "hl_gc_get_page h p = Some (pid, k)" for pid k off
    using markingD(2) [OF m hl_gc_get_page_cases(1) [OF that]] but_marks_simps(1) but_marks_lookup by blast+
  show "gc_block_exact h' p = gc_block_exact h p"
    unfolding gc_block_exact_def eq using fields(1,3) by (auto simp: Let_def split: option.splits)
  show "gc_block_interior h' p = gc_block_interior h p"
    unfolding gc_block_interior_def eq using fields(2,3) by (auto simp: Let_def split: option.splits)
qed

lemma get_bit_total: "b < hi \<Longrightarrow> (hi + 7) div 8 \<le> length m \<Longrightarrow> \<exists>x. get_bit m b = Some x"
  by (auto simp: get_bit_def load_def)

lemma get_bit_set: "set_mark m b = Some m' \<Longrightarrow> get_bit m' b' = (if b' = b then Some True else get_bit m b')"
proof -
  assume "set_mark m b = Some m'"
  then have m': "m' = m[b div 8 := set_bit (b mod 8) (m ! (b div 8))]" "b div 8 < length m"
    by (auto simp: set_mark_def load_def store_def split: if_splits bind_splits)
  have "bit (set_bit (b mod 8) (m ! (b div 8))) (b' mod 8) \<longleftrightarrow> b' mod 8 = b mod 8 \<or> bit (m ! (b div 8)) (b' mod 8)"
    by (auto simp: bit_set_bit_iff)
  moreover have "b' = b" if "b' div 8 = b div 8" "b' mod 8 = b mod 8"
    using that by (metis div_mult_mod_eq)
  ultimately show ?thesis
    using m' by (cases "b' div 8 = b div 8") (simp_all add: get_bit_def load_def, metis+)
qed

definition has_ptr :: "gc_heap \<Rightarrow> gc_block \<Rightarrow> bool" where
  "has_ptr h blk \<longleftrightarrow> MEM_HAS_PTR (page_kind (page_at h blk))"

lemma marks_sub: "heap_wf h \<Longrightarrow> marking h h' \<Longrightarrow> marks h' \<subseteq> blocks h"
proof
  fix blk assume wf: "heap_wf h" and m: "marking h h'" and blk: "blk \<in> marks h'"
  obtain pid k b where b: "blk = (pid, k, b)" by (cases blk)
  let ?p = "gc_pages h pid ! k" and ?q = "gc_pages h' pid ! k"
  have k: "k < length (gc_pages h pid)" "b < max_blocks ?q" "marked ?q b"
    using blk markingD(1) [OF m] by (auto simp: marks_def b)
  have "\<exists>n. (b, n) \<in> objs ?q" if "sizes ?q \<noteq> None"
    using markingD(3) [OF m k(1)] but_marks_simps(10) [OF markingD(2) [OF m k(1)]] k that by (auto simp: page_wf_def)
  then show "blk \<in> blocks h"
    using k but_marks_simps [OF markingD(2) [OF m k(1)]] by (auto simp: blocks_def block_ok_def b)
qed

lemma gc_mark_block_ok:
  assumes wf: "heap_wf h" and m: "marking h h1" and blk: "blk \<in> blocks h"
  obtains (old) "gc_mark_block blk p (h1, stack) = Some (h1, stack)" "blk \<in> marks h1"
  | (new) h2 where "gc_mark_block blk p (h1, stack) = Some (h2, if has_ptr h blk then p # stack else stack)"
      "blk \<notin> marks h1" "marking h h2" "marks h2 = insert blk (marks h1)"
proof -
  obtain pid k b where b: "blk = (pid, k, b)" by (cases blk)
  let ?p = "gc_pages h pid ! k" and ?q = "gc_pages h1 pid ! k"
  have k: "k < length (gc_pages h pid)" "block_ok ?p b"
    using blk by (auto simp: blocks_def b)
  note same = but_marks_simps [OF markingD(2) [OF m k(1)]] and q = markingD(3) [OF m k(1)]
  have k1: "k < length (gc_pages h1 pid)" "b < max_blocks ?q"
    using markingD(1) [OF m] k same by (auto simp: block_ok_def)
  obtain mb where mb: "bmp ?q = Some mb"
    using q same(10) by (auto simp: page_wf_def)
  obtain x where x: "get_bit mb b = Some x"
    using get_bit_total [OF k1(2) page_wfD(7) [OF q mb]] by blast
  have in_marks: "blk \<in> marks h1 \<longleftrightarrow> x"
    using k1 mb x by (auto simp: marks_def b marked_def)
  show ?thesis
  proof (cases x)
    case True
    then show ?thesis
      using old mb x in_marks by (simp add: gc_mark_block_def b Let_def)
  next
    case False
    obtain mb' where mb': "set_mark mb b = Some mb'"
      using set_mark_ok [OF k1(2) page_wfD(7) [OF q mb]] by blast
    let ?q' = "?q\<lparr>bmp := Some mb'\<rparr>" and ?h2 = "set_page h1 pid k (?q\<lparr>bmp := Some mb'\<rparr>)"
    have marked: "marked ?q' b' \<longleftrightarrow> b' = b \<or> marked ?q b'" for b'
      using get_bit_set [OF mb'] mb by (auto simp: marked_def)
    have objs: "objs ?q' = objs ?q"
      by (simp add: objs_def free_blocks_def free_runs_def cong: option.case_cong)
    have "page_wf ?q'"
      using q k(2) same(7,9,12) get_bit_set_mark [OF mb'] mb marked
      by (auto simp: page_wf_def page_shape_def free_runs_def objs block_ok_def split: option.splits)
    moreover have "but_marks ?p ?q'"
      using markingD(2) [OF m k(1)] by (auto simp: but_marks_def intro!: exI [of _ mb'])
    ultimately have m2: "marking h ?h2"
      using m k1 by (auto simp: marking_def set_page_def nth_list_update)
    have "marks ?h2 = insert blk (marks h1)"
      using k1 marked by (auto simp: marks_def set_page_def b nth_list_update split: if_splits)
    moreover have "gc_mark_block blk p (h1, stack) = Some (?h2, if has_ptr h blk then p # stack else stack)"
      using False mb x mb' same(3) by (simp add: gc_mark_block_def b Let_def has_ptr_def page_at_def)
    ultimately show ?thesis
      using new [OF _ _ m2] in_marks False by blast
  qed
qed


subsection \<open>The marking loop\<close>

text \<open>The blocks that a block refers to, as the marking reads it.\<close>

definition refs :: "gc_heap \<Rightarrow> gc_memory \<Rightarrow> gc_block \<Rightarrow> gc_block set" where
  "refs h mem blk = {blk'. has_ptr h blk \<and> (\<exists>ps p. gc_scan mem (page_at h blk) (addr_of h blk) = Some ps \<and> p \<in> set ps \<and> p \<noteq> 0 \<and>
     gc_block_exact h p = Some (Some blk'))}"

text \<open>The words of a block can be read: the mark bits of its type are long enough.\<close>

definition scannable :: "gc_heap \<Rightarrow> gc_memory \<Rightarrow> bool" where
  "scannable h mem \<longleftrightarrow> (\<forall>blk\<in>blocks h. has_ptr h blk \<longrightarrow> gc_scan mem (page_at h blk) (addr_of h blk) \<noteq> None)"

text \<open>A marked block is on the stack or all its references are marked. The addresses in \<open>pending\<close> are being scanned.\<close>

definition mark_inv :: "gc_heap \<Rightarrow> gc_memory \<Rightarrow> nat set \<Rightarrow> mark_state \<Rightarrow> bool" where
  "mark_inv h mem pending st \<longleftrightarrow> marking h (fst st) \<and>
     (\<forall>p\<in>set (snd st). \<exists>blk\<in>marks (fst st). has_ptr h blk \<and> p = addr_of h blk) \<and>
     (\<forall>blk\<in>marks (fst st). addr_of h blk \<notin> set (snd st) \<union> pending \<longrightarrow> refs h mem blk \<subseteq> marks (fst st))"

definition unmarked :: "gc_heap \<Rightarrow> mark_state \<Rightarrow> nat" where
  "unmarked h st = card (blocks h - marks (fst st)) + length (snd st)"

definition marks_step :: "gc_heap \<Rightarrow> gc_memory \<Rightarrow> nat set \<Rightarrow> mark_state \<Rightarrow> mark_state \<Rightarrow> bool" where
  "marks_step h mem pending st st' \<longleftrightarrow> mark_inv h mem pending st' \<and> marks (fst st) \<subseteq> marks (fst st') \<and> unmarked h st' \<le> unmarked h st"

lemma marks_step_refl: "mark_inv h mem E st \<Longrightarrow> marks_step h mem E st st"
  by (simp add: marks_step_def)

lemma marks_step_trans: "marks_step h mem E st st' \<Longrightarrow> marks_step h mem E st' st'' \<Longrightarrow> marks_step h mem E st st''"
  by (auto simp: marks_step_def)

lemma mark_block_step:
  assumes wf: "heap_wf h" and inv: "mark_inv h mem E st" and blk: "blk \<in> blocks h" "p = addr_of h blk"
  obtains st' where "gc_mark_block blk p st = Some st'" "marks_step h mem E st st'" "marks (fst st') = insert blk (marks (fst st))"
proof -
  obtain h1 stack where st: "st = (h1, stack)" by (cases st)
  have m: "marking h h1"
    using inv by (simp add: mark_inv_def st)
  from wf m blk(1) show ?thesis
  proof (cases rule: gc_mark_block_ok [where p = p and stack = stack])
    case old
    then show ?thesis
      using that [of st] inv marks_step_refl by (auto simp: st)
  next
    case (new h2)
    let ?st = "(h2, if has_ptr h blk then p # stack else stack)"
    have stack: "\<exists>b\<in>marks h2. has_ptr h b \<and> q = addr_of h b" if "q \<in> set (snd ?st)" for q
      using that new(4) blk(2) inv by (auto simp: mark_inv_def st split: if_splits)
    have closed: "refs h mem b \<subseteq> marks h2" if b: "b \<in> marks h2" "addr_of h b \<notin> set (snd ?st) \<union> E" for b
    proof (cases "b = blk")
      case True
      then have "\<not> has_ptr h b"
        using b(2) blk(2) by auto
      then show ?thesis by (simp add: refs_def)
    next
      case False
      then have "b \<in> marks h1" "addr_of h b \<notin> set stack \<union> E"
        using b new(4) by (auto split: if_splits)
      then have "refs h mem b \<subseteq> marks h1"
        using inv by (auto simp: mark_inv_def st)
      then show ?thesis using new(4) by blast
    qed
    have "mark_inv h mem E ?st"
      using new(3) stack closed by (simp add: mark_inv_def)
    moreover have "unmarked h ?st \<le> unmarked h st"
    proof -
      have "blocks h - marks h2 = blocks h - marks h1 - {blk}"
        using new(4) by blast
      moreover have "blk \<in> blocks h - marks h1" "finite (blocks h - marks h1)"
        using blk(1) new(2) finite_blocks [OF wf] by auto
      ultimately have "card (blocks h - marks h2) + 1 = card (blocks h - marks h1)"
        by (metis Suc_eq_plus1 card.remove)
      then show ?thesis by (simp add: unmarked_def st)
    qed
    ultimately show ?thesis
      using that [of ?st] new by (auto simp: marks_step_def st)
  qed
qed

definition exact_targets :: "gc_heap \<Rightarrow> nat \<Rightarrow> gc_block set" where
  "exact_targets h p = {blk. p \<noteq> 0 \<and> gc_block_exact h p = Some (Some blk)}"

definition interior_targets :: "gc_heap \<Rightarrow> nat \<Rightarrow> gc_block set" where
  "interior_targets h p = {blk. \<exists>q. gc_block_interior h p = Some (Some (blk, q))}"

lemma gc_mark_ptr_step:
  assumes wf: "heap_wf h" and inv: "mark_inv h mem E st"
  shows "\<exists>st'. gc_mark_ptr p st = Some st' \<and> marks_step h mem E st st' \<and> marks (fst st') = marks (fst st) \<union> exact_targets h p"
proof (cases "p = 0")
  case True
  then show ?thesis using marks_step_refl [OF inv] by (intro exI [of _ st]) (simp add: gc_mark_ptr_def exact_targets_def)
next
  case False
  have m: "marking h (fst st)"
    using inv by (simp add: mark_inv_def)
  from wf show ?thesis
  proof (cases rule: gc_block_exact_cases [where p = p])
    case 1
    then show ?thesis
      using marks_step_refl [OF inv] False marking_lookup(2) [OF m] by (intro exI [of _ st]) (simp add: gc_mark_ptr_def exact_targets_def)
  next
    case (2 blk)
    obtain st' where "gc_mark_block blk p st = Some st'" "marks_step h mem E st st'" "marks (fst st') = insert blk (marks (fst st))"
      using mark_block_step [OF wf inv 2(2) 2(3) [symmetric]] by blast
    then show ?thesis
      using 2(1) False marking_lookup(2) [OF m] by (intro exI [of _ st']) (simp add: gc_mark_ptr_def exact_targets_def)
  qed
qed

lemma gc_mark_interior_step:
  assumes wf: "heap_wf h" and inv: "mark_inv h mem E st"
  shows "\<exists>st'. gc_mark_interior p st = Some st' \<and> marks_step h mem E st st' \<and> marks (fst st') = marks (fst st) \<union> interior_targets h p"
proof -
  have m: "marking h (fst st)"
    using inv by (simp add: mark_inv_def)
  from wf show ?thesis
  proof (cases rule: gc_block_interior_cases [where p = p])
    case 1
    then show ?thesis
      using marks_step_refl [OF inv] marking_lookup(3) [OF m] by (intro exI [of _ st]) (simp add: gc_mark_interior_def interior_targets_def)
  next
    case (2 blk)
    obtain st' where "gc_mark_block blk (addr_of h blk) st = Some st'" "marks_step h mem E st st'" "marks (fst st') = insert blk (marks (fst st))"
      using mark_block_step [OF wf inv 2(2) refl] by blast
    then show ?thesis
      using 2(1) marking_lookup(3) [OF m] by (intro exI [of _ st']) (simp add: gc_mark_interior_def interior_targets_def)
  qed
qed

text \<open>What the two ways of marking a word have in common: they mark the blocks that the word refers to. Then marking a list
  of words marks the blocks of all of them.\<close>

locale word_marker =
  fixes f :: "nat \<Rightarrow> mark_state \<Rightarrow> mark_state option" and targets :: "gc_heap \<Rightarrow> nat \<Rightarrow> gc_block set"
  assumes marks_word: "heap_wf h \<Longrightarrow> mark_inv h mem E st \<Longrightarrow>
    \<exists>st'. f p st = Some st' \<and> marks_step h mem E st st' \<and> marks (fst st') = marks (fst st) \<union> targets h p"
begin

lemma marks_words:
  assumes "heap_wf h"
  shows "mark_inv h mem E st \<Longrightarrow>
    \<exists>st'. mark_all f ps st = Some st' \<and> marks_step h mem E st st' \<and> marks (fst st') = marks (fst st) \<union> (\<Union>p\<in>set ps. targets h p)"
proof (induction ps arbitrary: st)
  case Nil
  then show ?case by (simp add: marks_step_refl)
next
  case (Cons p ps)
  obtain st1 where st1: "f p st = Some st1" "marks_step h mem E st st1" "marks (fst st1) = marks (fst st) \<union> targets h p"
    using marks_word [OF assms Cons.prems] by blast
  obtain st2 where "mark_all f ps st1 = Some st2" "marks_step h mem E st1 st2" "marks (fst st2) = marks (fst st1) \<union> (\<Union>p\<in>set ps. targets h p)"
    using Cons.IH [of st1] st1(2) by (auto simp: marks_step_def)
  then show ?case
    using st1(1,3) marks_step_trans [OF st1(2)] by (intro exI [of _ st2]) auto
qed

end

interpretation exact: word_marker gc_mark_ptr exact_targets
  by unfold_locales (rule gc_mark_ptr_step)

interpretation conservative: word_marker gc_mark_interior interior_targets
  by unfold_locales (rule gc_mark_interior_step)

lemma gc_flush_mark_ok:
  assumes wf: "heap_wf h" and scan: "scannable h mem"
    and closed: "\<And>blk. blk \<in> R \<Longrightarrow> refs h mem blk \<subseteq> R"
  shows "mark_inv h mem {} st \<Longrightarrow> unmarked h st \<le> fuel \<Longrightarrow> marks (fst st) \<subseteq> R \<Longrightarrow>
    \<exists>h'. gc_flush_mark fuel mem st = Some (h', []) \<and> mark_inv h mem {} (h', []) \<and> marks (fst st) \<subseteq> marks h' \<and> marks h' \<subseteq> R"
proof (induction fuel arbitrary: st)
  case 0
  then have "snd st = []" by (simp add: unmarked_def)
  then obtain h1 where "st = (h1, [])" by (cases st) auto
  then show ?case using 0 by auto
next
  case (Suc fuel)
  show ?case
  proof (cases "snd st")
    case Nil
    then obtain h1 where "st = (h1, [])" by (cases st) auto
    then show ?thesis using Suc.prems by auto
  next
    case (Cons a stack)
    then obtain h1 where st: "st = (h1, a # stack)" by (cases st) auto
    have m: "marking h h1"
      using Suc.prems(1) by (simp add: mark_inv_def st)
    obtain blk where blk: "blk \<in> marks h1" "has_ptr h blk" "a = addr_of h blk"
      using Suc.prems(1) by (auto simp: mark_inv_def st)
    have b: "blk \<in> blocks h"
      using marks_sub [OF wf m] blk(1) by blast
    have page: "hl_gc_get_page h1 a = Some (fst blk, fst (snd blk))"
      using gc_block_exact_addr(2) [OF wf b] blk(3) marking_lookup(1) [OF m] by simp
    obtain ps where ps: "gc_scan mem (page_at h blk) a = Some ps"
      using scan b blk by (auto simp: scannable_def)
    have "but_marks (page_at h blk) (gc_pages h1 (fst blk) ! fst (snd blk))"
      using b markingD(2) [OF m] by (auto simp: page_at_def blocks_def)
    then have scan1: "gc_scan mem (gc_pages h1 (fst blk) ! fst (snd blk)) a = Some ps"
      using ps but_marks_lookup(3) by simp
    have inv: "mark_inv h mem {a} (h1, stack)"
      using Suc.prems(1) by (auto simp: mark_inv_def st)
    obtain st' where st': "mark_all gc_mark_ptr ps (h1, stack) = Some st'" "marks_step h mem {a} (h1, stack) st'"
      "marks (fst st') = marks (fst (h1, stack)) \<union> (\<Union>p\<in>set ps. exact_targets h p)"
      using exact.marks_words [OF wf inv, of ps] by blast
    have refs: "refs h mem blk' \<subseteq> marks (fst st')" if "blk' \<in> marks (fst st')" "addr_of h blk' = a" for blk'
    proof -
      have "blk' = blk"
        using gc_block_exact_addr(1) [OF wf b] gc_block_exact_addr(1) [OF wf, of blk'] marks_sub [OF wf] st'(2) that blk(3)
        by (auto simp: marks_step_def mark_inv_def)
      then show ?thesis
        using ps blk(3) unfolding st'(3) by (auto simp: refs_def exact_targets_def)
    qed
    then have inv': "mark_inv h mem {} st'"
      using st'(2) unfolding marks_step_def mark_inv_def Un_insert_right Un_empty_right insert_iff by blast
    have "unmarked h st' \<le> fuel"
      using st'(2) Suc.prems(2) by (simp add: marks_step_def unmarked_def st)
    moreover have "marks (fst st') \<subseteq> R"
    proof -
      have "(\<Union>p\<in>set ps. exact_targets h p) \<subseteq> refs h mem blk"
        using ps blk by (auto simp: refs_def exact_targets_def)
      then show ?thesis
        using closed [of blk] Suc.prems(3) blk(1) unfolding st'(3) st by auto
    qed
    ultimately obtain h' where "gc_flush_mark fuel mem st' = Some (h', [])" "mark_inv h mem {} (h', [])" "marks (fst st') \<subseteq> marks h'" "marks h' \<subseteq> R"
      using Suc.IH [OF inv'] by blast
    then show ?thesis
      using page scan1 st' by (auto simp: st marks_step_def)
  qed
qed

end
