(* ===== verification/GcCollect.thy ===== *)
theory GcCollect
  imports GcMark
begin
unbundle bit_operations_syntax

text \<open>
  A collection as a whole: marking, finalizers and the release of empty pages of \<^verbatim>\<open>src/src/gc.c\<close> and \<^verbatim>\<open>src/src/allocator.c\<close>, and
  the runs of a program that allocates and collects. The properties of the collector are at the end.
\<close>


subsection \<open>Reachable blocks\<close>

inductive reach :: "gc_heap \<Rightarrow> gc_memory \<Rightarrow> nat list \<Rightarrow> nat list \<Rightarrow> gc_block \<Rightarrow> bool" for h mem roots stacks where
  reach_root: "p \<in> set roots \<Longrightarrow> p \<noteq> 0 \<Longrightarrow> gc_block_exact h p = Some (Some blk) \<Longrightarrow> reach h mem roots stacks blk"
| reach_stack: "p \<in> set stacks \<Longrightarrow> gc_block_interior h p = Some (Some (blk, q)) \<Longrightarrow> reach h mem roots stacks blk"
| reach_ref: "reach h mem roots stacks blk \<Longrightarrow> blk' \<in> refs h mem blk \<Longrightarrow> reach h mem roots stacks blk'"

lemma no_marks_cleared:
  assumes "heap_wf h"
  shows "marks (gc_allocator_before_mark (replicate (mark_bytes h) 0) h) = {}"
  unfolding marks_def before_mark_pages(1) [OF assms] using not_marked_cleared by auto

lemma gc_blocks_cleared:
  assumes "heap_wf h"
  shows "gc_blocks (gc_allocator_before_mark (replicate (mark_bytes h) 0) h) = gc_blocks h"
  unfolding gc_blocks_def before_mark_pages(1) [OF assms] by (simp add: comp_def)

text \<open>Marking ends and marks exactly the reachable blocks.\<close>

lemma gc_mark_ok:
  assumes wf: "heap_wf h" and scan: "scannable h mem"
  obtains h' where "gc_mark mem roots stacks h = Some h'" "marking h h'" "marks h' = {blk. reach h mem roots stacks blk}"
proof -
  define h0 where "h0 = gc_allocator_before_mark (replicate (mark_bytes h) 0) h"
  let ?R = "{blk. reach h mem roots stacks blk}"
  have inv: "mark_inv h mem {} (h0, [])" "marks h0 = {}"
    using marking_start [OF wf] no_marks_cleared [OF wf] by (auto simp: mark_inv_def h0_def)
  obtain st1 where st1: "mark_all gc_mark_ptr roots (h0, []) = Some st1" "marks_step h mem {} (h0, []) st1"
      "marks (fst st1) = marks (fst (h0, [] :: nat list)) \<union> (\<Union>p\<in>set roots. exact_targets h p)"
    using exact.marks_words [OF wf inv(1), of roots] by blast
  have inv1: "mark_inv h mem {} st1"
    using st1(2) by (simp add: marks_step_def)
  obtain st2 where st2: "mark_all gc_mark_interior stacks st1 = Some st2" "marks_step h mem {} st1 st2"
      "marks (fst st2) = marks (fst st1) \<union> (\<Union>p\<in>set stacks. interior_targets h p)"
    using conservative.marks_words [OF wf inv1, of stacks] by blast
  have m2: "marks (fst st2) = (\<Union>p\<in>set roots. exact_targets h p) \<union> (\<Union>p\<in>set stacks. interior_targets h p)"
    using st1(3) st2(3) inv(2) by simp
  have sub: "marks (fst st2) \<subseteq> ?R"
    unfolding m2 by (auto simp: exact_targets_def interior_targets_def intro: reach_root reach_stack)
  have closed: "refs h mem blk \<subseteq> ?R" if "blk \<in> ?R" for blk
    using that by (auto intro: reach_ref)
  have "unmarked h st2 \<le> gc_blocks h0"
    using st1(2) st2(2) card_blocks [OF wf] gc_blocks_cleared [OF wf] inv(2) by (simp add: marks_step_def unmarked_def h0_def)
  then obtain h' where h': "gc_flush_mark (gc_blocks h0) mem st2 = Some (h', [])" "mark_inv h mem {} (h', [])" "marks (fst st2) \<subseteq> marks h'" "marks h' \<subseteq> ?R"
    using gc_flush_mark_ok [OF wf scan closed _ _ sub, of "gc_blocks h0"] st2(2) by (auto simp: marks_step_def)
  have "blk \<in> marks h'" if "reach h mem roots stacks blk" for blk
    using that
  proof induction
    case (reach_ref blk blk')
    then show ?case using h'(2) by (auto simp: mark_inv_def)
  next
    case (reach_root p blk)
    then have "blk \<in> marks (fst st2)"
      unfolding m2 by (auto simp: exact_targets_def)
    then show ?case using h'(3) by blast
  next
    case (reach_stack p blk q)
    then have "blk \<in> marks (fst st2)"
      unfolding m2 by (auto simp: interior_targets_def)
    then show ?case using h'(3) by blast
  qed
  then have "marks h' = ?R"
    using h'(4) by blast
  then show ?thesis
    using that [of h'] h'(1,2) st1(1) st2(1) by (simp add: gc_mark_def gc_mark_stack_def h0_def [symmetric] Let_def mark_inv_def)
qed

subsection \<open>The objects of a heap\<close>

definition objs_in :: "nat \<Rightarrow> gc_page \<Rightarrow> (nat \<times> nat) set" where
  "objs_in pid ph = (if GC_PID_PART pid = GC_LARGE_PART then {(0, 1)} else objs ph)"

lemma alive_in_objs: "alive_in pid ph = {(b, n) \<in> objs_in pid ph. need_flush ph \<longrightarrow> marked ph b}"
  by (auto simp: alive_in_def objs_in_def page_alive_def)

definition survivors :: "gc_heap \<Rightarrow> (gc_block \<Rightarrow> bool) \<Rightarrow> (nat \<times> nat) set" where
  "survivors h P = {place_of (gc_pages h pid ! k) (b, n) |pid k b n. k < length (gc_pages h pid) \<and> (b, n) \<in> objs_in pid (gc_pages h pid ! k) \<and> P (pid, k, b)}"

lemma objs_in_range: "page_wf ph \<Longrightarrow> page_of_part (GC_PID_PART pid) ph \<Longrightarrow> (b, n) \<in> objs_in pid ph \<Longrightarrow> first_block ph \<le> b \<and> b < max_blocks ph"
proof -
  assume wf: "page_wf ph" "page_of_part (GC_PID_PART pid) ph" and obj: "(b, n) \<in> objs_in pid ph"
  show ?thesis
  proof (cases "GC_PID_PART pid = GC_LARGE_PART")
    case True
    then show ?thesis using wf(2) obj by (auto simp: objs_in_def page_of_part_def)
  next
    case False
    then have o: "(b, n) \<in> objs ph" using obj by (simp add: objs_in_def)
    then have "b < max_blocks ph"
      using objs_range [OF wf(1)] by fastforce
    moreover have "first_block ph \<le> b"
    proof (cases "sizes ph")
      case None
      then show ?thesis using o by (simp add: objs_def)
    next
      case (Some s)
      then have "s ! b \<noteq> 0"
        using o by (simp add: objs_def)
      then show ?thesis
        using page_wfD(6) [OF wf(1) Some, of b] by (cases "b < first_block ph") auto
    qed
    ultimately show ?thesis by simp
  qed
qed

lemma alive_marking:
  assumes wf: "heap_wf h" and m: "marking h h'"
  shows "alive h' = survivors h (\<lambda>blk. blk \<in> marks h')"
proof -
  have at: "place_of (gc_pages h' pid ! k) ` alive_in pid (gc_pages h' pid ! k) =
      {place_of (gc_pages h pid ! k) (b, n) |b n. (b, n) \<in> objs_in pid (gc_pages h pid ! k) \<and> (pid, k, b) \<in> marks h'}"
    if k: "k < length (gc_pages h pid)" for pid k
  proof -
    let ?p = "gc_pages h pid ! k" and ?q = "gc_pages h' pid ! k"
    note same = but_marks_simps [OF markingD(2) [OF m k]]
    have place: "place_of ?q = place_of ?p"
      using place_of_same [OF same(11)] .
    have objs: "objs_in pid ?q = objs_in pid ?p"
      using same(12) by (simp add: objs_in_def)
    have "marked ?q b \<longleftrightarrow> (pid, k, b) \<in> marks h'" if "(b, n) \<in> objs_in pid ?p" for b n
      using objs_in_range [OF heap_wfD(1,2) [OF wf k] that] k markingD(1) [OF m] same(7) by (auto simp: marks_def)
    then have "alive_in pid ?q = {(b, n) \<in> objs_in pid ?p. (pid, k, b) \<in> marks h'}"
      unfolding alive_in_objs objs using same(10) by auto
    then show ?thesis unfolding place by auto
  qed
  show ?thesis
    unfolding alive_index survivors_def markingD(1) [OF m] using at by (auto 4 0)
qed


subsection \<open>Finalizers\<close>

definition dead :: "gc_page \<Rightarrow> u8 list \<Rightarrow> nat \<Rightarrow> bool" where
  "dead ph szs b \<longleftrightarrow> szs ! b \<noteq> 0 \<and> \<not> marked ph b"

definition finalizer_calls :: "gc_memory \<Rightarrow> gc_page \<Rightarrow> u8 list \<Rightarrow> nat list \<Rightarrow> (nat \<times> nat) list" where
  "finalizer_calls mem ph szs bids = map (\<lambda>b. (word_at mem (block_addr ph b), block_addr ph b))
     (filter (\<lambda>b. dead ph szs b \<and> word_at mem (block_addr ph b) \<noteq> 0) bids)"

lemma finalize_blocks_ok:
  assumes m: "bmp ph = Some m" "(length szs + 7) div 8 \<le> length m"
  shows "distinct bids \<Longrightarrow> \<forall>b\<in>set bids. b < length szs \<Longrightarrow> \<exists>szs'. finalize_blocks mem ph bids szs = Some (finalizer_calls mem ph szs bids, szs') \<and>
     length szs' = length szs \<and> (\<forall>b. szs' ! b = (if b \<in> set bids \<and> dead ph szs b then 0 else szs ! b))"
  using m(2)
proof (induction bids arbitrary: szs)
  case Nil
  then show ?case by (simp add: finalizer_calls_def)
next
  case (Cons bid bids)
  have load: "load bid szs = Some (szs ! bid)"
    using Cons.prems(2) by (simp add: load_def)
  obtain x where x: "get_bit m bid = Some x"
    using get_bit_total [of bid "length szs" m] Cons.prems by auto
  have marked: "marked ph bid \<longleftrightarrow> x"
    using m(1) x by (auto simp: marked_def)
  show ?case
  proof (cases "dead ph szs bid")
    case False
    obtain szs' where "finalize_blocks mem ph bids szs = Some (finalizer_calls mem ph szs bids, szs')" "length szs' = length szs"
        "\<forall>b. szs' ! b = (if b \<in> set bids \<and> dead ph szs b then 0 else szs ! b)"
      using Cons.IH [of szs] Cons.prems by auto
    then show ?thesis
      using False load m(1) x marked by (auto simp: finalizer_calls_def dead_def)
  next
    case True
    define szs1 where "szs1 = szs[bid := 0]"
    have len: "length szs1 = length szs" and st: "store bid 0 szs = Some szs1"
      using Cons.prems(2) by (auto simp: szs1_def store_def)
    have other: "szs1 ! b = szs ! b" if "b \<noteq> bid" for b
      using that by (simp add: szs1_def)
    obtain szs' where IH: "finalize_blocks mem ph bids szs1 = Some (finalizer_calls mem ph szs1 bids, szs')" "length szs' = length szs"
        "\<forall>b. szs' ! b = (if b \<in> set bids \<and> dead ph szs1 b then 0 else szs1 ! b)"
      using Cons.IH [of szs1] Cons.prems len by auto
    have "dead ph szs1 b = dead ph szs b" if "b \<in> set bids" for b
      using other [of b] Cons.prems(1) that by (cases "b = bid") (simp_all add: dead_def)
    then have "finalizer_calls mem ph szs1 bids = finalizer_calls mem ph szs bids"
      unfolding finalizer_calls_def by (intro arg_cong [where f = "map _"] filter_cong) auto
    moreover have "szs' ! b = (if b \<in> set (bid # bids) \<and> dead ph szs b then 0 else szs ! b)" for b
      using IH(3) other [of b] True Cons.prems(1,2) by (cases "b = bid") (auto simp: dead_def szs1_def)
    moreover have "szs ! bid \<noteq> 0" "\<not> x"
      using True marked by (auto simp: dead_def)
    ultimately show ?thesis
      using IH(1,2) load m(1) x st True by (simp add: finalizer_calls_def Let_def)
  qed
qed

lemma block_sizes_ok_fewer:
  assumes ok: "block_sizes_ok hi 0 (Some s) runs" and len: "length s' = length s"
    and fewer: "\<And>b. b < hi \<Longrightarrow> s' ! b = 0 \<or> s' ! b = s ! b"
  shows "block_sizes_ok hi 0 (Some s') runs"
proof (rule block_sizes_okI, goal_cases)
  case 1
  then show ?case using block_sizes_okD(1) [OF ok] len by simp
next
  case (2 b)
  then show ?case using block_sizes_okD(2) [OF ok, of b] fewer [of b] by auto
next
  case (3 b q d)
  then show ?case using block_sizes_okD(3) [OF ok, of b q d] fewer [of b] by auto
next
  case (4 b b')
  then have b: "s ! b = s' ! b" "s ! b \<noteq> 0" "b < hi"
    using fewer [of b] by auto
  then have "b' < hi"
    using block_sizes_okD(2) [OF ok, of b] 4 by simp
  moreover have "s ! b' = 0"
    using block_sizes_okD(4) [OF ok, of b b'] 4 b by simp
  ultimately show ?case using fewer [of b'] by auto
qed

lemma finalize_page_ok:
  assumes wf: "page_wf ph" and s: "sizes ph = Some szs" and flush: "need_flush ph"
  obtains ph' where "finalize_page mem ph = Some (finalizer_calls mem ph szs [first_block ph..<max_blocks ph], ph')"
    "keeps_page ph ph'" "need_flush ph'"
proof -
  let ?bids = "[first_block ph..<max_blocks ph]"
  obtain m where m: "bmp ph = Some m" "(max_blocks ph + 7) div 8 \<le> length m"
    using wf flush page_wfD(7) by (auto simp: page_wf_def)
  have ok: "block_sizes_ok (max_blocks ph) 0 (Some szs) (free_runs ph)"
    using page_wfD(4) [OF wf] s by simp
  have len: "length szs = max_blocks ph"
    using block_sizes_okD(1) [OF ok] .
  obtain szs' where fin: "finalize_blocks mem ph ?bids szs = Some (finalizer_calls mem ph szs ?bids, szs')" "length szs' = length szs"
      "\<And>b. szs' ! b = (if b \<in> set ?bids \<and> dead ph szs b then 0 else szs ! b)"
    using finalize_blocks_ok [OF m(1), of szs ?bids mem] m(2) len by auto
  show ?thesis
  proof (cases "first_block ph \<ge> max_blocks ph")
    case True
    then show ?thesis
      using that [of ph] keeps_page_refl [OF wf] flush by (simp add: finalize_page_def finalizer_calls_def)
  next
    case False
    define ph' where "ph' = ph\<lparr>sizes := Some szs'\<rparr>"
    have result: "finalize_page mem ph = Some (finalizer_calls mem ph szs ?bids, ph')"
      using False s fin(1) by (simp add: finalize_page_def ph'_def)
    have marked: "marked ph' b = marked ph b" for b
      by (simp add: marked_def ph'_def)
    have zero: "szs ! b = 0" if "b < first_block ph" for b
      using page_wfD(6) [OF wf s that] .
    have szs': "szs' ! b = (if marked ph b then szs ! b else 0)" if "b < max_blocks ph" for b
      using fin(3) [of b] zero [of b] that by (auto simp: dead_def)
    have objs: "objs ph' = {(b, n) \<in> objs ph. marked ph b}"
      using szs' s by (auto simp: objs_def ph'_def split: if_splits)
    have "block_sizes_ok (max_blocks ph) 0 (Some szs') (free_runs ph)"
      using szs' by (intro block_sizes_ok_fewer [OF ok fin(2)]) auto
    moreover have "\<exists>n. (b, n) \<in> objs ph'" if "marked ph b" "b < max_blocks ph" for b
      using wf flush s that unfolding objs by (auto simp: page_wf_def)
    ultimately have "page_wf ph'"
      using wf szs' zero page_wfD(1) [OF wf] m marked
      by (auto simp: page_wf_def ph'_def [symmetric] objs) (auto simp: ph'_def page_shape_def free_runs_def)
    moreover have "page_alive ph' = page_alive ph"
      unfolding page_alive_def objs marked using flush by (auto simp: ph'_def)
    ultimately show ?thesis
      using that [OF result] flush s by (auto simp: keeps_page_def same_page_def ph'_def)
  qed
qed


text \<open>Pages that all keep their objects.\<close>

definition flushing :: "gc_heap \<Rightarrow> bool" where
  "flushing h \<longleftrightarrow> (\<forall>pid. \<forall>ph\<in>set (gc_pages h pid). need_flush ph)"

lemma large_not_finalizer: "heap_wf h \<Longrightarrow> pid mod 4 = MEM_KIND_FINALIZER \<Longrightarrow> GC_PID_PART pid = GC_LARGE_PART \<Longrightarrow> gc_pages h pid = []"
  using heap_wfD(2,3) [of h 0 pid] by (cases "gc_pages h pid") (auto simp: page_of_part_def)

lemma heap_keep_slot:
  assumes wf: "heap_wf h" and part: "GC_PID_PART pid \<noteq> GC_LARGE_PART" and keep: "list_all2 keeps_page (gc_pages h pid) ps"
    and h': "h' = h\<lparr>gc_pages := (gc_pages h)(pid := ps)\<rparr>"
  shows "heap_wf h'" "alive h' = alive h"
proof -
  have len: "length ps = length (gc_pages h pid)" and at: "keeps_page (gc_pages h pid ! k) (ps ! k)" if "k < length ps" for k
    using keep that by (auto simp: list_all2_conv_all_nth)
  have len: "length ps = length (gc_pages h pid)"
    using keep by (simp add: list_all2_lengthD)
  have pages: "gc_pages h' p = (if p = pid then ps else gc_pages h p)" for p
    by (simp add: h')
  have wf_at: "page_wf (gc_pages h' p ! i) \<and> page_of_part (GC_PID_PART p) (gc_pages h' p ! i) \<and>
      (p mod 4 = MEM_KIND_FINALIZER \<longrightarrow> sizes (gc_pages h' p ! i) \<noteq> None) \<and> page_region (gc_pages h' p ! i) = page_region (gc_pages h p ! i)"
    if "i < length (gc_pages h' p)" for p i
    using heap_wfD [OF wf, of i p] that at [of i] same_page_part same_page_sizes same_page_region len unfolding pages
    by (cases "p = pid") (auto simp: keeps_page_def)
  have "gc_free_pages h' p \<le> length (gc_pages h' p)" "p \<ge> GC_PAGE_SLOTS \<Longrightarrow> gc_pages h' p = []" for p
    using wf len by (auto simp: h' heap_wf_def heap_pages_wf_def)
  then have "heap_pages_wf h'"
    using wf_at unfolding heap_pages_wf_def by (metis in_set_conv_nth)
  moreover have "length (gc_pages h' p) = length (gc_pages h p)" for p
    using len by (simp add: pages)
  then have "pages_apart h'"
    using wf wf_at unfolding heap_wf_def pages_apart_def by metis
  ultimately show "heap_wf h'"
    by (simp add: heap_wf_def)
  have "place_of (ps ! k) ` alive_in pid (ps ! k) = place_of (gc_pages h pid ! k) ` alive_in pid (gc_pages h pid ! k)" if "k < length ps" for k
    using keeps_page_alive [OF at [OF that] part] .
  then have "(\<Union>x\<in>set ps. place_of x ` alive_in pid x) = (\<Union>x\<in>set (gc_pages h pid). place_of x ` alive_in pid x)"
    unfolding UN_nth using len by simp
  then have "(\<Union>x\<in>set (gc_pages h' p). place_of x ` alive_in p x) = (\<Union>x\<in>set (gc_pages h p). place_of x ` alive_in p x)" for p
    by (simp add: pages)
  then show "alive h' = alive h"
    unfolding alive_def by simp
qed

text \<open>The calls for the pages of a slot and of a heap.\<close>

definition page_calls :: "gc_memory \<Rightarrow> gc_page \<Rightarrow> (nat \<times> nat) list" where
  "page_calls mem ph = (case sizes ph of None \<Rightarrow> [] | Some szs \<Rightarrow> finalizer_calls mem ph szs [first_block ph..<max_blocks ph])"

lemma finalize_pages_ok:
  "\<forall>ph\<in>set phs. page_wf ph \<and> sizes ph \<noteq> None \<and> need_flush ph \<Longrightarrow>
   \<exists>phs'. finalize_pages mem phs = Some (concat (map (page_calls mem) phs), phs') \<and> list_all2 keeps_page phs phs' \<and> (\<forall>ph\<in>set phs'. need_flush ph)"
proof (induction phs)
  case (Cons ph phs)
  then obtain szs where ph: "page_wf ph" "sizes ph = Some szs" "need_flush ph"
    by auto
  obtain ph' where "finalize_page mem ph = Some (page_calls mem ph, ph')" "keeps_page ph ph'" "need_flush ph'"
    using finalize_page_ok [OF ph] ph(2) by (auto simp: page_calls_def)
  moreover obtain phs' where "finalize_pages mem phs = Some (concat (map (page_calls mem) phs), phs')" "list_all2 keeps_page phs phs'" "\<forall>ph\<in>set phs'. need_flush ph"
    using Cons by auto
  ultimately show ?case by simp
qed simp

lemma finalize_slots_ok:
  "heap_wf h \<Longrightarrow> flushing h \<Longrightarrow> distinct pids \<Longrightarrow> \<forall>pid\<in>set pids. pid mod 4 = MEM_KIND_FINALIZER \<Longrightarrow>
   \<exists>h'. finalize_slots mem pids h = Some (concat (map (\<lambda>pid. concat (map (page_calls mem) (gc_pages h pid))) pids), h') \<and>
     heap_wf h' \<and> flushing h' \<and> alive h' = alive h"
proof (induction pids arbitrary: h)
  case (Cons pid pids)
  have "\<forall>ph\<in>set (gc_pages h pid). page_wf ph \<and> sizes ph \<noteq> None \<and> need_flush ph"
    using Cons.prems by (auto simp: heap_wf_def heap_pages_wf_def flushing_def)
  then obtain ps where ps: "finalize_pages mem (gc_pages h pid) = Some (concat (map (page_calls mem) (gc_pages h pid)), ps)"
      "list_all2 keeps_page (gc_pages h pid) ps" "\<forall>ph\<in>set ps. need_flush ph"
    using finalize_pages_ok by blast
  let ?h = "h\<lparr>gc_pages := (gc_pages h)(pid := ps)\<rparr>"
  have h1: "heap_wf ?h \<and> alive ?h = alive h"
  proof (cases "GC_PID_PART pid = GC_LARGE_PART")
    case True
    then have "gc_pages h pid = []"
      using large_not_finalizer Cons.prems by simp
    then have "ps = []" "(gc_pages h)(pid := []) = gc_pages h"
      using ps(2) by (auto simp: fun_eq_iff)
    then have "?h = h" by simp
    then show ?thesis using Cons.prems by simp
  next
    case False
    then show ?thesis using heap_keep_slot [OF Cons.prems(1) False ps(2) refl] by simp
  qed
  moreover have "flushing ?h"
    using Cons.prems(2) ps(3) by (simp add: flushing_def)
  ultimately obtain h' where h': "finalize_slots mem pids ?h = Some (concat (map (\<lambda>pid. concat (map (page_calls mem) (gc_pages ?h pid))) pids), h')"
      "heap_wf h'" "flushing h'" "alive h' = alive ?h"
    using Cons.IH [of ?h] Cons.prems by auto
  have "map (\<lambda>p. concat (map (page_calls mem) (gc_pages ?h p))) pids = map (\<lambda>p. concat (map (page_calls mem) (gc_pages h p))) pids"
    using Cons.prems(3) by (intro map_cong refl) auto
  with h'(1) have "finalize_slots mem pids ?h = Some (concat (map (\<lambda>pid. concat (map (page_calls mem) (gc_pages h pid))) pids), h')"
    by (simp only:)
  then show ?case
    using h'(2-4) h1 ps(1) by simp
qed simp

subsection \<open>Releasing empty pages\<close>

lemma is_zero_bit:
  assumes "is_zero (take (e - s) (drop s m))" "s \<le> b div 8" "b div 8 < e" "e \<le> length m"
  shows "get_bit m b \<noteq> Some True"
proof -
  have "take (e - s) (drop s m) ! (b div 8 - s) = m ! (b div 8)"
    using assms(2-4) by simp
  moreover have "b div 8 - s < length (take (e - s) (drop s m))"
    using assms(2-4) by simp
  ultimately have "m ! (b div 8) \<in> set (take (e - s) (drop s m))"
    by (metis nth_mem)
  then have "m ! (b div 8) = 0"
    using assms(1) by (auto simp: is_zero_def list_all_iff)
  then show ?thesis
    using assms(3,4) by (simp add: get_bit_def load_def)
qed

lemma empty_page_dead:
  assumes wf: "page_wf ph" "page_of_part (GC_PID_PART pid) ph" and flush: "need_flush ph" and empty: "gc_page_is_empty ph"
  shows "alive_in pid ph = {}"
proof -
  obtain m where m: "bmp ph = Some m" "is_zero (take ((max_blocks ph + 7) div 8 - first_block ph div 8) (drop (first_block ph div 8) m))"
    using empty by (auto simp: gc_page_is_empty_def split: option.splits)
  have "\<not> marked ph b" if "(b, n) \<in> objs_in pid ph" for b n
  proof -
    have "first_block ph \<le> b" "b < max_blocks ph"
      using objs_in_range [OF wf that] by auto
    then have "first_block ph div 8 \<le> b div 8" "b div 8 < (max_blocks ph + 7) div 8"
      by (simp_all add: div_le_mono)
    then show ?thesis
      using is_zero_bit [OF m(2)] page_wfD(7) [OF wf(1) m(1)] m(1) by (auto simp: marked_def)
  qed
  then show ?thesis
    using flush unfolding alive_in_objs by auto
qed

definition apart :: "gc_page \<Rightarrow> gc_page \<Rightarrow> bool" where
  "apart a b \<longleftrightarrow> page_region a \<inter> page_region b = {}"

lemma pages_apart_iff:
  "pages_apart h \<longleftrightarrow> (\<forall>pid. sorted_wrt apart (gc_pages h pid)) \<and> (\<forall>pid pid'. pid \<noteq> pid' \<longrightarrow> (\<forall>a\<in>set (gc_pages h pid). \<forall>b\<in>set (gc_pages h pid'). apart a b))"
  (is "?L \<longleftrightarrow> ?A \<and> ?B")
proof
  assume L: ?L
  have "apart (gc_pages h pid ! i) (gc_pages h pid ! j)" if "i < j" "j < length (gc_pages h pid)" for pid i j
    using L that unfolding pages_apart_def apart_def by (metis nat_neq_iff order_less_trans prod.inject)
  moreover have "apart a b" if ab: "pid \<noteq> pid'" "a \<in> set (gc_pages h pid)" "b \<in> set (gc_pages h pid')" for pid pid' a b
  proof -
    obtain i j where "i < length (gc_pages h pid)" "a = gc_pages h pid ! i" "j < length (gc_pages h pid')" "b = gc_pages h pid' ! j"
      using ab(2,3) by (auto simp: in_set_conv_nth)
    then show ?thesis using L ab(1) unfolding pages_apart_def apart_def by blast
  qed
  ultimately show "?A \<and> ?B"
    by (auto simp: sorted_wrt_iff_nth_less)
next
  assume AB: "?A \<and> ?B"
  have "apart (gc_pages h pid ! k) (gc_pages h pid' ! k')"
    if "k < length (gc_pages h pid)" "k' < length (gc_pages h pid')" "(pid, k) \<noteq> (pid', k')" for pid k pid' k'
  proof (cases "pid = pid'")
    case True
    then have "apart (gc_pages h pid ! min k k') (gc_pages h pid ! max k k')"
      using AB that by (simp add: sorted_wrt_iff_nth_less min_def max_def)
    then show ?thesis using True by (auto simp: apart_def min_def max_def split: if_splits)
  next
    case False
    then show ?thesis using AB that nth_mem by blast
  qed
  then show ?L
    unfolding pages_apart_def apart_def by blast
qed

lemma sweep_pages_ok:
  "sweep_pages part budget retained c ps = (ps', retained', n) \<Longrightarrow>
   set ps' \<subseteq> set ps \<and> (sorted_wrt apart ps \<longrightarrow> sorted_wrt apart ps') \<and> n \<le> length ps' \<and> (\<forall>ph\<in>set ps. ph \<in> set ps' \<or> gc_page_is_empty ph)"
  by (induction ps arbitrary: retained ps' retained' n) (auto simp: Let_def split: prod.splits if_splits, fastforce+)

lemma sweep_slot_ok:
  assumes wf: "heap_wf h" "flushing h" and sweep: "sweep_slot budget pid (h, retained) = (h', retained')"
  shows "heap_wf h' \<and> flushing h' \<and> alive h' = alive h"
proof -
  obtain ps r n where s: "sweep_pages (GC_PID_PART pid) budget retained (gc_free_pages h pid) (gc_pages h pid) = (ps, r, n)"
    by (metis prod_cases3)
  have h': "h' = h\<lparr>gc_pages := (gc_pages h)(pid := ps), gc_free_pages := (gc_free_pages h)(pid := n)\<rparr>"
    using sweep s by (simp add: sweep_slot_def)
  note ok = sweep_pages_ok [OF s]
  have "heap_pages_wf h'"
    using wf(1) ok by (auto simp: heap_wf_def heap_pages_wf_def h' subset_iff)
  moreover have "pages_apart h'"
    using wf(1) ok unfolding heap_wf_def pages_apart_iff h' by (auto simp: subset_iff)
  moreover have "flushing h'"
    using wf(2) ok by (auto simp: flushing_def h' subset_iff)
  moreover have "(\<Union>x\<in>set ps. place_of x ` alive_in pid x) = (\<Union>x\<in>set (gc_pages h pid). place_of x ` alive_in pid x)"
  proof -
    have "alive_in pid ph = {}" if "ph \<in> set (gc_pages h pid)" "ph \<notin> set ps" for ph
      using empty_page_dead [of ph pid] that ok wf by (auto simp: heap_wf_def heap_pages_wf_def flushing_def)
    then show ?thesis using ok by fastforce
  qed
  then have "(\<Union>x\<in>set (gc_pages h' p). place_of x ` alive_in p x) = (\<Union>x\<in>set (gc_pages h p). place_of x ` alive_in p x)" for p
    by (simp add: h')
  then have "alive h' = alive h"
    unfolding alive_def by simp
  ultimately show ?thesis by (simp add: heap_wf_def)
qed

lemma gc_empty_sweep_ok:
  assumes "heap_wf h" "flushing h"
  shows "heap_wf (gc_empty_sweep budget h)" "alive (gc_empty_sweep budget h) = alive h"
proof -
  have "heap_wf (fst (fold (sweep_slot budget) pids (h, r))) \<and> alive (fst (fold (sweep_slot budget) pids (h, r))) = alive h"
    if "heap_wf h" "flushing h" for h r pids
    using that
  proof (induction pids arbitrary: h r)
    case (Cons pid pids)
    obtain h1 r1 where "sweep_slot budget pid (h, r) = (h1, r1)"
      by (cases "sweep_slot budget pid (h, r)")
    then show ?case using sweep_slot_ok [OF Cons.prems] Cons.IH [of h1 r1] by simp
  qed simp
  then show "heap_wf (gc_empty_sweep budget h)" "alive (gc_empty_sweep budget h) = alive h"
    using assms unfolding gc_empty_sweep_def by auto
qed


subsection \<open>A whole collection\<close>

text \<open>The objects of the finalizer pages that satisfy \<open>P\<close> and have a finalizer, with it.\<close>

definition finalizable :: "gc_heap \<Rightarrow> gc_memory \<Rightarrow> (gc_block \<Rightarrow> bool) \<Rightarrow> (nat \<times> nat) set" where
  "finalizable h mem P = {(word_at mem a, a) |pid k b n a. k < length (gc_pages h pid) \<and> pid mod 4 = MEM_KIND_FINALIZER \<and>
     (b, n) \<in> objs (gc_pages h pid ! k) \<and> P (pid, k, b) \<and> a = block_addr (gc_pages h pid ! k) b \<and> word_at mem a \<noteq> 0}"

lemma page_calls_marking:
  assumes wf: "heap_wf h" and m: "marking h h'" and k: "k < length (gc_pages h pid)"
  shows "set (page_calls mem (gc_pages h' pid ! k)) = {(word_at mem a, a) |b n a. sizes (gc_pages h pid ! k) \<noteq> None \<and> (b, n) \<in> objs (gc_pages h pid ! k) \<and>
     (pid, k, b) \<notin> marks h' \<and> a = block_addr (gc_pages h pid ! k) b \<and> word_at mem a \<noteq> 0}"
proof -
  let ?p = "gc_pages h pid ! k" and ?q = "gc_pages h' pid ! k"
  note same = but_marks_simps [OF markingD(2) [OF m k]]
  show ?thesis
  proof (cases "sizes ?p")
    case None
    then show ?thesis using same by (simp add: page_calls_def)
  next
    case (Some s)
    have "first_block ?p \<le> b" if "s ! b \<noteq> 0" for b
      using page_wfD(6) [OF heap_wfD(1) [OF wf k] Some, of b] that by (cases "b < first_block ?p") auto
    moreover have "marked ?q b \<longleftrightarrow> (pid, k, b) \<in> marks h'" if "b < max_blocks ?p" for b
      using that k markingD(1) [OF m] same(7) by (auto simp: marks_def)
    ultimately show ?thesis
      using Some same by (fastforce simp: page_calls_def finalizer_calls_def dead_def objs_def block_addr_def)
  qed
qed

lemma gc_collect_ok:
  assumes wf: "heap_wf h" and scan: "scannable h mem"
  obtains calls h' where "gc_collect mem roots stacks budget h = Some (calls, h')" "heap_wf h'"
    "alive h' = survivors h (reach h mem roots stacks)" "set calls = finalizable h mem (\<lambda>blk. \<not> reach h mem roots stacks blk)"
proof -
  obtain h1 where h1: "gc_mark mem roots stacks h = Some h1" "marking h h1" "marks h1 = {blk. reach h mem roots stacks blk}"
    using gc_mark_ok [OF wf scan] by blast
  have "need_flush ph" if "ph \<in> set (gc_pages h1 pid)" for pid ph
    using that markingD(1,2) [OF h1(2)] but_marks_simps(10) by (metis in_set_conv_nth)
  then have wf1: "heap_wf h1" "flushing h1"
    using heap_wf_marking [OF wf h1(2)] by (auto simp: flushing_def)
  let ?pids = "filter (\<lambda>pid. pid mod 4 = MEM_KIND_FINALIZER) [0..<GC_PAGE_SLOTS]"
  let ?calls = "concat (map (\<lambda>pid. concat (map (page_calls mem) (gc_pages h1 pid))) ?pids)"
  have pids: "distinct ?pids" "\<forall>pid\<in>set ?pids. pid mod 4 = MEM_KIND_FINALIZER"
    by simp_all
  obtain h2 where h2: "gc_call_finalizers mem h1 = Some (?calls, h2)" "heap_wf h2" "flushing h2" "alive h2 = alive h1"
    using finalize_slots_ok [OF wf1 pids, of mem] unfolding gc_call_finalizers_def by blast
  have slot: "pid < GC_PAGE_SLOTS" if "k < length (gc_pages h pid)" for pid k
    using wf that by (cases "pid < GC_PAGE_SLOTS") (auto simp: heap_wf_def heap_pages_wf_def not_less)
  have "set ?calls = (\<Union>pid\<in>set ?pids. \<Union>k<length (gc_pages h pid). set (page_calls mem (gc_pages h1 pid ! k)))"
    by (simp add: UN_nth [where F = "\<lambda>ph. set (page_calls mem ph)"] markingD(1) [OF h1(2)])
  also have "\<dots> = (\<Union>pid\<in>set ?pids. \<Union>k<length (gc_pages h pid). {(word_at mem a, a) |b n a. (b, n) \<in> objs (gc_pages h pid ! k) \<and>
      \<not> reach h mem roots stacks (pid, k, b) \<and> a = block_addr (gc_pages h pid ! k) b \<and> word_at mem a \<noteq> 0})"
  proof (intro SUP_cong refl, goal_cases)
    case (1 pid k)
    then show ?case
      using page_calls_marking [OF wf h1(2), of k pid mem] heap_wfD(3) [OF wf, of k pid] h1(3) by simp
  qed
  also have "\<dots> = finalizable h mem (\<lambda>blk. \<not> reach h mem roots stacks blk)"
  proof (intro set_eqI iffI, goal_cases)
    case (1 x)
    then show ?case unfolding finalizable_def by auto
  next
    case (2 x)
    then show ?case using slot unfolding finalizable_def by simp blast
  qed
  finally have calls: "set ?calls = finalizable h mem (\<lambda>blk. \<not> reach h mem roots stacks blk)" .
  have "alive h2 = survivors h (reach h mem roots stacks)"
    using h2(4) alive_marking [OF wf h1(2)] h1(3) by simp
  then show ?thesis
    using that [of ?calls "gc_empty_sweep budget h2"] calls gc_empty_sweep_ok [OF h2(2,3)] h1(1) h2(1)
    by (simp add: gc_collect_def gc_allocator_after_mark_def)
qed

subsection \<open>Runs of the program\<close>

definition empty_heap :: gc_heap where
  "empty_heap = \<lparr>gc_pages = (\<lambda>_. []), gc_free_pages = (\<lambda>_. 0)\<rparr>"

lemma empty_heap_ok: "heap_wf empty_heap" "alive empty_heap = {}"
  by (auto simp: empty_heap_def heap_wf_def heap_pages_wf_def pages_apart_def alive_def)

text \<open>The states of the heap with the objects the program holds: it allocates objects and runs of blocks, forgets objects, and
  collects when every object it holds is reachable.\<close>

inductive gc_run :: "gc_heap \<Rightarrow> (nat \<times> nat) set \<Rightarrow> bool" where
  run_init: "gc_run empty_heap {}"
| run_alloc: "gc_run h L \<Longrightarrow> fresh_memory os h \<Longrightarrow> 0 < sz \<Longrightarrow> sz + 2 * GC_PAGE_SIZE \<le> INT_LIMIT \<Longrightarrow> kind < 4 \<Longrightarrow> oc < GC_PAGE_CLASSES \<Longrightarrow>
    (kind = MEM_KIND_FINALIZER \<longrightarrow> round_up sz 8 < GC_LARGE_BLOCK) \<Longrightarrow>
    gc_allocator_alloc os sz kind oc h = Some (int sz', Some ptr, h') \<Longrightarrow> gc_run h' (insert (ptr, sz') L)"
| run_reserve: "gc_run h L \<Longrightarrow> fresh_memory os h \<Longrightarrow> part < GC_FIXED_PARTS \<Longrightarrow> kind < 4 \<Longrightarrow> kind \<noteq> MEM_KIND_FINALIZER \<Longrightarrow> oc < GC_PAGE_CLASSES \<Longrightarrow>
    0 < want \<Longrightarrow> want \<le> 1000 \<Longrightarrow> gc_alloc_fixed_run os oc part kind want h = Some (ptr, got, h') \<Longrightarrow>
    gc_run h' (L \<union> new_blocks ptr got (GC_SIZES ! part))"
| run_forget: "gc_run h L \<Longrightarrow> L' \<subseteq> L \<Longrightarrow> gc_run h L'"
| run_collect: "gc_run h L \<Longrightarrow> scannable h mem \<Longrightarrow> L \<subseteq> survivors h (reach h mem roots stacks) \<Longrightarrow>
    gc_collect mem roots stacks budget h = Some (calls, h') \<Longrightarrow> gc_run h' L"

lemma gc_run_ok: "gc_run h L \<Longrightarrow> heap_wf h \<and> L \<subseteq> alive h"
proof (induction rule: gc_run.induct)
  case run_init
  then show ?case by (simp add: empty_heap_ok)
next
  case (run_alloc h L os sz kind oc sz' ptr h')
  obtain sz2 ptr2 h2 where "gc_allocator_alloc os sz kind oc h = Some (int sz2, Some ptr2, h2)" "allocated h ptr2 sz2 h2"
    using gc_allocator_alloc_ok [OF conjunct1 [OF run_alloc.IH] run_alloc.hyps(3-7,2)] by blast
  then show ?case
    using run_alloc by (auto simp: allocated_def)
next
  case (run_reserve h L os part kind oc want ptr got h')
  obtain ptr2 got2 h2 where "gc_alloc_fixed_run os oc part kind want h = Some (ptr2, got2, h2)" "heap_wf h2"
      "alive h2 = alive h \<union> new_blocks ptr2 got2 (GC_SIZES ! part)"
    by (rule gc_alloc_fixed_run_ok [OF conjunct1 [OF run_reserve.IH] run_reserve.hyps(3-8,2)]) (rule that)
  then show ?case
    using run_reserve by auto
next
  case (run_collect h L mem roots stacks budget calls h')
  obtain calls2 h2 where "gc_collect mem roots stacks budget h = Some (calls2, h2)" "heap_wf h2" "alive h2 = survivors h (reach h mem roots stacks)"
    by (rule gc_collect_ok [OF conjunct1 [OF run_collect.IH] run_collect.hyps(2)]) (rule that)
  then show ?case
    using run_collect by simp
qed auto


subsection \<open>Properties\<close>

lemma alive_in_some_page:
  assumes wf: "heap_wf h" and x: "x \<in> alive h"
  shows "\<exists>pid. \<exists>ph\<in>set (gc_pages h pid). region x \<subseteq> page_region ph"
proof -
  obtain pid k b n where k: "k < length (gc_pages h pid)" "(b, n) \<in> alive_in pid (gc_pages h pid ! k)" "x = place_of (gc_pages h pid ! k) (b, n)"
    using x by (auto simp: alive_def in_set_conv_nth)
  have "region x \<subseteq> page_region (gc_pages h pid ! k)"
    unfolding k(3) using place_in_page alive_in_range(1) [OF heap_wfD(1,2) [OF wf k(1)] k(2)] page_wfD(1) [OF heap_wfD(1) [OF wf k(1)]] by blast
  then show ?thesis using nth_mem [OF k(1)] by blast
qed

lemma fresh_memory_exists:
  assumes "heap_wf h"
  obtains os where "fresh_memory os h"
proof -
  define P where "P = (\<Union>pid<GC_PAGE_SLOTS. set (gc_pages h pid))"
  define M where "M = (\<Sum>ph\<in>P. base ph + page_size ph)"
  have "ph \<in> P" if "ph \<in> set (gc_pages h pid)" for pid ph
    using assms that by (cases "pid < GC_PAGE_SLOTS") (auto simp: P_def heap_wf_def heap_pages_wf_def not_less)
  moreover have "base ph + page_size ph \<le> M" if "ph \<in> P" for ph
    unfolding M_def using that by (intro member_le_sum) (auto simp: P_def)
  ultimately have "fresh_memory \<lparr>os_memory = (\<lambda>_. M), incremental_active = False\<rparr> h"
    by (fastforce simp: fresh_memory_def page_region_def)
  then show ?thesis using that by blast
qed

text \<open>C5: However a program allocates objects, reserves runs of blocks, forgets objects and collects (when all the objects it
  holds are reachable), the objects it holds never overlap and each lies within one page of the heap.\<close>

theorem gc_objects_disjoint:
  assumes "gc_run h L" "x \<in> L"
  shows "(\<exists>pid. \<exists>ph\<in>set (gc_pages h pid). region x \<subseteq> page_region ph) \<and> (\<forall>y\<in>L. y \<noteq> x \<longrightarrow> region x \<inter> region y = {})"
proof -
  have ok: "heap_wf h" "L \<subseteq> alive h"
    using gc_run_ok [OF assms(1)] by auto
  then show ?thesis
    using alive_in_some_page [OF ok(1), of x] alive_disjoint [OF ok(1), of x] assms(2) by blast
qed

lemma run_two_objects:
  obtains h x y where "gc_run h {x, y}" "x \<noteq> y"
proof -
  obtain os where os: "fresh_memory os empty_heap"
    using fresh_memory_exists [OF empty_heap_ok(1)] by blast
  have small: "0 < (24 :: nat)" "24 + 2 * GC_PAGE_SIZE \<le> INT_LIMIT" "0 < (4 :: nat)" "0 < GC_PAGE_CLASSES" "0 = MEM_KIND_FINALIZER \<longrightarrow> round_up 24 8 < GC_LARGE_BLOCK"
    by (simp_all add: GC_PAGE_SIZE_def INT_LIMIT_def GC_PAGE_CLASSES_def MEM_KIND_FINALIZER_def)
  obtain sz ptr h1 where 1: "gc_allocator_alloc os 24 0 0 empty_heap = Some (int sz, Some ptr, h1)"
    by (rule gc_allocator_alloc_ok [OF empty_heap_ok(1) small os])
  have run: "gc_run h1 {(ptr, sz)}"
    by (rule run_alloc [OF run_init os small 1])
  have wf: "heap_wf h1" "(ptr, sz) \<in> alive h1"
    using gc_run_ok [OF run] by auto
  obtain os2 where os2: "fresh_memory os2 h1"
    using fresh_memory_exists [OF wf(1)] by blast
  obtain sz2 ptr2 h2 where 2: "gc_allocator_alloc os2 24 0 0 h1 = Some (int sz2, Some ptr2, h2)" "allocated h1 ptr2 sz2 h2"
    by (rule gc_allocator_alloc_ok [OF wf(1) small os2])
  have "gc_run h2 {(ptr2, sz2), (ptr, sz)}"
    by (rule run_alloc [OF run os2 small 2(1)])
  moreover have "(ptr2, sz2) \<noteq> (ptr, sz)"
    using 2(2) wf(2) by (auto simp: allocated_def)
  ultimately show ?thesis using that by blast
qed

theorem gc_objects_disjoint_witness: "\<exists>h x y. gc_run h {x, y} \<and> x \<noteq> y \<and> region x \<inter> region y = {}"
proof -
  obtain h x y where r: "gc_run h {x, y}" "x \<noteq> y"
    by (rule run_two_objects)
  moreover have "region x \<inter> region y = {}"
    using gc_objects_disjoint [OF r(1), of x] r(2) by auto
  ultimately show ?thesis by blast
qed

text \<open>C8: An allocation of at least one byte succeeds, gives a block at least as large as asked for, and the block does not
  overlap any object that the program holds.\<close>

theorem gc_alloc_fresh_block:
  assumes run: "gc_run h L" and sz: "0 < sz" "sz + 2 * GC_PAGE_SIZE \<le> INT_LIMIT" and kind: "kind < 4" "oc < GC_PAGE_CLASSES"
    "kind = MEM_KIND_FINALIZER \<longrightarrow> round_up sz 8 < GC_LARGE_BLOCK" and os: "fresh_memory os h"
  shows "\<exists>sz' ptr h'. gc_allocator_alloc os sz kind oc h = Some (int sz', Some ptr, h') \<and> sz \<le> sz' \<and>
    gc_run h' (insert (ptr, sz') L) \<and> (\<forall>x\<in>L. region x \<inter> region (ptr, sz') = {})"
proof -
  obtain sz' ptr h' where a: "gc_allocator_alloc os sz kind oc h = Some (int sz', Some ptr, h')" "sz \<le> sz'" "allocated h ptr sz' h'"
    by (rule gc_allocator_alloc_ok [OF conjunct1 [OF gc_run_ok [OF run]] sz kind os])
  have "x \<in> alive h' \<and> x \<noteq> (ptr, sz')" if "x \<in> L" for x
    using gc_run_ok [OF run] a(3) that by (auto simp: allocated_def)
  then have "\<forall>x\<in>L. region x \<inter> region (ptr, sz') = {}"
    using alive_disjoint [of h' _ "(ptr, sz')"] a(3) unfolding allocated_def by blast
  then show ?thesis
    using a run_alloc [OF run os sz kind a(1)] by blast
qed

theorem gc_alloc_fresh_block_witness:
  "\<exists>h os sz' ptr h'. gc_run h {} \<and> gc_allocator_alloc os 3000000 2 1 h = Some (int sz', Some ptr, h') \<and> 3000000 \<le> sz'"
proof -
  obtain os where os: "fresh_memory os empty_heap"
    using fresh_memory_exists [OF empty_heap_ok(1)] by blast
  have "\<exists>sz' ptr h'. gc_allocator_alloc os 3000000 2 1 empty_heap = Some (int sz', Some ptr, h') \<and> 3000000 \<le> sz' \<and>
    gc_run h' (insert (ptr, sz') {}) \<and> (\<forall>x\<in>{}. region x \<inter> region (ptr, sz') = {})"
    by (rule gc_alloc_fresh_block [OF run_init _ _ _ _ _ os])
      (simp_all add: GC_PAGE_SIZE_def INT_LIMIT_def GC_PAGE_CLASSES_def MEM_KIND_FINALIZER_def)
  then show ?thesis using run_init by blast
qed

text \<open>A heap with one page of three blocks of pointers: block 0 refers to block 1, block 2 is not referred to.\<close>

definition small_page :: gc_page where
  "small_page = \<lparr>base = 65536, page_size = 65536, page_kind = 1, bmp = Some [3], block_size = 8, size_bits = 3, need_flush = True,
     first_block = 0, max_blocks = 4, free = \<lparr>fl_current = 0, fl_size_bits = 1, fl_data = [(3, 1)]\<rparr>, sizes = None\<rparr>"

definition small_heap :: gc_heap where
  "small_heap = \<lparr>gc_pages = (\<lambda>_. [])(1 := [small_page]), gc_free_pages = (\<lambda>_. 0)\<rparr>"

definition small_memory :: gc_memory where
  "small_memory = \<lparr>word_at = (\<lambda>_. 0)(65536 := 65544), type_at = (\<lambda>_. \<lparr>t_is_fun = False, t_is_enum = False, t_mark_bits = None\<rparr>)\<rparr>"

lemma small_page_wf: "page_wf small_page"
  by (simp add: page_wf_def page_shape_def small_page_def GC_PAGE_SIZE_def free_runs_def fl_runs_def fl_wf_def block_sizes_ok_def)

lemma small_heap_wf: "heap_wf small_heap"
  using small_page_wf
  by (auto simp: heap_wf_def heap_pages_wf_def pages_apart_def small_heap_def page_of_part_def GC_PID_PART_def GC_ALL_PAGES_def
      GC_PARTITIONS_def GC_LARGE_PART_def GC_FIXED_PARTS_def GC_SIZES_def MEM_KIND_FINALIZER_def GC_PAGE_SLOTS_def GC_PAGE_CLASSES_def small_page_def)

lemma scan_all_words: "scan_loop mem None block pos nwords \<noteq> None"
proof (induction "nwords - pos" arbitrary: block pos)
  case 0
  then show ?case by (simp add: scan_loop.simps [of mem None block pos nwords])
next
  case (Suc n)
  then have "scan_loop mem None (block + 8) (pos + 1) nwords \<noteq> None"
    by simp
  then show ?case
    using Suc.hyps(2) by (auto simp: scan_loop.simps [of mem None block pos nwords])
qed

lemma small_scannable: "scannable small_heap small_memory"
  using scan_all_words
  by (auto simp: scannable_def blocks_def small_heap_def page_at_def gc_scan_def small_page_def gc_allocator_fast_block_size_def MEM_KIND_DYNAMIC_def
      split: if_splits)

text \<open>C6: Marking always ends, and the blocks it marks are exactly the ones that can be reached from the roots and the words of
  the stacks through the words it scans.\<close>

theorem gc_mark_marks_reachable:
  assumes "heap_wf h" "scannable h mem"
  shows "\<exists>h'. gc_mark mem roots stacks h = Some h' \<and> heap_wf h' \<and> (\<forall>blk. blk \<in> marks h' \<longleftrightarrow> reach h mem roots stacks blk)"
proof -
  obtain h' where "gc_mark mem roots stacks h = Some h'" "marking h h'" "marks h' = {blk. reach h mem roots stacks blk}"
    using gc_mark_ok [OF assms] by blast
  then show ?thesis using heap_wf_marking [OF assms(1)] by auto
qed

theorem gc_mark_marks_reachable_witness:
  "\<exists>h'. gc_mark small_memory [65536] [] small_heap = Some h' \<and> heap_wf h' \<and> (\<forall>blk. blk \<in> marks h' \<longleftrightarrow> reach small_heap small_memory [65536] [] blk)"
  by (rule gc_mark_marks_reachable [OF small_heap_wf small_scannable])

text \<open>C7: A collection leaves exactly the objects whose first block is reachable, and calls the finalizers of exactly the
  unreachable objects that have one.\<close>

theorem gc_collect_keeps_reachable:
  assumes "heap_wf h" "scannable h mem"
  shows "\<exists>calls h'. gc_collect mem roots stacks budget h = Some (calls, h') \<and> heap_wf h' \<and> alive h' = survivors h (reach h mem roots stacks) \<and>
    set calls = finalizable h mem (\<lambda>blk. \<not> reach h mem roots stacks blk)"
  by (rule gc_collect_ok [OF assms]) blast

theorem gc_collect_keeps_reachable_witness:
  "\<exists>calls h'. gc_collect small_memory [65536] [] 0 small_heap = Some (calls, h') \<and> heap_wf h' \<and> alive h' = survivors small_heap (reach small_heap small_memory [65536] []) \<and>
    set calls = finalizable small_heap small_memory (\<lambda>blk. \<not> reach small_heap small_memory [65536] [] blk)"
  by (rule gc_collect_keeps_reachable [OF small_heap_wf small_scannable])

text \<open>Sweeping a page keeps exactly its marked objects, and every other block after the first becomes free.\<close>

theorem flush_free_list_sweeps:
  assumes "page_wf ph" "need_flush ph"
  shows "\<exists>ph'. flush_free_list ph = Some ph' \<and> page_wf ph' \<and> \<not> need_flush ph' \<and> objs ph' = {(b, n) \<in> objs ph. marked ph b} \<and>
    free_blocks ph' = {first_block ph..<max_blocks ph} - (\<Union>(b, n)\<in>objs ph'. {b..<b + n})"
  by (rule flush_free_list_ok [OF assms]) (unfold obj_blocks_def, blast)

theorem flush_free_list_sweeps_witness:
  "\<exists>ph'. flush_free_list small_page = Some ph' \<and> page_wf ph' \<and> \<not> need_flush ph' \<and> objs ph' = {(b, n) \<in> objs small_page. marked small_page b} \<and>
    free_blocks ph' = {first_block small_page..<max_blocks small_page} - (\<Union>(b, n)\<in>objs ph'. {b..<b + n})"
  by (rule flush_free_list_sweeps [OF small_page_wf]) (simp add: small_page_def)


lemma fold_max_ge: "(b :: int) \<le> fold (\<lambda>r b. if r > b then r else b) rs b"
proof (induction rs arbitrary: b)
  case (Cons r rs)
  then show ?case using Cons.IH [of b] order_trans [of b r, OF _ Cons.IH [of r]] by (cases "b < r") simp_all
qed simp

lemma sweep_begin_range: "0 \<le> cap \<Longrightarrow> 0 \<le> fst (gc_empty_sweep_begin keep cap bytes s) \<and> fst (gc_empty_sweep_begin keep cap bytes s) \<le> cap"
  using fold_max_ge [of 0 "(recent s)[collection s mod 4 := bytes - last_total s]"] by (simp add: gc_empty_sweep_begin_def Let_def)

text \<open>C39: The budget for cached empty pages is between 0 and the cap, and it is 0 at the fourth collection in a row without
  allocation, so that the cached pages are released.\<close>

theorem empty_page_budget_drains:
  assumes "0 \<le> cap" "length (recent s) = 4" "last_total s = bytes"
  shows "0 \<le> fst (gc_empty_sweep_begin keep cap any s) \<and> fst (gc_empty_sweep_begin keep cap any s) \<le> cap \<and>
    fst (gc_empty_sweep_begin keep cap bytes (((\<lambda>s. snd (gc_empty_sweep_begin keep cap bytes s)) ^^ 3) s)) = 0"
proof -
  obtain a b c d where r: "recent s = [a, b, c, d]"
    using assms(2) by (auto simp: length_Suc_conv numeral_eq_Suc)
  have "collection s mod 4 \<in> {0, 1, 2, 3}"
    by auto
  then have "fst (gc_empty_sweep_begin True cap bytes (((\<lambda>s. snd (gc_empty_sweep_begin True cap bytes s)) ^^ 3) s)) = 0"
    using assms(1,3) r by (auto simp: gc_empty_sweep_begin_def Let_def numeral_3_eq_3 mod_Suc)
  moreover have "fst (gc_empty_sweep_begin False cap bytes s') = 0" for s'
    by (simp add: gc_empty_sweep_begin_def)
  ultimately show ?thesis
    using sweep_begin_range [OF assms(1)] by (cases keep) simp_all
qed

theorem empty_page_budget_drains_witness:
  "let s = \<lparr>recent = [900, 0, 50, 7], last_total = 1000, collection = 6\<rparr> in
    fst (gc_empty_sweep_begin True 500 1000 s) = 500 \<and>
    fst (gc_empty_sweep_begin True 500 1000 (((\<lambda>s. snd (gc_empty_sweep_begin True 500 1000 s)) ^^ 3) s)) = 0"
  using empty_page_budget_drains [of 500 "\<lparr>recent = [900, 0, 50, 7], last_total = 1000, collection = 6\<rparr>" 1000 True 1000]
  by (simp add: gc_empty_sweep_begin_def Let_def)

lemma finalize_slots_None: "pid \<in> set pids \<Longrightarrow> distinct pids \<Longrightarrow> finalize_pages mem (gc_pages h pid) = None \<Longrightarrow> finalize_slots mem pids h = None"
proof (induction pids arbitrary: h)
  case (Cons p pids)
  show ?case
  proof (cases "p = pid")
    case False
    then have "finalize_slots mem pids (h\<lparr>gc_pages := (gc_pages h)(p := ps)\<rparr>) = None" for ps
      using Cons.prems by (intro Cons.IH) auto
    then show ?thesis by (auto simp: bind_eq_None_conv)
  qed (use Cons.prems in simp)
qed simp

text \<open>C40: A large block with a finalizer cannot be finalized: its page has no table of sizes, which \<open>gc_call_finalizers\<close> reads.\<close>

theorem large_finalizer_has_no_sizes:
  assumes "GC_LARGE_BLOCK \<le> sz" "sz + 2 * GC_PAGE_SIZE \<le> INT_LIMIT" "oc < GC_PAGE_CLASSES"
  shows "\<exists>sz' ptr h. gc_allocator_alloc os sz MEM_KIND_FINALIZER oc empty_heap = Some (sz', Some ptr, h) \<and> gc_call_finalizers mem h = None"
proof -
  define s where "s = round_up (round_up sz 8) GC_PAGE_SIZE"
  define pid where "pid = GC_PID oc GC_LARGE_PART MEM_KIND_FINALIZER"
  have up: "sz \<le> round_up sz 8" "round_up sz 8 < sz + 8"
    by (rule round_up_pow2 [of sz 3], simp)+
  have up2: "round_up sz 8 \<le> s" "s < round_up sz 8 + GC_PAGE_SIZE"
    by (rule round_up_pow2 [of "round_up sz 8" 16], simp add: s_def GC_PAGE_SIZE_def)+
  have s: "256 \<le> s" "s < INT_LIMIT" "\<not> INT_LIMIT \<le> round_up sz 8" "GC_LARGE_BLOCK \<le> round_up sz 8"
    using up up2 assms(1,2) by (auto simp: GC_LARGE_BLOCK_def GC_PAGE_SIZE_def)
  have new: "new_page_size (length []) s s = s" "s div s = 1" "0 < s" "new_first 1 s False = 0" "1 \<le> GC_PAGE_SIZE"
    using s by (auto simp: new_page_size_def new_first_def align_up_def GC_PAGE_SIZE_def)
  obtain ph where ph: "gc_allocator_new_page os [] s s MEM_KIND_FINALIZER False = Some ph" "first_block ph = 0" "max_blocks ph = 1" "sizes ph = None"
    using new_page_ok [OF new(3) new(1) [symmetric] new(2) [symmetric] new(5) new(4) [symmetric], where os = os and kind = MEM_KIND_FINALIZER]
    by (simp only: if_False) force
  let ?h = "empty_heap\<lparr>gc_pages := (gc_pages empty_heap)(pid := [ph])\<rparr>"
  have "gc_allocator_alloc os sz MEM_KIND_FINALIZER oc empty_heap = Some (int s, Some (base ph), ?h)"
    using s ph(1) by (simp add: gc_allocator_alloc_def Let_def s_def [symmetric] pid_def empty_heap_def)
  moreover have "pid < GC_PAGE_SLOTS" "pid mod 4 = MEM_KIND_FINALIZER"
    unfolding pid_def by (rule GC_PID_slot [OF assms(3)] GC_PID_kind; simp add: GC_LARGE_PART_def GC_PARTITIONS_def MEM_KIND_FINALIZER_def)+
  then have "gc_call_finalizers mem ?h = None"
    using ph unfolding gc_call_finalizers_def by (intro finalize_slots_None [of pid]) (simp_all add: finalize_page_def)
  ultimately show ?thesis by blast
qed

theorem large_finalizer_has_no_sizes_witness:
  "\<exists>sz' ptr h. gc_allocator_alloc \<lparr>os_memory = (\<lambda>_. 65536), incremental_active = False\<rparr> 1048576 MEM_KIND_FINALIZER 0 empty_heap = Some (sz', Some ptr, h) \<and>
    gc_call_finalizers small_memory h = None"
  by (rule large_finalizer_has_no_sizes) (simp_all add: GC_LARGE_BLOCK_def GC_PAGE_SIZE_def INT_LIMIT_def GC_PAGE_CLASSES_def)

text \<open>Emptying a run that is not the current one moves \<open>current\<close> past a run that still has blocks: here block 0 is no longer free
  although no object has it.\<close>

lemma take_var_loses_run:
  "map_option (\<lambda>(p, fl). (p, drop (fl_current fl) (fl_data fl))) (take_var 2 \<lparr>fl_current = 0, fl_size_bits = 1, fl_data = [(0, 1), (4, 2)]\<rparr>) = Some (4, [(6, 0)])"
  by code_simp

end
