(* ===== verification/StringBuffer.thy ===== *)
theory StringBuffer
  imports FieldHash Utf
begin

unbundle bit_operations_syntax

text \<open>
  The string buffer of \<^verbatim>\<open>std/buffer.c\<close>, and the URL coding of \<^verbatim>\<open>std/string.c\<close> that writes to it.

  A buffer is a list of items, the newest first, each with an array that is filled from the left. The units of a new array are
  indeterminate (\<open>None\<close>) until they are written. An operation is \<open>None\<close> when it leaves an array or when the \<open>int\<close> arithmetic of the
  source overflows. The contents of a buffer are what has been appended to it, for less than \<open>buffer_limit\<close> units; the locale
  \<open>text_buffer\<close> is this contract, and the users of the buffer are verified against it.
\<close>

subsection \<open>buffer.c: the string buffer\<close>

record stringitem =
  si_str :: "uchar option list"
  si_size :: int
  si_len :: int

record hl_buffer =
  buf_totlen :: int
  buf_blen :: int
  buf_data :: "stringitem list"

definition fits :: "int \<Rightarrow> int option" where
  "fits x = (if - (2 ^ 31) \<le> x \<and> x < 2 ^ 31 then Some x else None)"

definition memcpy :: "'a list \<Rightarrow> int \<Rightarrow> 'a list \<Rightarrow> int \<Rightarrow> 'a list option" where
  "memcpy dst pos src n =
     (if 0 \<le> pos \<and> 0 \<le> n \<and> pos + n \<le> int (length dst) \<and> n \<le> int (length src)
      then Some (take (nat pos) dst @ take (nat n) src @ drop (nat (pos + n)) dst) else None)"

definition hl_alloc_buffer :: hl_buffer where
  "hl_alloc_buffer = \<lparr>buf_totlen = 0, buf_blen = 16, buf_data = []\<rparr>"

partial_function (option) grow_blen :: "int \<Rightarrow> int \<Rightarrow> int option" where
  "grow_blen total_len len = do {
     limit \<leftarrow> fits (4 * len);
     if total_len \<ge> limit then do { len' \<leftarrow> fits (2 * len); grow_blen total_len len' } else Some len }"

definition buffer_append_new :: "hl_buffer \<Rightarrow> uchar list \<Rightarrow> int \<Rightarrow> hl_buffer option" where
  "buffer_append_new b s len = do {
     bl \<leftarrow> grow_blen (buf_totlen b) (buf_blen b);
     let sz = (if len < bl then bl else len);
     bytes \<leftarrow> fits (2 * sz);
     str \<leftarrow> memcpy (replicate (nat sz) None) 0 (map Some s) len;
     Some (b\<lparr>buf_blen := bl, buf_data := \<lparr>si_str = str, si_size = sz, si_len = len\<rparr> # buf_data b\<rparr>) }"

definition hl_buffer_str_sub :: "hl_buffer \<Rightarrow> uchar list option \<Rightarrow> int \<Rightarrow> hl_buffer option" where
  "hl_buffer_str_sub b so len = (case so of None \<Rightarrow> Some b | Some s \<Rightarrow>
     if len \<le> 0 then Some b
     else do {
       total_len \<leftarrow> fits (buf_totlen b + len);
       let b = b\<lparr>buf_totlen := total_len\<rparr>;
       case buf_data b of
         [] \<Rightarrow> buffer_append_new b s len
       | it # rest \<Rightarrow>
           let free = si_size it - si_len it in
           if free \<ge> len then do {
             str \<leftarrow> memcpy (si_str it) (si_len it) (map Some s) len;
             Some (b\<lparr>buf_data := it\<lparr>si_str := str, si_len := si_len it + len\<rparr> # rest\<rparr>) }
           else do {
             str \<leftarrow> memcpy (si_str it) (si_len it) (map Some s) free;
             buffer_append_new (b\<lparr>buf_data := it\<lparr>si_str := str, si_len := si_len it + free\<rparr> # rest\<rparr>) (drop (nat free) s) (len - free) } })"

definition USTR :: "string \<Rightarrow> uchar list" where
  "USTR s = map (\<lambda>c. word_of_nat (of_char c)) s @ [0]"

definition hl_buffer_str :: "hl_buffer \<Rightarrow> uchar list option \<Rightarrow> hl_buffer option" where
  "hl_buffer_str b so = (case so of
     Some s \<Rightarrow> do { n \<leftarrow> ustrlen s; hl_buffer_str_sub b (Some s) (int n) }
   | None \<Rightarrow> hl_buffer_str_sub b (Some (USTR ''null'')) 4)"

definition hl_buffer_cstr :: "hl_buffer \<Rightarrow> vbyte list option \<Rightarrow> hl_buffer option" where
  "hl_buffer_cstr b so = (case so of
     Some s \<Rightarrow> do {
       len \<leftarrow> hl_utf8_length s 0;
       (out, _) \<leftarrow> hl_from_utf8 len s;
       hl_buffer_str_sub b (Some out) (int len) }
   | None \<Rightarrow> hl_buffer_str_sub b (Some (USTR ''null'')) 4)"

definition hl_buffer_char :: "hl_buffer \<Rightarrow> uchar \<Rightarrow> hl_buffer option" where
  "hl_buffer_char b c = do {
     total_len \<leftarrow> fits (buf_totlen b + 1);
     let b = b\<lparr>buf_totlen := total_len\<rparr>;
     case buf_data b of
       it # rest \<Rightarrow>
         if si_len it \<noteq> si_size it then do {
           str \<leftarrow> memcpy (si_str it) (si_len it) [Some c] 1;
           Some (b\<lparr>buf_data := it\<lparr>si_str := str, si_len := si_len it + 1\<rparr> # rest\<rparr>) }
         else buffer_append_new b [c] 1
     | [] \<Rightarrow> buffer_append_new b [c] 1 }"

fun content_loop :: "stringitem list \<Rightarrow> int \<Rightarrow> uchar option list \<Rightarrow> uchar option list option" where
  "content_loop [] s buf = Some buf"
| "content_loop (it # items) s buf = do {
     buf' \<leftarrow> memcpy buf (s - si_len it) (si_str it) (si_len it);
     content_loop items (s - si_len it) buf' }"

definition hl_buffer_content :: "hl_buffer \<Rightarrow> (uchar option list \<times> int) option" where
  "hl_buffer_content b = do {
     bytes \<leftarrow> fits (2 * (buf_totlen b + 1));
     buf \<leftarrow> memcpy (replicate (nat (buf_totlen b + 1)) None) (buf_totlen b) [Some 0] 1;
     buf \<leftarrow> content_loop (buf_data b) (buf_totlen b) buf;
     Some (buf, buf_totlen b) }"

definition hl_buffer_length :: "hl_buffer \<Rightarrow> int" where
  "hl_buffer_length b = buf_totlen b"

subsection \<open>The contents of a buffer\<close>

text \<open>The contents, the invariant of the items, and the limit that keeps the \<open>int\<close> arithmetic in range.\<close>

definition item_ok :: "stringitem \<Rightarrow> uchar list \<Rightarrow> bool" where
  "item_ok it d \<longleftrightarrow> int (length (si_str it)) = si_size it \<and> si_len it = int (length d) \<and> si_len it \<le> si_size it \<and>
     take (length d) (si_str it) = map Some d"

fun items_hold :: "stringitem list \<Rightarrow> uchar list \<Rightarrow> bool" where
  "items_hold [] s \<longleftrightarrow> s = []"
| "items_hold (it # items) s \<longleftrightarrow> (\<exists>d rest. s = rest @ d \<and> item_ok it d \<and> items_hold items rest)"

definition buffer_limit :: nat where
  "buffer_limit = 2 ^ 30 - 2"

definition buffer_holds :: "hl_buffer \<Rightarrow> uchar list \<Rightarrow> bool" where
  "buffer_holds b s \<longleftrightarrow> items_hold (buf_data b) s \<and> buf_totlen b = int (length s) \<and> length s \<le> buffer_limit \<and>
     16 \<le> buf_blen b \<and> (buf_blen b = 16 \<or> 2 * buf_blen b \<le> buf_totlen b)"

lemma items_hold_Cons: "items_hold items rest \<Longrightarrow> item_ok it d \<Longrightarrow> items_hold (it # items) (rest @ d)"
  by auto

lemma fits_ok: "- (2 ^ 31) \<le> x \<Longrightarrow> x < 2 ^ 31 \<Longrightarrow> fits x = Some x"
  by (simp add: fits_def)

lemma grow_blen_ok:
  assumes "16 \<le> len" "len = 16 \<or> 2 * len \<le> n" "0 \<le> n" "n < 2 ^ 30"
  shows "\<exists>len'. grow_blen n len = Some len' \<and> 16 \<le> len' \<and> (len' = 16 \<or> 2 * len' \<le> n)"
  using assms
proof (induction "nat (n - len)" arbitrary: len rule: less_induct)
  case less
  then have f: "fits (4 * len) = Some (4 * len)" "fits (2 * len) = Some (2 * len)" by (auto intro!: fits_ok)
  show ?case
  proof (cases "4 * len \<le> n")
    case True
    with less.prems have "\<exists>len'. grow_blen n (2 * len) = Some len' \<and> 16 \<le> len' \<and> (len' = 16 \<or> 2 * len' \<le> n)"
      by (intro less.hyps) auto
    with f True show ?thesis by (simp add: grow_blen.simps [of n len])
  next
    case False
    with f less.prems show ?thesis by (auto simp: grow_blen.simps [of n len])
  qed
qed

lemma buffer_append_new_ok:
  assumes "items_hold (buf_data b) s" "buf_totlen b = int (length s + length d)" "length s + length d \<le> buffer_limit"
    "16 \<le> buf_blen b" "buf_blen b = 16 \<or> 2 * buf_blen b \<le> buf_totlen b"
  shows "\<exists>b'. buffer_append_new b (d @ d') (int (length d)) = Some b' \<and> buffer_holds b' (s @ d)"
proof -
  have "buf_totlen b < 2 ^ 30" using assms(2,3) by (simp add: buffer_limit_def)
  then obtain bl where bl: "grow_blen (buf_totlen b) (buf_blen b) = Some bl" "16 \<le> bl" "bl = 16 \<or> 2 * bl \<le> buf_totlen b"
    using grow_blen_ok [OF assms(4,5)] assms(2) by auto
  define sz where "sz = (if int (length d) < bl then bl else int (length d))"
  define it where "it = \<lparr>si_str = map Some d @ replicate (nat sz - length d) None, si_size = sz, si_len = int (length d)\<rparr>"
  have sz: "int (length d) \<le> sz" "0 \<le> sz" "sz < 2 ^ 30"
    using bl assms(2,3) by (auto simp: sz_def buffer_limit_def)
  then have "fits (2 * sz) = Some (2 * sz)" by (auto intro!: fits_ok)
  moreover have "memcpy (replicate (nat sz) None) 0 (map Some (d @ d')) (int (length d)) = Some (si_str it)"
    using sz by (simp add: memcpy_def it_def)
  moreover have "items_hold (it # buf_data b) (s @ d)"
    using sz by (intro items_hold_Cons assms(1)) (simp add: item_ok_def it_def)
  ultimately show ?thesis
    using bl assms unfolding buffer_append_new_def buffer_holds_def
    by (simp add: it_def Let_def flip: sz_def del: items_hold.simps)
qed

lemma item_ok_write:
  assumes "item_ok it d" "si_len it + int (length e) \<le> si_size it"
  shows "\<exists>str. memcpy (si_str it) (si_len it) (map Some (e @ e')) (int (length e)) = Some str \<and>
    item_ok (it\<lparr>si_str := str, si_len := si_len it + int (length e)\<rparr>) (d @ e)"
proof -
  have l: "length d + length e \<le> length (si_str it)" using assms by (auto simp: item_ok_def)
  then have "nat (int (length d) + int (length e)) = length d + length e" by simp
  then show ?thesis using assms l
    by (auto simp: memcpy_def item_ok_def min_def)
qed

text \<open>Every append adds to the contents, and the contents can be read back.\<close>

lemma holds_cases:
  assumes "buffer_holds b s" "buf_data b = it # items"
  obtains d rest where "s = rest @ d" "item_ok it d" "items_hold items rest"
  using assms by (auto simp: buffer_holds_def)

lemma hl_buffer_str_sub_ok:
  assumes b: "buffer_holds b s" and l: "length s + length d \<le> buffer_limit"
  shows "\<exists>b'. hl_buffer_str_sub b (Some (d @ d')) (int (length d)) = Some b' \<and> buffer_holds b' (s @ d)"
proof (cases "d = []")
  case True
  then show ?thesis using b by (simp add: hl_buffer_str_sub_def)
next
  case False
  define b1 where "b1 = b\<lparr>buf_totlen := buf_totlen b + int (length d)\<rparr>"
  have f: "fits (buf_totlen b + int (length d)) = Some (buf_totlen b + int (length d))"
    using b l by (intro fits_ok) (auto simp: buffer_holds_def buffer_limit_def)
  have b1: "items_hold (buf_data b1) s" "buf_totlen b1 = int (length s + length d)" "16 \<le> buf_blen b1"
    "buf_blen b1 = 16 \<or> 2 * buf_blen b1 \<le> buf_totlen b1"
    using b by (auto simp: b1_def buffer_holds_def)
  show ?thesis
  proof (cases "buf_data b")
    case Nil
    have "\<exists>b'. buffer_append_new b1 (d @ d') (int (length d)) = Some b' \<and> buffer_holds b' (s @ d)"
      by (rule buffer_append_new_ok [OF b1(1,2) l b1(3,4)])
    with f Nil False show ?thesis by (simp add: hl_buffer_str_sub_def b1_def)
  next
    case (Cons it items)
    obtain e rest where e: "s = rest @ e" "item_ok it e" "items_hold items rest" by (rule holds_cases [OF b Cons])
    define free where "free = si_size it - si_len it"
    show ?thesis
    proof (cases "int (length d) \<le> free")
      case True
      then obtain str where str: "memcpy (si_str it) (si_len it) (map Some (d @ d')) (int (length d)) = Some str"
        "item_ok (it\<lparr>si_str := str, si_len := si_len it + int (length d)\<rparr>) (e @ d)"
        using item_ok_write [OF e(2), of d d'] by (auto simp: free_def)
      have "buffer_holds (b1\<lparr>buf_data := it\<lparr>si_str := str, si_len := si_len it + int (length d)\<rparr> # items\<rparr>) (s @ d)"
        using b1 l str(2) e by (auto simp: buffer_holds_def)
      with f Cons True False str(1) show ?thesis by (simp add: hl_buffer_str_sub_def b1_def Let_def free_def)
    next
      case short: False
      define n where "n = nat free"
      have n: "free = int n" "n < length d" using e(2) short by (auto simp: n_def free_def item_ok_def)
      have len: "int (length (take n d)) = free" using n by simp
      obtain str where str: "memcpy (si_str it) (si_len it) (map Some (take n d @ drop n d @ d')) free = Some str"
        "item_ok (it\<lparr>si_str := str, si_len := si_len it + free\<rparr>) (e @ take n d)"
        using item_ok_write [OF e(2), of "take n d" "drop n d @ d'"] unfolding len by (auto simp: free_def)
      define b2 where "b2 = b1\<lparr>buf_data := it\<lparr>si_str := str, si_len := si_len it + free\<rparr> # items\<rparr>"
      have "\<exists>b'. buffer_append_new b2 (drop n d @ d') (int (length (drop n d))) = Some b' \<and> buffer_holds b' ((s @ take n d) @ drop n d)"
      proof (rule buffer_append_new_ok)
        show "items_hold (buf_data b2) (s @ take n d)"
          using items_hold_Cons [OF e(3) str(2)] e(1) by (simp add: b2_def del: items_hold.simps)
      qed (use b1 l n in \<open>auto simp: b2_def\<close>)
      moreover have "map Some (d @ d') = map Some (take n d @ drop n d @ d')" by (simp flip: append_assoc)
      moreover have "drop (nat free) (d @ d') = drop n d @ d'" "int (length d) - free = int (length (drop n d))" using n by auto
      ultimately show ?thesis using f Cons short False str(1)
        by (simp add: hl_buffer_str_sub_def Let_def b2_def b1_def flip: free_def)
    qed
  qed
qed

lemma hl_buffer_char_str_sub:
  assumes "buffer_holds b s"
  shows "hl_buffer_char b c = hl_buffer_str_sub b (Some [c]) 1"
proof (cases "buf_data b")
  case Nil
  then show ?thesis by (simp add: hl_buffer_char_def hl_buffer_str_sub_def)
next
  case (Cons it items)
  obtain e rest where "item_ok it e" by (rule holds_cases [OF assms Cons])
  then have l: "int (length (si_str it)) = si_size it" "0 \<le> si_len it" "si_len it \<le> si_size it" by (auto simp: item_ok_def)
  show ?thesis
  proof (cases "si_len it = si_size it")
    case True
    then have "memcpy (si_str it) (si_len it) [Some c] 0 = Some (si_str it)" using l by (simp add: memcpy_def)
    then have "do { str \<leftarrow> memcpy (si_str it) (si_len it) [Some c] 0;
      buffer_append_new (b\<lparr>buf_totlen := n, buf_data := it\<lparr>si_str := str, si_len := si_len it\<rparr> # items\<rparr>) [c] 1 } =
      buffer_append_new (b\<lparr>buf_totlen := n\<rparr>) [c] 1" for n
      using Cons by (simp add: buffer_append_new_def)
    with True Cons show ?thesis by (simp add: hl_buffer_char_def hl_buffer_str_sub_def)
  next
    case False
    with Cons l show ?thesis by (auto simp: hl_buffer_char_def hl_buffer_str_sub_def Let_def)
  qed
qed

lemma content_loop_ok:
  assumes "items_hold items s" "length s \<le> length buf"
  shows "content_loop items (int (length s)) buf = Some (map Some s @ drop (length s) buf)"
  using assms
proof (induction items arbitrary: s buf)
  case (Cons it items)
  then obtain d rest where d: "s = rest @ d" "item_ok it d" "items_hold items rest" by auto
  have "memcpy buf (int (length rest)) (si_str it) (int (length d)) =
      Some (take (length rest) buf @ map Some d @ drop (length rest + length d) buf)"
    using d(2) Cons.prems d(1) by (auto simp: memcpy_def item_ok_def nat_int_add)
  moreover have "si_len it = int (length d)" using d(2) by (simp add: item_ok_def)
  moreover have "length rest \<le> length buf" using Cons.prems d(1) by simp
  ultimately show ?case using Cons.IH [OF d(3), of "take (length rest) buf @ map Some d @ drop (length rest + length d) buf"] d(1)
    by simp
qed simp

lemma hl_buffer_content_ok:
  assumes "buffer_holds b s"
  shows "hl_buffer_content b = Some (map Some (s @ [0]), int (length s))"
proof -
  have b: "items_hold (buf_data b) s" "buf_totlen b = int (length s)" "length s \<le> buffer_limit" using assms by (auto simp: buffer_holds_def)
  then have "fits (2 * (buf_totlen b + 1)) = Some (2 * (buf_totlen b + 1))"
    by (intro fits_ok) (auto simp: buffer_limit_def)
  moreover have "memcpy (replicate (nat (buf_totlen b + 1)) (None :: uchar option)) (buf_totlen b) [Some 0] 1 = Some (replicate (length s) None @ [Some 0])"
    using b(2) by (simp add: memcpy_def nat_add_distrib take_Cons' flip: replicate_Suc)
  ultimately show ?thesis
    using content_loop_ok [OF b(1), of "replicate (length s) None @ [Some 0]"] b(2) by (simp add: hl_buffer_content_def)
qed

subsection \<open>The contract of a text buffer\<close>

text \<open>A writer that appends \<open>out\<close>, whatever the buffer holds, as long as the total stays below the limit.\<close>

definition appends :: "('b \<Rightarrow> 'c list \<Rightarrow> bool) \<Rightarrow> nat \<Rightarrow> ('b \<Rightarrow> 'b option) \<Rightarrow> 'c list \<Rightarrow> bool" where
  "appends holds limit f out \<longleftrightarrow>
     (\<forall>b s. holds b s \<and> length s + length out \<le> limit \<longrightarrow> (\<exists>b'. f b = Some b' \<and> holds b' (s @ out)))"

locale text_buffer =
  fixes holds :: "'b \<Rightarrow> 'c list \<Rightarrow> bool" and limit :: nat and new :: 'b
    and put :: "'b \<Rightarrow> 'c \<Rightarrow> 'b option" and content :: "'b \<Rightarrow> ('c list \<times> int) option" and terminator :: 'c
  assumes holds_new: "holds new []"
    and put_appends: "appends holds limit (\<lambda>b. put b c) [c]"
    and content: "holds b s \<Longrightarrow> content b = Some (s @ [terminator], int (length s))"
begin

lemma appends_skip: "appends holds limit Some []"
  by (simp add: appends_def)

lemma appends_bind:
  assumes "appends holds limit f xs" "appends holds limit g ys"
  shows "appends holds limit (\<lambda>b. f b \<bind> g) (xs @ ys)"
  unfolding appends_def
proof (intro allI impI)
  fix b s assume "holds b s \<and> length s + length (xs @ ys) \<le> limit"
  moreover from this obtain b1 where "f b = Some b1" "holds b1 (s @ xs)"
    using assms(1) unfolding appends_def by fastforce
  moreover from calculation obtain b2 where "g b1 = Some b2" "holds b2 ((s @ xs) @ ys)"
    using assms(2) unfolding appends_def by fastforce
  ultimately show "\<exists>b'. f b \<bind> g = Some b' \<and> holds b' (s @ xs @ ys)" by simp
qed

lemma appends_content:
  assumes "appends holds limit f out" "length out \<le> limit"
  shows "f new \<bind> content = Some (out @ [terminator], int (length out))"
proof -
  obtain b where "f new = Some b" "holds b out"
    using assms holds_new unfolding appends_def by (metis append_Nil length_append)
  then show ?thesis by (simp add: content)
qed

lemma appends_fold:
  assumes "\<And>x. x \<in> set xs \<Longrightarrow> appends holds limit (f x) (g x)"
  shows "appends holds limit (\<lambda>b. fold (\<lambda>x bo. bo \<bind> f x) xs (Some b)) (concat (map g xs))"
  using assms
proof (induction xs rule: rev_induct)
  case Nil
  then show ?case by (simp add: appends_def)
next
  case (snoc x xs)
  then show ?case using appends_bind [of "\<lambda>b. fold (\<lambda>x bo. bo \<bind> f x) xs (Some b)" "concat (map g xs)" "f x" "g x"] by simp
qed

end

text \<open>The array that \<open>hl_buffer_content\<close> returns, when all of its units are determined.\<close>

definition buffer_text :: "hl_buffer \<Rightarrow> (uchar list \<times> int) option" where
  "buffer_text b = do {
     (buf, len) \<leftarrow> hl_buffer_content b;
     if None \<in> set buf then None else Some (map the buf, len) }"

lemma hl_buffer_str_sub_appends:
  "appends buffer_holds buffer_limit (\<lambda>b. hl_buffer_str_sub b (Some (d @ d')) (int (length d))) d"
  unfolding appends_def using hl_buffer_str_sub_ok by blast

interpretation sb: text_buffer buffer_holds buffer_limit hl_alloc_buffer hl_buffer_char buffer_text 0
proof
  show "buffer_holds hl_alloc_buffer []"
    by (simp add: buffer_holds_def hl_alloc_buffer_def)
next
  fix c show "appends buffer_holds buffer_limit (\<lambda>b. hl_buffer_char b c) [c]"
    using hl_buffer_str_sub_appends [of "[c]" "[]"] by (auto simp: appends_def hl_buffer_char_str_sub)
next
  fix b s assume "buffer_holds b s"
  then show "buffer_text b = Some (s @ [0], int (length s))"
    by (auto simp: buffer_text_def hl_buffer_content_ok comp_def)
qed

lemma ustrlen_prefix: "terminated s \<Longrightarrow> \<exists>d d'. s = d @ 0 # d' \<and> ustrlen s = Some (length d) \<and> cstr s = d @ [0]"
proof (induction s)
  case (Cons c s)
  show ?case
  proof (cases "c = 0")
    case False
    then obtain d d' where "s = d @ 0 # d'" "ustrlen s = Some (length d)" "cstr s = d @ [0]" using Cons by auto
    with False show ?thesis by (intro exI [of _ "c # d"] exI [of _ d']) simp
  qed (auto intro: exI [of _ "[]"])
qed simp

lemma hl_buffer_str_appends:
  assumes "terminated s"
  shows "appends buffer_holds buffer_limit (\<lambda>b. hl_buffer_str b (Some s)) (butlast (cstr s))"
proof -
  obtain d d' where d: "s = d @ 0 # d'" "ustrlen s = Some (length d)" "cstr s = d @ [0]" using ustrlen_prefix [OF assms] by blast
  then have "(\<lambda>b. hl_buffer_str b (Some s)) = (\<lambda>b. hl_buffer_str_sub b (Some (d @ 0 # d')) (int (length d)))"
    by (simp add: hl_buffer_str_def)
  then show ?thesis using hl_buffer_str_sub_appends [of d "0 # d'"] d(3) by simp
qed

subsection \<open>Sequences of appends\<close>

datatype buffer_op =
    PutChar uchar
  | PutStr "uchar list option"
  | PutSub "uchar list option" int
  | PutCstr "vbyte list option"

primrec buffer_step :: "buffer_op \<Rightarrow> hl_buffer \<Rightarrow> hl_buffer option" where
  "buffer_step (PutChar c) b = hl_buffer_char b c"
| "buffer_step (PutStr s) b = hl_buffer_str b s"
| "buffer_step (PutSub s len) b = hl_buffer_str_sub b s len"
| "buffer_step (PutCstr s) b = hl_buffer_cstr b s"

definition buffer_run :: "buffer_op list \<Rightarrow> hl_buffer \<Rightarrow> hl_buffer option" where
  "buffer_run ops b = fold (\<lambda>op bo. bo \<bind> buffer_step op) ops (Some b)"

text \<open>What an operation is to append, and the arguments that are strings in memory.\<close>

definition null_text :: "uchar list" where
  "null_text = [0x6E, 0x75, 0x6C, 0x6C]"

fun op_text :: "buffer_op \<Rightarrow> uchar list" where
  "op_text (PutChar c) = [c]"
| "op_text (PutStr None) = null_text"
| "op_text (PutStr (Some s)) = butlast (cstr s)"
| "op_text (PutSub None len) = []"
| "op_text (PutSub (Some s) len) = take (nat len) s"
| "op_text (PutCstr None) = null_text"
| "op_text (PutCstr (Some s)) = butlast (the (hl_to_utf16 s))"

fun op_valid :: "buffer_op \<Rightarrow> bool" where
  "op_valid (PutStr (Some s)) \<longleftrightarrow> terminated s"
| "op_valid (PutSub (Some s) len) \<longleftrightarrow> len \<le> int (length s)"
| "op_valid (PutCstr (Some s)) \<longleftrightarrow> hl_utf8_length s 0 \<noteq> None \<and> (\<forall>c\<in>set s. c < 0xF8)"
| "op_valid _ \<longleftrightarrow> True"

lemma put_null_appends: "appends buffer_holds buffer_limit (\<lambda>b. hl_buffer_str_sub b (Some (USTR ''null'')) 4) null_text"
proof -
  have u: "USTR ''null'' = null_text @ [0]" by (simp add: USTR_def null_text_def)
  show ?thesis unfolding u using hl_buffer_str_sub_appends [of null_text "[0]"] by (simp add: null_text_def)
qed

lemma put_cstr_appends:
  assumes "hl_utf8_length s 0 = Some n" "\<forall>c\<in>set s. c < 0xF8"
  shows "appends buffer_holds buffer_limit (\<lambda>b. hl_buffer_cstr b (Some s)) (butlast (the (hl_to_utf16 s)))"
proof -
  obtain out where out: "hl_from_utf8 n s = Some (out @ [0], n)" "length out = n" "hl_to_utf16 s = Some (out @ [0])"
    using length_decodable [of s 0 n] assms by (auto simp: hl_utf8_length_def decodable_def hl_from_utf8_def hl_to_utf16_def)
  then show ?thesis using hl_buffer_str_sub_appends [of out "[0]"] assms(1) by (simp add: hl_buffer_cstr_def)
qed

lemma put_sub_appends:
  assumes "len \<le> int (length s)"
  shows "appends buffer_holds buffer_limit (\<lambda>b. hl_buffer_str_sub b (Some s) len) (take (nat len) s)"
proof (cases "len \<le> 0")
  case True
  then show ?thesis by (simp add: hl_buffer_str_sub_def appends_def)
next
  case False
  then show ?thesis
    using hl_buffer_str_sub_appends [of "take (nat len) s" "drop (nat len) s"] assms by simp
qed

lemma buffer_step_appends: "op_valid op \<Longrightarrow> appends buffer_holds buffer_limit (buffer_step op) (op_text op)"
  by (cases op rule: op_valid.cases)
    (auto simp: buffer_step.simps [abs_def] sb.put_appends hl_buffer_str_appends put_sub_appends put_cstr_appends put_null_appends
      hl_buffer_str_def [of _ None] hl_buffer_cstr_def [of _ None] hl_buffer_str_sub_def [of _ None] appends_def [of _ _ Some])

lemma buffer_run_appends:
  assumes "\<forall>op\<in>set ops. op_valid op"
  shows "appends buffer_holds buffer_limit (buffer_run ops) (concat (map op_text ops))"
  unfolding buffer_run_def [abs_def] using assms by (intro sb.appends_fold buffer_step_appends) auto

text \<open>
  C20: A string buffer implements concatenation. Any sequence of \<open>hl_buffer_char\<close>, \<open>hl_buffer_str\<close>, \<open>hl_buffer_str_sub\<close> and
  \<open>hl_buffer_cstr\<close> on a new buffer, with fewer than \<open>2 ^ 30 - 2\<close> units in all, stays inside of the arrays, and \<open>hl_buffer_content\<close> then
  returns exactly the appended texts in order, all of them written, followed by a terminator, with the right length.
\<close>

theorem buffer_concatenates:
  assumes "\<forall>op\<in>set ops. op_valid op" "length (concat (map op_text ops)) \<le> buffer_limit"
  shows "\<exists>b. buffer_run ops hl_alloc_buffer = Some b \<and>
    hl_buffer_content b = Some (map Some (concat (map op_text ops) @ [0]), int (length (concat (map op_text ops)))) \<and>
    hl_buffer_length b = int (length (concat (map op_text ops)))"
proof -
  obtain b where b: "buffer_run ops hl_alloc_buffer = Some b" "buffer_holds b (concat (map op_text ops))"
    using buffer_run_appends [OF assms(1)] assms(2) sb.holds_new unfolding appends_def by fastforce
  moreover have "hl_buffer_length b = int (length (concat (map op_text ops)))"
    using b(2) by (simp add: hl_buffer_length_def buffer_holds_def)
  ultimately show ?thesis using hl_buffer_content_ok by blast
qed

theorem buffer_concatenates_witness:
  "\<exists>b. buffer_run [PutStr None, PutChar 0x41, PutSub (Some (replicate 20 0x42)) 17, PutSub (Some [0x43]) (- 1)] hl_alloc_buffer = Some b \<and>
    hl_buffer_content b = Some (map Some ([0x6E, 0x75, 0x6C, 0x6C, 0x41] @ replicate 17 0x42 @ [0]), 22) \<and> hl_buffer_length b = 22"
  using buffer_concatenates [of "[PutStr None, PutChar 0x41, PutSub (Some (replicate 20 0x42)) 17, PutSub (Some [0x43]) (- 1)]"]
  by (simp add: null_text_def buffer_limit_def)

subsection \<open>string.c: URL coding\<close>

definition hex_digit :: "int \<Rightarrow> uchar option" where
  "hex_digit k = (let hex = USTR ''0123456789ABCDEF'' in if 0 \<le> k \<and> k < int (length hex) then Some (hex ! nat k) else None)"

definition hl_buffer_hex :: "hl_buffer \<Rightarrow> int \<Rightarrow> hl_buffer option" where
  "hl_buffer_hex b c = do {
     b \<leftarrow> hl_buffer_char b 0x25;
     h \<leftarrow> hex_digit (drop_bit 4 c);
     b \<leftarrow> hl_buffer_char b h;
     l \<leftarrow> hex_digit (c AND 0xF);
     hl_buffer_char b l }"

definition url_plain :: "int \<Rightarrow> bool" where
  "url_plain c \<longleftrightarrow> (0x41 \<le> c \<and> c \<le> 0x5A) \<or> (0x61 \<le> c \<and> c \<le> 0x7A) \<or> (0x30 \<le> c \<and> c \<le> 0x39) \<or> c = 0x5F \<or> c = 0x2D \<or> c = 0x2E"

fun put_hexes :: "int list \<Rightarrow> hl_buffer \<Rightarrow> hl_buffer option" where
  "put_hexes [] b = Some b"
| "put_hexes (x # xs) b = hl_buffer_hex b x \<bind> put_hexes xs"

definition three_bytes :: "int \<Rightarrow> int list" where
  "three_bytes c = [0xE0 OR drop_bit 12 c, 0x80 OR (drop_bit 6 c AND 63), 0x80 OR (c AND 63)]"

definition four_bytes :: "int \<Rightarrow> int list" where
  "four_bytes c = [0xF0 OR drop_bit 18 c, 0x80 OR (drop_bit 12 c AND 63), 0x80 OR (drop_bit 6 c AND 63), 0x80 OR (c AND 63)]"

fun url_encode_loop :: "uchar list \<Rightarrow> hl_buffer \<Rightarrow> hl_buffer option" where
  "url_encode_loop [] b = None"
| "url_encode_loop (u # s) b =
    (let c = uint u in
     if c = 0 then Some b
     else if url_plain c then hl_buffer_char b u \<bind> url_encode_loop s
     else if c < 0x80 then put_hexes [c] b \<bind> url_encode_loop s
     else if c < 0x800 then put_hexes [0xC0 OR drop_bit 6 c, 0x80 OR (c AND 63)] b \<bind> url_encode_loop s
     else if 0xD800 \<le> c \<and> c \<le> 0xDBFF then
       (case s of [] \<Rightarrow> None | w # s' \<Rightarrow>
          let sur = uint w in
          if 0xDC00 \<le> sur \<and> sur < 0xDFFF
          then put_hexes (four_bytes ((push_bit 10 (c - 0xD800) OR (sur - 0xDC00)) + 0x10000)) b \<bind> url_encode_loop s'
          else put_hexes (three_bytes c) b \<bind> url_encode_loop s)
     else put_hexes (three_bytes c) b \<bind> url_encode_loop s)"

definition hl_url_encode :: "uchar list \<Rightarrow> (uchar list \<times> int) option" where
  "hl_url_encode str = url_encode_loop str hl_alloc_buffer \<bind> buffer_text"

definition decode_hex_char :: "uchar \<Rightarrow> uchar" where
  "decode_hex_char c =
    (if 0x30 \<le> c \<and> c \<le> 0x39 then c - 0x30
     else if 0x61 \<le> c \<and> c \<le> 0x66 then c - (0x61 - 10)
     else if 0x41 \<le> c \<and> c \<le> 0x46 then c - (0x41 - 10)
     else - 1)"

definition decode_hex :: "uchar list \<Rightarrow> (uchar \<times> uchar list) option" where
  "decode_hex s = (case s of [] \<Rightarrow> None | c0 # s1 \<Rightarrow>
     let p1 = decode_hex_char c0 in
     if p1 = - 1 then Some (p1, s)
     else case s1 of [] \<Rightarrow> None | c1 # s2 \<Rightarrow>
       let p2 = decode_hex_char c1 in
       if p2 = - 1 then Some (p2, s) else Some (push_bit 4 p1 OR p2, s2))"

text \<open>\<open>if( *cstr++ != '%' ) break; p = decode_hex(&cstr); if( p < 0 ) break;\<close> The inner \<open>None\<close> is the \<open>break\<close>.\<close>

definition next_hex :: "uchar list \<Rightarrow> (uchar \<times> uchar list) option option" where
  "next_hex s = (case s of [] \<Rightarrow> None | c # s1 \<Rightarrow>
     if c \<noteq> 0x25 then Some None
     else do { (p, s2) \<leftarrow> decode_hex s1; if uint p < 0 then Some None else Some (Some (p, s2)) })"

fun next_hexes :: "nat \<Rightarrow> uchar list \<Rightarrow> (uchar list \<times> uchar list) option option" where
  "next_hexes 0 s = Some (Some ([], s))"
| "next_hexes (Suc n) s = do {
     r \<leftarrow> next_hex s;
     case r of None \<Rightarrow> Some None | Some (p, s1) \<Rightarrow> do {
       r \<leftarrow> next_hexes n s1;
       case r of None \<Rightarrow> Some None | Some (ps, s2) \<Rightarrow> Some (Some (p # ps, s2)) } }"

definition decode_units :: "uchar \<Rightarrow> uchar list \<Rightarrow> (uchar list \<times> uchar list) option option" where
  "decode_units p1 s =
    (let x = uint p1 in
     if x < 0x80 then Some (Some ([p1], s))
     else if x < 0xE0 then
       map_option (map_option (apfst (\<lambda>ps. [word_of_int (push_bit 6 (x AND 0x3F) OR (uint (ps ! 0) AND 0x7F))]))) (next_hexes 1 s)
     else if x < 0xF0 then
       map_option (map_option (apfst (\<lambda>ps.
         [word_of_int (push_bit 12 (x AND 0x1F) OR push_bit 6 (uint (ps ! 0) AND 0x7F) OR (uint (ps ! 1) AND 0x7F))]))) (next_hexes 2 s)
     else
       map_option (map_option (apfst (\<lambda>ps.
         let k = (push_bit 18 (x AND 0x0F) OR push_bit 12 (uint (ps ! 0) AND 0x7F) OR push_bit 6 (uint (ps ! 1) AND 0x7F) OR
           (uint (ps ! 2) AND 0x7F)) - 0x10000
         in [word_of_int (drop_bit 10 k + 0xD800), word_of_int ((k AND 0x3FF) OR 0xDC00)]))) (next_hexes 3 s))"

fun put_units :: "uchar list \<Rightarrow> hl_buffer \<Rightarrow> hl_buffer option" where
  "put_units [] b = Some b"
| "put_units (c # cs) b = hl_buffer_char b c \<bind> put_units cs"

lemma decode_hex_length: "decode_hex s = Some (p, s') \<Longrightarrow> length s' \<le> length s"
  by (auto simp: decode_hex_def Let_def split: list.splits if_splits)

lemma next_hex_length: "next_hex s = Some (Some (p, s')) \<Longrightarrow> length s' \<le> length s"
  by (auto simp: next_hex_def dest!: decode_hex_length split: list.splits if_splits bind_splits)

lemma next_hexes_length: "next_hexes n s = Some (Some (ps, s')) \<Longrightarrow> length s' \<le> length s"
proof (induction n arbitrary: s ps)
  case (Suc n)
  then obtain p s1 ps' where "next_hex s = Some (Some (p, s1))" "next_hexes n s1 = Some (Some (ps', s'))"
    by (auto split: bind_splits option.splits)
  with Suc.IH [of s1] show ?case by (fastforce dest: next_hex_length)
qed simp

lemma decode_units_length: "decode_units p s = Some (Some (us, s')) \<Longrightarrow> length s' \<le> length s"
  by (auto simp: decode_units_def Let_def apfst_def map_prod_def simp del: next_hexes.simps dest: next_hexes_length split: if_splits)

datatype 'a url_result = Decoded 'a | Malformed

function url_decode_loop :: "uchar list \<Rightarrow> hl_buffer \<Rightarrow> hl_buffer url_result option" where
  "url_decode_loop s b = (case s of [] \<Rightarrow> None | c # s1 \<Rightarrow>
     if c = 0 then Some (Decoded b)
     else if c = 0x2B then hl_buffer_char b 0x20 \<bind> url_decode_loop s1
     else if c = 0x25 then do {
       (p1, s2) \<leftarrow> decode_hex s1;
       if p1 = - 1 then hl_buffer_char b 0x25 \<bind> url_decode_loop s2
       else do {
         r \<leftarrow> decode_units p1 s2;
         case r of None \<Rightarrow> Some Malformed | Some (us, s3) \<Rightarrow> put_units us b \<bind> url_decode_loop s3 } }
     else hl_buffer_char b c \<bind> url_decode_loop s1)"
  by pat_completeness auto
termination
  by (relation "measure (length \<circ> fst)") (auto dest!: decode_hex_length decode_units_length)

declare url_decode_loop.simps [simp del]

definition hl_url_decode :: "uchar list \<Rightarrow> (uchar list \<times> int) url_result option" where
  "hl_url_decode str = do {
     r \<leftarrow> url_decode_loop str hl_alloc_buffer;
     case r of Malformed \<Rightarrow> Some Malformed | Decoded b \<Rightarrow> map_option Decoded (buffer_text b) }"

subsection \<open>URL coding is a round trip\<close>

definition hex_char :: "int \<Rightarrow> uchar" where
  "hex_char k = (if k < 10 then word_of_int (0x30 + k) else word_of_int (0x41 - 10 + k))"

definition pct :: "int \<Rightarrow> uchar list" where
  "pct x = [0x25, hex_char (x div 16), hex_char (x mod 16)]"

abbreviation byte :: "int \<Rightarrow> bool" where
  "byte x \<equiv> 0 \<le> x \<and> x < 256"

lemma nibble_cases: "0 \<le> k \<Longrightarrow> k < 16 \<Longrightarrow> k \<in> {0, 1, 2, 3, 4, 5, 6, 7, 8, 9, 10, 11, 12, 13, 14, 15}" for k :: int
  by simp arith

lemma hex_digit_char: "0 \<le> k \<Longrightarrow> k < 16 \<Longrightarrow> hex_digit k = Some (hex_char k)"
  by (drule (1) nibble_cases) (elim insertE emptyE; simp add: hex_digit_def hex_char_def USTR_def)

lemma decode_hex_char_hex: "0 \<le> k \<Longrightarrow> k < 16 \<Longrightarrow> decode_hex_char (hex_char k) = word_of_int k"
  by (drule (1) nibble_cases) (elim insertE emptyE; simp add: decode_hex_char_def hex_char_def)

lemma hl_buffer_hex_appends:
  assumes "byte x"
  shows "appends buffer_holds buffer_limit (\<lambda>b. hl_buffer_hex b x) (pct x)"
proof -
  have h: "hex_digit (drop_bit 4 x) = Some (hex_char (x div 16))" "hex_digit (x AND 0xF) = Some (hex_char (x mod 16))"
    using assms by (auto simp: drop_bit_eq_div and_mask_mod intro!: hex_digit_char)
  have e: "(\<lambda>b. hl_buffer_hex b x) = (\<lambda>b. hl_buffer_char b 0x25 \<bind> (\<lambda>b. hl_buffer_char b (hex_char (x div 16)) \<bind>
      (\<lambda>b. hl_buffer_char b (hex_char (x mod 16)))))"
    by (simp add: hl_buffer_hex_def h fun_eq_iff)
  have "pct x = [0x25] @ [hex_char (x div 16)] @ [hex_char (x mod 16)]" by (simp add: pct_def)
  then show ?thesis unfolding e by (simp only:) (intro sb.appends_bind sb.put_appends)
qed

lemma put_hexes_appends:
  "list_all byte xs \<Longrightarrow> appends buffer_holds buffer_limit (put_hexes xs) (concat (map pct xs))"
proof (induction xs)
  case Nil
  then show ?case by (simp add: appends_def)
next
  case (Cons x xs)
  have "put_hexes (x # xs) = (\<lambda>b. hl_buffer_hex b x \<bind> put_hexes xs)" by (simp add: fun_eq_iff)
  then show ?case using Cons by (auto intro!: sb.appends_bind hl_buffer_hex_appends)
qed

lemma put_units_appends: "appends buffer_holds buffer_limit (put_units us) us"
proof (induction us)
  case Nil
  then show ?case by (simp add: appends_def)
next
  case (Cons u us)
  have "put_units (u # us) = (\<lambda>b. hl_buffer_char b u \<bind> put_units us)" by (simp add: fun_eq_iff)
  then show ?case using sb.appends_bind [OF sb.put_appends [of u] Cons] by simp
qed

lemma decode_hex_pct:
  assumes "byte x"
  shows "decode_hex (hex_char (x div 16) # hex_char (x mod 16) # s) = Some (word_of_int x, s)"
proof -
  have r: "0 \<le> x div 16" "x div 16 < 16" "0 \<le> x mod 16" "x mod 16 < 16" using assms by auto
  have "push_bit 4 (x div 16) OR x mod 16 = x" using r push_bit_or_add [of "x mod 16" 4 "x div 16"] by (simp add: push_bit_eq_mult)
  then have "push_bit 4 (word_of_int (x div 16)) OR word_of_int (x mod 16) = (word_of_int x :: uchar)"
    by (metis of_int_or_eq of_int_push_bit)
  moreover have "(word_of_int k :: uchar) \<noteq> - 1" if "0 \<le> k" "k < 16" for k
    using nibble_cases [OF that] by auto
  ultimately show ?thesis using r by (simp add: decode_hex_def decode_hex_char_hex)
qed

lemma next_hexes_pct:
  "list_all byte xs \<Longrightarrow> next_hexes (length xs) (concat (map pct xs) @ s) = Some (Some (map word_of_int xs, s))"
  by (induction xs) (auto simp: next_hex_def pct_def decode_hex_pct)

text \<open>The bytes \<open>xs\<close> of one character decode to its units \<open>us\<close>.\<close>

definition codes :: "int list \<Rightarrow> uchar list \<Rightarrow> bool" where
  "codes xs us \<longleftrightarrow> xs \<noteq> [] \<and> list_all byte xs \<and>
     (\<forall>s. decode_units (word_of_int (hd xs)) (concat (map pct (tl xs)) @ s) = Some (Some (us, s)))"

lemma uint_small16: "byte x \<Longrightarrow> uint (word_of_int x :: uchar) = x"
  by (simp add: uint_word_of_int)

lemma codes_1: "0 \<le> x \<Longrightarrow> x < 0x80 \<Longrightarrow> codes [x] [word_of_int x]"
  by (simp add: codes_def decode_units_def uint_small16)

lemma codesI:
  assumes "list_all byte (x # xs)" "\<And>s. next_hexes (length xs) (concat (map pct xs) @ s) = Some (Some (map word_of_int xs, s)) \<Longrightarrow>
    decode_units (word_of_int x) (concat (map pct xs) @ s) = Some (Some (us, s))"
  shows "codes (x # xs) us"
  using assms next_hexes_pct [of xs] by (auto simp: codes_def)

lemma codes_2:
  assumes "0x80 \<le> v" "v < 0x800"
  shows "codes [0xC0 OR drop_bit 6 v, 0x80 OR (v AND 63)] [word_of_int v]"
proof -
  define x y where "x = v div 64" and "y = v mod 64"
  have v: "push_bit 6 x OR y = v" and r: "0 \<le> x" "x < 32" "0 \<le> y" "y < 64"
    using assms push_bit_or_add [of "v mod 64" 6 "v div 64"] by (auto simp: x_def y_def push_bit_eq_mult)
  have "codes [0xC0 + x, 0x80 + y] [word_of_int v]"
  proof (rule codesI)
    fix s assume h: "next_hexes (length [0x80 + y]) (concat (map pct [0x80 + y]) @ s) = Some (Some (map word_of_int [0x80 + y], s))"
    show "decode_units (word_of_int (0xC0 + x)) (concat (map pct [0x80 + y]) @ s) = Some (Some ([word_of_int v], s))"
      unfolding decode_units_def using r h
      by (simp add: Let_def uint_small16 lead_payload v apfst_def del: next_hexes.simps of_int_add)
  qed (use r in simp)
  moreover have "0xC0 OR drop_bit 6 v = 0xC0 + x" "0x80 OR (v AND 63) = 0x80 + y"
    using r by (simp_all add: x_def y_def drop_bit_div and_mask_mod or_add_low)
  ultimately show ?thesis by simp
qed

lemma codes_3:
  assumes "0x800 \<le> v" "v < 0x10000"
  shows "codes (three_bytes v) [word_of_int v]"
proof -
  define x y z where "x = v div 4096" and "y = v div 64 mod 64" and "z = v mod 64"
  have r: "0 \<le> x" "x < 16" "0 \<le> y" "y < 64" "0 \<le> z" "z < 64" using assms by (auto simp: x_def y_def z_def)
  have "v = 4096 * x + (64 * y + z)"
    unfolding x_def y_def z_def by (simp add: minus_div_mult_eq_mod [symmetric] zdiv_zmult2_eq [symmetric])
  then have v: "push_bit 12 x OR push_bit 6 y OR z = v"
    using r push_bit_or_add [of z 6 y] push_bit_or_add [of "push_bit 6 y + z" 12 x] by (simp add: push_bit_eq_mult or.assoc)
  have "codes [0xE0 + x, 0x80 + y, 0x80 + z] [word_of_int v]"
  proof (rule codesI)
    fix s assume h: "next_hexes (length [0x80 + y, 0x80 + z]) (concat (map pct [0x80 + y, 0x80 + z]) @ s) =
      Some (Some (map word_of_int [0x80 + y, 0x80 + z], s))"
    show "decode_units (word_of_int (0xE0 + x)) (concat (map pct [0x80 + y, 0x80 + z]) @ s) = Some (Some ([word_of_int v], s))"
      unfolding decode_units_def using r h
      by (simp add: Let_def uint_small16 lead_payload v apfst_def numeral_2_eq_2 del: push_bit_and next_hexes.simps of_int_add)
  qed (use r in simp)
  moreover have "three_bytes v = [0xE0 + x, 0x80 + y, 0x80 + z]"
    using r by (simp add: three_bytes_def x_def y_def z_def drop_bit_div and_mask_mod or_add_low)
  ultimately show ?thesis by simp
qed

lemma codes_4:
  assumes "0x10000 \<le> k" "k < 0x110000"
  shows "codes (four_bytes k) [word_of_int (drop_bit 10 (k - 0x10000) + 0xD800), word_of_int (((k - 0x10000) AND 0x3FF) OR 0xDC00)]"
proof -
  define x y z t where "x = k div 262144" and "y = k div 4096 mod 64" and "z = k div 64 mod 64" and "t = k mod 64"
  have r: "0 \<le> x" "x < 8" "0 \<le> y" "y < 64" "0 \<le> z" "z < 64" "0 \<le> t" "t < 64" using assms by (auto simp: x_def y_def z_def t_def)
  have "k = 262144 * x + (4096 * y + (64 * z + t))"
    unfolding x_def y_def z_def t_def by (simp add: minus_div_mult_eq_mod [symmetric] zdiv_zmult2_eq [symmetric])
  then have v: "push_bit 18 x OR push_bit 12 y OR push_bit 6 z OR t = k"
    using r push_bit_or_add [of t 6 z] push_bit_or_add [of "push_bit 6 z + t" 12 y]
      push_bit_or_add [of "push_bit 12 y + (push_bit 6 z + t)" 18 x] by (simp add: push_bit_eq_mult or.assoc)
  have "codes [0xF0 + x, 0x80 + y, 0x80 + z, 0x80 + t]
      [word_of_int (drop_bit 10 (k - 0x10000) + 0xD800), word_of_int (((k - 0x10000) AND 0x3FF) OR 0xDC00)]"
  proof (rule codesI)
    fix s assume h: "next_hexes (length [0x80 + y, 0x80 + z, 0x80 + t]) (concat (map pct [0x80 + y, 0x80 + z, 0x80 + t]) @ s) =
      Some (Some (map word_of_int [0x80 + y, 0x80 + z, 0x80 + t], s))"
    show "decode_units (word_of_int (0xF0 + x)) (concat (map pct [0x80 + y, 0x80 + z, 0x80 + t]) @ s) =
      Some (Some ([word_of_int (drop_bit 10 (k - 0x10000) + 0xD800), word_of_int (((k - 0x10000) AND 0x3FF) OR 0xDC00)], s))"
      unfolding decode_units_def using r h
      by (simp add: Let_def uint_small16 lead_payload v apfst_def numeral_3_eq_3 numeral_2_eq_2 del: push_bit_and next_hexes.simps of_int_add of_int_diff)
  qed (use r in simp)
  moreover have "four_bytes k = [0xF0 + x, 0x80 + y, 0x80 + z, 0x80 + t]"
    using r by (simp add: four_bytes_def x_def y_def z_def t_def drop_bit_div and_mask_mod or_add_low)
  ultimately show ?thesis by simp
qed

lemma put_units_append: "put_units (us @ vs) b = put_units us b \<bind> put_units vs"
  by (induction us arbitrary: b) (auto simp: bind_assoc intro!: Option.bind_cong)

lemma word_byte_not_max: "byte x \<Longrightarrow> (word_of_int x :: uchar) \<noteq> - 1"
proof
  assume x: "byte x" "(word_of_int x :: uchar) = - 1"
  moreover have "uint (- 1 :: uchar) = 65535" by code_simp
  ultimately show False using uint_small16 [OF x(1)] by simp
qed

lemma url_decode_codes:
  assumes "codes xs us"
  shows "url_decode_loop (concat (map pct xs) @ s) b = put_units us b \<bind> url_decode_loop s"
proof -
  obtain x ys where xs: "xs = x # ys" "byte x" using assms by (cases xs) (auto simp: codes_def)
  have d: "decode_hex (hex_char (x div 16) # hex_char (x mod 16) # concat (map pct ys) @ s) =
      Some (word_of_int x, concat (map pct ys) @ s)"
    by (rule decode_hex_pct [OF xs(2)])
  moreover have "decode_units (word_of_int x) (concat (map pct ys) @ s) = Some (Some (us, s))"
    using assms xs by (simp add: codes_def)
  ultimately show ?thesis using xs word_byte_not_max [OF xs(2)]
    by (simp add: pct_def url_decode_loop.simps [of "_ # _"])
qed

text \<open>Encoding the units \<open>s\<close> appends a text that decodes to \<open>s\<close>.\<close>

definition url_unit :: "uchar \<Rightarrow> bool" where
  "url_unit u \<longleftrightarrow> url_plain (uint u) \<or> u = 0x25"

definition url_coded :: "uchar list \<Rightarrow> uchar list \<Rightarrow> bool" where
  "url_coded t s \<longleftrightarrow> (\<forall>u\<in>set t. url_unit u) \<and> length t \<le> 9 * length s \<and>
     (\<forall>rest b. url_decode_loop (t @ rest) b = put_units s b \<bind> url_decode_loop rest)"

lemma url_coded_append: "url_coded t us \<Longrightarrow> url_coded t' s \<Longrightarrow> url_coded (t @ t') (us @ s)"
  unfolding url_coded_def by (auto simp: put_units_append bind_assoc intro!: Option.bind_cong)

lemma url_unit_hex: "0 \<le> k \<Longrightarrow> k < 16 \<Longrightarrow> url_unit (hex_char k)"
  by (drule (1) nibble_cases) (elim insertE emptyE; simp add: url_unit_def hex_char_def url_plain_def)

lemma url_unit_pct: "byte x \<Longrightarrow> u \<in> set (pct x) \<Longrightarrow> url_unit u"
  using url_unit_hex [of "x div 16"] url_unit_hex [of "x mod 16"] by (auto simp: pct_def url_unit_def [of "0x25"])

lemma url_coded_codes:
  assumes "codes xs us" "length xs \<le> 3 * length us"
  shows "url_coded (concat (map pct xs)) us"
proof -
  have b: "list_all byte xs" using assms(1) by (simp add: codes_def)
  have "length (concat (map pct xs)) = 3 * length xs" by (induction xs) (auto simp: pct_def)
  then show ?thesis
    using assms(2) url_decode_codes [OF assms(1)] b url_unit_pct by (fastforce simp: url_coded_def list_all_iff)
qed

lemma url_coded_plain: "url_plain (uint u) \<Longrightarrow> url_coded [u] [u]"
proof -
  assume u: "url_plain (uint u)"
  then have "u \<noteq> 0" "u \<noteq> 0x2B" "u \<noteq> 0x25" by (auto simp: url_plain_def)
  then show ?thesis using u by (auto simp: url_coded_def url_unit_def url_decode_loop.simps [of "_ # _"])
qed

lemma url_step:
  assumes "appends buffer_holds buffer_limit f t" "url_coded t us" "appends buffer_holds buffer_limit (url_encode_loop s') t'" "url_coded t' s"
    "\<And>b. url_encode_loop s0 b = f b \<bind> url_encode_loop s'"
  shows "\<exists>t. appends buffer_holds buffer_limit (url_encode_loop s0) t \<and> url_coded t (us @ s)"
proof -
  have "url_encode_loop s0 = (\<lambda>b. f b \<bind> url_encode_loop s')" using assms(5) by blast
  then show ?thesis using sb.appends_bind [OF assms(1,3)] url_coded_append [OF assms(2,4)] by auto
qed

lemma url_step_codes:
  assumes "codes xs us" "length xs \<le> 3 * length us"
    "\<exists>t'. appends buffer_holds buffer_limit (url_encode_loop s') t' \<and> url_coded t' s"
    "\<And>b. url_encode_loop s0 b = put_hexes xs b \<bind> url_encode_loop s'"
  shows "\<exists>t. appends buffer_holds buffer_limit (url_encode_loop s0) t \<and> url_coded t (us @ s)"
proof -
  obtain t' where t': "appends buffer_holds buffer_limit (url_encode_loop s') t'" "url_coded t' s" using assms(3) by blast
  have "list_all byte xs" using assms(1) by (simp add: codes_def)
  then show ?thesis by (rule url_step [OF put_hexes_appends url_coded_codes [OF assms(1,2)] t' assms(4)])
qed

lemma url_encode_coded:
  assumes "0 \<notin> set s"
  shows "\<exists>t. appends buffer_holds buffer_limit (url_encode_loop (s @ [0])) t \<and> url_coded t s"
  using assms
proof (induction s rule: length_induct)
  case (1 s)
  show ?case
  proof (cases s)
    case Nil
    have "url_encode_loop [0] = Some" by (simp add: fun_eq_iff)
    with Nil show ?thesis by (intro exI [of _ "[]"]) (simp add: sb.appends_skip url_coded_def)
  next
    case (Cons u s')
    define c where "c = uint u"
    have "u \<noteq> 0" using Cons 1(2) by auto
    then have "c \<noteq> 0" unfolding c_def by (simp only: uint_0_iff) simp
    then have c: "0 < c" "c < 0x10000" "word_of_int c = u"
      using uint_lt2p [of u] uint_ge_0 [of u] by (auto simp: c_def less_le)
    have IH: "\<exists>t'. appends buffer_holds buffer_limit (url_encode_loop (s' @ [0])) t' \<and> url_coded t' s'" using 1 Cons by auto
    have step: "\<exists>t. appends buffer_holds buffer_limit (url_encode_loop (s @ [0])) t \<and> url_coded t s"
      if "codes xs [u]" "length xs \<le> 3" "\<And>b. url_encode_loop (s @ [0]) b = put_hexes xs b \<bind> url_encode_loop (s' @ [0])" for xs
      using url_step_codes [OF that(1) _ IH that(3)] that(2) Cons by (simp del: url_encode_loop.simps)
    have three: "codes (three_bytes c) [u]" "length (three_bytes c) \<le> 3" if "0x800 \<le> c"
      using codes_3 [OF that c(2)] by (simp_all add: c three_bytes_def)
    consider "url_plain c" | "\<not> url_plain c" "c < 0x80" | "\<not> url_plain c" "0x80 \<le> c" "c < 0x800"
      | "\<not> url_plain c" "0xD800 \<le> c" "c \<le> 0xDBFF"
      | "\<not> url_plain c" "0x800 \<le> c" "\<not> (0xD800 \<le> c \<and> c \<le> 0xDBFF)" by linarith
    then show ?thesis
    proof cases
      case 1
      obtain t' where "appends buffer_holds buffer_limit (url_encode_loop (s' @ [0])) t'" "url_coded t' s'" using IH by blast
      then have "\<exists>t. appends buffer_holds buffer_limit (url_encode_loop (s @ [0])) t \<and> url_coded t ([u] @ s')"
        using 1 c Cons by (intro url_step [OF sb.put_appends [of u] url_coded_plain]) (auto simp: c_def)
      then show ?thesis using Cons by (simp del: url_encode_loop.simps)
    next
      case 2
      then show ?thesis using codes_1 [of c] c Cons by (intro step [of "[c]"]) (auto simp flip: c_def)
    next
      case 3
      then show ?thesis using codes_2 [of c] c Cons by (intro step) (auto simp flip: c_def)
    next
      case 5
      then show ?thesis using c Cons by (intro step [OF three]) (auto simp flip: c_def)
    next
      case 4
      show ?thesis
      proof (cases "s' \<noteq> [] \<and> 0xDC00 \<le> uint (hd s') \<and> uint (hd s') < 0xDFFF")
        case True
        then obtain w s2 where s': "s' = w # s2" "0xDC00 \<le> uint w" "uint w < 0xDFFF" by (cases s') auto
        define k where "k = (push_bit 10 (c - 0xD800) OR (uint w - 0xDC00)) + 0x10000"
        have k: "0x10000 \<le> k" "k < 0x110000" "drop_bit 10 (k - 0x10000) + 0xD800 = c" "((k - 0x10000) AND 0x3FF) OR 0xDC00 = uint w"
          unfolding k_def by (rule surrogate_code [of c "uint w"]; use 4 s' in simp)+
        have "codes (four_bytes k) [u, w]" using codes_4 [OF k(1,2)] unfolding k(3,4) by (simp add: c)
        moreover have "\<exists>t'. appends buffer_holds buffer_limit (url_encode_loop (s2 @ [0])) t' \<and> url_coded t' s2"
          using 1 Cons s' by auto
        moreover have "url_encode_loop (s @ [0]) b = put_hexes (four_bytes k) b \<bind> url_encode_loop (s2 @ [0])" for b
          using 4 c Cons s' by (auto simp: k_def simp flip: c_def)
        moreover have "length (four_bytes k) \<le> 3 * length [u, w]" by (simp add: four_bytes_def)
        ultimately have "\<exists>t. appends buffer_holds buffer_limit (url_encode_loop (s @ [0])) t \<and> url_coded t ([u, w] @ s2)"
          by (intro url_step_codes [of "four_bytes k" "[u, w]" "s2 @ [0]" s2 "s @ [0]"])
        then show ?thesis using Cons s' by (simp del: url_encode_loop.simps)
      next
        case False
        then show ?thesis using 4 c Cons by (intro step [OF three]) (cases s'; auto simp flip: c_def)+
      qed
    qed
  qed
qed

text \<open>
  C19: URL coding is a round trip for every string, unpaired surrogates included: \<open>hl_url_encode\<close> stays inside of the string, its
  result has only the characters \<open>A-Z a-z 0-9 _ - . %\<close>, and \<open>hl_url_decode\<close> gives back the string. The bound keeps the encoded
  text in the range of a buffer.
\<close>

theorem url_roundtrip:
  assumes "0 \<notin> set s" "9 * length s \<le> buffer_limit"
  shows "\<exists>t. hl_url_encode (s @ [0]) = Some (t @ [0], int (length t)) \<and> (\<forall>u\<in>set t. url_unit u) \<and>
    hl_url_decode (t @ [0]) = Some (Decoded (s @ [0], int (length s)))"
proof -
  obtain t where t: "appends buffer_holds buffer_limit (url_encode_loop (s @ [0])) t" "url_coded t s"
    using url_encode_coded [OF assms(1)] by blast
  have "hl_url_encode (s @ [0]) = Some (t @ [0], int (length t))"
    unfolding hl_url_encode_def using t assms(2) by (intro sb.appends_content) (auto simp: url_coded_def)
  moreover have "hl_url_decode (t @ [0]) = Some (Decoded (s @ [0], int (length s)))"
  proof -
    obtain b where b: "put_units s hl_alloc_buffer = Some b" "buffer_holds b s"
      using put_units_appends [of s] sb.holds_new assms(2) unfolding appends_def by fastforce
    have "url_decode_loop (t @ [0]) hl_alloc_buffer = Some (Decoded b)"
      using t(2) b(1) by (simp add: url_coded_def url_decode_loop.simps [of "[0]"])
    then show ?thesis by (simp add: hl_url_decode_def sb.content [OF b(2)])
  qed
  ultimately show ?thesis using t(2) unfolding url_coded_def by blast
qed

theorem url_roundtrip_witness:
  "\<exists>t. hl_url_encode ([0x48, 0x20, 0xE9, 0xD83D, 0xDE00, 0xDC00] @ [0]) = Some (t @ [0], int (length t)) \<and> (\<forall>u\<in>set t. url_unit u) \<and>
    hl_url_decode (t @ [0]) = Some (Decoded ([0x48, 0x20, 0xE9, 0xD83D, 0xDE00, 0xDC00] @ [0], 6))"
  using url_roundtrip [of "[0x48, 0x20, 0xE9, 0xD83D, 0xDE00, 0xDC00]"] by (simp add: buffer_limit_def)

subsection \<open>Decoding stays inside of the string\<close>

lemma decode_hex_char_0 [simp]: "decode_hex_char 0 = - 1"
  by (simp add: decode_hex_char_def)

lemma decode_hex_terminated: "terminated s \<Longrightarrow> \<exists>p s'. decode_hex s = Some (p, s') \<and> terminated s' \<and> length s' \<le> length s"
  by (cases s; cases "tl s") (auto simp: decode_hex_def Let_def)

lemma next_hex_terminated:
  "terminated s \<Longrightarrow> next_hex s = Some None \<or> (\<exists>p s'. next_hex s = Some (Some (p, s')) \<and> terminated s' \<and> length s' < length s)"
proof (cases s)
  case (Cons c s1)
  assume "terminated s"
  with Cons have "c = 0x25 \<Longrightarrow> terminated s1" by auto
  then show ?thesis using Cons decode_hex_terminated [of s1] by (cases "c = 0x25") (fastforce simp: next_hex_def)+
qed auto

lemma next_hexes_terminated:
  "terminated s \<Longrightarrow> next_hexes n s = Some None \<or> (\<exists>ps s'. next_hexes n s = Some (Some (ps, s')) \<and> terminated s' \<and> length s' + n \<le> length s)"
proof (induction n arbitrary: s)
  case (Suc n)
  show ?case
  proof (cases "next_hex s = Some None")
    case False
    then obtain p s1 where s1: "next_hex s = Some (Some (p, s1))" "terminated s1" "length s1 < length s"
      using next_hex_terminated [OF Suc.prems] by blast
    then show ?thesis using Suc.IH [OF s1(2)] by fastforce
  qed simp
qed simp

lemma decode_units_terminated:
  assumes "terminated s"
  shows "decode_units p s = Some None \<or>
    (\<exists>us s'. decode_units p s = Some (Some (us, s')) \<and> terminated s' \<and> length us + length s' \<le> length s + 1)"
  using next_hexes_terminated [OF assms, of 1] next_hexes_terminated [OF assms, of 2] next_hexes_terminated [OF assms, of 3] assms
  by (auto simp: decode_units_def Let_def apfst_def map_prod_def simp del: next_hexes.simps)

lemma put_units_ok:
  assumes "buffer_holds b t" "length t + length us \<le> buffer_limit"
  shows "\<exists>b'. put_units us b = Some b' \<and> buffer_holds b' (t @ us)"
  using assms put_units_appends [of us] unfolding appends_def by blast

lemma put_unit_ok:
  assumes "buffer_holds b t" "length t < buffer_limit"
  shows "\<exists>b'. hl_buffer_char b c = Some b' \<and> buffer_holds b' (t @ [c])"
  using put_units_ok [OF assms(1), of "[c]"] assms(2) by (auto split: bind_splits)

definition url_done :: "hl_buffer url_result option \<Rightarrow> uchar list \<Rightarrow> nat \<Rightarrow> bool" where
  "url_done r t n \<longleftrightarrow> r = Some Malformed \<or> (\<exists>b' out. r = Some (Decoded b') \<and> buffer_holds b' (t @ out) \<and> length out \<le> n)"

lemma url_done_mono: "url_done r (t @ us) m \<Longrightarrow> length us + m \<le> n \<Longrightarrow> url_done r t n"
  unfolding url_done_def by fastforce

lemma url_decode_done:
  assumes "terminated s" "buffer_holds b t" "length t + length s \<le> buffer_limit + 1"
  shows "url_done (url_decode_loop s b) t (length s - 1)"
  using assms
proof (induction s arbitrary: b t rule: length_induct)
  case (1 s)
  have next': "url_done (put_units us b \<bind> url_decode_loop s') t (length s - 1)"
    if "terminated s'" "length us + length s' \<le> length s" "length s' < length s" for us s'
  proof -
    have "length s' \<noteq> 0" using that(1) by auto
    then have l: "length t + length us \<le> buffer_limit" using that 1(4) by linarith
    then obtain b' where b': "put_units us b = Some b'" "buffer_holds b' (t @ us)" using put_units_ok [OF 1(3)] by blast
    have "url_done (url_decode_loop s' b') (t @ us) (length s' - 1)" using 1(1,4) that b'(2) by simp
    then have "url_done (url_decode_loop s' b') t (length s - 1)" using that(2) \<open>length s' \<noteq> 0\<close> by (elim url_done_mono) linarith
    with b'(1) show ?thesis by simp
  qed
  have one: "hl_buffer_char b c = put_units [c] b" for c by (cases "hl_buffer_char b c") auto
  obtain c s1 where s: "s = c # s1" using 1(2) by (cases s) auto
  show ?case
  proof (cases "c = 0")
    case True
    then have "url_decode_loop s b = Some (Decoded b)" using s by (simp add: url_decode_loop.simps [of "_ # _"])
    then show ?thesis using 1(3) by (auto simp: url_done_def intro: exI [of _ "[]"])
  next
    case False
    then have t1: "terminated s1" using s 1(2) by auto
    obtain p s2 where p: "decode_hex s1 = Some (p, s2)" "terminated s2" "length s2 \<le> length s1" using decode_hex_terminated [OF t1] by blast
    have n: "url_done (hl_buffer_char b d \<bind> url_decode_loop s') t (length s - 1)" if "terminated s'" "length s' \<le> length s1" for s' d
      unfolding one using that s by (intro next') auto
    show ?thesis
    proof (cases "c = 0x25 \<and> p \<noteq> - 1")
      case True
      have "url_done (put_units us b \<bind> url_decode_loop s') t (length s1)"
        if "decode_units p s2 = Some (Some (us, s'))" "terminated s'" "length us + length s' \<le> length s2 + 1" for us s'
        using next' [of s' us] that decode_units_length [OF that(1)] p s by simp
      with True s p decode_units_terminated [OF p(2), of p] show ?thesis
        by (auto simp: url_decode_loop.simps [of "_ # _"] url_done_def [of "Some Malformed"])
    next
      case False
      then show ?thesis using \<open>c \<noteq> 0\<close> s p n [OF t1] n [OF p(2)] by (auto simp: url_decode_loop.simps [of "_ # _"])
    qed
  qed
qed

text \<open>
  C21: \<open>hl_url_decode\<close> of any string ends without reading behind the terminator, even when the string ends inside of an escape: it
  raises the error for malformed input or returns a text that is not longer than the string.
\<close>

theorem url_decode_safe:
  assumes "terminated s" "length s \<le> buffer_limit"
  shows "hl_url_decode s = Some Malformed \<or>
    (\<exists>t. hl_url_decode s = Some (Decoded (t @ [0], int (length t))) \<and> length t < length s)"
proof -
  have l: "length s \<noteq> 0" using assms(1) by auto
  have "url_done (url_decode_loop s hl_alloc_buffer) [] (length s - 1)"
    using assms by (intro url_decode_done sb.holds_new) auto
  then consider "url_decode_loop s hl_alloc_buffer = Some Malformed"
    | b' out where "url_decode_loop s hl_alloc_buffer = Some (Decoded b')" "buffer_holds b' out" "length out \<le> length s - 1"
    unfolding url_done_def by auto
  then show ?thesis
  proof cases
    case 2
    then have "length out < length s" using l by linarith
    with 2 show ?thesis by (auto simp: hl_url_decode_def sb.content)
  qed (simp add: hl_url_decode_def)
qed

theorem url_decode_safe_witness:
  "hl_url_decode [0x41, 0x25, 0x43, 0x33, 0x25, 0x5A, 0] = Some Malformed \<or>
    (\<exists>t. hl_url_decode [0x41, 0x25, 0x43, 0x33, 0x25, 0x5A, 0] = Some (Decoded (t @ [0], int (length t))) \<and>
      length t < length [0x41, 0x25, 0x43, 0x33, 0x25, 0x5A, 0 :: uchar])"
  using url_decode_safe [of "[0x41, 0x25, 0x43, 0x33, 0x25, 0x5A, 0]"] by (simp add: buffer_limit_def)

end
