(* ===== verification/RuntimeTypes.thy ===== *)
theory RuntimeTypes
  imports StringBuffer
begin

unbundle bit_operations_syntax

text \<open>
  The types of a running program, in \<^verbatim>\<open>std/types.c\<close>: their sizes, the two relations \<open>hl_same_type\<close> and \<open>hl_safe_cast\<close> that the code
  generators and dynamic calls rely on, their printing, and the layout of enum values.

  Types refer to each other by pointers, and the source compares pointers. The store maps addresses to types, objects, virtuals, enums
  and strings. A recursive function of the source is a \<open>partial_function\<close>: \<open>None\<close> is no return, or a read of the wrong member of the
  union. The target has 64-bit words.
\<close>

subsection \<open>hl.h: types\<close>

datatype hl_type_kind = HVOID | HUI8 | HUI16 | HI32 | HI64 | HF32 | HF64 | HBOOL | HBYTES | HDYN | HFUN | HOBJ | HARRAY | HTYPE | HREF
  | HVIRTUAL | HDYNOBJ | HABSTRACT | HENUM | HNULL | HMETHOD | HSTRUCT | HPACKED | HGUID

type_synonym addr = nat

text \<open>The union in \<open>hl_type\<close>.\<close>

datatype rt_data = RNone | RFun "addr list" addr | RObj addr | RVirt addr | RAbs addr | REnum addr | RParam addr

record rt_type =
  rt_kind :: hl_type_kind
  rt_data :: rt_data

record rt_field =
  rf_name :: addr
  rf_t :: addr
  rf_hashed_name :: int

record rt_proto =
  rp_name :: addr
  rp_findex :: nat
  rp_pindex :: int
  rp_hashed_name :: int

record rt_obj =
  ro_name :: addr
  ro_super :: "addr option"
  ro_fields :: "rt_field list"
  ro_proto :: "rt_proto list"
  ro_bindings :: "(int \<times> nat) list"

record rt_construct =
  rc_name :: addr
  rc_params :: "addr list"

record rt_enum =
  re_name :: "addr option"
  re_constructs :: "rt_construct list"

record rt_store =
  st_type :: "addr \<Rightarrow> rt_type"
  st_obj :: "addr \<Rightarrow> rt_obj"
  st_virt :: "addr \<Rightarrow> rt_field list"
  st_enum :: "addr \<Rightarrow> rt_enum"
  st_str :: "addr \<Rightarrow> uchar list"
  st_string_type :: "addr option"

abbreviation kind_of :: "rt_store \<Rightarrow> addr \<Rightarrow> hl_type_kind" where
  "kind_of st t \<equiv> rt_kind (st_type st t)"

abbreviation data_of :: "rt_store \<Rightarrow> addr \<Rightarrow> rt_data" where
  "data_of st t \<equiv> rt_data (st_type st t)"

fun fun_of :: "rt_data \<Rightarrow> (addr list \<times> addr) option" where
  "fun_of (RFun args ret) = Some (args, ret)" | "fun_of _ = None"

fun obj_of :: "rt_data \<Rightarrow> addr option" where
  "obj_of (RObj a) = Some a" | "obj_of _ = None"

fun virt_of :: "rt_data \<Rightarrow> addr option" where
  "virt_of (RVirt a) = Some a" | "virt_of _ = None"

fun abs_of :: "rt_data \<Rightarrow> addr option" where
  "abs_of (RAbs a) = Some a" | "abs_of _ = None"

fun enum_of :: "rt_data \<Rightarrow> addr option" where
  "enum_of (REnum a) = Some a" | "enum_of _ = None"

fun param_of :: "rt_data \<Rightarrow> addr option" where
  "param_of (RParam a) = Some a" | "param_of _ = None"

subsection \<open>types.c: tables\<close>

fun kind_index :: "hl_type_kind \<Rightarrow> nat" where
  "kind_index HVOID = 0" | "kind_index HUI8 = 1" | "kind_index HUI16 = 2" | "kind_index HI32 = 3" | "kind_index HI64 = 4"
| "kind_index HF32 = 5" | "kind_index HF64 = 6" | "kind_index HBOOL = 7" | "kind_index HBYTES = 8" | "kind_index HDYN = 9"
| "kind_index HFUN = 10" | "kind_index HOBJ = 11" | "kind_index HARRAY = 12" | "kind_index HTYPE = 13" | "kind_index HREF = 14"
| "kind_index HVIRTUAL = 15" | "kind_index HDYNOBJ = 16" | "kind_index HABSTRACT = 17" | "kind_index HENUM = 18" | "kind_index HNULL = 19"
| "kind_index HMETHOD = 20" | "kind_index HSTRUCT = 21" | "kind_index HPACKED = 22" | "kind_index HGUID = 23"

definition HL_WSIZE :: int where
  "HL_WSIZE = 8"

definition TSTR :: "string option list" where
  "TSTR = [Some ''void'', Some ''ui8'', Some ''ui16'', Some ''i32'', Some ''i64'', Some ''f32'', Some ''f64'',
     Some ''bool'', Some ''bytes'', Some ''dynamic'', None, None,
     Some ''array'', Some ''type'', None, None, Some ''dynobj'',
     None, None, None, None, None, None, Some ''guid'']"

definition T_SIZES :: "int list" where
  "T_SIZES = [0, 1, 2, 4, 8, 4, 8, 1, HL_WSIZE, HL_WSIZE, HL_WSIZE, HL_WSIZE, HL_WSIZE, HL_WSIZE, HL_WSIZE, HL_WSIZE,
     HL_WSIZE, HL_WSIZE, HL_WSIZE, HL_WSIZE, HL_WSIZE, HL_WSIZE, 0, 8]"

definition T_IS_DYNAMIC :: "bool list" where
  "T_IS_DYNAMIC = [False, False, False, False, False, False, False, False, False, True, True, True, True, False, False, True,
     True, False, True, True, False, False, False, False]"

definition T_IS_PTR :: "bool list" where
  "T_IS_PTR = [False, False, False, False, False, False, False, False, True, True, True, True, True, True, True, True,
     True, True, True, True, True, True, True, False]"

definition hl_type_size :: "rt_store \<Rightarrow> addr \<Rightarrow> int" where
  "hl_type_size st t = T_SIZES ! kind_index (kind_of st t)"

definition hl_is_dynamic :: "rt_store \<Rightarrow> addr \<Rightarrow> bool" where
  "hl_is_dynamic st t = T_IS_DYNAMIC ! kind_index (kind_of st t)"

definition hl_is_ptr :: "rt_store \<Rightarrow> addr \<Rightarrow> bool" where
  "hl_is_ptr st t = T_IS_PTR ! kind_index (kind_of st t)"

fun kind_align :: "hl_type_kind \<Rightarrow> int" where
  "kind_align HUI8 = 1"
| "kind_align HUI16 = 2"
| "kind_align HI32 = 4"
| "kind_align HI64 = 8"
| "kind_align HGUID = 8"
| "kind_align HF32 = 4"
| "kind_align HF64 = 8"
| "kind_align HBOOL = 1"
| "kind_align _ = 8"

definition hl_pad_struct :: "rt_store \<Rightarrow> int \<Rightarrow> addr \<Rightarrow> int" where
  "hl_pad_struct st sz t =
     (if kind_of st t = HVOID then 0 else (- sz) AND (kind_align (kind_of st t) - 1))"

subsection \<open>types.c: equality and casts\<close>

fun all2M :: "('a \<Rightarrow> 'b \<Rightarrow> bool option) \<Rightarrow> 'a list \<Rightarrow> 'b list \<Rightarrow> bool option" where
  "all2M f (x # xs) (y # ys) = do { r \<leftarrow> f x y; if r then all2M f xs ys else Some False }"
| "all2M f [] ys = Some True"
| "all2M f (x # xs) [] = None"

lemma all2M_mono [partial_function_mono]:
  assumes "\<And>x y. mono_option (\<lambda>f. B f x y)"
  shows "mono_option (\<lambda>f. all2M (\<lambda>x y. B f x y) xs ys)"
proof (induction xs arbitrary: ys)
  case Nil
  then show ?case by (simp add: option.const_mono)
next
  case (Cons x xs)
  then show ?case by (cases ys) (auto intro!: bind_mono if_mono option.const_mono assms)
qed

partial_function (option) hl_same_type :: "rt_store \<Rightarrow> addr \<Rightarrow> addr \<Rightarrow> bool option" where
  "hl_same_type st a b =
    (if a = b then Some True
     else if kind_of st a \<noteq> kind_of st b then Some False
     else if kind_of st a \<in> {HVOID, HUI8, HUI16, HI32, HI64, HF32, HF64, HBOOL, HTYPE, HBYTES, HDYN, HARRAY, HDYNOBJ, HGUID} then Some True
     else if kind_of st a \<in> {HREF, HNULL, HPACKED} then do {
       p \<leftarrow> param_of (data_of st a);
       q \<leftarrow> param_of (data_of st b);
       hl_same_type st p q }
     else if kind_of st a \<in> {HFUN, HMETHOD} then do {
       f \<leftarrow> fun_of (data_of st a);
       g \<leftarrow> fun_of (data_of st b);
       if length (fst f) \<noteq> length (fst g) then Some False
       else do {
         r \<leftarrow> all2M (\<lambda>x y. hl_same_type st x y) (fst f) (fst g);
         if r then hl_same_type st (snd f) (snd g) else Some False } }
     else if kind_of st a \<in> {HOBJ, HSTRUCT} then do {
       p \<leftarrow> obj_of (data_of st a); q \<leftarrow> obj_of (data_of st b); Some (p = q) }
     else if kind_of st a = HVIRTUAL then do {
       p \<leftarrow> virt_of (data_of st a); q \<leftarrow> virt_of (data_of st b); Some (p = q) }
     else if kind_of st a = HABSTRACT then do {
       p \<leftarrow> abs_of (data_of st a); q \<leftarrow> abs_of (data_of st b); Some (p = q) }
     else do {
       p \<leftarrow> enum_of (data_of st a); q \<leftarrow> enum_of (data_of st b); Some (p = q) })"

definition is_string_obj :: "rt_store \<Rightarrow> rt_obj \<Rightarrow> bool option" where
  "is_string_obj st obj =
    (if ro_super obj \<noteq> None \<or> length (ro_fields obj) \<noteq> 2 then Some False
     else do {
       d \<leftarrow> ucmp (st_str st (ro_name obj)) (USTR ''String'');
       Some (d = 0 \<and> kind_of st (rf_t (ro_fields obj ! 0)) = HBYTES \<and> kind_of st (rf_t (ro_fields obj ! 1)) = HI32) })"

definition hl_is_string_type :: "rt_store \<Rightarrow> addr option \<Rightarrow> bool option" where
  "hl_is_string_type st t =
    (if t = st_string_type st then Some (t \<noteq> None)
     else case t of None \<Rightarrow> Some False | Some a \<Rightarrow>
       if kind_of st a \<noteq> HOBJ then Some False
       else do { o' \<leftarrow> obj_of (data_of st a); is_string_obj st (st_obj st o') })"

definition hl_register_string_type :: "addr \<Rightarrow> rt_store \<Rightarrow> rt_store option" where
  "hl_register_string_type t st =
    (if st_string_type st \<noteq> None then Some st
     else do { r \<leftarrow> hl_is_string_type st (Some t); Some (if r then st\<lparr>st_string_type := Some t\<rparr> else st) })"

partial_function (option) super_reaches :: "rt_store \<Rightarrow> addr \<Rightarrow> addr \<Rightarrow> bool option" where
  "super_reaches st ob oto =
    (if ob = oto \<or> ro_name (st_obj st ob) = ro_name (st_obj st oto) then Some True
     else case ro_super (st_obj st ob) of None \<Rightarrow> Some False
       | Some s \<Rightarrow> do { o' \<leftarrow> obj_of (data_of st s); super_reaches st o' oto })"

partial_function (option) hl_safe_cast :: "rt_store \<Rightarrow> addr \<Rightarrow> addr \<Rightarrow> bool option" where
  "hl_safe_cast st t to =
    (if t = to then Some True
     else if kind_of st to = HDYN then Some (hl_is_dynamic st t)
     else if kind_of st t \<noteq> kind_of st to then Some False
     else if kind_of st t = HVIRTUAL then do {
       v \<leftarrow> virt_of (data_of st t);
       vto \<leftarrow> virt_of (data_of st to);
       let fs = st_virt st v;
       let fsto = st_virt st vto;
       r \<leftarrow> (if length fsto < length fs
         then all2M (\<lambda>f2 f1. if rf_hashed_name f1 \<noteq> rf_hashed_name f2 then Some False else hl_same_type st (rf_t f1) (rf_t f2)) fsto fs
         else Some False);
       if r then Some True else hl_same_type st t to }
     else if kind_of st t \<in> {HOBJ, HSTRUCT} then do {
       ob \<leftarrow> obj_of (data_of st t);
       oto \<leftarrow> obj_of (data_of st to);
       s1 \<leftarrow> hl_is_string_type st (Some t);
       s2 \<leftarrow> (if s1 then hl_is_string_type st (Some to) else Some False);
       if s2 then Some True else super_reaches st ob oto }
     else if kind_of st t \<in> {HFUN, HMETHOD} then do {
       f \<leftarrow> fun_of (data_of st t);
       g \<leftarrow> fun_of (data_of st to);
       if length (fst f) = length (fst g) then do {
         r \<leftarrow> hl_safe_cast st (snd f) (snd g);
         if r then all2M (\<lambda>t1 t2. do {
             c \<leftarrow> hl_safe_cast st t2 t1;
             Some (c \<or> (kind_of st t1 = HDYN \<and> hl_is_dynamic st t2)) }) (fst f) (fst g)
         else Some False }
       else hl_same_type st t to }
     else if kind_of st t = HPACKED then do {
       p \<leftarrow> param_of (data_of st t);
       hl_safe_cast st p to }
     else hl_same_type st t to)"

subsection \<open>Well-formed stores\<close>

text \<open>The member of the union that a kind selects, and the types that a type is built from.\<close>

fun data_fits :: "hl_type_kind \<Rightarrow> rt_data \<Rightarrow> bool" where
  "data_fits HFUN d \<longleftrightarrow> fun_of d \<noteq> None"
| "data_fits HMETHOD d \<longleftrightarrow> fun_of d \<noteq> None"
| "data_fits HOBJ d \<longleftrightarrow> obj_of d \<noteq> None"
| "data_fits HSTRUCT d \<longleftrightarrow> obj_of d \<noteq> None"
| "data_fits HVIRTUAL d \<longleftrightarrow> virt_of d \<noteq> None"
| "data_fits HABSTRACT d \<longleftrightarrow> abs_of d \<noteq> None"
| "data_fits HENUM d \<longleftrightarrow> enum_of d \<noteq> None"
| "data_fits HREF d \<longleftrightarrow> param_of d \<noteq> None"
| "data_fits HNULL d \<longleftrightarrow> param_of d \<noteq> None"
| "data_fits HPACKED d \<longleftrightarrow> param_of d \<noteq> None"
| "data_fits _ d \<longleftrightarrow> True"

fun parts :: "rt_data \<Rightarrow> addr list" where
  "parts (RFun args ret) = ret # args"
| "parts (RParam p) = [p]"
| "parts _ = []"

text \<open>Function types and parameters are built bottom up: \<open>r\<close> is a rank. Cycles through objects, virtuals and enums are allowed.\<close>

definition types_wf :: "rt_store \<Rightarrow> (addr \<Rightarrow> nat) \<Rightarrow> bool" where
  "types_wf st r \<longleftrightarrow> (\<forall>a. data_fits (kind_of st a) (data_of st a) \<and> (\<forall>b\<in>set (parts (data_of st a)). r b < r a))"

lemma types_wf_fits: "types_wf st r \<Longrightarrow> data_fits (kind_of st a) (data_of st a)"
  by (simp add: types_wf_def)

lemma types_wf_param: "types_wf st r \<Longrightarrow> data_of st a = RParam p \<Longrightarrow> r p < r a"
  by (auto simp: types_wf_def dest: spec [of _ a])

lemma types_wf_fun: "types_wf st r \<Longrightarrow> data_of st a = RFun args ret \<Longrightarrow> r ret < r a \<and> (\<forall>x\<in>set args. r x < r a)"
  by (auto simp: types_wf_def dest: spec [of _ a])

lemma obj_of_Some [simp]: "obj_of d = Some a \<longleftrightarrow> d = RObj a"
  by (cases d) auto

lemma fun_of_Some [simp]: "fun_of d = Some f \<longleftrightarrow> d = RFun (fst f) (snd f)"
  by (cases d; cases f) auto

lemma param_of_Some [simp]: "param_of d = Some a \<longleftrightarrow> d = RParam a"
  by (cases d) auto

lemma virt_of_Some [simp]: "virt_of d = Some a \<longleftrightarrow> d = RVirt a"
  by (cases d) auto

lemma abs_of_Some [simp]: "abs_of d = Some a \<longleftrightarrow> d = RAbs a"
  by (cases d) auto

lemma enum_of_Some [simp]: "enum_of d = Some a \<longleftrightarrow> d = REnum a"
  by (cases d) auto

lemma all2M_True: "all2M f xs ys = Some True \<longleftrightarrow> length xs \<le> length ys \<and> (\<forall>i<length xs. f (xs ! i) (ys ! i) = Some True)"
proof (induction f xs ys rule: all2M.induct)
  case (1 f x xs y ys)
  then show ?case by (auto split: bind_splits if_splits simp: less_Suc_eq_0_disj)
qed auto

lemma all2M_total:
  assumes "\<And>x y. x \<in> set xs \<Longrightarrow> y \<in> set ys \<Longrightarrow> f x y \<noteq> None" "length xs \<le> length ys"
  shows "all2M f xs ys \<noteq> None"
  using assms by (induction f xs ys rule: all2M.induct) (auto split: bind_splits)

lemma all2M_swap:
  assumes "\<And>x y. x \<in> set xs \<Longrightarrow> y \<in> set ys \<Longrightarrow> f x y = g y x" "length xs = length ys"
  shows "all2M f xs ys = all2M g ys xs"
  using assms by (induction f xs ys rule: all2M.induct) (auto intro!: Option.bind_cong)

subsection \<open>Equality of types\<close>

lemma hl_same_type_refl [simp]: "hl_same_type st a a = Some True"
  by (simp add: hl_same_type.simps)

lemma hl_same_type_fun:
  assumes "a \<noteq> b" "kind_of st a = kind_of st b" "kind_of st a \<in> {HFUN, HMETHOD}" "data_of st a = RFun as x" "data_of st b = RFun bs y"
  shows "hl_same_type st a b = (if length as \<noteq> length bs then Some False
    else do { r \<leftarrow> all2M (hl_same_type st) as bs; if r then hl_same_type st x y else Some False })"
  using assms(3) by (auto simp: hl_same_type.simps [of st a b] assms(1,4,5) assms(2) [symmetric] cong: if_cong)

lemma hl_same_type_param:
  assumes "a \<noteq> b" "kind_of st a = kind_of st b" "kind_of st a \<in> {HREF, HNULL, HPACKED}" "data_of st a = RParam p" "data_of st b = RParam q"
  shows "hl_same_type st a b = hl_same_type st p q"
  using assms(3) by (auto simp: hl_same_type.simps [of st a b] assms(1,4,5) assms(2) [symmetric])

lemma hl_same_type_pointer:
  assumes "a \<noteq> b" "kind_of st a = kind_of st b" "kind_of st a \<in> {HOBJ, HSTRUCT, HVIRTUAL, HABSTRACT, HENUM}"
    "data_fits (kind_of st a) (data_of st a)" "data_fits (kind_of st b) (data_of st b)"
  shows "hl_same_type st a b = Some (data_of st a = data_of st b)"
  using assms(3-5) by (auto simp: hl_same_type.simps [of st a b] assms(1) assms(2) [symmetric])

lemma hl_same_type_simple:
  assumes "kind_of st a = kind_of st b"
    "kind_of st a \<notin> {HFUN, HMETHOD, HREF, HNULL, HPACKED, HOBJ, HSTRUCT, HVIRTUAL, HABSTRACT, HENUM}"
  shows "hl_same_type st a b = Some True"
  using assms(2) by (cases "kind_of st a") (auto simp: hl_same_type.simps [of st a b] assms(1) [symmetric])

text \<open>A case distinction on a well-formed type.\<close>

lemma kind_cases:
  assumes wf: "types_wf st r" and eq: "kind_of st a = kind_of st b"
  obtains (func) as x bs y where "kind_of st a \<in> {HFUN, HMETHOD}" "data_of st a = RFun as x" "data_of st b = RFun bs y"
    | (param) p q where "kind_of st a \<in> {HREF, HNULL, HPACKED}" "data_of st a = RParam p" "data_of st b = RParam q"
    | (pointer) "kind_of st a \<in> {HOBJ, HSTRUCT, HVIRTUAL, HABSTRACT, HENUM}"
    | (simple) "kind_of st a \<notin> {HFUN, HMETHOD, HREF, HNULL, HPACKED, HOBJ, HSTRUCT, HVIRTUAL, HABSTRACT, HENUM}"
proof -
  have f: "\<exists>as x. data_of st c = RFun as x" if "kind_of st c \<in> {HFUN, HMETHOD}" for c
    using types_wf_fits [OF wf, of c] that by (cases "data_of st c") auto
  have p: "\<exists>p. data_of st c = RParam p" if "kind_of st c \<in> {HREF, HNULL, HPACKED}" for c
    using types_wf_fits [OF wf, of c] that by (cases "data_of st c") auto
  consider "kind_of st a \<in> {HFUN, HMETHOD}" | "kind_of st a \<in> {HREF, HNULL, HPACKED}"
    | "kind_of st a \<in> {HOBJ, HSTRUCT, HVIRTUAL, HABSTRACT, HENUM}"
    | "kind_of st a \<notin> {HFUN, HMETHOD, HREF, HNULL, HPACKED, HOBJ, HSTRUCT, HVIRTUAL, HABSTRACT, HENUM}" by blast
  then show thesis
  proof cases
    case 1
    then show thesis using f [of a] f [of b] eq that(1) by fastforce
  next
    case 2
    then show thesis using p [of a] p [of b] eq that(2) by fastforce
  qed (use that in blast)+
qed

lemma hl_same_type_total:
  assumes wf: "types_wf st r"
  shows "hl_same_type st a b \<noteq> None"
proof (induction "r a" arbitrary: a b rule: less_induct)
  case less
  show ?case
  proof (cases "a = b \<or> kind_of st a \<noteq> kind_of st b")
    case False
    then have ne: "a \<noteq> b" and eq: "kind_of st a = kind_of st b" by auto
    from wf eq show ?thesis
    proof (cases rule: kind_cases)
      case (func as x bs y)
      have "all2M (hl_same_type st) as bs \<noteq> None" if "length as = length bs"
        using types_wf_fun [OF wf func(2)] that by (intro all2M_total less) auto
      moreover have "hl_same_type st x y \<noteq> None" using less types_wf_fun [OF wf func(2)] by blast
      ultimately show ?thesis unfolding hl_same_type_fun [OF ne eq func] by (auto split: bind_splits)
    next
      case (param p q)
      then show ?thesis using less [OF types_wf_param [OF wf param(2)]] hl_same_type_param [OF ne eq param] by simp
    next
      case pointer
      then show ?thesis using hl_same_type_pointer [OF ne eq] types_wf_fits [OF wf] by simp
    next
      case simple
      then show ?thesis using hl_same_type_simple [OF eq] by simp
    qed
  qed (auto simp: hl_same_type.simps [of st a b])
qed

text \<open>Two different types are the same exactly when their kinds and their parts are.\<close>

definition same :: "rt_store \<Rightarrow> addr \<Rightarrow> addr \<Rightarrow> bool" where
  "same st a b \<longleftrightarrow> hl_same_type st a b = Some True"

fun same_data :: "(addr \<Rightarrow> addr \<Rightarrow> bool) \<Rightarrow> hl_type_kind \<Rightarrow> rt_data \<Rightarrow> rt_data \<Rightarrow> bool" where
  "same_data R k (RFun as x) (RFun bs y) \<longleftrightarrow> k \<in> {HFUN, HMETHOD} \<longrightarrow> list_all2 R as bs \<and> R x y"
| "same_data R k (RParam p) (RParam q) \<longleftrightarrow> k \<in> {HREF, HNULL, HPACKED} \<longrightarrow> R p q"
| "same_data R k d e \<longleftrightarrow> k \<in> {HOBJ, HSTRUCT, HVIRTUAL, HABSTRACT, HENUM} \<longrightarrow> d = e"

lemma same_data_simple:
  "k \<notin> {HFUN, HMETHOD, HREF, HNULL, HPACKED, HOBJ, HSTRUCT, HVIRTUAL, HABSTRACT, HENUM} \<Longrightarrow> same_data R k d e"
  by (cases "(R, k, d, e)" rule: same_data.cases) auto

lemma same_data_pointer: "k \<in> {HOBJ, HSTRUCT, HVIRTUAL, HABSTRACT, HENUM} \<Longrightarrow> data_fits k d \<Longrightarrow> same_data R k d e \<longleftrightarrow> d = e"
  by (cases d; cases e) auto

lemma same_iff:
  assumes wf: "types_wf st r"
  shows "same st a b \<longleftrightarrow> a = b \<or> (kind_of st a = kind_of st b \<and> same_data (same st) (kind_of st a) (data_of st a) (data_of st b))"
proof (cases "a = b \<or> kind_of st a \<noteq> kind_of st b")
  case True
  then show ?thesis by (auto simp: same_def hl_same_type.simps [of st a b])
next
  case False
  then have ne: "a \<noteq> b" and eq: "kind_of st a = kind_of st b" by auto
  from wf eq show ?thesis
  proof (cases rule: kind_cases)
    case (func as x bs y)
    have "same st a b \<longleftrightarrow> length as = length bs \<and> all2M (hl_same_type st) as bs = Some True \<and> same st x y"
      unfolding same_def hl_same_type_fun [OF ne eq func] by (auto split: bind_splits if_splits)
    then show ?thesis using func ne eq by (auto simp: all2M_True list_all2_conv_all_nth same_def)
  next
    case (param p q)
    then show ?thesis unfolding same_def [of st a b] hl_same_type_param [OF ne eq param] using ne eq by (auto simp: same_def)
  next
    case pointer
    then show ?thesis using ne eq types_wf_fits [OF wf]
      unfolding same_def [of st a b] hl_same_type_pointer [OF ne eq pointer types_wf_fits [OF wf] types_wf_fits [OF wf]]
        same_data_pointer [OF pointer types_wf_fits [OF wf]] by simp
  next
    case simple
    then show ?thesis using ne eq by (simp add: same_def hl_same_type_simple same_data_simple)
  qed
qed

lemma same_refl [simp]: "same st a a"
  by (simp add: same_def)

lemma same_sym:
  assumes wf: "types_wf st r"
  shows "same st a b \<Longrightarrow> same st b a"
proof (induction "r a" arbitrary: a b rule: less_induct)
  case less
  show ?case
  proof (cases "a = b")
    case False
    then have eq: "kind_of st a = kind_of st b" and sd: "same_data (same st) (kind_of st a) (data_of st a) (data_of st b)"
      using less.prems same_iff [OF wf] by auto
    have "same_data (same st) (kind_of st b) (data_of st b) (data_of st a)"
      using wf eq
    proof (cases rule: kind_cases)
      case (func as x bs y)
      then show ?thesis using sd eq less.hyps types_wf_fun [OF wf func(2)] by (auto simp: list_all2_conv_all_nth)
    next
      case (param p q)
      then show ?thesis using sd eq less.hyps types_wf_param [OF wf param(2)] by auto
    next
      case pointer
      then show ?thesis using sd eq types_wf_fits [OF wf, of a] types_wf_fits [OF wf, of b] by (simp add: same_data_pointer)
    next
      case simple
      then show ?thesis using eq by (simp add: same_data_simple)
    qed
    with eq show ?thesis using same_iff [OF wf, of b a] by simp
  qed simp
qed

lemma same_trans:
  assumes wf: "types_wf st r"
  shows "same st a b \<Longrightarrow> same st b c \<Longrightarrow> same st a c"
proof (induction "r b" arbitrary: a b c rule: less_induct)
  case less
  show ?case
  proof (cases "a = b \<or> b = c")
    case False
    then have eq: "kind_of st b = kind_of st a" "kind_of st b = kind_of st c"
      and sd: "same_data (same st) (kind_of st b) (data_of st a) (data_of st b)" "same_data (same st) (kind_of st b) (data_of st b) (data_of st c)"
      using less.prems same_iff [OF wf] by auto
    have "same_data (same st) (kind_of st b) (data_of st a) (data_of st c)"
      using wf eq(1)
    proof (cases rule: kind_cases)
      case (func bs y as x)
      obtain cs z where c: "data_of st c = RFun cs z" using func(1) eq(2) types_wf_fits [OF wf, of c] by (cases "data_of st c") auto
      have "length as = length bs" "length bs = length cs" "same st x y" "same st y z"
        "\<And>i. i < length bs \<Longrightarrow> same st (as ! i) (bs ! i) \<and> same st (bs ! i) (cs ! i)"
        using sd func c by (auto simp: list_all2_conv_all_nth)
      moreover from this have "same st (as ! i) (cs ! i)" if "i < length bs" for i
        using that types_wf_fun [OF wf func(2)] less.hyps [of "bs ! i" "as ! i" "cs ! i"] by simp
      moreover have "same st x z" using calculation types_wf_fun [OF wf func(2)] less.hyps [of y x z] by simp
      ultimately show ?thesis using func c by (simp add: list_all2_conv_all_nth)
    next
      case (param q p)
      obtain u where c: "data_of st c = RParam u" using param(1) eq(2) types_wf_fits [OF wf, of c] by (cases "data_of st c") auto
      then show ?thesis using param sd less.hyps [of q p u] types_wf_param [OF wf param(2)] by simp
    next
      case pointer
      then show ?thesis using sd eq types_wf_fits [OF wf, of a] types_wf_fits [OF wf, of b] by (simp add: same_data_pointer)
    next
      case simple
      then show ?thesis by (simp add: same_data_simple)
    qed
    with eq show ?thesis using same_iff [OF wf, of a c] by simp
  qed (use less.prems in auto)
qed

lemma same_kind: "types_wf st r \<Longrightarrow> same st a b \<Longrightarrow> kind_of st a = kind_of st b"
  using same_iff [of st r a b] by auto

lemma hl_same_type_sym:
  assumes "types_wf st r"
  shows "hl_same_type st a b = hl_same_type st b a"
proof -
  obtain x y where xy: "hl_same_type st a b = Some x" "hl_same_type st b a = Some y" using hl_same_type_total [OF assms] by blast
  moreover have "x \<longleftrightarrow> y" using same_sym [OF assms, of a b] same_sym [OF assms, of b a] unfolding same_def xy by blast
  ultimately show ?thesis by simp
qed

text \<open>
  C13: \<open>hl_same_type\<close> decides an equivalence. On every store whose function types and type parameters are built bottom up it returns,
  and the relation that it decides is reflexive, symmetric and transitive; equal types have the same size, pointer flag and dynamic flag.
\<close>

theorem same_type_equivalence:
  assumes "types_wf st r"
  shows "(\<forall>a b. hl_same_type st a b \<noteq> None) \<and> (\<forall>a. hl_same_type st a a = Some True) \<and>
    (\<forall>a b. hl_same_type st a b = hl_same_type st b a) \<and>
    (\<forall>a b c. hl_same_type st a b = Some True \<longrightarrow> hl_same_type st b c = Some True \<longrightarrow> hl_same_type st a c = Some True) \<and>
    (\<forall>a b. hl_same_type st a b = Some True \<longrightarrow> hl_type_size st a = hl_type_size st b \<and> hl_is_ptr st a = hl_is_ptr st b \<and>
       hl_is_dynamic st a = hl_is_dynamic st b)"
proof (intro conjI allI impI)
  show "hl_same_type st a b = hl_same_type st b a" for a b by (rule hl_same_type_sym [OF assms])
  show "hl_same_type st a c = Some True" if "hl_same_type st a b = Some True" "hl_same_type st b c = Some True" for a b c
    using same_trans [OF assms] that unfolding same_def by blast
qed (use same_kind [OF assms] hl_same_type_total [OF assms] in \<open>auto simp: same_def hl_type_size_def hl_is_ptr_def hl_is_dynamic_def\<close>)


text \<open>A store with two function types that are equal but not identical, an object and a recursive virtual.\<close>

definition sample_field :: "addr \<Rightarrow> addr \<Rightarrow> int \<Rightarrow> rt_field" where
  "sample_field n t h = \<lparr>rf_name = n, rf_t = t, rf_hashed_name = h\<rparr>"

definition sample_types :: "addr \<Rightarrow> rt_type" where
  "sample_types a =
    (if a = 1 then \<lparr>rt_kind = HI32, rt_data = RNone\<rparr> else if a = 2 then \<lparr>rt_kind = HDYN, rt_data = RNone\<rparr>
     else if a = 3 then \<lparr>rt_kind = HFUN, rt_data = RFun [1, 2] 4\<rparr> else if a = 4 then \<lparr>rt_kind = HREF, rt_data = RParam 1\<rparr>
     else if a = 5 then \<lparr>rt_kind = HFUN, rt_data = RFun [1, 2] 6\<rparr> else if a = 6 then \<lparr>rt_kind = HREF, rt_data = RParam 1\<rparr>
     else if a = 7 then \<lparr>rt_kind = HOBJ, rt_data = RObj 0\<rparr> else if a = 8 then \<lparr>rt_kind = HOBJ, rt_data = RObj 1\<rparr>
     else if a = 9 then \<lparr>rt_kind = HVIRTUAL, rt_data = RVirt 0\<rparr> else if a = 10 then \<lparr>rt_kind = HVIRTUAL, rt_data = RVirt 1\<rparr>
     else if a = 11 then \<lparr>rt_kind = HENUM, rt_data = REnum 0\<rparr> else if a = 12 then \<lparr>rt_kind = HBYTES, rt_data = RNone\<rparr>
     else \<lparr>rt_kind = HVOID, rt_data = RNone\<rparr>)"

definition sample_obj :: "addr \<Rightarrow> rt_obj" where
  "sample_obj a =
    (if a = 0 then \<lparr>ro_name = 0, ro_super = None, ro_fields = [sample_field 2 1 5, sample_field 3 9 6], ro_proto = [], ro_bindings = []\<rparr>
     else if a = 1 then \<lparr>ro_name = 1, ro_super = Some 7, ro_fields = [sample_field 4 12 7], ro_proto = [], ro_bindings = []\<rparr>
     else \<lparr>ro_name = a, ro_super = None, ro_fields = [], ro_proto = [], ro_bindings = []\<rparr>)"

definition sample_str :: "addr \<Rightarrow> uchar list" where
  "sample_str a = (if a = 0 then USTR ''A'' else if a = 1 then USTR ''B'' else USTR ''x'')"

definition sample_store :: rt_store where
  "sample_store = \<lparr>st_type = sample_types, st_obj = sample_obj,
     st_virt = (\<lambda>v. if v = 0 then [sample_field 2 1 5, sample_field 3 9 6] else if v = 1 then [sample_field 2 1 5] else []),
     st_enum = (\<lambda>_. \<lparr>re_name = None, re_constructs = [\<lparr>rc_name = 2, rc_params = [1, 9]\<rparr>, \<lparr>rc_name = 3, rc_params = []\<rparr>]\<rparr>),
     st_str = sample_str, st_string_type = None\<rparr>"

definition sample_rank :: "addr \<Rightarrow> nat" where
  "sample_rank a = (if a = 3 \<or> a = 5 then 2 else if a = 4 \<or> a = 6 then 1 else 0)"

lemma sample_simps [simp]: "st_type sample_store = sample_types" "st_obj sample_store = sample_obj" "st_str sample_store = sample_str"
  "st_string_type sample_store = None"
  by (simp_all add: sample_store_def)

lemma sample_types_wf: "types_wf sample_store sample_rank"
  by (auto simp: types_wf_def sample_types_def sample_rank_def)

theorem same_type_equivalence_witness:
  "hl_same_type sample_store 3 5 = Some True \<and> hl_same_type sample_store 3 5 = hl_same_type sample_store 5 3 \<and>
   hl_type_size sample_store 3 = hl_type_size sample_store 5"
proof -
  have "hl_same_type sample_store 4 6 = Some True"
    by (simp add: hl_same_type.simps [of sample_store 4 6] sample_types_def)
  then have "hl_same_type sample_store 3 5 = Some True"
    by (simp add: hl_same_type.simps [of sample_store 3 5] sample_types_def)
  with same_type_equivalence [OF sample_types_wf] show ?thesis by blast
qed

subsection \<open>Casts\<close>

definition super_of :: "rt_store \<Rightarrow> addr \<Rightarrow> addr option" where
  "super_of st ob = ro_super (st_obj st ob) \<bind> (\<lambda>s. obj_of (data_of st s))"

text \<open>
  What the casts rely on: types are built bottom up, classes have a finite chain of superclasses (\<open>ro\<close> is a rank), strings are
  terminated, a name belongs to one class, no class extends the String class, and a packed type packs an unpacked one.
\<close>

definition objs_wf :: "rt_store \<Rightarrow> (addr \<Rightarrow> nat) \<Rightarrow> bool" where
  "objs_wf st ro \<longleftrightarrow> (\<forall>x s. ro_super (st_obj st x) = Some s \<longrightarrow> (\<exists>y. data_of st s = RObj y \<and> ro y < ro x))"

definition strings_wf :: "rt_store \<Rightarrow> bool" where
  "strings_wf st \<longleftrightarrow> (\<forall>a. terminated (st_str st a)) \<and>
     (\<forall>t. st_string_type st = Some t \<longrightarrow> (\<exists>x. kind_of st t = HOBJ \<and> data_of st t = RObj x \<and> is_string_obj st (st_obj st x) = Some True))"

definition store_wf :: "rt_store \<Rightarrow> (addr \<Rightarrow> nat) \<Rightarrow> (addr \<Rightarrow> nat) \<Rightarrow> bool" where
  "store_wf st r ro \<longleftrightarrow> types_wf st r \<and> objs_wf st ro \<and> strings_wf st \<and>
     (\<forall>x y. ro_name (st_obj st x) = ro_name (st_obj st y) \<longrightarrow> x = y) \<and>
     (\<forall>x y. super_of st x = Some y \<longrightarrow> is_string_obj st (st_obj st y) \<noteq> Some True) \<and>
     (\<forall>a p. kind_of st a = HPACKED \<longrightarrow> data_of st a = RParam p \<longrightarrow> kind_of st p \<noteq> HPACKED)"

lemma store_wfD:
  assumes "store_wf st r ro"
  shows "types_wf st r" "objs_wf st ro" "strings_wf st"
    "ro_name (st_obj st x) = ro_name (st_obj st y) \<longleftrightarrow> x = y"
    "super_of st x = Some y \<Longrightarrow> is_string_obj st (st_obj st y) \<noteq> Some True"
    "kind_of st a = HPACKED \<Longrightarrow> data_of st a = RParam p \<Longrightarrow> kind_of st p \<noteq> HPACKED"
  using assms by (auto simp: store_wf_def)

text \<open>The chain of superclasses.\<close>

inductive extends :: "rt_store \<Rightarrow> addr \<Rightarrow> addr \<Rightarrow> bool" for st where
  extends_refl: "extends st x x"
| extends_step: "super_of st x = Some y \<Longrightarrow> extends st y z \<Longrightarrow> extends st x z"

lemma extends_trans: "extends st x y \<Longrightarrow> extends st y z \<Longrightarrow> extends st x z"
  by (induction rule: extends.induct) (auto intro: extends_step)

lemma super_reaches_iff:
  assumes "store_wf st r ro"
  shows "super_reaches st x z = Some (extends st x z)"
proof (induction "ro x" arbitrary: x rule: less_induct)
  case less
  have names: "ro_name (st_obj st x) = ro_name (st_obj st z) \<longleftrightarrow> x = z" by (rule store_wfD(4) [OF assms])
  show ?case
  proof (cases "x = z \<or> ro_super (st_obj st x) = None")
    case True
    then show ?thesis using names extends.simps [of st x z] by (auto simp: super_reaches.simps [of st x z] super_of_def)
  next
    case False
    then obtain s where s: "ro_super (st_obj st x) = Some s" by blast
    then obtain y where y: "data_of st s = RObj y" "ro y < ro x" using store_wfD(2) [OF assms] by (auto simp: objs_wf_def)
    have "super_of st x = Some y" using s y by (simp add: super_of_def)
    then have "extends st x z \<longleftrightarrow> extends st y z" using False by (auto intro: extends_step elim: extends.cases)
    then show ?thesis using False names s y less [OF y(2)] by (simp add: super_reaches.simps [of st x z])
  qed
qed

lemma some_bool: "x \<noteq> None \<Longrightarrow> x = Some (x = Some True)" for x :: "bool option"
  by (cases x) auto

lemma USTR_terminated [simp]: "terminated (USTR s)"
  by (simp add: USTR_def)

definition is_string :: "rt_store \<Rightarrow> addr \<Rightarrow> bool" where
  "is_string st t \<longleftrightarrow> kind_of st t = HOBJ \<and> (\<exists>x. data_of st t = RObj x \<and> is_string_obj st (st_obj st x) = Some True)"

lemma hl_is_string_type_iff:
  assumes "store_wf st r ro"
  shows "hl_is_string_type st (Some t) = Some (is_string st t)"
proof (cases "st_string_type st = Some t")
  case True
  then show ?thesis using store_wfD(3) [OF assms] by (auto simp: strings_wf_def is_string_def hl_is_string_type_def)
next
  case False
  have tot: "is_string_obj st ob \<noteq> None" for ob
  proof -
    obtain d where "ucmp (st_str st (ro_name ob)) (USTR ''String'') = Some d"
      using store_wfD(3) [OF assms] ucmp_cstr [OF _ USTR_terminated] unfolding strings_wf_def by blast
    then show ?thesis by (cases "ro_super ob") (auto simp: is_string_obj_def simp del: not_None_eq)
  qed
  have "kind_of st t = HOBJ \<Longrightarrow> \<exists>x. data_of st t = RObj x"
    using types_wf_fits [OF store_wfD(1) [OF assms], of t] by (cases "data_of st t") auto
  then show ?thesis using False some_bool [OF tot] by (auto simp: is_string_def hl_is_string_type_def)
qed

definition safe :: "rt_store \<Rightarrow> addr \<Rightarrow> addr \<Rightarrow> bool" where
  "safe st t to \<longleftrightarrow> hl_safe_cast st t to = Some True"

definition virt_prefix :: "rt_store \<Rightarrow> rt_field list \<Rightarrow> rt_field list \<Rightarrow> bool" where
  "virt_prefix st fs fsto \<longleftrightarrow> length fsto < length fs \<and>
     (\<forall>i<length fsto. rf_hashed_name (fs ! i) = rf_hashed_name (fsto ! i) \<and> same st (rf_t (fs ! i)) (rf_t (fsto ! i)))"

lemma obj_data: "types_wf st r \<Longrightarrow> kind_of st t \<in> {HOBJ, HSTRUCT} \<Longrightarrow> \<exists>x. data_of st t = RObj x"
  using types_wf_fits [of st r t] by (cases "data_of st t") auto

lemma fun_data: "types_wf st r \<Longrightarrow> kind_of st t \<in> {HFUN, HMETHOD} \<Longrightarrow> \<exists>as x. data_of st t = RFun as x"
  using types_wf_fits [of st r t] by (cases "data_of st t") auto

lemma virt_data: "types_wf st r \<Longrightarrow> kind_of st t = HVIRTUAL \<Longrightarrow> \<exists>v. data_of st t = RVirt v"
  using types_wf_fits [of st r t] by (cases "data_of st t") auto

lemma param_data: "types_wf st r \<Longrightarrow> kind_of st t \<in> {HREF, HNULL, HPACKED} \<Longrightarrow> \<exists>p. data_of st t = RParam p"
  using types_wf_fits [of st r t] by (cases "data_of st t") auto

lemma hl_safe_cast_first:
  "hl_safe_cast st t t = Some True"
  "t \<noteq> to \<Longrightarrow> kind_of st to = HDYN \<Longrightarrow> hl_safe_cast st t to = Some (hl_is_dynamic st t)"
  "t \<noteq> to \<Longrightarrow> kind_of st to \<noteq> HDYN \<Longrightarrow> kind_of st t \<noteq> kind_of st to \<Longrightarrow> hl_safe_cast st t to = Some False"
  by (simp_all add: hl_safe_cast.simps)

lemma hl_safe_cast_virt:
  assumes wf: "store_wf st r ro" and "t \<noteq> to" "kind_of st t = HVIRTUAL" "kind_of st to = HVIRTUAL" "data_of st t = RVirt v" "data_of st to = RVirt w"
  shows "hl_safe_cast st t to = Some (virt_prefix st (st_virt st v) (st_virt st w) \<or> v = w)"
proof -
  define f where "f = (\<lambda>(f2 :: rt_field) (f1 :: rt_field). if rf_hashed_name f1 \<noteq> rf_hashed_name f2 then Some False else hl_same_type st (rf_t f1) (rf_t f2))"
  define rr where "rr = (if length (st_virt st w) < length (st_virt st v) then all2M f (st_virt st w) (st_virt st v) else Some False)"
  have "f x y \<noteq> None" for x y using hl_same_type_total [OF store_wfD(1) [OF wf]] by (simp add: f_def del: not_None_eq)
  then have "rr \<noteq> None" unfolding rr_def using all2M_total [of "st_virt st w" "st_virt st v" f] by auto
  moreover have "rr = Some True \<longleftrightarrow> virt_prefix st (st_virt st v) (st_virt st w)"
    by (auto simp: rr_def virt_prefix_def all2M_True f_def same_def)
  ultimately have rr: "rr = Some (virt_prefix st (st_virt st v) (st_virt st w))" by auto
  have "hl_same_type st t to = Some (v = w)" using assms(2-) by (simp add: hl_same_type.simps [of st t to])
  moreover have "hl_safe_cast st t to = do { r \<leftarrow> rr; if r then Some True else hl_same_type st t to }"
    using assms(2-) by (simp add: hl_safe_cast.simps [of st t to] rr_def f_def)
  ultimately show ?thesis by (simp add: rr)
qed

lemma hl_safe_cast_obj:
  assumes wf: "store_wf st r ro" and "t \<noteq> to" "kind_of st t = kind_of st to" "kind_of st t \<in> {HOBJ, HSTRUCT}"
    "data_of st t = RObj x" "data_of st to = RObj y"
  shows "hl_safe_cast st t to = Some (is_string st t \<and> is_string st to \<or> extends st x y)"
  using assms(2-) hl_is_string_type_iff [OF wf] super_reaches_iff [OF wf] by (auto simp: hl_safe_cast.simps [of st t to])

lemma hl_safe_cast_fun:
  assumes wf: "store_wf st r ro" and "t \<noteq> to" "kind_of st t = kind_of st to" "kind_of st t \<in> {HFUN, HMETHOD}"
    "data_of st t = RFun as x" "data_of st to = RFun bs y"
  shows "hl_safe_cast st t to = (if length as = length bs then do {
      r \<leftarrow> hl_safe_cast st x y;
      if r then all2M (\<lambda>t1 t2. do { c \<leftarrow> hl_safe_cast st t2 t1; Some (c \<or> (kind_of st t1 = HDYN \<and> hl_is_dynamic st t2)) }) as bs
      else Some False } else Some False)"
proof -
  have "length as \<noteq> length bs \<Longrightarrow> hl_same_type st t to = Some False"
    using hl_same_type_fun [OF assms(2-)] by simp
  then show ?thesis using assms(2-) by (auto simp: hl_safe_cast.simps [of st t to] cong: if_cong)
qed

lemma hl_safe_cast_packed:
  assumes wf: "store_wf st r ro" and "t \<noteq> to" "kind_of st t = HPACKED" "kind_of st to = HPACKED"
  shows "hl_safe_cast st t to = Some False"
proof -
  obtain p where p: "data_of st t = RParam p" using param_data [OF store_wfD(1) [OF wf], of t] assms by auto
  then have "kind_of st p \<noteq> HPACKED" using store_wfD(6) [OF wf] assms by blast
  then have "hl_safe_cast st p to = Some False" using assms by (intro hl_safe_cast_first) auto
  then show ?thesis using assms p by (simp add: hl_safe_cast.simps [of st t to])
qed

lemma hl_safe_cast_other:
  assumes "t \<noteq> to" "kind_of st t = kind_of st to" "kind_of st t \<notin> {HDYN, HVIRTUAL, HOBJ, HSTRUCT, HFUN, HMETHOD, HPACKED}"
  shows "hl_safe_cast st t to = hl_same_type st t to"
  using assms by (simp add: hl_safe_cast.simps [of st t to])

lemma cast_cases:
  assumes wf: "store_wf st r ro"
  obtains (refl) "t = to"
    | (dyn) "t \<noteq> to" "kind_of st to = HDYN"
    | (diff) "t \<noteq> to" "kind_of st to \<noteq> HDYN" "kind_of st t \<noteq> kind_of st to"
    | (virt) v w where "t \<noteq> to" "kind_of st t = HVIRTUAL" "kind_of st to = HVIRTUAL" "data_of st t = RVirt v" "data_of st to = RVirt w"
    | (obj) x y where "t \<noteq> to" "kind_of st t = kind_of st to" "kind_of st t \<in> {HOBJ, HSTRUCT}" "data_of st t = RObj x" "data_of st to = RObj y"
    | (func) as x bs y where "t \<noteq> to" "kind_of st t = kind_of st to" "kind_of st t \<in> {HFUN, HMETHOD}"
        "data_of st t = RFun as x" "data_of st to = RFun bs y"
    | (packed) "t \<noteq> to" "kind_of st t = HPACKED" "kind_of st to = HPACKED"
    | (other) "t \<noteq> to" "kind_of st t = kind_of st to" "kind_of st t \<notin> {HDYN, HVIRTUAL, HOBJ, HSTRUCT, HFUN, HMETHOD, HPACKED}"
proof -
  note d = virt_data [OF store_wfD(1) [OF wf]] obj_data [OF store_wfD(1) [OF wf]] fun_data [OF store_wfD(1) [OF wf]]
  consider "t = to \<or> kind_of st to = HDYN \<or> kind_of st t \<noteq> kind_of st to"
    | "t \<noteq> to" "kind_of st t = kind_of st to" "kind_of st t = HVIRTUAL" | "t \<noteq> to" "kind_of st t = kind_of st to" "kind_of st t \<in> {HOBJ, HSTRUCT}"
    | "t \<noteq> to" "kind_of st t = kind_of st to" "kind_of st t \<in> {HFUN, HMETHOD}"
    | "t \<noteq> to" "kind_of st t = kind_of st to" "kind_of st t = HPACKED"
    | "t \<noteq> to" "kind_of st t = kind_of st to" "kind_of st t \<notin> {HDYN, HVIRTUAL, HOBJ, HSTRUCT, HFUN, HMETHOD, HPACKED}"
    by (cases "kind_of st to") auto
  then show thesis
  proof cases
    case 1
    then show thesis using refl dyn diff by blast
  next
    case 2
    then show thesis using d(1) [of t] d(1) [of to] virt by auto
  next
    case 3
    then show thesis using d(2) [of t] d(2) [of to] obj by auto
  next
    case 4
    then show thesis using d(3) [of t] d(3) [of to] func by auto
  next
    case 5
    then show thesis using packed by auto
  next
    case 6
    then show thesis using other by auto
  qed
qed

lemma hl_safe_cast_total:
  assumes wf: "store_wf st r ro"
  shows "hl_safe_cast st t to \<noteq> None"
proof (induction "r t + r to" arbitrary: t to rule: less_induct)
  case less
  note w = store_wfD(1) [OF wf]
  from wf show ?case
  proof (cases rule: cast_cases [where t = t and to = to])
    case (func as x bs y)
    note rank = types_wf_fun [OF w func(4)] types_wf_fun [OF w func(5)]
    have "hl_safe_cast st x y \<noteq> None" using rank by (intro less) auto
    moreover have "hl_safe_cast st b a \<noteq> None" if "a \<in> set as" "b \<in> set bs" for a b
      using rank that by (intro less) (simp add: add.commute [of "r b"] add_strict_mono)
    then have "length as = length bs \<Longrightarrow> all2M (\<lambda>t1 t2. do { c \<leftarrow> hl_safe_cast st t2 t1;
      Some (c \<or> (kind_of st t1 = HDYN \<and> hl_is_dynamic st t2)) }) as bs \<noteq> None"
      by (intro all2M_total) (auto split: bind_splits simp del: not_None_eq)
    ultimately show ?thesis unfolding hl_safe_cast_fun [OF wf func] by (auto split: bind_splits simp del: not_None_eq)
  qed (use hl_same_type_total [OF w] in \<open>simp_all add: hl_safe_cast_first hl_safe_cast_virt [OF wf] hl_safe_cast_obj [OF wf]
    hl_safe_cast_packed [OF wf] hl_safe_cast_other\<close>)
qed

lemma safe_refl [simp]: "safe st t t"
  by (simp add: safe_def hl_safe_cast_first)

lemma safe_dyn: "t \<noteq> to \<Longrightarrow> kind_of st to = HDYN \<Longrightarrow> safe st t to \<longleftrightarrow> hl_is_dynamic st t"
  by (simp add: safe_def hl_safe_cast_first)

lemma safe_fun:
  assumes wf: "store_wf st r ro" and "t \<noteq> to" "kind_of st t = kind_of st to" "kind_of st t \<in> {HFUN, HMETHOD}"
    "data_of st t = RFun as x" "data_of st to = RFun bs y"
  shows "safe st t to \<longleftrightarrow> safe st x y \<and> list_all2 (\<lambda>a b. safe st b a) as bs"
proof -
  have arg: "do { c \<leftarrow> hl_safe_cast st b a; Some (c \<or> (kind_of st a = HDYN \<and> hl_is_dynamic st b)) } = Some True \<longleftrightarrow> safe st b a" for a b
    using hl_safe_cast_total [OF wf, of b a] safe_dyn [of b a st] by (cases "b = a") (auto simp: safe_def hl_safe_cast_first split: bind_splits)
  have "safe st t to \<longleftrightarrow> length as = length bs \<and> safe st x y \<and>
      all2M (\<lambda>t1 t2. do { c \<leftarrow> hl_safe_cast st t2 t1; Some (c \<or> (kind_of st t1 = HDYN \<and> hl_is_dynamic st t2)) }) as bs = Some True"
    unfolding safe_def hl_safe_cast_fun [OF assms] by (auto split: bind_splits if_splits)
  then show ?thesis by (auto simp: all2M_True arg list_all2_conv_all_nth)
qed

lemma safe_kind:
  assumes wf: "store_wf st r ro" and "safe st t to"
  shows "kind_of st t = kind_of st to \<or> (kind_of st to = HDYN \<and> hl_is_dynamic st t)"
  using assms(2) hl_safe_cast_first(2,3) [of t to st] unfolding safe_def by (metis option.inject)

lemma is_dynamic_kind: "kind_of st t = kind_of st u \<Longrightarrow> hl_is_dynamic st t = hl_is_dynamic st u"
  by (simp add: hl_is_dynamic_def)

lemma virt_prefix_trans:
  assumes "types_wf st r" "virt_prefix st fs gs" "virt_prefix st gs hs"
  shows "virt_prefix st fs hs"
  using assms(2,3) same_trans [OF assms(1)] unfolding virt_prefix_def by (metis order.strict_trans)

lemma string_not_super:
  assumes "store_wf st r ro" "extends st x y" "is_string_obj st (st_obj st y) = Some True"
  shows "x = y"
  using assms(2,3)
proof (induction rule: extends.induct)
  case (extends_step x y z)
  then show ?case using store_wfD(5) [OF assms(1) extends_step(1)] by simp
qed simp

lemma string_no_super:
  assumes "extends st x y" "is_string_obj st (st_obj st x) = Some True"
  shows "x = y"
  using assms by (cases rule: extends.cases) (auto simp: is_string_obj_def super_of_def split: if_splits)

lemma is_string_RObj: "data_of st t = RObj x \<Longrightarrow> is_string st t \<longleftrightarrow> kind_of st t = HOBJ \<and> is_string_obj st (st_obj st x) = Some True"
  by (simp add: is_string_def)

lemma obj_cast_trans:
  assumes wf: "store_wf st r ro" and k: "kind_of st t = kind_of st u" "kind_of st u = kind_of st v"
    and d: "data_of st t = RObj x" "data_of st u = RObj y" "data_of st v = RObj z"
    and "is_string st t \<and> is_string st u \<or> extends st x y" "is_string st u \<and> is_string st v \<or> extends st y z"
  shows "is_string st t \<and> is_string st v \<or> extends st x z"
  using assms(7,8) extends_trans [of st x y z] string_not_super [OF wf, of x y] string_no_super [of st y z]
  unfolding is_string_RObj [OF d(1)] is_string_RObj [OF d(2)] is_string_RObj [OF d(3)] k by auto

lemma safe_virt:
  assumes "store_wf st r ro" "kind_of st t = HVIRTUAL" "kind_of st to = HVIRTUAL" "data_of st t = RVirt v" "data_of st to = RVirt w"
  shows "safe st t to \<longleftrightarrow> virt_prefix st (st_virt st v) (st_virt st w) \<or> v = w"
  using assms hl_safe_cast_virt [OF assms(1) _ assms(2-)] by (cases "t = to") (auto simp: safe_def)

lemma safe_obj:
  assumes "store_wf st r ro" "kind_of st t = kind_of st to" "kind_of st t \<in> {HOBJ, HSTRUCT}" "data_of st t = RObj x" "data_of st to = RObj y"
  shows "safe st t to \<longleftrightarrow> is_string st t \<and> is_string st to \<or> extends st x y"
  using assms(4,5) hl_safe_cast_obj [OF assms(1) _ assms(2-)] by (cases "t = to") (auto simp: safe_def intro: extends_refl)

lemma safe_other:
  assumes "kind_of st t = kind_of st to" "kind_of st t \<notin> {HDYN, HVIRTUAL, HOBJ, HSTRUCT, HFUN, HMETHOD, HPACKED}"
  shows "safe st t to \<longleftrightarrow> same st t to"
  using hl_safe_cast_other [OF _ assms] by (cases "t = to") (auto simp: safe_def same_def)

lemma safe_trans_fun:
  assumes wf: "store_wf st r ro" and ne: "t \<noteq> u" "u \<noteq> v" and k: "kind_of st t = kind_of st u" "kind_of st u = kind_of st v" "kind_of st u \<in> {HFUN, HMETHOD}"
    and tu: "safe st t u" and uv: "safe st u v"
    and IH: "\<And>a b c. r a + r b + r c < r t + r u + r v \<Longrightarrow> safe st a b \<Longrightarrow> safe st b c \<Longrightarrow> safe st a c"
  shows "safe st t v"
proof (cases "t = v")
  case False
  note w = store_wfD(1) [OF wf]
  obtain as x bs y cs z where d: "data_of st t = RFun as x" "data_of st u = RFun bs y" "data_of st v = RFun cs z"
    using fun_data [OF w, of t] fun_data [OF w, of u] fun_data [OF w, of v] k by auto
  note rank = types_wf_fun [OF w d(1)] types_wf_fun [OF w d(2)] types_wf_fun [OF w d(3)]
  have k': "kind_of st t \<in> {HFUN, HMETHOD}" "kind_of st t = kind_of st v" using k by auto
  have tu': "safe st x y" "length as = length bs" "\<And>i. i < length bs \<Longrightarrow> safe st (bs ! i) (as ! i)"
    using tu safe_fun [OF wf ne(1) k(1) k'(1) d(1,2)] by (auto simp: list_all2_conv_all_nth)
  have uv': "safe st y z" "length bs = length cs" "\<And>i. i < length bs \<Longrightarrow> safe st (cs ! i) (bs ! i)"
    using uv safe_fun [OF wf ne(2) k(2,3) d(2,3)] by (auto simp: list_all2_conv_all_nth)
  have "safe st x z" using rank by (intro IH [OF _ tu'(1) uv'(1)]) linarith
  moreover have "safe st (cs ! i) (as ! i)" if "i < length bs" for i
  proof -
    have "r (as ! i) < r t" "r (bs ! i) < r u" "r (cs ! i) < r v" using that rank tu'(2) uv'(2) by auto
    then show ?thesis by (intro IH [OF _ uv'(3) tu'(3)] that) linarith
  qed
  ultimately show ?thesis using safe_fun [OF wf False k'(2,1) d(1,3)] tu'(2) uv'(2) by (simp add: list_all2_conv_all_nth)
qed simp

lemma safe_trans:
  assumes wf: "store_wf st r ro"
  shows "safe st t u \<Longrightarrow> safe st u v \<Longrightarrow> safe st t v"
proof (induction "r t + r u + r v" arbitrary: t u v rule: less_induct)
  case less
  note w = store_wfD(1) [OF wf]
  show ?case
  proof (cases "t = u \<or> u = v \<or> t = v")
    case False
    then have ne: "t \<noteq> u" "u \<noteq> v" "t \<noteq> v" by auto
    show ?thesis
    proof (cases "kind_of st v = HDYN")
      case True
      then show ?thesis
        using safe_dyn [OF ne(3)] safe_dyn [OF ne(2)] safe_kind [OF wf less.prems(1)] less.prems(2) is_dynamic_kind [of st t u] by auto
    next
      case nodyn: False
      then have k: "kind_of st u = kind_of st v" "kind_of st u \<noteq> HDYN" using safe_kind [OF wf less.prems(2)] by auto
      then have k': "kind_of st t = kind_of st u" using safe_kind [OF wf less.prems(1)] by auto
      from wf show ?thesis
      proof (cases rule: cast_cases [where t = t and to = u])
        case (virt a b)
        then obtain c where "data_of st v = RVirt c" using virt_data [OF w, of v] k by auto
        with virt less.prems k show ?thesis
          using safe_virt [OF wf, of t u] safe_virt [OF wf, of u v] safe_virt [OF wf, of t v] virt_prefix_trans [OF w] by auto
      next
        case (obj a b)
        then obtain c where c: "data_of st v = RObj c" using obj_data [OF w, of v] k by auto
        have ko: "kind_of st u \<in> {HOBJ, HSTRUCT}" using obj k' by simp
        show ?thesis using less.prems
          unfolding safe_obj [OF wf obj(2-5)] safe_obj [OF wf k(1) ko obj(5) c] safe_obj [OF wf k' [unfolded k] obj(3,4) c]
          by (rule obj_cast_trans [OF wf k' k(1) obj(4,5) c])
      next
        case func
        then show ?thesis using less.prems less.hyps k k' ne by (intro safe_trans_fun [OF wf ne(1,2) k' k(1)]) auto
      next
        case packed
        then show ?thesis using less.prems(1) by (simp add: safe_def hl_safe_cast_packed [OF wf])
      next
        case other
        then show ?thesis using less.prems k k' same_trans [OF w, of t u v] safe_other [of st t u] safe_other [of st u v] safe_other [of st t v] by simp
      qed (use ne k k' in auto)
    qed
  qed (use less.prems in auto)
qed


lemma sample_store_wf: "store_wf sample_store sample_rank (\<lambda>x. x)"
  unfolding store_wf_def using sample_types_wf
  by (auto simp: objs_wf_def strings_wf_def super_of_def sample_obj_def sample_types_def sample_str_def is_string_obj_def USTR_def split: if_splits)


lemma is_string_obj_update [simp]: "is_string_obj (st\<lparr>st_string_type := x\<rparr>) ob = is_string_obj st ob"
  by (simp add: is_string_obj_def)

lemma super_of_update [simp]: "super_of (st\<lparr>st_string_type := x\<rparr>) ob = super_of st ob"
  by (simp add: super_of_def)

lemma hl_register_string_type_wf:
  assumes wf: "store_wf st r ro"
  shows "\<exists>st'. hl_register_string_type t st = Some st' \<and> store_wf st' r ro \<and> (is_string st t \<longrightarrow> st_string_type st' \<noteq> None)"
proof (cases "st_string_type st = None \<and> is_string st t")
  case True
  then have "store_wf (st\<lparr>st_string_type := Some t\<rparr>) r ro"
    using wf unfolding store_wf_def types_wf_def objs_wf_def strings_wf_def is_string_def by simp
  with True show ?thesis by (simp add: hl_register_string_type_def hl_is_string_type_iff [OF wf])
next
  case False
  then show ?thesis using wf by (auto simp: hl_register_string_type_def hl_is_string_type_iff [OF wf])
qed

subsection \<open>types.c: names and printing\<close>

fun put_sep :: "('a \<Rightarrow> hl_buffer \<Rightarrow> hl_buffer option) \<Rightarrow> bool \<Rightarrow> 'a list \<Rightarrow> hl_buffer \<Rightarrow> hl_buffer option" where
  "put_sep f first [] b = Some b"
| "put_sep f first (x # xs) b = do {
     b \<leftarrow> (if first then Some b else hl_buffer_char b 0x2C);
     b \<leftarrow> f x b;
     put_sep f False xs b }"

lemma put_sep_mono [partial_function_mono]:
  assumes "\<And>x b. mono_option (\<lambda>g. B g x b)"
  shows "mono_option (\<lambda>g. put_sep (\<lambda>x b. B g x b) first xs b)"
  by (induction xs arbitrary: first b) (auto intro!: bind_mono if_mono option.const_mono assms)

definition kind_str :: "rt_store \<Rightarrow> addr \<Rightarrow> string option" where
  "kind_str st t = TSTR ! kind_index (kind_of st t)"

partial_function (option) hl_type_str_rec :: "rt_store \<Rightarrow> addr \<Rightarrow> addr list \<Rightarrow> hl_buffer \<Rightarrow> hl_buffer option" where
  "hl_type_str_rec st t parents b = (case kind_str st t of
     Some c \<Rightarrow> hl_buffer_str b (Some (USTR c))
   | None \<Rightarrow>
     if t \<in> set parents then hl_buffer_str b (Some (USTR ''<...>''))
     else if kind_of st t \<in> {HFUN, HMETHOD} then do {
       f \<leftarrow> fun_of (data_of st t);
       b \<leftarrow> hl_buffer_char b 0x28;
       b \<leftarrow> hl_type_str_rec st (snd f) (t # parents) b;
       b \<leftarrow> hl_buffer_char b 0x20;
       b \<leftarrow> hl_buffer_char b 0x28;
       b \<leftarrow> put_sep (\<lambda>a b. hl_type_str_rec st a (t # parents) b) True (fst f) b;
       b \<leftarrow> hl_buffer_char b 0x29;
       hl_buffer_char b 0x29 }
     else if kind_of st t \<in> {HSTRUCT, HOBJ} then do {
       x \<leftarrow> obj_of (data_of st t);
       b \<leftarrow> (if kind_of st t = HSTRUCT then hl_buffer_char b 0x40 else Some b);
       hl_buffer_str b (Some (st_str st (ro_name (st_obj st x)))) }
     else if kind_of st t = HVIRTUAL then do {
       v \<leftarrow> virt_of (data_of st t);
       b \<leftarrow> hl_buffer_str b (Some (USTR ''virtual<''));
       b \<leftarrow> put_sep (\<lambda>fl b. do {
          b \<leftarrow> hl_buffer_str b (Some (st_str st (rf_name fl)));
          b \<leftarrow> hl_buffer_char b 0x3A;
          hl_type_str_rec st (rf_t fl) (t # parents) b }) True (st_virt st v) b;
       hl_buffer_char b 0x3E }
     else if kind_of st t = HABSTRACT then do {
       n \<leftarrow> abs_of (data_of st t);
       hl_buffer_str b (Some (st_str st n)) }
     else if kind_of st t = HENUM then do {
       e \<leftarrow> enum_of (data_of st t);
       b \<leftarrow> hl_buffer_str b (Some (USTR ''enum''));
       case re_name (st_enum st e) of None \<Rightarrow> Some b | Some n \<Rightarrow> do {
         b \<leftarrow> hl_buffer_char b 0x3C;
         b \<leftarrow> hl_buffer_str b (Some (st_str st n));
         hl_buffer_char b 0x3E } }
     else do {
       p \<leftarrow> param_of (data_of st t);
       b \<leftarrow> hl_buffer_str b (Some (USTR (if kind_of st t = HREF then ''ref<'' else if kind_of st t = HNULL then ''null<'' else ''packed<'')));
       b \<leftarrow> hl_type_str_rec st p (t # parents) b;
       hl_buffer_char b 0x3E })"

definition hl_type_str :: "rt_store \<Rightarrow> addr \<Rightarrow> uchar list option" where
  "hl_type_str st t = (case kind_str st t of
     Some c \<Rightarrow> Some (USTR c)
   | None \<Rightarrow> do {
       b \<leftarrow> hl_type_str_rec st t [] hl_alloc_buffer;
       (s, _) \<leftarrow> buffer_text b;
       Some s })"

definition hl_type_name :: "rt_store \<Rightarrow> addr \<Rightarrow> addr option option" where
  "hl_type_name st t =
    (if kind_of st t \<in> {HOBJ, HSTRUCT} then map_option (\<lambda>x. Some (ro_name (st_obj st x))) (obj_of (data_of st t))
     else if kind_of st t = HENUM then map_option (\<lambda>e. re_name (st_enum st e)) (enum_of (data_of st t))
     else if kind_of st t = HABSTRACT then map_option Some (abs_of (data_of st t))
     else Some None)"

text \<open>\<open>None\<close> inside stands for \<open>&hlt_void\<close>.\<close>

definition hl_type_super :: "rt_store \<Rightarrow> addr \<Rightarrow> addr option option" where
  "hl_type_super st t =
    (if kind_of st t \<in> {HOBJ, HSTRUCT} then map_option (\<lambda>x. ro_super (st_obj st x)) (obj_of (data_of st t)) else Some None)"

definition hl_type_args_count :: "rt_store \<Rightarrow> addr \<Rightarrow> nat option" where
  "hl_type_args_count st t =
    (if kind_of st t \<in> {HFUN, HMETHOD} then map_option (\<lambda>f. length (fst f)) (fun_of (data_of st t)) else Some 0)"

text \<open>The text of a type, unfolded at most \<open>n\<close> times, with the parents that are not printed again.\<close>

definition lit :: "string \<Rightarrow> uchar list" where
  "lit s = map (\<lambda>c. word_of_nat (of_char c)) s"

fun sep_text :: "bool \<Rightarrow> uchar list list \<Rightarrow> uchar list" where
  "sep_text first [] = []"
| "sep_text first (x # xs) = (if first then [] else [0x2C]) @ x @ sep_text False xs"

definition str_text :: "rt_store \<Rightarrow> addr \<Rightarrow> uchar list" where
  "str_text st a = butlast (cstr (st_str st a))"

definition type_text_step :: "(addr \<Rightarrow> addr list \<Rightarrow> uchar list) \<Rightarrow> rt_store \<Rightarrow> addr \<Rightarrow> addr list \<Rightarrow> uchar list" where
  "type_text_step rec st t parents = (case kind_str st t of Some c \<Rightarrow> lit c | None \<Rightarrow>
     if t \<in> set parents then lit ''<...>''
     else (case data_of st t of
         RFun args ret \<Rightarrow> [0x28] @ rec ret (t # parents) @ [0x20] @ [0x28] @ sep_text True (map (\<lambda>a. rec a (t # parents)) args) @ [0x29] @ [0x29]
       | RObj x \<Rightarrow> (if kind_of st t = HSTRUCT then [0x40] else []) @ str_text st (ro_name (st_obj st x))
       | RVirt v \<Rightarrow> lit ''virtual<'' @
           sep_text True (map (\<lambda>fl. str_text st (rf_name fl) @ [0x3A] @ rec (rf_t fl) (t # parents)) (st_virt st v)) @ [0x3E]
       | RAbs n \<Rightarrow> str_text st n
       | REnum e \<Rightarrow> lit ''enum'' @ (case re_name (st_enum st e) of None \<Rightarrow> [] | Some n \<Rightarrow> [0x3C] @ str_text st n @ [0x3E])
       | RParam p \<Rightarrow> lit (if kind_of st t = HREF then ''ref<'' else if kind_of st t = HNULL then ''null<'' else ''packed<'') @
           rec p (t # parents) @ [0x3E]
       | RNone \<Rightarrow> []))"

primrec type_text :: "nat \<Rightarrow> rt_store \<Rightarrow> addr \<Rightarrow> addr list \<Rightarrow> uchar list" where
  "type_text 0 st = type_text_step (\<lambda>_ _. []) st"
| "type_text (Suc n) st = type_text_step (type_text n st) st"

text \<open>What the printing writes.\<close>

abbreviation writes :: "(hl_buffer \<Rightarrow> hl_buffer option) \<Rightarrow> uchar list \<Rightarrow> bool" where
  "writes \<equiv> appends buffer_holds buffer_limit"

lemma lit_writes: "list_all (\<lambda>c. c \<noteq> CHR 0x00) s \<Longrightarrow> writes (\<lambda>b. hl_buffer_str b (Some (USTR s))) (lit s)"
proof -
  assume s: "list_all (\<lambda>c. c \<noteq> CHR 0x00) s"
  have "(word_of_nat (of_char c) :: uchar) \<noteq> 0" if "c \<noteq> CHR 0x00" for c
  proof -
    have "(of_char c :: nat) \<noteq> of_char (CHR 0x00)" using that by (simp only: of_char_eq_iff) simp
    then have "0 < (of_char c :: nat)" by simp
    moreover have "(of_char c :: nat) < 2 ^ 16" by (rule less_trans [OF nat_of_char_less_256]) simp
    ultimately show ?thesis by (simp add: word_of_nat_eq_0_iff nat_dvd_not_less)
  qed
  with s have "cstr (USTR s) = lit s @ [0]" by (induction s) (auto simp: USTR_def lit_def cstr_def)
  then show ?thesis using hl_buffer_str_appends [of "USTR s"] by simp
qed

lemma name_writes: "strings_wf st \<Longrightarrow> writes (\<lambda>b. hl_buffer_str b (Some (st_str st a))) (str_text st a)"
  unfolding str_text_def by (rule hl_buffer_str_appends) (simp add: strings_wf_def)

lemma put_sep_writes:
  assumes "\<And>x. x \<in> set xs \<Longrightarrow> writes (f x) (g x)"
  shows "writes (put_sep f first xs) (sep_text first (map g xs))"
  using assms
proof (induction xs arbitrary: first)
  case Nil
  then show ?case by (simp add: appends_def)
next
  case (Cons x xs)
  have e: "put_sep f first (x # xs) = (\<lambda>b. (if first then Some b else hl_buffer_char b 0x2C) \<bind> (\<lambda>b. f x b \<bind> put_sep f False xs))"
    by (simp add: fun_eq_iff)
  have "writes (\<lambda>b. if first then Some b else hl_buffer_char b 0x2C) (if first then [] else [0x2C])"
    using sb.put_appends sb.appends_skip by (cases first) (auto simp: appends_def)
  then show ?case unfolding e list.map sep_text.simps by (intro sb.appends_bind) (use Cons in auto)
qed

text \<open>The types that are printed by their structure.\<close>

definition composite :: "rt_store \<Rightarrow> addr set" where
  "composite st = {a. kind_str st a = None}"

lemma kind_str_None: "kind_str st t = None \<longleftrightarrow> kind_of st t \<in>
  {HFUN, HMETHOD, HSTRUCT, HOBJ, HVIRTUAL, HABSTRACT, HENUM, HREF, HNULL, HPACKED}"
  by (cases "kind_of st t") (simp_all add: kind_str_def TSTR_def)

lemma kind_str_lit: "kind_str st t = Some c \<Longrightarrow> list_all (\<lambda>c. c \<noteq> CHR 0x00) c"
  by (cases "kind_of st t") (auto simp: kind_str_def TSTR_def)

lemma type_str_step:
  assumes wf: "\<forall>a. data_fits (kind_of st a) (data_of st a)" "strings_wf st"
    and IH: "kind_str st t = None \<Longrightarrow> t \<notin> set parents \<Longrightarrow> (\<And>u. writes (hl_type_str_rec st u (t # parents)) (rec u (t # parents)))"
  shows "writes (hl_type_str_rec st t parents) (type_text_step rec st t parents)"
proof -
  note ev = ext [OF hl_type_str_rec.simps [of st t parents]] type_text_step_def
  show ?thesis
  proof (cases "kind_str st t")
    case (Some c)
    then show ?thesis using lit_writes [OF kind_str_lit] by (simp add: ev)
  next
    case None
    show ?thesis
    proof (cases "t \<in> set parents")
      case True
      then show ?thesis using None lit_writes [of "''<...>''"] by (simp add: ev)
    next
      case False
      note rec = IH [OF None False]
      note ev' = ev None False
      have fits: "data_fits (kind_of st t) (data_of st t)" using wf(1) by blast
      note intro = sb.appends_bind sb.put_appends rec name_writes [OF wf(2)] put_sep_writes lit_writes sb.appends_skip
      from None have "kind_of st t \<in> {HFUN, HMETHOD} \<or> kind_of st t \<in> {HSTRUCT, HOBJ} \<or> kind_of st t = HVIRTUAL \<or> kind_of st t = HABSTRACT \<or>
        kind_of st t = HENUM \<or> kind_of st t \<in> {HREF, HNULL, HPACKED}"
        by (auto simp: kind_str_None)
      then show ?thesis
      proof (elim disjE)
        assume k: "kind_of st t \<in> {HFUN, HMETHOD}"
        then obtain as x where "data_of st t = RFun as x" using fits by (cases "data_of st t") auto
        then have "fun_of (data_of st t) = Some (as, x)" "data_of st t = RFun as x" by simp_all
        then show ?thesis using k by (simp add: ev' del: append_Cons fun_of_Some) (intro intro)
      next
        assume k: "kind_of st t \<in> {HSTRUCT, HOBJ}"
        then obtain x where "data_of st t = RObj x" using fits by (cases "data_of st t") auto
        then show ?thesis using k by (auto simp: ev' simp del: append_Cons intro!: intro)
      next
        assume k: "kind_of st t = HVIRTUAL"
        then obtain v where "data_of st t = RVirt v" using fits by (cases "data_of st t") auto
        then show ?thesis using k by (simp add: ev' del: append_Cons) (intro intro; simp)
      next
        assume k: "kind_of st t = HABSTRACT"
        then obtain v where "data_of st t = RAbs v" using fits by (cases "data_of st t") auto
        then show ?thesis using k by (simp add: ev' name_writes [OF wf(2)])
      next
        assume k: "kind_of st t = HENUM"
        then obtain e where "data_of st t = REnum e" using fits by (cases "data_of st t") auto
        then show ?thesis using k by (cases "re_name (st_enum st e)") (simp_all add: ev' del: append_Cons, (intro intro; simp)+)
      next
        assume k: "kind_of st t \<in> {HREF, HNULL, HPACKED}"
        then obtain p where "data_of st t = RParam p" using fits by (cases "data_of st t") auto
        then show ?thesis using k by (auto simp: ev' simp del: append_Cons intro!: intro)
      qed
    qed
  qed
qed

lemma type_str_writes:
  assumes wf: "\<forall>a. data_fits (kind_of st a) (data_of st a)" "strings_wf st" and fin: "finite (composite st)"
  shows "card (composite st - set parents) \<le> n \<Longrightarrow> writes (hl_type_str_rec st t parents) (type_text n st t parents)"
proof (induction n arbitrary: t parents)
  case 0
  then have "composite st \<subseteq> set parents" using fin by auto
  then have "kind_str st t = None \<Longrightarrow> t \<notin> set parents \<Longrightarrow> False" by (auto simp: composite_def)
  then show ?case by (simp, intro type_str_step [OF wf]) auto
next
  case (Suc n)
  have "card (composite st - set (t # parents)) \<le> n" if "kind_str st t = None" "t \<notin> set parents"
  proof -
    have "composite st - set (t # parents) = (composite st - set parents) - {t}" by auto
    moreover have "t \<in> composite st - set parents" using that by (simp add: composite_def)
    ultimately show ?thesis using Suc.prems fin by (metis card_Diff_singleton diff_le_mono diff_Suc_1 )
  qed
  then show ?case using Suc.IH by (simp, intro type_str_step [OF wf]) auto
qed

text \<open>
  C15: \<open>hl_type_str\<close> ends on recursive types and prints what it should: on a store with finitely many composite types, each of which
  may refer to any other, it returns the text of the type in which a type inside of itself is shown as \<open><...>\<close>, as long as this text
  fits into a buffer.
\<close>

theorem type_str_text:
  assumes "\<forall>a. data_fits (kind_of st a) (data_of st a)" "strings_wf st" "finite (composite st)"
    "length (type_text (card (composite st)) st t []) \<le> buffer_limit"
  shows "hl_type_str st t = Some (type_text (card (composite st)) st t [] @ [0])"
proof (cases "kind_str st t")
  case None
  have "writes (hl_type_str_rec st t []) (type_text (card (composite st)) st t [])"
    using assms(1-3) by (intro type_str_writes) auto
  then have "hl_type_str_rec st t [] hl_alloc_buffer \<bind> buffer_text =
      Some (type_text (card (composite st)) st t [] @ [0], int (length (type_text (card (composite st)) st t [])))"
    using assms(4) by (rule sb.appends_content)
  then show ?thesis using None by (auto simp: hl_type_str_def split: bind_splits)
next
  case (Some c)
  then show ?thesis by (cases "card (composite st)") (auto simp: hl_type_str_def type_text_step_def USTR_def lit_def)
qed

lemma sample_composite: "composite sample_store = {3, 4, 5, 6, 7, 8, 9, 10, 11}"
  by (auto simp: composite_def kind_str_None sample_types_def)

lemma sample_strings: "strings_wf sample_store"
  using sample_store_wf by (simp add: store_wf_def)

theorem type_str_text_witness:
  "hl_type_str sample_store 9 = Some (USTR ''virtual<x:i32,x:<...>>'')"
proof -
  have t: "type_text 9 sample_store 9 [] = lit ''virtual<x:i32,x:<...>>''" by code_simp
  have c: "card (composite sample_store) = 9" by (simp add: sample_composite)
  show ?thesis
    using type_str_text [OF _ sample_strings, of 9] types_wf_fits [OF sample_types_wf] unfolding c t
    by (simp add: sample_composite buffer_limit_def lit_def USTR_def)
qed

end
