(* ===== verification/DataLayout.thy ===== *)
theory DataLayout
  imports RuntimeTypes
begin

unbundle bit_operations_syntax

text \<open>
  Where values keep their data: the placement that enums, classes and virtuals share, the mark bits that tell the collector which
  words are pointers, and the layout of enum values (\<open>hl_init_enum\<close> in \<^verbatim>\<open>std/types.c\<close>). Sizes are mathematical integers; they are
  the \<open>int\<close> of the source as long as the size of the value fits into one.
\<close>

subsection \<open>Layout of data\<close>

definition align_of :: "rt_store \<Rightarrow> addr \<Rightarrow> int" where
  "align_of st t = (if kind_of st t = HVOID then 1 else kind_align (kind_of st t))"

lemma kind_align_cases: "kind_align k \<in> {1, 2, 4, 8}"
  by (cases k) auto

lemma align_of_pos [simp]: "0 < align_of st t"
  using kind_align_cases [of "kind_of st t"] by (auto simp: align_of_def)

lemma hl_pad_struct_mod: "hl_pad_struct st sz t = (- sz) mod align_of st t"
proof -
  have "(- sz) AND (a - 1) = (- sz) mod a" if "a \<in> {1, 2, 4, 8}" for a :: int
    using that by (auto simp: and_mask_mod)
  then show ?thesis using kind_align_cases [of "kind_of st t"] by (auto simp: hl_pad_struct_def align_of_def)
qed

lemma hl_pad_struct_bounds: "0 \<le> hl_pad_struct st sz t" "hl_pad_struct st sz t < align_of st t"
  by (simp_all add: hl_pad_struct_mod)

lemma hl_pad_struct_aligned: "align_of st t dvd sz + hl_pad_struct st sz t"
  unfolding hl_pad_struct_mod by (simp add: dvd_eq_mod_eq_0 mod_add_right_eq)

lemma hl_type_size_nonneg [simp]: "0 \<le> hl_type_size st t"
  by (cases "kind_of st t") (simp_all add: hl_type_size_def T_SIZES_def HL_WSIZE_def)

lemma hl_is_ptr_size: "hl_is_ptr st t \<Longrightarrow> kind_of st t \<noteq> HPACKED \<Longrightarrow> hl_type_size st t = 8 \<and> align_of st t = 8"
  by (cases "kind_of st t") (simp_all add: hl_type_size_def hl_is_ptr_def T_SIZES_def T_IS_PTR_def HL_WSIZE_def align_of_def)

text \<open>
  Data of the types \<open>ts\<close> is placed at the offsets \<open>os\<close> from \<open>lo\<close> to \<open>hi\<close>: in order, each at the first offset that is aligned for its type and
  behind the end of the one before.
\<close>

fun placed :: "(addr \<Rightarrow> int) \<Rightarrow> (addr \<Rightarrow> int) \<Rightarrow> int \<Rightarrow> addr list \<Rightarrow> int list \<Rightarrow> int \<Rightarrow> bool" where
  "placed szf al lo [] [] hi \<longleftrightarrow> lo = hi"
| "placed szf al lo (t # ts) (x # os) hi \<longleftrightarrow> lo \<le> x \<and> x < lo + al t \<and> al t dvd x \<and> placed szf al (x + szf t) ts os hi"
| "placed szf al lo _ _ hi \<longleftrightarrow> False"

lemma placed_length: "placed szf al lo ts os hi \<Longrightarrow> length os = length ts"
  by (induction szf al lo ts os hi rule: placed.induct) auto

lemma placed_le: "placed szf al lo ts os hi \<Longrightarrow> (\<And>t. 0 \<le> szf t) \<Longrightarrow> lo \<le> hi"
proof (induction szf al lo ts os hi rule: placed.induct)
  case (2 szf al lo t ts x os hi)
  then have "x + szf t \<le> hi" "0 \<le> szf t" "lo \<le> x" by auto
  then show ?case by linarith
qed auto

lemma placed_nth:
  assumes "placed szf al lo ts os hi" "\<And>t. 0 \<le> szf t" "j < length ts"
  shows "lo \<le> os ! j \<and> al (ts ! j) dvd os ! j \<and> os ! j + szf (ts ! j) \<le> hi \<and> (\<forall>i<j. os ! i + szf (ts ! i) \<le> os ! j)"
  using assms
proof (induction szf al lo ts os hi arbitrary: j rule: placed.induct)
  case (2 szf al lo t ts x os hi)
  show ?case
  proof (cases j)
    case 0
    then show ?thesis using 2 placed_le [of szf al "x + szf t" ts os hi] by auto
  next
    case (Suc i)
    have "x + szf t \<le> os ! i \<and> al (ts ! i) dvd os ! i \<and> os ! i + szf (ts ! i) \<le> hi \<and> (\<forall>k<i. os ! k + szf (ts ! k) \<le> os ! i)"
      using 2 Suc by (intro "2.IH") auto
    moreover have "lo \<le> x" "0 \<le> szf t" using 2(2,3) by auto
    ultimately show ?thesis using Suc by (auto simp: less_Suc_eq_0_disj)
  qed
qed auto

lemma placed_append:
  "placed szf al lo ts os mid \<Longrightarrow> placed szf al mid us ps hi \<Longrightarrow> placed szf al lo (ts @ us) (os @ ps) hi"
  by (induction szf al lo ts os mid rule: placed.induct) auto

text \<open>The offsets only depend on the sizes and alignments.\<close>

lemma aligned_unique:
  fixes x y :: int
  assumes "a dvd x" "a dvd y" "lo \<le> x" "x < lo + a" "lo \<le> y" "y < lo + a"
  shows "x = y"
proof -
  have "a dvd x - y" "\<bar>x - y\<bar> < a" using assms by auto
  then show ?thesis using zdvd_imp_le [of a "\<bar>x - y\<bar>"] by (cases "x = y") auto
qed

lemma placed_unique_end:
  assumes "placed szf al lo ts os hi" "placed szf al lo us ps hi'" "length ts = length us"
    "\<forall>i<length ts. szf (ts ! i) = szf (us ! i) \<and> al (ts ! i) = al (us ! i)"
  shows "os = ps \<and> hi = hi'"
  using assms
proof (induction szf al lo ts os hi arbitrary: us ps rule: placed.induct)
  case (2 szf al lo t ts x os hi)
  then obtain u us' where us: "us = u # us'" by (cases us) auto
  then obtain y ps' where ps: "ps = y # ps'" using 2(3) by (cases ps) auto
  have tu: "szf t = szf u" "al t = al u" using 2(5) us by force+
  then have xy: "x = y" using 2(2,3) us ps by (intro aligned_unique [of "al t" x y lo]) auto
  have "\<forall>i<length ts. szf (ts ! i) = szf (us' ! i) \<and> al (ts ! i) = al (us' ! i)" using 2(5) us by force
  then have "os = ps' \<and> hi = hi'" using 2(2-4) us ps tu xy by (intro "2.IH") auto
  then show ?case using us ps xy by simp
next
  case (1 szf al lo hi)
  then show ?case by (cases ps) auto
qed auto

subsection \<open>types.c: enums\<close>

definition hl_mark_size :: "int \<Rightarrow> int" where
  "hl_mark_size data_size = (let ptr_count = (data_size + HL_WSIZE - 1) div HL_WSIZE in drop_bit 5 (ptr_count + 31) * 4)"

record enum_layout =
  el_hasptr :: bool
  el_size :: int
  el_offsets :: "int list"

fun enum_params :: "rt_store \<Rightarrow> addr list \<Rightarrow> enum_layout \<Rightarrow> enum_layout" where
  "enum_params st [] c = c"
| "enum_params st (t # ts) c =
    (let off = el_size c + hl_pad_struct st (el_size c) t in
     enum_params st ts (c\<lparr>el_hasptr := el_hasptr c \<or> hl_is_ptr st t, el_size := off + hl_type_size st t, el_offsets := el_offsets c @ [off]\<rparr>))"

definition enum_construct :: "rt_store \<Rightarrow> rt_construct \<Rightarrow> enum_layout" where
  "enum_construct st c = enum_params st (rc_params c) \<lparr>el_hasptr = False, el_size = HL_WSIZE + 4, el_offsets = []\<rparr>"

fun enum_mark_size :: "enum_layout list \<Rightarrow> int \<Rightarrow> int \<Rightarrow> int" where
  "enum_mark_size [] i mark_size = mark_size"
| "enum_mark_size (c # cs) i mark_size =
    (let max_pos = i * 4 + hl_mark_size (el_size c - HL_WSIZE * 2) in
     enum_mark_size cs (i + 1) (if el_hasptr c \<and> max_pos > mark_size then max_pos else mark_size))"

text \<open>\<open>mark[base + (pos >> 5)] |= 1 << (pos & 31)\<close>\<close>

definition mark_bit :: "int \<Rightarrow> int \<Rightarrow> u32 list \<Rightarrow> u32 list option" where
  "mark_bit base pos mark =
    (let k = base + drop_bit 5 pos in
     if 0 \<le> k \<and> k < int (length mark) then Some (mark[nat k := mark ! nat k OR push_bit (nat (pos AND 31)) 1]) else None)"

fun enum_mark_params :: "rt_store \<Rightarrow> int \<Rightarrow> addr list \<Rightarrow> int list \<Rightarrow> u32 list \<Rightarrow> u32 list option" where
  "enum_mark_params st i (t # ts) (off # os) mark = do {
     mark \<leftarrow> (if hl_is_ptr st t then mark_bit i (off div HL_WSIZE - 2) mark else Some mark);
     enum_mark_params st i ts os mark }"
| "enum_mark_params st i _ _ mark = Some mark"

fun enum_marks :: "rt_store \<Rightarrow> int \<Rightarrow> (rt_construct \<times> enum_layout) list \<Rightarrow> u32 list \<Rightarrow> u32 list option" where
  "enum_marks st i [] mark = Some mark"
| "enum_marks st i ((c, el) # cs) mark = do {
     mark \<leftarrow> (if el_hasptr el then enum_mark_params st i (rc_params c) (el_offsets el) mark else Some mark);
     enum_marks st (i + 1) cs mark }"

definition hl_init_enum :: "rt_store \<Rightarrow> addr \<Rightarrow> (enum_layout list \<times> u32 list) option" where
  "hl_init_enum st et = do {
     e \<leftarrow> enum_of (data_of st et);
     let cs = re_constructs (st_enum st e);
     let els = map (enum_construct st) cs;
     let mark_size = enum_mark_size els 0 0;
     mark \<leftarrow> enum_marks st 0 (zip cs els) (replicate (nat (mark_size div 4)) 0);
     Some (els, mark) }"

subsection \<open>Mark bits\<close>

text \<open>An array of mark words as a set of bit positions.\<close>

definition word_marked :: "u32 list \<Rightarrow> nat \<Rightarrow> bool" where
  "word_marked mark p \<longleftrightarrow> p div 32 < length mark \<and> bit (mark ! (p div 32)) (p mod 32)"

lemma word_marked_replicate [simp]: "\<not> word_marked (replicate n 0) p"
  by (auto simp: word_marked_def)

lemma mark_bit_Some:
  assumes "0 \<le> 32 * b + pos" "32 * b + pos < 32 * int (length mark)"
  shows "\<exists>m. mark_bit b pos mark = Some m \<and> length m = length mark \<and> (\<forall>p. word_marked m p \<longleftrightarrow> word_marked mark p \<or> p = nat (32 * b + pos))"
proof -
  define q where "q = nat (32 * b + pos)"
  have q: "int q = 32 * b + pos" "q < 32 * length mark" using assms by (auto simp: q_def)
  have k: "b + drop_bit 5 pos = int (q div 32)"
    using q(1) by (simp add: drop_bit_eq_div zdiv_int)
  have n: "nat (pos AND 31) = q mod 32"
  proof -
    have "pos AND 31 = pos mod 32" by (simp add: and_mask_mod)
    also have "\<dots> = int q mod 32" unfolding q(1) by simp
    also have "\<dots> = int (q mod 32)" by (simp add: zmod_int)
    finally show ?thesis by simp
  qed
  have l: "q div 32 < length mark" using q(2) by (simp add: less_mult_imp_div_less mult.commute)
  define m where "m = mark[q div 32 := mark ! (q div 32) OR push_bit (q mod 32) 1]"
  have "mark_bit b pos mark = Some m" using l by (simp add: mark_bit_def k n m_def)
  moreover have "word_marked m p \<longleftrightarrow> word_marked mark p \<or> p = q" for p
  proof (cases "p div 32 = q div 32")
    case True
    then have "p = q \<longleftrightarrow> p mod 32 = q mod 32" by (metis div_mult_mod_eq)
    then show ?thesis using True l
      by (auto simp: word_marked_def m_def bit_or_iff bit_exp_iff)
  next
    case False
    then show ?thesis using l by (auto simp: word_marked_def m_def)
  qed
  ultimately show ?thesis unfolding q_def m_def by auto
qed

subsection \<open>Layout of enum values\<close>

lemma enum_params_placed:
  "\<exists>os. el_offsets (enum_params st ts c) = el_offsets c @ os \<and>
     placed (hl_type_size st) (align_of st) (el_size c) ts os (el_size (enum_params st ts c)) \<and>
     (el_hasptr (enum_params st ts c) \<longleftrightarrow> el_hasptr c \<or> (\<exists>t\<in>set ts. hl_is_ptr st t))"
proof (induction ts arbitrary: c)
  case (Cons t ts)
  define off where "off = el_size c + hl_pad_struct st (el_size c) t"
  define c' where "c' = c\<lparr>el_hasptr := el_hasptr c \<or> hl_is_ptr st t, el_size := off + hl_type_size st t, el_offsets := el_offsets c @ [off]\<rparr>"
  have e: "enum_params st (t # ts) c = enum_params st ts c'" by (simp add: off_def c'_def Let_def)
  have off: "el_size c \<le> off" "off < el_size c + align_of st t" "align_of st t dvd off"
    using hl_pad_struct_bounds [of st "el_size c" t] hl_pad_struct_aligned [of st t "el_size c"] by (auto simp: off_def)
  obtain os where "el_offsets (enum_params st ts c') = el_offsets c' @ os"
    "placed (hl_type_size st) (align_of st) (el_size c') ts os (el_size (enum_params st ts c'))"
    "el_hasptr (enum_params st ts c') \<longleftrightarrow> el_hasptr c' \<or> (\<exists>t\<in>set ts. hl_is_ptr st t)"
    using Cons by blast
  with off show ?case unfolding e by (intro exI [of _ "off # os"]) (auto simp: c'_def)
qed auto

lemma enum_construct_placed:
  "placed (hl_type_size st) (align_of st) 12 (rc_params c) (el_offsets (enum_construct st c)) (el_size (enum_construct st c)) \<and>
   (el_hasptr (enum_construct st c) \<longleftrightarrow> (\<exists>t\<in>set (rc_params c). hl_is_ptr st t))"
  using enum_params_placed [of st "rc_params c" "\<lparr>el_hasptr = False, el_size = HL_WSIZE + 4, el_offsets = []\<rparr>"]
  by (auto simp: enum_construct_def HL_WSIZE_def)

text \<open>The word of a pointer parameter, counted behind the header of the value.\<close>

definition param_word :: "enum_layout \<Rightarrow> nat \<Rightarrow> int" where
  "param_word el j = el_offsets el ! j div HL_WSIZE - 2"

lemma enum_pointer_word:
  assumes "j < length (rc_params c)" "hl_is_ptr st (rc_params c ! j)" "kind_of st (rc_params c ! j) \<noteq> HPACKED"
  shows "0 \<le> param_word (enum_construct st c) j \<and> 8 * (param_word (enum_construct st c) j + 2) = el_offsets (enum_construct st c) ! j \<and>
    8 * (param_word (enum_construct st c) j + 3) \<le> el_size (enum_construct st c)"
proof -
  define x where "x = el_offsets (enum_construct st c) ! j"
  have "12 \<le> x" "8 dvd x" "x + 8 \<le> el_size (enum_construct st c)"
    using placed_nth [OF conjunct1 [OF enum_construct_placed [of st c]] hl_type_size_nonneg assms(1)] hl_is_ptr_size [OF assms(2,3)]
    by (auto simp: x_def)
  then show ?thesis unfolding param_word_def HL_WSIZE_def x_def [symmetric] by (elim dvdE) simp
qed

lemma hl_mark_size_words: "0 \<le> n \<Longrightarrow> hl_mark_size n = 4 * (((n + 7) div 8 + 31) div 32)"
  by (simp add: hl_mark_size_def HL_WSIZE_def drop_bit_eq_div)

lemma enum_mark_size_ge:
  "m \<le> enum_mark_size els i m \<and> (\<forall>k<length els. el_hasptr (els ! k) \<longrightarrow> (i + int k) * 4 + hl_mark_size (el_size (els ! k) - 16) \<le> enum_mark_size els i m)"
proof (induction els arbitrary: i m)
  case (Cons c cs)
  define m' where "m' = (if el_hasptr c \<and> i * 4 + hl_mark_size (el_size c - 16) > m then i * 4 + hl_mark_size (el_size c - 16) else m)"
  have e: "enum_mark_size (c # cs) i m = enum_mark_size cs (i + 1) m'" by (simp add: Let_def m'_def HL_WSIZE_def)
  have "m \<le> m'" "el_hasptr c \<Longrightarrow> i * 4 + hl_mark_size (el_size c - 16) \<le> m'" by (auto simp: m'_def)
  moreover have "(i + int k) * 4 = (i + 1 + int (k - 1)) * 4" if "0 < k" for k using that by simp
  ultimately show ?case unfolding e using Cons [of m' "i + 1"] by (force simp: less_Suc_eq_0_disj algebra_simps)
qed simp

lemma enum_mark_params_Some:
  assumes "length os = length ts"
    "\<And>j. j < length ts \<Longrightarrow> hl_is_ptr st (ts ! j) \<Longrightarrow> 0 \<le> 32 * i + (os ! j div 8 - 2) \<and> 32 * i + (os ! j div 8 - 2) < 32 * int (length mark)"
  shows "\<exists>m. enum_mark_params st i ts os mark = Some m \<and> length m = length mark \<and>
    (\<forall>p. word_marked m p \<longleftrightarrow> word_marked mark p \<or> (\<exists>j<length ts. hl_is_ptr st (ts ! j) \<and> p = nat (32 * i + (os ! j div 8 - 2))))"
  using assms
proof (induction ts os arbitrary: mark rule: list_induct2')
  case (4 t ts x os)
  obtain m1 where m1: "(if hl_is_ptr st t then mark_bit i (x div HL_WSIZE - 2) mark else Some mark) = Some m1" "length m1 = length mark"
    "\<forall>p. word_marked m1 p \<longleftrightarrow> word_marked mark p \<or> (hl_is_ptr st t \<and> p = nat (32 * i + (x div 8 - 2)))"
  proof (cases "hl_is_ptr st t")
    case True
    then show thesis using mark_bit_Some [of i "x div 8 - 2" mark] "4.prems"(2) [of 0] that by (auto simp: HL_WSIZE_def)
  qed (use that in auto)
  have "0 \<le> 32 * i + (os ! j div 8 - 2) \<and> 32 * i + (os ! j div 8 - 2) < 32 * int (length m1)" if "j < length ts" "hl_is_ptr st (ts ! j)" for j
    using "4.prems"(2) [of "Suc j"] that m1(2) by simp
  then obtain m where "enum_mark_params st i ts os m1 = Some m" "length m = length m1"
    "\<forall>p. word_marked m p \<longleftrightarrow> word_marked m1 p \<or> (\<exists>j<length ts. hl_is_ptr st (ts ! j) \<and> p = nat (32 * i + (os ! j div 8 - 2)))"
    using "4.IH" [of m1] "4.prems"(1) by auto
  with m1 show ?case by (intro exI [of _ m]) (auto simp: Ex_less_Suc2)
qed auto

text \<open>The pointer parameters of a constructor.\<close>

definition pointer_params :: "rt_store \<Rightarrow> rt_construct \<Rightarrow> nat set" where
  "pointer_params st c = {j. j < length (rc_params c) \<and> hl_is_ptr st (rc_params c ! j)}"

lemma enum_hasptr: "el_hasptr (enum_construct st c) \<longleftrightarrow> pointer_params st c \<noteq> {}"
  using enum_construct_placed [of st c] by (force simp: pointer_params_def in_set_conv_nth)

lemma enum_marks_Some:
  assumes "\<And>k j. k < length cs \<Longrightarrow> j \<in> pointer_params st (cs ! k) \<Longrightarrow>
      0 \<le> 32 * (i + int k) + param_word (enum_construct st (cs ! k)) j \<and>
      32 * (i + int k) + param_word (enum_construct st (cs ! k)) j < 32 * int (length mark)"
  shows "\<exists>m. enum_marks st i (zip cs (map (enum_construct st) cs)) mark = Some m \<and> length m = length mark \<and>
    (\<forall>p. word_marked m p \<longleftrightarrow> word_marked mark p \<or>
      (\<exists>k<length cs. \<exists>j\<in>pointer_params st (cs ! k). p = nat (32 * (i + int k) + param_word (enum_construct st (cs ! k)) j)))"
  using assms
proof (induction cs arbitrary: i mark)
  case (Cons c cs)
  let ?w = "\<lambda>c j. param_word (enum_construct st c) j"
  have lo: "length (el_offsets (enum_construct st c)) = length (rc_params c)"
    using placed_length [OF conjunct1 [OF enum_construct_placed [of st c]]] .
  have r0: "0 \<le> 32 * i + ?w c j \<and> 32 * i + ?w c j < 32 * int (length mark)" if "j \<in> pointer_params st c" for j
    using Cons.prems [of 0 j] that by simp
  obtain m1 where m1: "(if el_hasptr (enum_construct st c) then enum_mark_params st i (rc_params c) (el_offsets (enum_construct st c)) mark
      else Some mark) = Some m1" "length m1 = length mark"
    "\<forall>p. word_marked m1 p \<longleftrightarrow> word_marked mark p \<or> (\<exists>j\<in>pointer_params st c. p = nat (32 * i + ?w c j))"
  proof (cases "el_hasptr (enum_construct st c)")
    case True
    then show thesis
      using enum_mark_params_Some [OF lo, of st i mark] r0 that by (auto simp: pointer_params_def param_word_def HL_WSIZE_def)
  next
    case False
    then have "pointer_params st c = {}"
      using enum_construct_placed [of st c] by (auto simp: pointer_params_def)
    with False show thesis using that by simp
  qed
  have "0 \<le> 32 * (i + 1 + int k) + ?w (cs ! k) j \<and> 32 * (i + 1 + int k) + ?w (cs ! k) j < 32 * int (length m1)"
    if "k < length cs" "j \<in> pointer_params st (cs ! k)" for k j
    using Cons.prems [of "Suc k" j] that m1(2) by (simp add: algebra_simps)
  then obtain m where m: "enum_marks st (i + 1) (zip cs (map (enum_construct st) cs)) m1 = Some m" "length m = length m1"
    "\<forall>p. word_marked m p \<longleftrightarrow> word_marked m1 p \<or> (\<exists>k<length cs. \<exists>j\<in>pointer_params st (cs ! k). p = nat (32 * (i + 1 + int k) + ?w (cs ! k) j))"
    using Cons.IH [of "i + 1" m1] by blast
  have "(\<exists>k<length (c # cs). \<exists>j\<in>pointer_params st ((c # cs) ! k). p = nat (32 * (i + int k) + ?w ((c # cs) ! k) j)) \<longleftrightarrow>
      (\<exists>j\<in>pointer_params st c. p = nat (32 * i + ?w c j)) \<or>
      (\<exists>k<length cs. \<exists>j\<in>pointer_params st (cs ! k). p = nat (32 * (i + 1 + int k) + ?w (cs ! k) j))" for p
    by (simp add: Ex_less_Suc2 add.assoc)
  with m1 m show ?case by simp
qed simp

definition unpacked :: "rt_store \<Rightarrow> rt_construct \<Rightarrow> bool" where
  "unpacked st c \<longleftrightarrow> (\<forall>t\<in>set (rc_params c). kind_of st t \<noteq> HPACKED)"

lemma enum_word_in_marks:
  assumes "k < length cs" "j \<in> pointer_params st (cs ! k)" "unpacked st (cs ! k)"
  defines "n \<equiv> nat (enum_mark_size (map (enum_construct st) cs) 0 0 div 4)"
  shows "0 \<le> 32 * (0 + int k) + param_word (enum_construct st (cs ! k)) j \<and>
    32 * (0 + int k) + param_word (enum_construct st (cs ! k)) j < 32 * int n"
proof -
  define c where "c = cs ! k"
  define el where "el = enum_construct st c"
  define d where "d = el_size el - 16"
  define w where "w = param_word el j"
  have j: "j < length (rc_params c)" "hl_is_ptr st (rc_params c ! j)" "kind_of st (rc_params c ! j) \<noteq> HPACKED"
    using assms(2,3) by (auto simp: pointer_params_def unpacked_def c_def)
  then have w: "0 \<le> w" "8 * w + 8 \<le> d" using enum_pointer_word [OF j] by (auto simp: w_def d_def el_def)
  have "el_hasptr el" using enum_construct_placed [of st c] j nth_mem unfolding el_def by blast
  then have "int k * 4 + hl_mark_size d \<le> enum_mark_size (map (enum_construct st) cs) 0 0"
    using enum_mark_size_ge [of 0 "map (enum_construct st) cs" 0] assms(1) by (auto simp: el_def c_def d_def)
  moreover have "hl_mark_size d = 4 * (((d + 7) div 8 + 31) div 32)" using w by (intro hl_mark_size_words) simp
  moreover define x where "x = ((d + 7) div 8 + 31) div 32"
  moreover define y where "y = enum_mark_size (map (enum_construct st) cs) 0 0"
  ultimately have y: "4 * int k + 4 * x \<le> y" by simp
  have "w < (d + 7) div 8" using w by linarith
  also have "\<dots> \<le> 32 * x" unfolding x_def by linarith
  finally have x: "w < 32 * x" .
  have "int k + x \<le> y div 4" using y by linarith
  moreover have "0 \<le> int k + x" using w x by linarith
  ultimately have "int k + x \<le> int n" unfolding n_def y_def by simp
  then have "32 * int k + w < 32 * int n" using x by linarith
  then show ?thesis using w by (simp add: w_def el_def c_def)
qed

text \<open>
  C17: \<open>hl_init_enum\<close> lays out the values of every constructor correctly: each parameter is aligned for its type, the parameters and the
  header do not overlap and are inside of the size of the value, and the mark array, which is never left, has a bit exactly for the
  words of pointer parameters, the bits of constructor \<open>i\<close> starting at word \<open>i\<close> of the array.
\<close>

theorem init_enum_layout:
  assumes "data_of st et = REnum e" "cs = re_constructs (st_enum st e)" "\<forall>c\<in>set cs. unpacked st c"
  shows "\<exists>els mark. hl_init_enum st et = Some (els, mark) \<and> length els = length cs \<and>
    (\<forall>i<length cs. \<forall>j<length (rc_params (cs ! i)).
       align_of st (rc_params (cs ! i) ! j) dvd el_offsets (els ! i) ! j \<and> 12 \<le> el_offsets (els ! i) ! j \<and>
       el_offsets (els ! i) ! j + hl_type_size st (rc_params (cs ! i) ! j) \<le> el_size (els ! i) \<and>
       (\<forall>j'<j. el_offsets (els ! i) ! j' + hl_type_size st (rc_params (cs ! i) ! j') \<le> el_offsets (els ! i) ! j)) \<and>
    (\<forall>i<length cs. el_hasptr (els ! i) \<longleftrightarrow> pointer_params st (cs ! i) \<noteq> {}) \<and>
    (\<forall>p. word_marked mark p \<longleftrightarrow> (\<exists>i<length cs. \<exists>j\<in>pointer_params st (cs ! i). int p = 32 * int i + param_word (els ! i) j))"
proof -
  define els where "els = map (enum_construct st) cs"
  define n where "n = nat (enum_mark_size els 0 0 div 4)"
  have range: "0 \<le> 32 * (0 + int k) + param_word (enum_construct st (cs ! k)) j \<and>
    32 * (0 + int k) + param_word (enum_construct st (cs ! k)) j < 32 * int (length (replicate n (0 :: u32)))"
    if "k < length cs" "j \<in> pointer_params st (cs ! k)" for k j
    using enum_word_in_marks [OF that] that(1) assms(3) by (simp add: n_def els_def)
  obtain mark where mark: "enum_marks st 0 (zip cs els) (replicate n 0) = Some mark"
    "\<forall>p. word_marked mark p \<longleftrightarrow> (\<exists>k<length cs. \<exists>j\<in>pointer_params st (cs ! k). p = nat (32 * (0 + int k) + param_word (enum_construct st (cs ! k)) j))"
    using enum_marks_Some [of cs st 0 "replicate n 0", OF range] unfolding els_def by auto
  have "hl_init_enum st et = Some (els, mark)"
    using mark(1) by (simp add: hl_init_enum_def assms(1) flip: assms(2) n_def els_def)
  moreover have "word_marked mark p \<longleftrightarrow> (\<exists>i<length cs. \<exists>j\<in>pointer_params st (cs ! i). int p = 32 * int i + param_word (els ! i) j)" for p
  proof -
    have "p = nat (32 * (0 + int k) + param_word (enum_construct st (cs ! k)) j) \<longleftrightarrow> int p = 32 * int k + param_word (els ! k) j"
      if "k < length cs" "j \<in> pointer_params st (cs ! k)" for k j
      using range [OF that] that(1) by (auto simp: els_def)
    then show ?thesis unfolding mark(2) [rule_format] by blast
  qed
  ultimately show ?thesis
    using placed_nth [OF conjunct1 [OF enum_construct_placed] hl_type_size_nonneg]
    by (intro exI [of _ els] exI [of _ mark]) (simp add: els_def enum_hasptr)
qed

theorem init_enum_layout_witness:
  "\<exists>els mark. hl_init_enum sample_store 11 = Some (els, mark) \<and> length els = 2 \<and>
    (\<forall>p. word_marked mark p \<longleftrightarrow> (\<exists>i<2. \<exists>j\<in>pointer_params sample_store ([\<lparr>rc_name = 2, rc_params = [1, 9]\<rparr>, \<lparr>rc_name = 3, rc_params = []\<rparr>] ! i).
       int p = 32 * int i + param_word (els ! i) j))"
proof -
  let ?cs = "[\<lparr>rc_name = 2, rc_params = [1, 9]\<rparr>, \<lparr>rc_name = 3, rc_params = []\<rparr>] :: rt_construct list"
  have "data_of sample_store 11 = REnum 0" by (simp add: sample_types_def)
  moreover have "?cs = re_constructs (st_enum sample_store 0)" by (simp add: sample_store_def)
  moreover have "\<forall>c\<in>set ?cs. unpacked sample_store c" by (simp add: unpacked_def sample_types_def)
  ultimately obtain els mark where "hl_init_enum sample_store 11 = Some (els, mark)" "length els = length ?cs"
    "\<forall>p. word_marked mark p \<longleftrightarrow> (\<exists>i<length ?cs. \<exists>j\<in>pointer_params sample_store (?cs ! i). int p = 32 * int i + param_word (els ! i) j)"
    using init_enum_layout [of sample_store 11 0 ?cs] by blast
  then show ?thesis by (intro exI [of _ els] exI [of _ mark]) (simp add: numeral_2_eq_2)
qed

end
