(* ===== verification/ObjLayout.thy ===== *)
theory ObjLayout
  imports DataLayout
begin

unbundle bit_operations_syntax

text \<open>
  The runtime data of a class in \<^verbatim>\<open>std/obj.c\<close>: \<open>hl_get_obj_rt\<close>, which computes the offsets of the fields, the size of an object, its lookup
  table and its mark bits, and \<open>hl_obj_field_fetch\<close>. The global lock is not modelled: a call is one step.

  The lemmas follow one call: the placing of the fields, one after the other, keeps \<open>layout_part\<close>; the mark bits are then the words of
  pointers (\<open>class_marks_ok\<close>).
\<close>

subsection \<open>obj.c: the runtime data of a class\<close>

record rt_runtime =
  rto_t :: addr
  rto_nfields :: nat
  rto_nproto :: int
  rto_nlookup :: nat
  rto_nbindings :: nat
  rto_hasPtr :: bool
  rto_parent :: "addr option"
  rto_lookup :: "addr hl_field_lookup list"
  rto_indexes :: "int list"
  rto_size :: int
  rto_pad_size :: int
  rto_largest_field :: int
  rto_nmethods :: nat
  rto_compareFun :: "nat option"
  rto_mark_bits :: "u32 list option"

text \<open>The field \<open>rt\<close> of the classes. The mark bits of a class are those of the type that its runtime data belongs to.\<close>

type_synonym rt_state = "addr \<Rightarrow> rt_runtime option"

definition HL_PROTO_TYPED_ENTRY :: int where
  "HL_PROTO_TYPED_ENTRY = - 2"

definition own_method :: "rt_runtime option \<Rightarrow> rt_proto \<Rightarrow> bool" where
  "own_method p pr \<longleftrightarrow> rp_pindex pr \<noteq> HL_PROTO_TYPED_ENTRY \<and>
     (case p of None \<Rightarrow> True | Some prt \<Rightarrow> \<not> (0 \<le> rp_pindex pr \<and> rp_pindex pr < rto_nproto prt))"

partial_function (option) binding_found :: "rt_store \<Rightarrow> int \<Rightarrow> addr \<Rightarrow> bool option" where
  "binding_found st fid pp =
    (if fid \<in> fst ` set (ro_bindings (st_obj st pp)) then Some True
     else case ro_super (st_obj st pp) of None \<Rightarrow> Some False
       | Some s \<Rightarrow> do { pp' \<leftarrow> obj_of (data_of st s); binding_found st fid pp' })"

fun new_bindings :: "rt_store \<Rightarrow> addr \<Rightarrow> (int \<times> nat) list \<Rightarrow> nat option" where
  "new_bindings st pp [] = Some 0"
| "new_bindings st pp (b # bs) = do {
     found \<leftarrow> binding_found st (fst b) pp;
     n \<leftarrow> new_bindings st pp bs;
     Some (if found then n else n + 1) }"

definition rt_start :: "rt_store \<Rightarrow> addr \<Rightarrow> addr \<Rightarrow> (addr \<times> rt_runtime) option \<Rightarrow> rt_runtime option" where
  "rt_start st ot x po = do {
     let ob = st_obj st x;
     let p = map_option snd po;
     nb \<leftarrow> (case po of None \<Rightarrow> Some (length (ro_bindings ob)) | Some (pp, prt) \<Rightarrow> map_option ((+) (rto_nbindings prt)) (new_bindings st pp (ro_bindings ob)));
     let size = (case p of Some prt \<Rightarrow> rto_size prt - rto_pad_size prt | None \<Rightarrow> if kind_of st ot = HSTRUCT then 0 else HL_WSIZE);
     Some \<lparr>rto_t = ot,
       rto_nfields = length (ro_fields ob) + (case p of Some prt \<Rightarrow> rto_nfields prt | None \<Rightarrow> 0),
       rto_nproto = (case p of Some prt \<Rightarrow> rto_nproto prt | None \<Rightarrow> 0),
       rto_nlookup = length (ro_fields ob) + length (filter (own_method p) (ro_proto ob)),
       rto_nbindings = nb,
       rto_hasPtr = (case p of Some prt \<Rightarrow> rto_hasPtr prt | None \<Rightarrow> False),
       rto_parent = map_option fst po,
       rto_lookup = [],
       rto_indexes = (case p of Some prt \<Rightarrow> rto_indexes prt | None \<Rightarrow> []),
       rto_size = size, rto_pad_size = 0,
       rto_largest_field = (case p of Some prt \<Rightarrow> rto_largest_field prt | None \<Rightarrow> size),
       rto_nmethods = (case p of Some prt \<Rightarrow> rto_nmethods prt | None \<Rightarrow> 0),
       rto_compareFun = None, rto_mark_bits = None\<rparr> }"

definition packed_rt :: "rt_store \<Rightarrow> rt_state \<Rightarrow> addr \<Rightarrow> rt_runtime option" where
  "packed_rt st rts ft = do { q \<leftarrow> param_of (data_of st ft); y \<leftarrow> obj_of (data_of st q); rts y }"

text \<open>The entry of a field in the lookup table; a field without a name has none.\<close>

definition rt_lookup_field :: "rt_store \<Rightarrow> rt_field \<Rightarrow> int \<Rightarrow> rt_runtime \<Rightarrow> rt_runtime option" where
  "rt_lookup_field st f off t = (case st_str st (rf_name f) of [] \<Rightarrow> None | c # _ \<Rightarrow>
     Some (if c \<noteq> 0
       then t\<lparr>rto_lookup := fst (hl_lookup_insert (rto_lookup t) (length (rto_lookup t)) (rf_hashed_name f) (rf_t f) off)\<rparr>
       else t\<lparr>rto_nlookup := rto_nlookup t - 1\<rparr>))"

definition rt_field_step :: "rt_store \<Rightarrow> rt_state \<Rightarrow> rt_field \<Rightarrow> rt_runtime \<Rightarrow> rt_runtime option" where
  "rt_field_step st rts f t =
    (let ft = rf_t f in
     if kind_of st ft = HPACKED then do {
       prt \<leftarrow> packed_rt st rts ft;
       let large = rto_largest_field prt;
       if large = 0 then None else do {
         let pad = rto_size t mod large;
         let off = (if pad \<noteq> 0 then rto_size t + (large - pad) else rto_size t);
         t \<leftarrow> rt_lookup_field st f off t;
         Some (t\<lparr>rto_indexes := rto_indexes t @ [off], rto_size := off + rto_size prt,
           rto_largest_field := max (rto_largest_field t) large, rto_hasPtr := rto_hasPtr t \<or> rto_hasPtr prt\<rparr>) } }
     else do {
       let off = rto_size t + hl_pad_struct st (rto_size t) ft;
       t \<leftarrow> rt_lookup_field st f off t;
       let sz = hl_type_size st ft;
       Some (t\<lparr>rto_indexes := rto_indexes t @ [off], rto_size := off + sz,
         rto_largest_field := max (rto_largest_field t) sz, rto_hasPtr := rto_hasPtr t \<or> hl_is_ptr st ft\<rparr>) })"

definition rt_align_size :: "rt_runtime \<Rightarrow> rt_runtime" where
  "rt_align_size t =
    (if rto_largest_field t > 0 \<and> rto_size t mod rto_largest_field t \<noteq> 0
     then let pad = rto_largest_field t - rto_size t mod rto_largest_field t in t\<lparr>rto_pad_size := pad, rto_size := rto_size t + pad\<rparr>
     else t)"

fun rt_methods :: "rt_store \<Rightarrow> addr list \<Rightarrow> int \<Rightarrow> rt_runtime option \<Rightarrow> rt_proto list \<Rightarrow> rt_runtime \<Rightarrow> rt_runtime option" where
  "rt_methods st fts compareHash p [] t = Some t"
| "rt_methods st fts compareHash p (pr # prs) t =
    (if \<not> own_method p pr then rt_methods st fts compareHash p prs t
     else if rp_findex pr \<ge> length fts then None
     else do {
       let method_index = rto_nmethods t;
       let mt = fts ! rp_findex pr;
       let t = t\<lparr>rto_nmethods := method_index + 1,
         rto_nproto := (if rp_pindex pr \<ge> rto_nproto t then rp_pindex pr + 1 else rto_nproto t),
         rto_lookup := fst (hl_lookup_insert (rto_lookup t) (length (rto_lookup t)) (rp_hashed_name pr) mt (- (int method_index + 1)))\<rparr>;
       cmp \<leftarrow> (if rp_hashed_name pr = compareHash then do {
           f \<leftarrow> fun_of (data_of st mt);
           Some (length (fst f) = 2 \<and> kind_of st (fst f ! 1) = HDYN \<and> kind_of st (snd f) = HI32) }
         else Some False);
       rt_methods st fts compareHash p prs (if cmp then t\<lparr>rto_compareFun := Some (rp_findex pr)\<rparr> else t) })"

fun mark_nested :: "u32 list \<Rightarrow> int \<Rightarrow> nat \<Rightarrow> nat \<Rightarrow> u32 list \<Rightarrow> u32 list option" where
  "mark_nested bits pos k 0 mark = Some mark"
| "mark_nested bits pos k (Suc n) mark =
    (if k div 32 \<ge> length bits then None
     else do {
       mark \<leftarrow> (if bit (bits ! (k div 32)) (k mod 32) then mark_bit 0 (pos + int k) mark else Some mark);
       mark_nested bits pos (k + 1) n mark })"

definition mark_field :: "rt_store \<Rightarrow> rt_state \<Rightarrow> addr \<Rightarrow> int \<Rightarrow> u32 list \<Rightarrow> u32 list option" where
  "mark_field st rts ft off mark =
    (if \<not> hl_is_ptr st ft then Some mark
     else if kind_of st ft = HPACKED then do {
       prt \<leftarrow> packed_rt st rts ft;
       case rto_mark_bits prt of None \<Rightarrow> Some mark
         | Some bits \<Rightarrow> mark_nested bits (off div HL_WSIZE) 0 (nat (rto_size prt div HL_WSIZE)) mark }
     else mark_bit 0 (off div HL_WSIZE) mark)"

fun mark_fields :: "rt_store \<Rightarrow> rt_state \<Rightarrow> addr list \<Rightarrow> int list \<Rightarrow> u32 list \<Rightarrow> u32 list option" where
  "mark_fields st rts (t # ts) (off # os) mark = do { mark \<leftarrow> mark_field st rts t off mark; mark_fields st rts ts os mark }"
| "mark_fields st rts _ _ mark = Some mark"

definition rt_mark :: "rt_store \<Rightarrow> rt_state \<Rightarrow> rt_field list \<Rightarrow> rt_runtime option \<Rightarrow> rt_runtime \<Rightarrow> rt_runtime option" where
  "rt_mark st rts fs p t =
    (if \<not> rto_hasPtr t then Some t
     else do {
       let mark = replicate (nat (hl_mark_size (rto_size t) div 4)) 0;
       mark \<leftarrow> (case p of None \<Rightarrow> Some mark | Some prt \<Rightarrow> (case rto_mark_bits prt of None \<Rightarrow> Some mark
         | Some bits \<Rightarrow> memcpy mark 0 bits (hl_mark_size (rto_size prt) div 4)));
       let start = (case p of None \<Rightarrow> 0 | Some prt \<Rightarrow> rto_nfields prt);
       mark \<leftarrow> mark_fields st rts (map rf_t fs) (drop start (rto_indexes t)) mark;
       Some (t\<lparr>rto_mark_bits := Some mark\<rparr>) })"

fun foldM :: "('a \<Rightarrow> 's \<Rightarrow> 's option) \<Rightarrow> 'a list \<Rightarrow> 's \<Rightarrow> 's option" where
  "foldM f [] s = Some s"
| "foldM f (x # xs) s = do { s \<leftarrow> f x s; foldM f xs s }"

lemma foldM_mono [partial_function_mono]:
  assumes "\<And>x s. mono_option (\<lambda>g. B g x s)"
  shows "mono_option (\<lambda>g. foldM (\<lambda>x s. B g x s) xs s)"
  by (induction xs arbitrary: s) (auto intro!: bind_mono option.const_mono assms)

definition parent_rt :: "rt_store \<Rightarrow> addr \<Rightarrow> rt_state \<Rightarrow> (addr \<times> rt_runtime) option option" where
  "parent_rt st x rts = (case ro_super (st_obj st x) of None \<Rightarrow> Some None
     | Some s \<Rightarrow> do { y \<leftarrow> obj_of (data_of st s); prt \<leftarrow> rts y; Some (Some (y, prt)) })"

definition rt_finish :: "rt_store \<Rightarrow> addr list \<Rightarrow> addr \<Rightarrow> rt_state \<Rightarrow> rt_runtime option \<Rightarrow> rt_runtime \<Rightarrow> rt_state option" where
  "rt_finish st fts x rts p t = do {
     compareHash \<leftarrow> hash_name (USTR ''__compare'');
     t \<leftarrow> rt_methods st fts compareHash p (ro_proto (st_obj st x)) (rt_align_size t);
     t \<leftarrow> rt_mark st rts (ro_fields (st_obj st x)) p t;
     Some (rts(x \<mapsto> t)) }"

partial_function (option) hl_get_obj_rt :: "rt_store \<Rightarrow> addr list \<Rightarrow> addr \<Rightarrow> rt_state \<Rightarrow> rt_state option" where
  "hl_get_obj_rt st fts ot rts = do {
     x \<leftarrow> obj_of (data_of st ot);
     if rts x \<noteq> None then Some rts
     else do {
       rts \<leftarrow> (case ro_super (st_obj st x) of None \<Rightarrow> Some rts | Some s \<Rightarrow> hl_get_obj_rt st fts s rts);
       po \<leftarrow> parent_rt st x rts;
       t \<leftarrow> rt_start st ot x po;
       rt \<leftarrow> foldM (\<lambda>f s. do {
           rts \<leftarrow> (if kind_of st (rf_t f) = HPACKED then param_of (data_of st (rf_t f)) \<bind> (\<lambda>q. hl_get_obj_rt st fts q (fst s)) else Some (fst s));
           t \<leftarrow> rt_field_step st rts f (snd s);
           Some (rts, t) }) (ro_fields (st_obj st x)) (rts, t);
       rt_finish st fts x (fst rt) (map_option snd po) (snd rt) } }"

definition obj_rt :: "rt_store \<Rightarrow> addr \<Rightarrow> rt_state \<Rightarrow> rt_runtime option" where
  "obj_rt st ot rts = obj_of (data_of st ot) \<bind> rts"

text \<open>\<open>hl_obj_field_fetch\<close> up to the parent that declares the field: the class and the position in its own fields.\<close>

partial_function (option) fetch_loop :: "rt_state \<Rightarrow> addr \<Rightarrow> nat \<Rightarrow> (addr \<times> nat) option" where
  "fetch_loop rts x fid = do {
     rt \<leftarrow> rts x;
     case rto_parent rt of None \<Rightarrow> Some (x, fid)
       | Some y \<Rightarrow> do { prt \<leftarrow> rts y; if fid < rto_nfields prt then fetch_loop rts y fid else Some (x, fid - rto_nfields prt) } }"

definition hl_obj_field_fetch :: "rt_store \<Rightarrow> addr list \<Rightarrow> addr \<Rightarrow> int \<Rightarrow> rt_state \<Rightarrow> (rt_field option \<times> rt_state) option" where
  "hl_obj_field_fetch st fts t fid rts =
    (if kind_of st t \<notin> {HOBJ, HSTRUCT} then Some (None, rts)
     else do {
       x \<leftarrow> obj_of (data_of st t);
       rts \<leftarrow> hl_get_obj_rt st fts t rts;
       rt \<leftarrow> rts x;
       if fid < 0 \<or> fid \<ge> int (rto_nfields rt) then Some (None, rts)
       else do {
         (y, k) \<leftarrow> fetch_loop rts x (nat fid);
         if k < length (ro_fields (st_obj st y)) then Some (Some (ro_fields (st_obj st y) ! k), rts) else None } })"

subsection \<open>The layout of a class\<close>

text \<open>All fields of a class, inherited ones first.\<close>

inductive class_fields :: "rt_store \<Rightarrow> addr \<Rightarrow> rt_field list \<Rightarrow> bool" for st where
  class_root: "ro_super (st_obj st x) = None \<Longrightarrow> class_fields st x (ro_fields (st_obj st x))"
| class_sub: "super_of st x = Some y \<Longrightarrow> class_fields st y fs \<Longrightarrow> class_fields st x (fs @ ro_fields (st_obj st x))"

inductive_cases class_fieldsE: "class_fields st x fs"

lemma class_fields_unique: "class_fields st x fs \<Longrightarrow> class_fields st x gs \<Longrightarrow> fs = gs"
proof (induction arbitrary: gs rule: class_fields.induct)
  case (class_root x)
  from class_root(2,1) show ?case by (cases rule: class_fields.cases) (auto simp: super_of_def)
next
  case (class_sub x y fs)
  from class_sub.prems class_sub.hyps(1) class_sub.IH show ?case by (cases rule: class_fields.cases) (auto simp: super_of_def)
qed

text \<open>Size, alignment and pointer words of a field, which for a packed field are those of the packed structure.\<close>

definition fsize :: "rt_store \<Rightarrow> rt_state \<Rightarrow> addr \<Rightarrow> int" where
  "fsize st rts t = (if kind_of st t = HPACKED then (case packed_rt st rts t of None \<Rightarrow> 0 | Some prt \<Rightarrow> rto_size prt) else hl_type_size st t)"

definition falign :: "rt_store \<Rightarrow> rt_state \<Rightarrow> addr \<Rightarrow> int" where
  "falign st rts t = (if kind_of st t = HPACKED then (case packed_rt st rts t of None \<Rightarrow> 1 | Some prt \<Rightarrow> rto_largest_field prt) else align_of st t)"

definition fpointer :: "rt_store \<Rightarrow> rt_state \<Rightarrow> addr \<Rightarrow> bool" where
  "fpointer st rts t \<longleftrightarrow> (if kind_of st t = HPACKED then (case packed_rt st rts t of None \<Rightarrow> False | Some prt \<Rightarrow> rto_hasPtr prt) else hl_is_ptr st t)"

definition fwords :: "rt_store \<Rightarrow> rt_state \<Rightarrow> addr \<Rightarrow> int \<Rightarrow> int set" where
  "fwords st rts t off =
    (if kind_of st t = HPACKED then (case packed_rt st rts t of None \<Rightarrow> {} | Some prt \<Rightarrow> (case rto_mark_bits prt of None \<Rightarrow> {}
       | Some bits \<Rightarrow> {off div 8 + int k | k. int k < rto_size prt div 8 \<and> word_marked bits k}))
     else if hl_is_ptr st t then {off div 8} else {})"

definition ready :: "rt_store \<Rightarrow> rt_state \<Rightarrow> addr \<Rightarrow> bool" where
  "ready st rts t \<longleftrightarrow> kind_of st t = HPACKED \<longrightarrow> packed_rt st rts t \<noteq> None"

lemma packed_rt_mono: "packed_rt st rts t = Some prt \<Longrightarrow> rts \<subseteq>\<^sub>m rts' \<Longrightarrow> packed_rt st rts' t = Some prt"
  by (auto simp: packed_rt_def map_le_def dom_def split: bind_splits)

lemma ready_mono:
  assumes "ready st rts t" "rts \<subseteq>\<^sub>m rts'"
  shows "ready st rts' t" "fsize st rts' t = fsize st rts t" "falign st rts' t = falign st rts t"
    "fpointer st rts' t = fpointer st rts t" "fwords st rts' t = fwords st rts t"
  using assms packed_rt_mono [OF _ assms(2), of st t]
  by (auto simp: ready_def fsize_def falign_def fpointer_def fwords_def fun_eq_iff)

lemma placed_cong:
  "(\<And>t. t \<in> set ts \<Longrightarrow> szf t = szf' t \<and> al t = al' t) \<Longrightarrow> placed szf al lo ts os hi \<longleftrightarrow> placed szf' al' lo ts os hi"
  by (induction szf al lo ts os hi rule: placed.induct) auto

lemma placed_on:
  assumes "placed szf al lo ts os hi" "\<forall>t\<in>set ts. 0 \<le> szf t"
  shows "lo \<le> hi" "j < length ts \<Longrightarrow> lo \<le> os ! j \<and> al (ts ! j) dvd os ! j \<and> os ! j + szf (ts ! j) \<le> hi \<and> (\<forall>i<j. os ! i + szf (ts ! i) \<le> os ! j)"
proof -
  define szf' where "szf' t = (if t \<in> set ts then szf t else 0)" for t
  have nn: "0 \<le> szf' t" for t using assms(2) by (simp add: szf'_def)
  have p: "placed szf' al lo ts os hi" using assms(1) by (subst placed_cong [where szf' = szf and al' = al]) (auto simp: szf'_def)
  show "lo \<le> hi" by (rule placed_le [OF p nn])
  show "lo \<le> os ! j \<and> al (ts ! j) dvd os ! j \<and> os ! j + szf (ts ! j) \<le> hi \<and> (\<forall>i<j. os ! i + szf (ts ! i) \<le> os ! j)" if "j < length ts"
    using placed_nth [OF p nn that] that by (simp add: szf'_def)
qed

lemma placed_snoc:
  assumes "placed szf al lo ts os hi" "hi \<le> x" "x < hi + al t" "al t dvd x"
  shows "placed szf al lo (ts @ [t]) (os @ [x]) (x + szf t)"
  using assms by (intro placed_append [OF assms(1)]) auto

definition field_words :: "rt_store \<Rightarrow> rt_state \<Rightarrow> addr list \<Rightarrow> int list \<Rightarrow> int set" where
  "field_words st rts ts os = (\<Union>i<length ts. fwords st rts (ts ! i) (os ! i))"

lemma field_words_append:
  assumes "length os = length ts"
  shows "field_words st rts (ts @ us) (os @ ps) = field_words st rts ts os \<union> field_words st rts us ps"
proof -
  have "(\<Union>i<length (ts @ us). fwords st rts ((ts @ us) ! i) ((os @ ps) ! i)) =
      (\<Union>i<length ts. fwords st rts (ts ! i) (os ! i)) \<union> (\<Union>i<length us. fwords st rts (us ! i) (ps ! i))"
    (is "?l = ?a \<union> ?b")
  proof
    show "?l \<subseteq> ?a \<union> ?b"
    proof
      fix w assume "w \<in> ?l"
      then obtain i where i: "i < length ts + length us" "w \<in> fwords st rts ((ts @ us) ! i) ((os @ ps) ! i)" by auto
      then show "w \<in> ?a \<union> ?b"
      proof (cases "i < length ts")
        case False
        with i show ?thesis using assms by (auto simp: nth_append intro!: bexI [of _ "i - length ts"])
      qed (use i assms in \<open>auto simp: nth_append\<close>)
    qed
    show "?a \<union> ?b \<subseteq> ?l"
    proof
      fix w assume "w \<in> ?a \<union> ?b"
      then show "w \<in> ?l"
      proof
        assume "w \<in> ?a"
        then show ?thesis using assms by (fastforce simp: nth_append)
      next
        assume "w \<in> ?b"
        then obtain i where "i < length us" "w \<in> fwords st rts (us ! i) (ps ! i)" by auto
        then show ?thesis using assms by (auto simp: nth_append intro!: bexI [of _ "length ts + i"])
      qed
    qed
  qed
  then show ?thesis by (simp add: field_words_def)
qed

text \<open>
  The layout of an object while its fields are placed: \<open>fs\<close> are the fields so far, \<open>lo\<close> is the size of the header. Alignments are powers of
  two, and the largest field is at least as aligned as every other.
\<close>

definition layout_part :: "rt_store \<Rightarrow> rt_state \<Rightarrow> int \<Rightarrow> rt_field list \<Rightarrow> int \<Rightarrow> rt_runtime \<Rightarrow> bool" where
  "layout_part st rts lo fs hi t \<longleftrightarrow>
     placed (fsize st rts) (falign st rts) lo (map rf_t fs) (rto_indexes t) hi \<and> 0 \<le> lo \<and>
     rto_largest_field t \<in> {0, 1, 2, 4, 8} \<and>
     (\<forall>f\<in>set fs. ready st rts (rf_t f) \<and> falign st rts (rf_t f) \<in> {1, 2, 4, 8} \<and> 0 \<le> fsize st rts (rf_t f) \<and>
        (falign st rts (rf_t f) \<le> rto_largest_field t \<or> falign st rts (rf_t f) = 1) \<and>
        (kind_of st (rf_t f) \<noteq> HVOID \<longrightarrow> 0 < rto_largest_field t)) \<and>
     (rto_hasPtr t \<longleftrightarrow> (\<exists>f\<in>set fs. fpointer st rts (rf_t f))) \<and> (rto_hasPtr t \<longrightarrow> rto_largest_field t = 8)"

lemma layout_part_placed:
  "layout_part st rts lo fs hi t \<Longrightarrow> placed (fsize st rts) (falign st rts) lo (map rf_t fs) (rto_indexes t) hi"
  by (simp add: layout_part_def)

lemma layout_part_field: "layout_part st rts lo fs hi t \<Longrightarrow> f \<in> set fs \<Longrightarrow> ready st rts (rf_t f) \<and> 0 \<le> fsize st rts (rf_t f)"
  by (simp add: layout_part_def)

lemma layout_part_sizes: "layout_part st rts lo fs hi t \<Longrightarrow> \<forall>t\<in>set (map rf_t fs). 0 \<le> fsize st rts t"
  using layout_part_field by auto

lemma layout_part_le:
  assumes "layout_part st rts lo fs hi t"
  shows "0 \<le> lo \<and> lo \<le> hi"
  using placed_on(1) [OF layout_part_placed [OF assms] layout_part_sizes [OF assms]] assms by (simp add: layout_part_def)

lemma layout_part_mono:
  assumes "layout_part st rts lo fs hi t" "rts \<subseteq>\<^sub>m rts'"
  shows "layout_part st rts' lo fs hi t"
proof -
  have r: "\<forall>f\<in>set fs. ready st rts (rf_t f)" using assms(1) by (simp add: layout_part_def)
  then have "placed (fsize st rts') (falign st rts') lo (map rf_t fs) (rto_indexes t) hi"
    using assms ready_mono [OF _ assms(2), of st]
    by (subst placed_cong [where szf' = "fsize st rts" and al' = "falign st rts"]) (auto simp: layout_part_def)
  then show ?thesis using assms(1) r ready_mono [OF _ assms(2), of st] unfolding layout_part_def by auto
qed

lemma layout_part_cong:
  "layout_part st rts lo fs hi t \<Longrightarrow> rto_indexes t' = rto_indexes t \<Longrightarrow> rto_largest_field t' = rto_largest_field t \<Longrightarrow>
   rto_hasPtr t' = rto_hasPtr t \<Longrightarrow> layout_part st rts lo fs hi t'"
  by (simp add: layout_part_def)

text \<open>What the placing of fields keeps, and what it lets grow.\<close>

definition grows :: "rt_runtime \<Rightarrow> rt_runtime \<Rightarrow> bool" where
  "grows t t' \<longleftrightarrow> rto_t t' = rto_t t \<and> rto_nfields t' = rto_nfields t \<and> rto_parent t' = rto_parent t \<and> rto_pad_size t' = rto_pad_size t \<and>
     rto_mark_bits t' = rto_mark_bits t \<and> rto_largest_field t \<le> rto_largest_field t' \<and> rto_size t \<le> rto_size t' \<and>
     (\<exists>os. rto_indexes t' = rto_indexes t @ os)"

lemma grows_refl [simp]: "grows t t"
  by (simp add: grows_def)

lemma grows_trans: "grows t u \<Longrightarrow> grows u v \<Longrightarrow> grows t v"
  by (auto simp: grows_def)

lemma rt_lookup_field_Some:
  assumes "st_str st (rf_name f) \<noteq> []"
  obtains l n where "rt_lookup_field st f off t = Some (t\<lparr>rto_lookup := l, rto_nlookup := n\<rparr>)"
proof (cases "st_str st (rf_name f)")
  case (Cons c s)
  show thesis
  proof (cases "c = 0")
    case True
    with Cons have "rt_lookup_field st f off t = Some (t\<lparr>rto_lookup := rto_lookup t, rto_nlookup := rto_nlookup t - 1\<rparr>)"
      by (simp add: rt_lookup_field_def)
    then show thesis by (rule that)
  next
    case False
    with Cons have "rt_lookup_field st f off t = Some (t\<lparr>rto_lookup := fst (hl_lookup_insert (rto_lookup t) (length (rto_lookup t))
        (rf_hashed_name f) (rf_t f) off), rto_nlookup := rto_nlookup t\<rparr>)"
      by (simp add: rt_lookup_field_def)
    then show thesis by (rule that)
  qed
qed (use assms in simp)

lemma layout_part_snoc:
  assumes l: "layout_part st rts lo fs hi t" and off: "hi \<le> off" "off < hi + falign st rts (rf_t f)" "falign st rts (rf_t f) dvd off"
    and f: "ready st rts (rf_t f)" "falign st rts (rf_t f) \<in> {1, 2, 4, 8}" "0 \<le> fsize st rts (rf_t f)"
    and L: "L \<in> {0, 1, 2, 4, 8}" "falign st rts (rf_t f) \<le> L \<or> falign st rts (rf_t f) = 1" "kind_of st (rf_t f) \<noteq> HVOID \<Longrightarrow> 0 < L"
    and p: "fpointer st rts (rf_t f) \<Longrightarrow> L = 8"
    and t': "rto_indexes t' = rto_indexes t @ [off]" "rto_largest_field t' = max (rto_largest_field t) L"
      "rto_hasPtr t' \<longleftrightarrow> rto_hasPtr t \<or> fpointer st rts (rf_t f)"
  shows "layout_part st rts lo (fs @ [f]) (off + fsize st rts (rf_t f)) t'"
proof -
  have t: "rto_largest_field t \<in> {0, 1, 2, 4, 8}" using l by (simp add: layout_part_def)
  have "placed (fsize st rts) (falign st rts) lo (map rf_t fs @ [rf_t f]) (rto_indexes t @ [off]) (off + fsize st rts (rf_t f))"
    using l off by (intro placed_snoc [where hi = hi]) (auto simp: layout_part_def)
  moreover have "max (rto_largest_field t) L \<in> {0, 1, 2, 4, 8}" using t L(1) by (simp add: max_def)
  moreover have "rto_hasPtr t' \<Longrightarrow> max (rto_largest_field t) L = 8" using l p t L(1) t'(3) by (auto simp: layout_part_def)
  moreover have "\<forall>g\<in>set (fs @ [f]). ready st rts (rf_t g) \<and> falign st rts (rf_t g) \<in> {1, 2, 4, 8} \<and> 0 \<le> fsize st rts (rf_t g) \<and>
      (falign st rts (rf_t g) \<le> max (rto_largest_field t) L \<or> falign st rts (rf_t g) = 1) \<and>
      (kind_of st (rf_t g) \<noteq> HVOID \<longrightarrow> 0 < max (rto_largest_field t) L)"
  proof
    fix g assume "g \<in> set (fs @ [f])"
    then show "ready st rts (rf_t g) \<and> falign st rts (rf_t g) \<in> {1, 2, 4, 8} \<and> 0 \<le> fsize st rts (rf_t g) \<and>
      (falign st rts (rf_t g) \<le> max (rto_largest_field t) L \<or> falign st rts (rf_t g) = 1) \<and>
      (kind_of st (rf_t g) \<noteq> HVOID \<longrightarrow> 0 < max (rto_largest_field t) L)"
    proof (cases "g = f")
      case True
      then show ?thesis using f L(2,3) by (simp add: le_max_iff_disj less_max_iff_disj)
    next
      case False
      then have "g \<in> set fs" using \<open>g \<in> set (fs @ [f])\<close> by simp
      then show ?thesis using l unfolding layout_part_def le_max_iff_disj less_max_iff_disj by blast
    qed
  qed
  moreover have "rto_hasPtr t' \<longleftrightarrow> (\<exists>g\<in>set (fs @ [f]). fpointer st rts (rf_t g))" using l t'(3) by (auto simp: layout_part_def)
  ultimately show ?thesis using l t'(1,2) unfolding layout_part_def by simp
qed

lemma round_up_mult:
  assumes "0 < (a :: int)"
  shows "a dvd (if x mod a \<noteq> 0 then x + (a - x mod a) else x)" "x \<le> (if x mod a \<noteq> 0 then x + (a - x mod a) else x)"
    "(if x mod a \<noteq> 0 then x + (a - x mod a) else x) < x + a"
proof -
  have e: "x + (a - x mod a) = a * (x div a + 1)" using mult_div_mod_eq [of a x] by (simp add: algebra_simps)
  show "a dvd (if x mod a \<noteq> 0 then x + (a - x mod a) else x)" by (simp only: e) (simp add: mod_0_imp_dvd)
  show "x \<le> (if x mod a \<noteq> 0 then x + (a - x mod a) else x)" by (simp add: less_imp_le [OF pos_mod_bound [OF assms]])
  show "(if x mod a \<noteq> 0 then x + (a - x mod a) else x) < x + a" using assms pos_mod_sign [OF assms, of x] by (auto simp: less_le)
qed

lemma size_kinds: "kind_of st t \<noteq> HPACKED \<Longrightarrow> hl_type_size st t \<in> {0, 1, 2, 4, 8} \<and> align_of st t \<in> {1, 2, 4, 8} \<and>
  (align_of st t \<le> hl_type_size st t \<or> align_of st t = 1) \<and> (kind_of st t \<noteq> HVOID \<longrightarrow> 0 < hl_type_size st t)"
  by (cases "kind_of st t") (simp_all add: hl_type_size_def align_of_def T_SIZES_def HL_WSIZE_def)

lemma rt_field_step_Some:
  assumes l: "layout_part st rts lo fs (rto_size t) t" and s: "st_str st (rf_name f) \<noteq> []"
    and pk: "kind_of st (rf_t f) = HPACKED \<Longrightarrow> \<exists>prt. packed_rt st rts (rf_t f) = Some prt \<and> rto_largest_field prt \<in> {1, 2, 4, 8} \<and>
      0 \<le> rto_size prt \<and> (rto_hasPtr prt \<longrightarrow> rto_largest_field prt = 8)"
  shows "\<exists>t'. rt_field_step st rts f t = Some t' \<and> layout_part st rts lo (fs @ [f]) (rto_size t') t' \<and> grows t t'"
proof (cases "kind_of st (rf_t f) = HPACKED")
  case True
  then obtain prt where prt: "packed_rt st rts (rf_t f) = Some prt" "rto_largest_field prt \<in> {1, 2, 4, 8}" "0 \<le> rto_size prt"
    "rto_hasPtr prt \<longrightarrow> rto_largest_field prt = 8" using pk by blast
  define off where "off = (if rto_size t mod rto_largest_field prt \<noteq> 0
    then rto_size t + (rto_largest_field prt - rto_size t mod rto_largest_field prt) else rto_size t)"
  have pos: "0 < rto_largest_field prt" using prt(2) by auto
  obtain lk n where lk: "rt_lookup_field st f off t = Some (t\<lparr>rto_lookup := lk, rto_nlookup := n\<rparr>)" by (rule rt_lookup_field_Some [OF s])
  define t' where "t' = t\<lparr>rto_lookup := lk, rto_nlookup := n, rto_indexes := rto_indexes t @ [off], rto_size := off + rto_size prt,
    rto_largest_field := max (rto_largest_field t) (rto_largest_field prt), rto_hasPtr := rto_hasPtr t \<or> rto_hasPtr prt\<rparr>"
  have f: "fsize st rts (rf_t f) = rto_size prt" "falign st rts (rf_t f) = rto_largest_field prt" "fpointer st rts (rf_t f) = rto_hasPtr prt"
    "ready st rts (rf_t f)" using True prt(1) by (simp_all add: fsize_def falign_def fpointer_def ready_def)
  have "rt_field_step st rts f t = Some t'"
    using True prt(1) pos lk by (simp add: rt_field_step_def Let_def t'_def flip: off_def)
  moreover have "layout_part st rts lo (fs @ [f]) (off + fsize st rts (rf_t f)) t'"
    using round_up_mult [OF pos, of "rto_size t"] prt
    by (intro layout_part_snoc [OF l, where L = "rto_largest_field prt"]) (auto simp: f t'_def off_def)
  ultimately show ?thesis using round_up_mult(2) [OF pos, of "rto_size t"] prt(3) unfolding f
    by (intro exI [of _ t']) (simp add: t'_def grows_def off_def)
next
  case False
  define off where "off = rto_size t + hl_pad_struct st (rto_size t) (rf_t f)"
  obtain lk n where lk: "rt_lookup_field st f off t = Some (t\<lparr>rto_lookup := lk, rto_nlookup := n\<rparr>)" by (rule rt_lookup_field_Some [OF s])
  define t' where "t' = t\<lparr>rto_lookup := lk, rto_nlookup := n, rto_indexes := rto_indexes t @ [off], rto_size := off + hl_type_size st (rf_t f),
    rto_largest_field := max (rto_largest_field t) (hl_type_size st (rf_t f)), rto_hasPtr := rto_hasPtr t \<or> hl_is_ptr st (rf_t f)\<rparr>"
  have f: "fsize st rts (rf_t f) = hl_type_size st (rf_t f)" "falign st rts (rf_t f) = align_of st (rf_t f)"
    "fpointer st rts (rf_t f) = hl_is_ptr st (rf_t f)" "ready st rts (rf_t f)"
    using False by (simp_all add: fsize_def falign_def fpointer_def ready_def)
  have "rt_field_step st rts f t = Some t'"
    using False lk by (simp add: rt_field_step_def Let_def t'_def flip: off_def)
  moreover have "layout_part st rts lo (fs @ [f]) (off + fsize st rts (rf_t f)) t'"
    using hl_pad_struct_bounds [of st "rto_size t" "rf_t f"] hl_pad_struct_aligned [of st "rf_t f" "rto_size t"] size_kinds [OF False]
      hl_is_ptr_size [OF _ False]
    by (intro layout_part_snoc [OF l, where L = "hl_type_size st (rf_t f)"]) (auto simp: f t'_def off_def)
  ultimately show ?thesis using hl_pad_struct_bounds(1) [of st "rto_size t" "rf_t f"] unfolding f
    by (intro exI [of _ t']) (simp add: t'_def grows_def off_def)
qed

text \<open>
  What classes rely on: a class has a finite chain of superclasses, and the classes that are packed into it are smaller (\<open>ro\<close> is a rank); a
  packed class has a field that is not void; \<open>objk\<close> is the kind of a class, the same along the chain; methods are functions of the module.
\<close>

definition classes_wf :: "rt_store \<Rightarrow> addr list \<Rightarrow> (addr \<Rightarrow> nat) \<Rightarrow> (addr \<Rightarrow> hl_type_kind) \<Rightarrow> bool" where
  "classes_wf st fts ro objk \<longleftrightarrow> objs_wf st ro \<and> (\<forall>a. terminated (st_str st a)) \<and>
     (\<forall>x. objk x \<in> {HOBJ, HSTRUCT}) \<and> (\<forall>t x. data_of st t = RObj x \<longrightarrow> kind_of st t = objk x) \<and>
     (\<forall>x y. super_of st x = Some y \<longrightarrow> objk y = objk x) \<and>
     (\<forall>x. \<forall>f\<in>set (ro_fields (st_obj st x)). kind_of st (rf_t f) = HPACKED \<longrightarrow>
        (\<exists>q y. data_of st (rf_t f) = RParam q \<and> data_of st q = RObj y \<and> ro y < ro x \<and>
          (objk y = HOBJ \<or> (\<exists>g\<in>set (ro_fields (st_obj st y)). kind_of st (rf_t g) \<noteq> HVOID)))) \<and>
     (\<forall>x. \<forall>pr\<in>set (ro_proto (st_obj st x)). rp_findex pr < length fts \<and> (\<exists>as r. data_of st (fts ! rp_findex pr) = RFun as r))"

definition header :: "(addr \<Rightarrow> hl_type_kind) \<Rightarrow> addr \<Rightarrow> int" where
  "header objk x = (if objk x = HSTRUCT then 0 else 8)"

text \<open>The mark bits of an object are the words of its pointers.\<close>

definition class_marks_ok :: "rt_store \<Rightarrow> rt_state \<Rightarrow> rt_field list \<Rightarrow> rt_runtime \<Rightarrow> bool" where
  "class_marks_ok st rts fs t \<longleftrightarrow> (case rto_mark_bits t of None \<Rightarrow> \<not> rto_hasPtr t
     | Some m \<Rightarrow> rto_hasPtr t \<and> 4 * int (length m) = hl_mark_size (rto_size t) \<and> (\<forall>p. word_marked m p \<longleftrightarrow> int p \<in> field_words st rts (map rf_t fs) (rto_indexes t)))"

definition rt_good :: "rt_store \<Rightarrow> (addr \<Rightarrow> hl_type_kind) \<Rightarrow> rt_state \<Rightarrow> addr \<Rightarrow> rt_field list \<Rightarrow> rt_runtime \<Rightarrow> bool" where
  "rt_good st objk rts x fs t \<longleftrightarrow> class_fields st x fs \<and> data_of st (rto_t t) = RObj x \<and> rto_nfields t = length fs \<and>
     layout_part st rts (header objk x) fs (rto_size t - rto_pad_size t) t \<and> 0 \<le> rto_pad_size t \<and>
     (objk x = HOBJ \<longrightarrow> rto_largest_field t = 8) \<and> 
     (0 < rto_largest_field t \<longrightarrow> rto_largest_field t dvd rto_size t \<and> rto_pad_size t < rto_largest_field t) \<and>
     (rto_largest_field t = 0 \<longrightarrow> rto_pad_size t = 0) \<and>
     class_marks_ok st rts fs t \<and> rto_parent t = super_of st x \<and>
     (\<forall>y. super_of st x = Some y \<longrightarrow> (\<exists>p. rts y = Some p \<and> rto_indexes p = take (rto_nfields p) (rto_indexes t) \<and> rto_size p \<le> rto_size t))"

definition rt_inv :: "rt_store \<Rightarrow> (addr \<Rightarrow> hl_type_kind) \<Rightarrow> rt_state \<Rightarrow> bool" where
  "rt_inv st objk rts \<longleftrightarrow> (\<forall>x t. rts x = Some t \<longrightarrow> (\<exists>fs. rt_good st objk rts x fs t))"

lemma rt_good_mono:
  assumes "rt_good st objk rts x fs t" "rts \<subseteq>\<^sub>m rts'"
  shows "rt_good st objk rts' x fs t"
proof -
  have "\<forall>f\<in>set fs. ready st rts (rf_t f)" using assms(1) by (simp add: rt_good_def layout_part_def)
  then have "field_words st rts' (map rf_t fs) os = field_words st rts (map rf_t fs) os" for os
    using ready_mono(5) [OF _ assms(2), of st] by (auto simp: field_words_def)
  then have "class_marks_ok st rts' fs t" using assms(1) by (auto simp: rt_good_def class_marks_ok_def split: option.splits)
  moreover have "rts' y = Some p" if "rts y = Some p" for y p using that assms(2) by (metis domI map_le_def)
  ultimately show ?thesis using assms layout_part_mono [OF _ assms(2)] unfolding rt_good_def by blast
qed

lemma rt_inv_update:
  assumes "rt_inv st objk rts" "rts x = None" "rt_good st objk rts x fs t"
  shows "rt_inv st objk (rts(x \<mapsto> t))" "rts \<subseteq>\<^sub>m rts(x \<mapsto> t)"
proof -
  show m: "rts \<subseteq>\<^sub>m rts(x \<mapsto> t)" using assms(2) by (auto simp: map_le_def)
  show "rt_inv st objk (rts(x \<mapsto> t))"
    using assms(1,3) rt_good_mono [OF _ m] unfolding rt_inv_def by (metis fun_upd_apply option.inject)
qed

text \<open>The packed classes of a field.\<close>

lemma rt_good_packed:
  assumes wf: "classes_wf st fts ro objk" and g: "rt_good st objk rts y fs prt"
    and nv: "objk y = HOBJ \<or> (\<exists>g\<in>set (ro_fields (st_obj st y)). kind_of st (rf_t g) \<noteq> HVOID)"
  shows "rto_largest_field prt \<in> {1, 2, 4, 8} \<and> 0 \<le> rto_size prt \<and> (rto_hasPtr prt \<longrightarrow> rto_largest_field prt = 8)"
proof -
  have l: "layout_part st rts (header objk y) fs (rto_size prt - rto_pad_size prt) prt" "0 \<le> rto_pad_size prt" "class_fields st y fs"
    using g by (simp_all add: rt_good_def)
  have "set (ro_fields (st_obj st y)) \<subseteq> set fs" using l(3) by (cases rule: class_fields.cases) auto
  then have "0 < rto_largest_field prt" using nv l(1) g unfolding layout_part_def rt_good_def by auto
  moreover have "0 \<le> rto_size prt"
  proof -
    have "header objk y \<le> rto_size prt - rto_pad_size prt" using layout_part_le [OF l(1)] by simp
    then show ?thesis using l(1,2) by (simp add: layout_part_def)
  qed
  ultimately show ?thesis using l(1) by (auto simp: layout_part_def)
qed

text \<open>The mark bits of the fields.\<close>

lemma mark_nested_Some:
  assumes "k + n \<le> 32 * length bits" "\<And>j. k \<le> j \<Longrightarrow> j < k + n \<Longrightarrow> word_marked bits j \<Longrightarrow> 0 \<le> pos + int j \<and> pos + int j < 32 * int (length mark)"
  shows "\<exists>m. mark_nested bits pos k n mark = Some m \<and> length m = length mark \<and>
    (\<forall>p. word_marked m p \<longleftrightarrow> word_marked mark p \<or> (\<exists>j. k \<le> j \<and> j < k + n \<and> word_marked bits j \<and> int p = pos + int j))"
  using assms
proof (induction n arbitrary: k mark)
  case (Suc n)
  have len: "k div 32 < length bits" using Suc.prems(1) by (simp add: less_mult_imp_div_less)
  obtain m1 where m1: "(if bit (bits ! (k div 32)) (k mod 32) then mark_bit 0 (pos + int k) mark else Some mark) = Some m1"
    "length m1 = length mark" "\<forall>p. word_marked m1 p \<longleftrightarrow> word_marked mark p \<or> (word_marked bits k \<and> int p = pos + int k)"
  proof (cases "word_marked bits k")
    case True
    then have r: "0 \<le> pos + int k" "pos + int k < 32 * int (length mark)" using Suc.prems(2) [of k] by auto
    then obtain m where "mark_bit 0 (pos + int k) mark = Some m" "length m = length mark"
      "\<forall>p. word_marked m p \<longleftrightarrow> word_marked mark p \<or> p = nat (pos + int k)" using mark_bit_Some [of 0 "pos + int k" mark] by auto
    moreover have "p = nat (pos + int k) \<longleftrightarrow> int p = pos + int k" for p using r by auto
    ultimately show thesis using that True len by (auto simp: word_marked_def [of bits])
  next
    case False
    then show thesis using that len by (auto simp: word_marked_def [of bits])
  qed
  obtain m where m: "mark_nested bits pos (k + 1) n m1 = Some m" "length m = length m1"
    "\<forall>p. word_marked m p \<longleftrightarrow> word_marked m1 p \<or> (\<exists>j. k + 1 \<le> j \<and> j < k + 1 + n \<and> word_marked bits j \<and> int p = pos + int j)"
    using Suc.IH [of "k + 1" m1] Suc.prems m1(2) by auto
  have "(\<exists>j. k \<le> j \<and> j < k + Suc n \<and> word_marked bits j \<and> int p = pos + int j) \<longleftrightarrow>
      (word_marked bits k \<and> int p = pos + int k) \<or> (\<exists>j. k + 1 \<le> j \<and> j < k + 1 + n \<and> word_marked bits j \<and> int p = pos + int j)" for p
    by (metis add_Suc_right add_Suc_shift Suc_eq_plus1 le_eq_less_or_eq less_add_Suc1 less_eq_Suc_le)
  then show ?case using m m1 len by (intro exI [of _ m]) simp
qed auto

text \<open>A field whose pointers are in aligned words, inside of the field.\<close>

definition words_fit :: "rt_store \<Rightarrow> rt_state \<Rightarrow> addr \<Rightarrow> bool" where
  "words_fit st rts t \<longleftrightarrow> (kind_of st t = HPACKED \<longrightarrow> (\<exists>prt. packed_rt st rts t = Some prt \<and> 0 \<le> rto_size prt \<and>
     (case rto_mark_bits prt of None \<Rightarrow> \<not> rto_hasPtr prt
      | Some bits \<Rightarrow> rto_hasPtr prt \<and> rto_largest_field prt = 8 \<and> rto_size prt div 8 \<le> 32 * int (length bits))))"

lemma fwords_range:
  assumes "words_fit st rts t" "0 \<le> off" "falign st rts t dvd off" "w \<in> fwords st rts t off"
  shows "0 \<le> w \<and> 8 * w + 8 \<le> off + fsize st rts t"
proof (cases "kind_of st t = HPACKED")
  case True
  then obtain prt bits k where p: "packed_rt st rts t = Some prt" "rto_mark_bits prt = Some bits" "w = off div 8 + int k"
    "int k < rto_size prt div 8" "rto_largest_field prt = 8"
    using assms(1,4) by (auto simp: words_fit_def fwords_def split: option.splits)
  have "8 dvd off" using assms(3) True p by (simp add: falign_def)
  then obtain m where "off = 8 * m" by (elim dvdE)
  then show ?thesis using True p assms(2) by (simp add: fsize_def)
next
  case False
  then have "hl_is_ptr st t" "w = off div 8" using assms(4) by (auto simp: fwords_def split: if_splits)
  moreover have "8 dvd off" using hl_is_ptr_size [OF calculation(1) False] assms(3) False by (simp add: falign_def)
  ultimately show ?thesis using assms(2) hl_is_ptr_size [OF _ False] False by (auto simp: fsize_def)
qed

lemma fwords_no_pointer: "words_fit st rts t \<Longrightarrow> \<not> fpointer st rts t \<Longrightarrow> fwords st rts t off = {}"
  by (auto simp: words_fit_def fpointer_def fwords_def split: option.splits if_splits)

lemma mark_field_Some:
  assumes f: "words_fit st rts t" and r: "\<And>w. w \<in> fwords st rts t off \<Longrightarrow> 0 \<le> w \<and> w < 32 * int (length mark)"
  shows "\<exists>m. mark_field st rts t off mark = Some m \<and> length m = length mark \<and> (\<forall>p. word_marked m p \<longleftrightarrow> word_marked mark p \<or> int p \<in> fwords st rts t off)"
proof (cases "kind_of st t = HPACKED")
  case True
  then have ptr: "hl_is_ptr st t" by (simp add: hl_is_ptr_def T_IS_PTR_def)
  obtain prt where prt: "packed_rt st rts t = Some prt" "0 \<le> rto_size prt" using f True by (auto simp: words_fit_def)
  show ?thesis
  proof (cases "rto_mark_bits prt")
    case None
    then show ?thesis using True ptr prt by (simp add: mark_field_def fwords_def)
  next
    case (Some bits)
    define n where "n = nat (rto_size prt div 8)"
    have n: "int n = rto_size prt div 8" using prt(2) by (simp add: n_def pos_imp_zdiv_nonneg_iff)
    then have nb: "n \<le> 32 * length bits" using f True prt Some by (auto simp: words_fit_def)
    have fw: "fwords st rts t off = {off div 8 + int k | k. k < n \<and> word_marked bits k}"
      unfolding fwords_def using True prt Some by (simp flip: n)
    then have "0 \<le> off div 8 + int j \<and> off div 8 + int j < 32 * int (length mark)" if "j < n" "word_marked bits j" for j
      using r [of "off div 8 + int j"] that by auto
    then obtain m where m: "mark_nested bits (off div 8) 0 n mark = Some m" "length m = length mark"
      "\<forall>p. word_marked m p \<longleftrightarrow> word_marked mark p \<or> (\<exists>j. 0 \<le> j \<and> j < 0 + n \<and> word_marked bits j \<and> int p = off div 8 + int j)"
      using mark_nested_Some [of 0 n bits "off div 8" mark] nb by auto
    have "mark_field st rts t off mark = Some m" using True ptr prt Some m(1) by (simp add: mark_field_def HL_WSIZE_def n_def)
    then show ?thesis using m(2,3) fw by auto
  qed
next
  case False
  show ?thesis
  proof (cases "hl_is_ptr st t")
    case True
    then have fw: "fwords st rts t off = {off div 8}" using False by (simp add: fwords_def)
    then have "0 \<le> off div 8" "off div 8 < 32 * int (length mark)" using r by auto
    then obtain m where "mark_bit 0 (off div 8) mark = Some m" "length m = length mark" "\<forall>p. word_marked m p \<longleftrightarrow> word_marked mark p \<or> p = nat (off div 8)"
      using mark_bit_Some [of 0 "off div 8" mark] by auto
    moreover have "p = nat (off div 8) \<longleftrightarrow> int p = off div 8" for p using \<open>0 \<le> off div 8\<close> by auto
    ultimately show ?thesis using True False fw by (auto simp: mark_field_def HL_WSIZE_def)
  qed (use False in \<open>auto simp: mark_field_def fwords_def\<close>)
qed

lemma mark_fields_Some:
  assumes "length os = length ts" "\<And>t. t \<in> set ts \<Longrightarrow> words_fit st rts t"
    "\<And>w. w \<in> field_words st rts ts os \<Longrightarrow> 0 \<le> w \<and> w < 32 * int (length mark)"
  shows "\<exists>m. mark_fields st rts ts os mark = Some m \<and> length m = length mark \<and> (\<forall>p. word_marked m p \<longleftrightarrow> word_marked mark p \<or> int p \<in> field_words st rts ts os)"
  using assms
proof (induction ts os arbitrary: mark rule: list_induct2')
  case (4 t ts x os)
  have e: "field_words st rts (t # ts) (x # os) = fwords st rts t x \<union> field_words st rts ts os"
    using field_words_append [of "[x]" "[t]" st rts ts os] by (simp add: field_words_def lessThan_Suc)
  obtain m1 where m1: "mark_field st rts t x mark = Some m1" "length m1 = length mark"
    "\<forall>p. word_marked m1 p \<longleftrightarrow> word_marked mark p \<or> int p \<in> fwords st rts t x"
    using mark_field_Some [of st rts t x mark] 4(3,4) e by auto
  obtain m where "mark_fields st rts ts os m1 = Some m" "length m = length m1"
    "\<forall>p. word_marked m p \<longleftrightarrow> word_marked m1 p \<or> int p \<in> field_words st rts ts os"
    using "4.IH" [of m1] 4(2-4) e m1(2) by auto
  with m1 e show ?case by auto
qed (auto simp: field_words_def)

lemma hl_mark_size_mono: "0 \<le> a \<Longrightarrow> a \<le> b \<Longrightarrow> hl_mark_size a \<le> hl_mark_size b"
  by (simp add: hl_mark_size_words zdiv_mono1)

lemma layout_words_range:
  assumes l: "layout_part st rts lo fs hi t" and fit: "\<forall>f\<in>set fs. words_fit st rts (rf_t f)"
    and w: "w \<in> field_words st rts (map rf_t fs) (rto_indexes t)"
  shows "0 \<le> w \<and> 8 * w + 8 \<le> hi"
proof -
  obtain i where i: "i < length fs" "w \<in> fwords st rts (rf_t (fs ! i)) (rto_indexes t ! i)" using w by (auto simp: field_words_def)
  have "0 \<le> lo" using l by (simp add: layout_part_def)
  moreover have "lo \<le> rto_indexes t ! i \<and> falign st rts (rf_t (fs ! i)) dvd rto_indexes t ! i \<and>
      rto_indexes t ! i + fsize st rts (rf_t (fs ! i)) \<le> hi"
    using placed_on(2) [OF layout_part_placed [OF l] layout_part_sizes [OF l], of i] i(1) by simp
  ultimately show ?thesis using fwords_range [OF _ _ _ i(2)] fit i(1) by fastforce
qed

lemma mark_words_bound:
  assumes "0 \<le> sz" "8 * w + 8 \<le> sz" "4 * int n = hl_mark_size sz"
  shows "w < 32 * int n"
proof -
  define y where "y = (sz + 7) div 8"
  have "w < y" using assms(2) unfolding y_def by linarith
  also have "y \<le> 32 * ((y + 31) div 32)" by linarith
  also have "(y + 31) div 32 = int n" using assms(3) unfolding hl_mark_size_words [OF assms(1)] y_def by simp
  finally show ?thesis .
qed

lemma rt_mark_Some:
  assumes l: "layout_part st rts lo (pfs @ own) (rto_size t - rto_pad_size t) t" "0 \<le> rto_pad_size t" and none: "rto_mark_bits t = None"
    and fit: "\<forall>f\<in>set (pfs @ own). words_fit st rts (rf_t f)" and idx: "rto_indexes t = ps @ os" "length ps = length pfs"
    and p: "p = None \<Longrightarrow> pfs = []"
      "\<And>prt. p = Some prt \<Longrightarrow> rto_nfields prt = length pfs \<and> rto_indexes prt = ps \<and> class_marks_ok st rts pfs prt \<and> 0 \<le> rto_size prt \<and>
        rto_size prt \<le> rto_size t \<and> (rto_hasPtr prt \<longleftrightarrow> (\<exists>f\<in>set pfs. fpointer st rts (rf_t f)))"
  shows "\<exists>m. rt_mark st rts own p t = Some (t\<lparr>rto_mark_bits := m\<rparr>) \<and> class_marks_ok st rts (pfs @ own) (t\<lparr>rto_mark_bits := m\<rparr>)"
proof (cases "rto_hasPtr t")
  case False
  then show ?thesis using none by (intro exI [of _ None]) (simp add: rt_mark_def class_marks_ok_def)
next
  case True
  have lp: "length (ps @ os) = length (pfs @ own)" using placed_length [OF layout_part_placed [OF l(1)]] idx(1) by simp
  then have lo: "length os = length own" using idx(2) by simp
  define n where "n = nat (hl_mark_size (rto_size t) div 4)"
  have sz: "0 \<le> rto_size t" using layout_part_le [OF l(1)] l(2) by simp
  have n: "4 * int n = hl_mark_size (rto_size t)" unfolding n_def hl_mark_size_words [OF sz] using sz by simp
  have range: "0 \<le> w \<and> w < 32 * int n" if "w \<in> field_words st rts (map rf_t (pfs @ own)) (ps @ os)" for w
    using layout_words_range [OF l(1) fit, of w] that mark_words_bound [OF sz _ n] l(2) by (auto simp: idx(1))
  have fw: "field_words st rts (map rf_t (pfs @ own)) (ps @ os) = field_words st rts (map rf_t pfs) ps \<union> field_words st rts (map rf_t own) os"
    using field_words_append [of ps "map rf_t pfs" st rts "map rf_t own" os] idx(2) by simp
  define m0 where "m0 = replicate n (0 :: u32)"
  obtain m1 where m1: "(case p of None \<Rightarrow> Some m0 | Some prt \<Rightarrow> (case rto_mark_bits prt of None \<Rightarrow> Some m0
      | Some bits \<Rightarrow> memcpy m0 0 bits (hl_mark_size (rto_size prt) div 4))) = Some m1" "length m1 = n"
    "\<forall>w. word_marked m1 w \<longleftrightarrow> int w \<in> field_words st rts (map rf_t pfs) ps"
  proof (cases p)
    case None
    then show thesis using that p(1) by (simp add: m0_def field_words_def)
  next
    case (Some prt)
    note pp = p(2) [OF Some]
    show thesis
    proof (cases "rto_mark_bits prt")
      case None
      then have "\<not> rto_hasPtr prt" using pp by (simp add: class_marks_ok_def)
      then have "field_words st rts (map rf_t pfs) ps = {}" using pp fit fwords_no_pointer by (fastforce simp: field_words_def)
      then show thesis using that Some None by (simp add: m0_def)
    next
      case bits: (Some bits)
      then have b: "4 * int (length bits) = hl_mark_size (rto_size prt)" "\<forall>w. word_marked bits w \<longleftrightarrow> int w \<in> field_words st rts (map rf_t pfs) ps"
        using pp by (auto simp: class_marks_ok_def)
      then have ln: "length bits \<le> n" using hl_mark_size_mono [of "rto_size prt" "rto_size t"] pp n by linarith
      have "hl_mark_size (rto_size prt) div 4 = int (length bits)" using b(1) by simp
      then have "memcpy m0 0 bits (hl_mark_size (rto_size prt) div 4) = Some (bits @ drop (length bits) m0)"
        using ln by (simp add: memcpy_def m0_def)
      moreover have "word_marked (bits @ drop (length bits) m0) w \<longleftrightarrow> word_marked bits w" for w
        by (auto simp: word_marked_def m0_def nth_append)
      ultimately show thesis using that Some bits ln b(2) by (simp add: m0_def)
    qed
  qed
  obtain m where m: "mark_fields st rts (map rf_t own) os m1 = Some m" "length m = n"
    "\<forall>w. word_marked m w \<longleftrightarrow> word_marked m1 w \<or> int w \<in> field_words st rts (map rf_t own) os"
    using mark_fields_Some [of os "map rf_t own" st rts m1] lo fit range fw m1(2) by auto
  have d: "drop (case p of None \<Rightarrow> 0 | Some prt \<Rightarrow> rto_nfields prt) (rto_indexes t) = os"
    using p idx by (cases p) auto
  have "rt_mark st rts own p t = Some (t\<lparr>rto_mark_bits := Some m\<rparr>)"
    using True m1(1) m(1) by (simp add: rt_mark_def d flip: n_def m0_def)
  moreover have "class_marks_ok st rts (pfs @ own) (t\<lparr>rto_mark_bits := Some m\<rparr>)"
    using True m m1(3) n fw by (auto simp: class_marks_ok_def idx(1))
  ultimately show ?thesis by blast
qed

end
