(* ===== verification/ObjRuntime.thy ===== *)
theory ObjRuntime
  imports ObjLayout
begin

unbundle bit_operations_syntax

text \<open>
  The calls of \<open>hl_get_obj_rt\<close> as a whole. The runtime data of all classes keeps the invariant \<open>rt_inv\<close>, in which \<open>rt_good\<close> is the layout of one
  class; a call returns, adds to it and keeps what is there. From this follow the layout of objects, their mark bits, the fetching of fields, and that
  casts keep the layout. At the end, the layout of virtuals (\<open>hl_init_virtual\<close>).
\<close>

subsection \<open>The other parts of a call\<close>

lemma rt_methods_Some:
  assumes "\<forall>pr\<in>set prs. rp_findex pr < length fts \<and> (\<exists>as r. data_of st (fts ! rp_findex pr) = RFun as r)"
  shows "\<exists>np nm lk cf. rt_methods st fts h p prs t = Some (t\<lparr>rto_nproto := np, rto_nmethods := nm, rto_lookup := lk, rto_compareFun := cf\<rparr>)"
  using assms
proof (induction prs arbitrary: t)
  case Nil
  have "t = t\<lparr>rto_nproto := rto_nproto t, rto_nmethods := rto_nmethods t, rto_lookup := rto_lookup t, rto_compareFun := rto_compareFun t\<rparr>" by simp
  then show ?case unfolding rt_methods.simps by metis
next
  case (Cons pr prs)
  obtain as r where f: "rp_findex pr < length fts" "data_of st (fts ! rp_findex pr) = RFun as r" using Cons.prems by auto
  show ?case
  proof (cases "own_method p pr")
    case True
    define c where "c \<longleftrightarrow> rp_hashed_name pr = h \<and> length as = 2 \<and> kind_of st (as ! 1) = HDYN \<and> kind_of st r = HI32"
    have cmp: "(if rp_hashed_name pr = h then do { f \<leftarrow> fun_of (data_of st (fts ! rp_findex pr));
        Some (length (fst f) = 2 \<and> kind_of st (fst f ! 1) = HDYN \<and> kind_of st (snd f) = HI32) } else Some False) = Some c"
      by (simp add: f(2) c_def)
    define t1 where "t1 = t\<lparr>rto_nmethods := rto_nmethods t + 1,
      rto_nproto := (if rp_pindex pr \<ge> rto_nproto t then rp_pindex pr + 1 else rto_nproto t),
      rto_lookup := fst (hl_lookup_insert (rto_lookup t) (length (rto_lookup t)) (rp_hashed_name pr) (fts ! rp_findex pr) (- (int (rto_nmethods t) + 1)))\<rparr>"
    define t2 where "t2 = (if c then t1\<lparr>rto_compareFun := Some (rp_findex pr)\<rparr> else t1)"
    have e: "rt_methods st fts h p (pr # prs) t = rt_methods st fts h p prs t2"
      using True f(1) cmp by (simp add: Let_def t2_def t1_def)
    obtain np nm lk cf where "rt_methods st fts h p prs t2 = Some (t2\<lparr>rto_nproto := np, rto_nmethods := nm, rto_lookup := lk, rto_compareFun := cf\<rparr>)"
      using Cons by (metis list.set_intros(2))
    moreover have "t2\<lparr>rto_nproto := np, rto_nmethods := nm, rto_lookup := lk, rto_compareFun := cf\<rparr> =
        t\<lparr>rto_nproto := np, rto_nmethods := nm, rto_lookup := lk, rto_compareFun := cf\<rparr>" by (simp add: t2_def t1_def)
    ultimately show ?thesis unfolding e by metis
  qed (use Cons in simp)
qed

lemma binding_found_total:
  assumes "objs_wf st ro"
  shows "binding_found st fid x \<noteq> None"
proof (induction "ro x" arbitrary: x rule: less_induct)
  case less
  show ?case
  proof (cases "ro_super (st_obj st x)")
    case (Some s)
    then obtain y where "data_of st s = RObj y" "ro y < ro x" using assms by (auto simp: objs_wf_def)
    with less.hyps [of y] Some show ?thesis by (simp add: binding_found.simps [of st fid x] del: not_None_eq)
  qed (simp add: binding_found.simps [of st fid x] del: not_None_eq)
qed

lemma new_bindings_total: "objs_wf st ro \<Longrightarrow> new_bindings st x bs \<noteq> None"
  by (induction bs) (use binding_found_total in \<open>fastforce split: bind_splits\<close>)+

lemma rt_align_size_ok:
  assumes "rto_largest_field t \<in> {0, 1, 2, 4, 8}" "rto_pad_size t = 0"
  defines "t' \<equiv> rt_align_size t"
  shows "rto_size t' - rto_pad_size t' = rto_size t" "0 \<le> rto_pad_size t'" "rto_largest_field t' = rto_largest_field t"
    "0 < rto_largest_field t \<Longrightarrow> rto_largest_field t dvd rto_size t' \<and> rto_pad_size t' < rto_largest_field t"
    "rto_largest_field t = 0 \<Longrightarrow> rto_pad_size t' = 0" "t' = t\<lparr>rto_pad_size := rto_pad_size t', rto_size := rto_size t'\<rparr>"
proof -
  define a where "a = rto_largest_field t"
  define m where "m = rto_size t mod a"
  have m: "0 < a \<Longrightarrow> 0 \<le> m \<and> m < a" by (simp add: m_def)
  have t': "t' = (if 0 < a \<and> m \<noteq> 0 then t\<lparr>rto_pad_size := a - m, rto_size := rto_size t + (a - m)\<rparr> else t)"
    by (simp add: t'_def rt_align_size_def a_def m_def Let_def)
  show "rto_size t' - rto_pad_size t' = rto_size t" "rto_largest_field t' = rto_largest_field t" "rto_largest_field t = 0 \<Longrightarrow> rto_pad_size t' = 0"
    "t' = t\<lparr>rto_pad_size := rto_pad_size t', rto_size := rto_size t'\<rparr>"
    using assms(2) by (auto simp: t' a_def)
  show "0 \<le> rto_pad_size t'" using assms(2) m by (auto simp: t')
  show "rto_largest_field t dvd rto_size t' \<and> rto_pad_size t' < rto_largest_field t" if "0 < rto_largest_field t"
    using round_up_mult(1) [of a "rto_size t"] that assms(2) m unfolding t' m_def [symmetric] a_def [symmetric] by auto
qed

lemma parent_size_le:
  fixes a b :: int
  assumes "a \<in> {0, 1, 2, 4, 8}" "b \<in> {0, 1, 2, 4, 8}" "a \<le> b" "ps - pp \<le> s" "0 < a \<Longrightarrow> a dvd ps \<and> pp < a" "a = 0 \<Longrightarrow> pp = 0"
    "0 < b \<Longrightarrow> b dvd s"
  shows "ps \<le> s"
proof (cases "a = 0")
  case False
  then have "0 < a" "0 < b" using assms(1-3) by auto
  then have "a dvd b" using assms(1-3) by auto
  then obtain u v where "ps = a * u" "s = a * v" using assms(5,7) \<open>0 < a\<close> \<open>0 < b\<close> by (meson dvdE dvd_trans)
  moreover have "ps - a < s" using assms(4,5) \<open>0 < a\<close> by linarith
  ultimately have "a * (u - 1) < a * v" by (simp add: algebra_simps)
  then have "u - 1 < v" using \<open>0 < a\<close> by (simp add: mult_less_cancel_left_pos)
  then have "u \<le> v" by simp
  then show ?thesis using \<open>ps = a * u\<close> \<open>s = a * v\<close> \<open>0 < a\<close> by simp
qed (use assms in simp)

subsection \<open>A call computes the layout\<close>

lemma classes_wfD:
  assumes "classes_wf st fts ro objk"
  shows "objs_wf st ro" "st_str st a \<noteq> []" "objk x \<in> {HOBJ, HSTRUCT}" "data_of st t = RObj x \<Longrightarrow> kind_of st t = objk x"
    "super_of st x = Some y \<Longrightarrow> objk y = objk x"
    "f \<in> set (ro_fields (st_obj st x)) \<Longrightarrow> kind_of st (rf_t f) = HPACKED \<Longrightarrow>
       \<exists>q y. data_of st (rf_t f) = RParam q \<and> data_of st q = RObj y \<and> ro y < ro x \<and>
         (objk y = HOBJ \<or> (\<exists>g\<in>set (ro_fields (st_obj st y)). kind_of st (rf_t g) \<noteq> HVOID))"
    "\<forall>pr\<in>set (ro_proto (st_obj st x)). rp_findex pr < length fts \<and> (\<exists>as r. data_of st (fts ! rp_findex pr) = RFun as r)"
proof -
  have "terminated (st_str st a)" using assms by (simp add: classes_wf_def)
  then show "st_str st a \<noteq> []" by auto
qed (use assms in \<open>simp_all add: classes_wf_def\<close>)

lemma class_fields_origin: "class_fields st x fs \<Longrightarrow> f \<in> set fs \<Longrightarrow> \<exists>z. f \<in> set (ro_fields (st_obj st z))"
  by (induction rule: class_fields.induct) auto

text \<open>A packed field whose class is known has what the placing and the marking need.\<close>

lemma packed_good:
  assumes wf: "classes_wf st fts ro objk" and inv: "rt_inv st objk rts" and f: "f \<in> set (ro_fields (st_obj st z))"
    and k: "kind_of st (rf_t f) = HPACKED" and p: "packed_rt st rts (rf_t f) = Some prt"
  shows "rto_largest_field prt \<in> {1, 2, 4, 8} \<and> 0 \<le> rto_size prt \<and> (rto_hasPtr prt \<longrightarrow> rto_largest_field prt = 8) \<and> words_fit st rts (rf_t f)"
proof -
  obtain q y where q: "data_of st (rf_t f) = RParam q" "data_of st q = RObj y"
    "objk y = HOBJ \<or> (\<exists>g\<in>set (ro_fields (st_obj st y)). kind_of st (rf_t g) \<noteq> HVOID)"
    using classes_wfD(6) [OF wf f k] by blast
  then have "rts y = Some prt" using p by (simp add: packed_rt_def)
  then obtain fs where g: "rt_good st objk rts y fs prt" using inv by (auto simp: rt_inv_def)
  note L = rt_good_packed [OF wf g q(3)]
  have m: "class_marks_ok st rts fs prt" using g by (simp add: rt_good_def)
  have "words_fit st rts (rf_t f)"
  proof (cases "rto_mark_bits prt")
    case None
    then show ?thesis using m L p by (simp add: words_fit_def class_marks_ok_def)
  next
    case (Some bits)
    define y where "y = (rto_size prt + 7) div 8"
    have h: "rto_hasPtr prt" "4 * int (length bits) = hl_mark_size (rto_size prt)" using m Some by (auto simp: class_marks_ok_def)
    have "rto_size prt div 8 \<le> y" unfolding y_def by linarith
    also have "y \<le> 32 * ((y + 31) div 32)" by linarith
    also have "(y + 31) div 32 = int (length bits)" using h(2) L by (simp add: hl_mark_size_words y_def)
    finally show ?thesis using Some L p h by (simp add: words_fit_def)
  qed
  then show ?thesis using L by simp
qed

lemma fields_fit:
  assumes wf: "classes_wf st fts ro objk" and inv: "rt_inv st objk rts" and f: "f \<in> set (ro_fields (st_obj st z))" and r: "ready st rts (rf_t f)"
  shows "words_fit st rts (rf_t f)"
proof (cases "kind_of st (rf_t f) = HPACKED")
  case True
  then obtain prt where "packed_rt st rts (rf_t f) = Some prt" using r by (auto simp: ready_def)
  then show ?thesis using packed_good [OF wf inv f True] by blast
qed (simp add: words_fit_def)

text \<open>What a call promises, and what the loop over the fields needs of the calls for packed fields.\<close>

definition computes :: "rt_store \<Rightarrow> (addr \<Rightarrow> nat) \<Rightarrow> (addr \<Rightarrow> hl_type_kind) \<Rightarrow> rt_state \<Rightarrow> nat \<Rightarrow> rt_state \<Rightarrow> bool" where
  "computes st ro objk rts n rts' \<longleftrightarrow> rts \<subseteq>\<^sub>m rts' \<and> rt_inv st objk rts' \<and> (\<forall>z. n \<le> ro z \<longrightarrow> rts' z = rts z)"

lemma computes_trans:
  "computes st ro objk rts m rts' \<Longrightarrow> computes st ro objk rts' n rts'' \<Longrightarrow> m \<le> k \<Longrightarrow> n \<le> k \<Longrightarrow> computes st ro objk rts k rts''"
  by (auto simp: computes_def intro: map_le_trans)

lemma fields_loop:
  assumes wf: "classes_wf st fts ro objk"
    and calls: "\<And>y q rts. ro y < n \<Longrightarrow> data_of st q = RObj y \<Longrightarrow> rt_inv st objk rts \<Longrightarrow>
      \<exists>rts'. hl_get_obj_rt st fts q rts = Some rts' \<and> computes st ro objk rts (Suc (ro y)) rts' \<and> rts' y \<noteq> None"
    and x: "ro x \<le> n" "set own \<subseteq> set (ro_fields (st_obj st x))"
    and inv: "rt_inv st objk rts" and l: "layout_part st rts lo fs (rto_size t) t"
  shows "\<exists>rts' t'. foldM (\<lambda>f s. do {
           rts \<leftarrow> (if kind_of st (rf_t f) = HPACKED then param_of (data_of st (rf_t f)) \<bind> (\<lambda>q. hl_get_obj_rt st fts q (fst s)) else Some (fst s));
           t \<leftarrow> rt_field_step st rts f (snd s);
           Some (rts, t) }) own (rts, t) = Some (rts', t') \<and>
    computes st ro objk rts n rts' \<and> layout_part st rts' lo (fs @ own) (rto_size t') t' \<and> grows t t'"
  using x(2) inv l
proof (induction own arbitrary: rts fs t)
  case Nil
  then show ?case by (simp add: computes_def)
next
  case (Cons f own)
  have f: "f \<in> set (ro_fields (st_obj st x))" using Cons.prems by simp
  obtain rts1 where r1: "(if kind_of st (rf_t f) = HPACKED then param_of (data_of st (rf_t f)) \<bind> (\<lambda>q. hl_get_obj_rt st fts q rts) else Some rts) = Some rts1"
    "computes st ro objk rts n rts1" "kind_of st (rf_t f) = HPACKED \<Longrightarrow> packed_rt st rts1 (rf_t f) \<noteq> None"
  proof (cases "kind_of st (rf_t f) = HPACKED")
    case True
    then obtain q y where q: "data_of st (rf_t f) = RParam q" "data_of st q = RObj y" "ro y < ro x" using classes_wfD(6) [OF wf f] by blast
    then obtain rts1 where "hl_get_obj_rt st fts q rts = Some rts1" "computes st ro objk rts (Suc (ro y)) rts1" "rts1 y \<noteq> None"
      using calls [of y q rts] x(1) Cons.prems(2) by auto
    then show thesis using that q True x(1) by (auto simp: packed_rt_def computes_def)
  next
    case False
    then show thesis using that Cons.prems(2) by (auto simp: computes_def)
  qed
  have i1: "rt_inv st objk rts1" and m1: "rts \<subseteq>\<^sub>m rts1" using r1(2) by (auto simp: computes_def)
  have pk: "\<exists>prt. packed_rt st rts1 (rf_t f) = Some prt \<and> rto_largest_field prt \<in> {1, 2, 4, 8} \<and> 0 \<le> rto_size prt \<and>
      (rto_hasPtr prt \<longrightarrow> rto_largest_field prt = 8)" if "kind_of st (rf_t f) = HPACKED"
    using r1(3) [OF that] packed_good [OF wf i1 f that] by blast
  obtain t1 where t1: "rt_field_step st rts1 f t = Some t1" "layout_part st rts1 lo (fs @ [f]) (rto_size t1) t1" "grows t t1"
    using rt_field_step_Some [OF layout_part_mono [OF Cons.prems(3) m1] classes_wfD(2) [OF wf] pk] by blast
  obtain rts' t' where "foldM (\<lambda>f s. do {
           rts \<leftarrow> (if kind_of st (rf_t f) = HPACKED then param_of (data_of st (rf_t f)) \<bind> (\<lambda>q. hl_get_obj_rt st fts q (fst s)) else Some (fst s));
           t \<leftarrow> rt_field_step st rts f (snd s);
           Some (rts, t) }) own (rts1, t1) = Some (rts', t')"
    "computes st ro objk rts1 n rts'" "layout_part st rts' lo ((fs @ [f]) @ own) (rto_size t') t'" "grows t1 t'"
    using Cons.IH [OF _ i1 t1(2)] Cons.prems(1) by auto
  moreover from this have "computes st ro objk rts n rts'" "grows t t'"
    using computes_trans [OF r1(2)] grows_trans [OF t1(3)] by auto
  ultimately show ?case
    by (intro exI [of _ rts'] exI [of _ t'], unfold foldM.simps fst_conv snd_conv r1(1) bind.bind_lunit t1(1)) simp
qed

text \<open>The start and the end of a call, with the parent \<open>po\<close> and its fields \<open>pfs\<close>.\<close>

definition parent_ok :: "rt_store \<Rightarrow> (addr \<Rightarrow> hl_type_kind) \<Rightarrow> rt_state \<Rightarrow> addr \<Rightarrow> (addr \<times> rt_runtime) option \<Rightarrow> rt_field list \<Rightarrow> bool" where
  "parent_ok st objk rts x po pfs \<longleftrightarrow> class_fields st x (pfs @ ro_fields (st_obj st x)) \<and> super_of st x = map_option fst po \<and>
     (case po of None \<Rightarrow> pfs = [] | Some (y, prt) \<Rightarrow> rts y = Some prt \<and> rt_good st objk rts y pfs prt)"

lemma parent_ok_mono: "parent_ok st objk rts x po pfs \<Longrightarrow> rts \<subseteq>\<^sub>m rts' \<Longrightarrow> parent_ok st objk rts' x po pfs"
  using rt_good_mono by (auto simp: parent_ok_def map_le_def dom_def split: option.splits)

lemma rt_start_Some:
  assumes wf: "classes_wf st fts ro objk" and ot: "data_of st ot = RObj x" and p: "parent_ok st objk rts x po pfs"
  shows "\<exists>t. rt_start st ot x po = Some t \<and> layout_part st rts (header objk x) pfs (rto_size t) t \<and>
    rto_t t = ot \<and> rto_nfields t = length (pfs @ ro_fields (st_obj st x)) \<and> rto_parent t = super_of st x \<and> rto_pad_size t = 0 \<and>
    rto_mark_bits t = None \<and> (objk x = HOBJ \<longrightarrow> rto_largest_field t = 8) \<and>
    (case po of None \<Rightarrow> rto_indexes t = [] | Some (y, prt) \<Rightarrow> rto_indexes t = rto_indexes prt \<and> rto_size t = rto_size prt - rto_pad_size prt \<and>
       rto_largest_field t = rto_largest_field prt)"
proof (cases po)
  case None
  define t where "t = the (rt_start st ot x None)"
  have t: "rt_start st ot x None = Some t" by (simp add: rt_start_def t_def Let_def)
  have k: "kind_of st ot = objk x" by (rule classes_wfD(4) [OF wf ot])
  have "pfs = []" "super_of st x = None" using p None by (auto simp: parent_ok_def)
  moreover have "objk x = HOBJ \<or> objk x = HSTRUCT" using classes_wfD(3) [OF wf] by auto
  moreover have "rto_indexes t = []" "rto_size t = header objk x" "rto_largest_field t = header objk x" "\<not> rto_hasPtr t" "rto_t t = ot"
    "rto_nfields t = length (ro_fields (st_obj st x))" "rto_parent t = None" "rto_pad_size t = 0" "rto_mark_bits t = None"
    using k by (simp_all add: t_def rt_start_def Let_def header_def HL_WSIZE_def)
  ultimately show ?thesis using None t by (auto simp: layout_part_def header_def)
next
  case (Some yp)
  then obtain y prt where po: "po = Some (y, prt)" by (cases yp) auto
  have g: "rt_good st objk rts y pfs prt" "super_of st x = Some y" using p po by (auto simp: parent_ok_def)
  have lp: "layout_part st rts (header objk y) pfs (rto_size prt - rto_pad_size prt) prt" using g(1) by (simp add: rt_good_def)
  have "header objk y = header objk x" "objk y = objk x" using classes_wfD(5) [OF wf g(2)] by (simp_all add: header_def)
  obtain nb where nb: "new_bindings st y (ro_bindings (st_obj st x)) = Some nb" using new_bindings_total [OF classes_wfD(1) [OF wf]] by blast
  define t where "t = the (rt_start st ot x po)"
  have t: "rt_start st ot x po = Some t" using nb po by (simp add: rt_start_def t_def Let_def)
  have "rto_indexes t = rto_indexes prt" "rto_size t = rto_size prt - rto_pad_size prt" "rto_largest_field t = rto_largest_field prt"
    "rto_hasPtr t = rto_hasPtr prt" "rto_t t = ot" "rto_nfields t = length (ro_fields (st_obj st x)) + rto_nfields prt" "rto_parent t = Some y"
    "rto_pad_size t = 0" "rto_mark_bits t = None"
    using nb po by (simp_all add: t_def rt_start_def Let_def)
  moreover from this have "layout_part st rts (header objk x) pfs (rto_size t) t"
    using layout_part_cong [OF lp] \<open>header objk y = header objk x\<close> by simp
  ultimately show ?thesis using t g po \<open>objk y = objk x\<close> by (auto simp: rt_good_def)
qed

lemma hash_name_USTR: "\<exists>h. hash_name (USTR s) = Some h"
  using hash_name_cstr [of "USTR s"] by auto

lemma rt_finish_Some:
  assumes wf: "classes_wf st fts ro objk" and inv: "rt_inv st objk rts" and x: "rts x = None" and p: "parent_ok st objk rts x po pfs"
    and t0: "rto_t t0 = ot" "data_of st ot = RObj x" "rto_nfields t0 = length (pfs @ ro_fields (st_obj st x))" "rto_parent t0 = super_of st x"
      "rto_pad_size t0 = 0" "rto_mark_bits t0 = None" "objk x = HOBJ \<longrightarrow> rto_largest_field t0 = 8"
      "case po of None \<Rightarrow> rto_indexes t0 = [] | Some (y, prt) \<Rightarrow> rto_indexes t0 = rto_indexes prt \<and> rto_size t0 = rto_size prt - rto_pad_size prt \<and>
         rto_largest_field t0 = rto_largest_field prt"
    and g: "grows t0 t" and l: "layout_part st rts (header objk x) (pfs @ ro_fields (st_obj st x)) (rto_size t) t"
  shows "\<exists>t'. rt_finish st fts x rts (map_option snd po) t = Some (rts(x \<mapsto> t')) \<and> rt_good st objk rts x (pfs @ ro_fields (st_obj st x)) t'"
proof -
  define own where "own = ro_fields (st_obj st x)"
  have L: "rto_largest_field t \<in> {0, 1, 2, 4, 8}" using l by (simp add: layout_part_def)
  have pad: "rto_pad_size t = 0" using g t0 by (simp add: grows_def)
  define t1 where "t1 = rt_align_size t"
  note a = rt_align_size_ok [OF L pad, folded t1_def]
  have t1: "rto_hasPtr t1 = rto_hasPtr t" "rto_indexes t1 = rto_indexes t" "rto_t t1 = rto_t t" "rto_nfields t1 = rto_nfields t"
    "rto_parent t1 = rto_parent t" "rto_mark_bits t1 = rto_mark_bits t" by (simp_all add: t1_def rt_align_size_def Let_def)
  obtain h where h: "hash_name (USTR ''__compare'') = Some h" using hash_name_USTR by blast
  obtain np nm lk cf where m: "rt_methods st fts h (map_option snd po) (ro_proto (st_obj st x)) t1 =
      Some (t1\<lparr>rto_nproto := np, rto_nmethods := nm, rto_lookup := lk, rto_compareFun := cf\<rparr>)"
    using rt_methods_Some [OF classes_wfD(7) [OF wf]] by blast
  define t2 where "t2 = t1\<lparr>rto_nproto := np, rto_nmethods := nm, rto_lookup := lk, rto_compareFun := cf\<rparr>"
  have t2: "rto_size t2 - rto_pad_size t2 = rto_size t" "0 \<le> rto_pad_size t2" "rto_largest_field t2 = rto_largest_field t"
    "0 < rto_largest_field t \<Longrightarrow> rto_largest_field t dvd rto_size t2 \<and> rto_pad_size t2 < rto_largest_field t"
    "rto_largest_field t = 0 \<Longrightarrow> rto_pad_size t2 = 0" "rto_hasPtr t2 = rto_hasPtr t" "rto_indexes t2 = rto_indexes t" "rto_t t2 = rto_t t"
    "rto_nfields t2 = rto_nfields t" "rto_parent t2 = rto_parent t" "rto_mark_bits t2 = rto_mark_bits t"
    using a(1-5) t1 by (simp_all add: t2_def)
  have l2: "layout_part st rts (header objk x) (pfs @ own) (rto_size t2 - rto_pad_size t2) t2"
    using layout_part_cong [OF l, of t2] t2(1,3,6,7) by (simp add: own_def)
  obtain os where os: "rto_indexes t = rto_indexes t0 @ os" using g by (auto simp: grows_def)
  have cf: "class_fields st x (pfs @ own)" using p by (simp add: parent_ok_def own_def)
  have fit: "\<forall>f\<in>set (pfs @ own). words_fit st rts (rf_t f)"
    using fields_fit [OF wf inv] class_fields_origin [OF cf] layout_part_field [OF l2] by blast
  have len: "length (rto_indexes t0) = length pfs"
  proof (cases po)
    case None
    then show ?thesis using t0(8) p by (simp add: parent_ok_def)
  next
    case (Some yp)
    then show ?thesis using t0(8) p placed_length [OF layout_part_placed] by (cases yp) (auto simp: parent_ok_def rt_good_def)
  qed
  have par: "rto_nfields prt = length pfs \<and> rto_indexes prt = rto_indexes t0 \<and> class_marks_ok st rts pfs prt \<and> 0 \<le> rto_size prt \<and>
      rto_size prt \<le> rto_size t2 \<and> (rto_hasPtr prt \<longleftrightarrow> (\<exists>f\<in>set pfs. fpointer st rts (rf_t f)))" if po: "po = Some (y, prt)" for y prt
  proof -
    have gp: "rt_good st objk rts y pfs prt" using p po by (simp add: parent_ok_def)
    then have lp: "layout_part st rts (header objk y) pfs (rto_size prt - rto_pad_size prt) prt" "0 \<le> rto_pad_size prt" by (simp_all add: rt_good_def)
    have "rto_size prt \<le> rto_size t2"
    proof (rule parent_size_le)
      show "rto_largest_field prt \<in> {0, 1, 2, 4, 8}" using lp by (simp add: layout_part_def)
      show "rto_largest_field t \<in> {0, 1, 2, 4, 8}" by (rule L)
      show "rto_largest_field prt \<le> rto_largest_field t" using g t0(8) po by (simp add: grows_def)
      show "rto_size prt - rto_pad_size prt \<le> rto_size t2" using g t0(8) po t2(1,2) by (simp add: grows_def)
    qed (use gp t2(4) in \<open>auto simp: rt_good_def\<close>)
    then show ?thesis using gp lp t0(8) po layout_part_le [OF lp(1)] by (simp add: rt_good_def layout_part_def)
  qed
  obtain mb where mb: "rt_mark st rts own (map_option snd po) t2 = Some (t2\<lparr>rto_mark_bits := mb\<rparr>)"
    "class_marks_ok st rts (pfs @ own) (t2\<lparr>rto_mark_bits := mb\<rparr>)"
    using rt_mark_Some [OF l2 t2(2) _ fit, of "rto_indexes t0" os "map_option snd po"] t2 os len par g t0 p
    by (auto simp: grows_def parent_ok_def split: option.splits)
  define t3 where "t3 = t2\<lparr>rto_mark_bits := mb\<rparr>"
  have t3: "rto_size t3 = rto_size t2" "rto_pad_size t3 = rto_pad_size t2" "rto_largest_field t3 = rto_largest_field t"
    "rto_indexes t3 = rto_indexes t0 @ os" "rto_t t3 = ot" "rto_nfields t3 = length (pfs @ own)" "rto_parent t3 = super_of st x"
    using t2 os g t0 by (simp_all add: t3_def grows_def own_def)
  have l3: "layout_part st rts (header objk x) (pfs @ own) (rto_size t3 - rto_pad_size t3) t3"
    using layout_part_cong [OF l2, of t3] by (simp add: t3_def)
  have k8: "objk x = HOBJ \<longrightarrow> rto_largest_field t3 = 8" using g t0(7) L t3(3) by (auto simp: grows_def)
  have par3: "\<exists>q. rts y = Some q \<and> rto_indexes q = take (rto_nfields q) (rto_indexes t3) \<and> rto_size q \<le> rto_size t3" if s: "super_of st x = Some y" for y
  proof -
    obtain prt where po: "po = Some (y, prt)" "rts y = Some prt" using s p by (cases po) (auto simp: parent_ok_def)
    then show ?thesis using par [OF po(1)] len by (simp add: t3)
  qed
  have "rt_good st objk rts x (pfs @ own) t3"
    unfolding rt_good_def using cf t0(2) t3 l3 t2(2,4,5) k8 mb(2) par3 by (simp add: t3_def)
  moreover have "rt_finish st fts x rts (map_option snd po) t = Some (rts(x \<mapsto> t3))"
    using h m mb(1) by (simp add: rt_finish_def t3_def flip: own_def t1_def t2_def)
  ultimately show ?thesis by (auto simp: own_def)
qed

lemma hl_get_obj_rt_ok:
  assumes wf: "classes_wf st fts ro objk"
  shows "rt_inv st objk rts \<Longrightarrow> data_of st ot = RObj x \<Longrightarrow>
    \<exists>rts'. hl_get_obj_rt st fts ot rts = Some rts' \<and> computes st ro objk rts (Suc (ro x)) rts' \<and> rts' x \<noteq> None"
proof (induction "ro x" arbitrary: x ot rts rule: less_induct)
  case less
  note inv = less.prems(1) and ot = less.prems(2)
  show ?case
  proof (cases "rts x")
    case (Some t)
    then show ?thesis using inv ot by (auto simp: hl_get_obj_rt.simps [of st fts ot] computes_def)
  next
    case None
    obtain rts1 po pfs where r1: "(case ro_super (st_obj st x) of None \<Rightarrow> Some rts | Some s \<Rightarrow> hl_get_obj_rt st fts s rts) = Some rts1"
      "computes st ro objk rts (ro x) rts1" "parent_rt st x rts1 = Some po" "parent_ok st objk rts1 x po pfs"
    proof (cases "ro_super (st_obj st x)")
      case None
      then show thesis using that [of rts None "[]"] inv class_root [OF None]
        by (simp add: computes_def parent_rt_def parent_ok_def super_of_def)
    next
      case (Some s)
      then obtain y where y: "data_of st s = RObj y" "ro y < ro x" using classes_wfD(1) [OF wf] by (auto simp: objs_wf_def)
      then obtain rts1 where rts1: "hl_get_obj_rt st fts s rts = Some rts1" "computes st ro objk rts (Suc (ro y)) rts1" "rts1 y \<noteq> None"
        using less.hyps [of y rts s] inv by blast
      then obtain prt where prt: "rts1 y = Some prt" by blast
      then obtain pfs where g: "rt_good st objk rts1 y pfs prt" using rts1(2) unfolding computes_def rt_inv_def by blast
      have s: "super_of st x = Some y" using Some y by (simp add: super_of_def)
      have "class_fields st x (pfs @ ro_fields (st_obj st x))" using g s by (auto simp: rt_good_def intro: class_sub)
      then have "parent_ok st objk rts1 x (Some (y, prt)) pfs" using s g prt by (simp add: parent_ok_def)
      moreover have "parent_rt st x rts1 = Some (Some (y, prt))" using Some y prt by (simp add: parent_rt_def)
      moreover have "computes st ro objk rts (ro x) rts1" using rts1(2) y(2) by (auto simp: computes_def)
      ultimately show thesis using that Some rts1(1) by simp
    qed
    have i1: "rt_inv st objk rts1" using r1(2) by (simp add: computes_def)
    obtain t where t: "rt_start st ot x po = Some t" "layout_part st rts1 (header objk x) pfs (rto_size t) t"
      "rto_t t = ot" "rto_nfields t = length (pfs @ ro_fields (st_obj st x))" "rto_parent t = super_of st x" "rto_pad_size t = 0"
      "rto_mark_bits t = None" "objk x = HOBJ \<longrightarrow> rto_largest_field t = 8"
      "case po of None \<Rightarrow> rto_indexes t = [] | Some (y, prt) \<Rightarrow> rto_indexes t = rto_indexes prt \<and> rto_size t = rto_size prt - rto_pad_size prt \<and>
         rto_largest_field t = rto_largest_field prt"
      using rt_start_Some [OF wf ot r1(4)] by blast
    have "\<exists>rts2 t'. foldM (\<lambda>f s. do {
           rts \<leftarrow> (if kind_of st (rf_t f) = HPACKED then param_of (data_of st (rf_t f)) \<bind> (\<lambda>q. hl_get_obj_rt st fts q (fst s)) else Some (fst s));
           t \<leftarrow> rt_field_step st rts f (snd s);
           Some (rts, t) }) (ro_fields (st_obj st x)) (rts1, t) = Some (rts2, t') \<and>
        computes st ro objk rts1 (ro x) rts2 \<and> layout_part st rts2 (header objk x) (pfs @ ro_fields (st_obj st x)) (rto_size t') t' \<and> grows t t'"
      by (rule fields_loop [OF wf _ _ _ i1 t(2)]) (use less.hyps in auto)
    then obtain rts2 t' where r2: "foldM (\<lambda>f s. do {
           rts \<leftarrow> (if kind_of st (rf_t f) = HPACKED then param_of (data_of st (rf_t f)) \<bind> (\<lambda>q. hl_get_obj_rt st fts q (fst s)) else Some (fst s));
           t \<leftarrow> rt_field_step st rts f (snd s);
           Some (rts, t) }) (ro_fields (st_obj st x)) (rts1, t) = Some (rts2, t')"
      "computes st ro objk rts1 (ro x) rts2" "layout_part st rts2 (header objk x) (pfs @ ro_fields (st_obj st x)) (rto_size t') t'" "grows t t'"
      by blast
    have i2: "rt_inv st objk rts2" and m2: "rts1 \<subseteq>\<^sub>m rts2" using r2(2) by (auto simp: computes_def)
    have n2: "rts2 x = None" using r1(2) r2(2) None by (simp add: computes_def)
    obtain t2 where t2: "rt_finish st fts x rts2 (map_option snd po) t' = Some (rts2(x \<mapsto> t2))"
      "rt_good st objk rts2 x (pfs @ ro_fields (st_obj st x)) t2"
      using rt_finish_Some [OF wf i2 n2 parent_ok_mono [OF r1(4) m2] t(3) ot t(4-9) r2(4,3)] by blast
    have "hl_get_obj_rt st fts ot rts = Some (rts2(x \<mapsto> t2))"
      by (subst hl_get_obj_rt.simps) (simp add: ot None r1(1,3) t(1) r2(1) t2(1))
    moreover have "computes st ro objk rts (Suc (ro x)) (rts2(x \<mapsto> t2))"
      using rt_inv_update [OF i2 n2 t2(2)] r1(2) r2(2) unfolding computes_def by (auto intro: map_le_trans)
    ultimately show ?thesis by simp
  qed
qed

subsection \<open>Properties of the layout\<close>

lemma rt_inv_empty: "rt_inv st objk (\<lambda>_. None)"
  by (simp add: rt_inv_def)

lemma rt_good_fields:
  assumes "rt_good st objk rts x fs t" "i < length fs"
  shows "falign st rts (rf_t (fs ! i)) dvd rto_indexes t ! i \<and> header objk x \<le> rto_indexes t ! i \<and>
    rto_indexes t ! i + fsize st rts (rf_t (fs ! i)) \<le> rto_size t \<and>
    (\<forall>j<i. rto_indexes t ! j + fsize st rts (rf_t (fs ! j)) \<le> rto_indexes t ! i) \<and> falign st rts (rf_t (fs ! i)) dvd rto_size t"
proof -
  have l: "layout_part st rts (header objk x) fs (rto_size t - rto_pad_size t) t" "0 \<le> rto_pad_size t"
    and d: "0 < rto_largest_field t \<longrightarrow> rto_largest_field t dvd rto_size t" using assms(1) by (auto simp: rt_good_def)
  have f: "falign st rts (rf_t (fs ! i)) \<in> {1, 2, 4, 8}" "rto_largest_field t \<in> {0, 1, 2, 4, 8}"
    "falign st rts (rf_t (fs ! i)) \<le> rto_largest_field t \<or> falign st rts (rf_t (fs ! i)) = 1"
    using l(1) assms(2) by (simp_all add: layout_part_def)
  have "falign st rts (rf_t (fs ! i)) dvd rto_size t"
  proof (cases "falign st rts (rf_t (fs ! i)) = 1")
    case False
    then have "falign st rts (rf_t (fs ! i)) dvd rto_largest_field t" "0 < rto_largest_field t" using f by auto
    then show ?thesis using d dvd_trans by blast
  qed simp
  then show ?thesis using placed_on(2) [OF layout_part_placed [OF l(1)] layout_part_sizes [OF l(1)], of i] assms(2) l(2) by simp
qed

text \<open>
  C10: \<open>hl_get_obj_rt\<close> lays out objects correctly, whatever has been computed before. The call returns, keeps what was computed, and gives the
  class offsets for all of its fields, inherited ones first: each is aligned for its type, behind the header, inside of the size of the
  object and apart from the others, packed structures included. The size is a multiple of every alignment, so that the elements of
  an array of objects are aligned, too.
\<close>

theorem obj_rt_layout:
  assumes "classes_wf st fts ro objk" "rt_inv st objk rts" "data_of st ot = RObj x"
  shows "\<exists>rts' t fs. hl_get_obj_rt st fts ot rts = Some rts' \<and> rts \<subseteq>\<^sub>m rts' \<and> rt_inv st objk rts' \<and> rts' x = Some t \<and> class_fields st x fs \<and>
    rto_nfields t = length fs \<and> length (rto_indexes t) = length fs \<and>
    (\<forall>i<length fs. falign st rts' (rf_t (fs ! i)) dvd rto_indexes t ! i \<and> header objk x \<le> rto_indexes t ! i \<and>
       rto_indexes t ! i + fsize st rts' (rf_t (fs ! i)) \<le> rto_size t \<and>
       (\<forall>j<i. rto_indexes t ! j + fsize st rts' (rf_t (fs ! j)) \<le> rto_indexes t ! i) \<and> falign st rts' (rf_t (fs ! i)) dvd rto_size t)"
proof -
  obtain rts' where r: "hl_get_obj_rt st fts ot rts = Some rts'" "computes st ro objk rts (Suc (ro x)) rts'" "rts' x \<noteq> None"
    using hl_get_obj_rt_ok [OF assms] by blast
  then obtain t fs where t: "rts' x = Some t" "rt_good st objk rts' x fs t" unfolding computes_def rt_inv_def by blast
  have "length (rto_indexes t) = length fs" using t(2) placed_length [OF layout_part_placed] unfolding rt_good_def by fastforce
  moreover have "rts \<subseteq>\<^sub>m rts'" "rt_inv st objk rts'" using r(2) by (auto simp: computes_def)
  moreover have "class_fields st x fs" "rto_nfields t = length fs" using t(2) by (auto simp: rt_good_def)
  ultimately show ?thesis using r(1) t(1) rt_good_fields [OF t(2)] by blast
qed

text \<open>
  C11: The mark bits of a class are exact: \<open>hl_get_obj_rt\<close> sets a bit for each word of an object that holds a pointer, in its own and in
  inherited fields and inside of packed structures, and for no other word; the bits cover the whole object; a class without mark bits has no
  pointers.
\<close>

theorem obj_rt_marks:
  assumes "classes_wf st fts ro objk" "rt_inv st objk rts" "data_of st ot = RObj x"
  shows "\<exists>rts' t fs. hl_get_obj_rt st fts ot rts = Some rts' \<and> rts' x = Some t \<and> class_fields st x fs \<and>
    (rto_hasPtr t \<longleftrightarrow> (\<exists>f\<in>set fs. fpointer st rts' (rf_t f))) \<and>
    (case rto_mark_bits t of None \<Rightarrow> \<not> rto_hasPtr t
     | Some m \<Rightarrow> 4 * int (length m) = hl_mark_size (rto_size t) \<and>
         (\<forall>p. word_marked m p \<longleftrightarrow> int p \<in> field_words st rts' (map rf_t fs) (rto_indexes t) \<and> 8 * int p + 8 \<le> rto_size t))"
proof -
  obtain rts' where r: "hl_get_obj_rt st fts ot rts = Some rts'" "computes st ro objk rts (Suc (ro x)) rts'" "rts' x \<noteq> None"
    using hl_get_obj_rt_ok [OF assms] by blast
  then obtain t fs where t: "rts' x = Some t" "rt_good st objk rts' x fs t" unfolding computes_def rt_inv_def by blast
  have i: "rt_inv st objk rts'" using r(2) by (simp add: computes_def)
  have g: "class_fields st x fs" "layout_part st rts' (header objk x) fs (rto_size t - rto_pad_size t) t" "0 \<le> rto_pad_size t" "class_marks_ok st rts' fs t"
    using t(2) by (simp_all add: rt_good_def)
  have fit: "\<forall>f\<in>set fs. words_fit st rts' (rf_t f)"
    using fields_fit [OF assms(1) i] class_fields_origin [OF g(1)] layout_part_field [OF g(2)] by blast
  have "8 * w + 8 \<le> rto_size t" if "w \<in> field_words st rts' (map rf_t fs) (rto_indexes t)" for w
    using layout_words_range [OF g(2) fit that] g(3) by linarith
  then have "case rto_mark_bits t of None \<Rightarrow> \<not> rto_hasPtr t
     | Some m \<Rightarrow> 4 * int (length m) = hl_mark_size (rto_size t) \<and>
         (\<forall>p. word_marked m p \<longleftrightarrow> int p \<in> field_words st rts' (map rf_t fs) (rto_indexes t) \<and> 8 * int p + 8 \<le> rto_size t)"
    using g(4) by (auto simp: class_marks_ok_def split: option.splits)
  moreover have "rto_hasPtr t \<longleftrightarrow> (\<exists>f\<in>set fs. fpointer st rts' (rf_t f))" using g(2) by (simp add: layout_part_def)
  ultimately show ?thesis using r(1) t(1) g(1) by blast
qed

text \<open>A class with a superclass and a packed structure.\<close>

definition class_types :: "addr \<Rightarrow> rt_type" where
  "class_types a =
    (if a = 1 then \<lparr>rt_kind = HI32, rt_data = RNone\<rparr> else if a = 2 then \<lparr>rt_kind = HBYTES, rt_data = RNone\<rparr>
     else if a = 3 then \<lparr>rt_kind = HSTRUCT, rt_data = RObj 0\<rparr> else if a = 4 then \<lparr>rt_kind = HPACKED, rt_data = RParam 3\<rparr>
     else if a = 5 then \<lparr>rt_kind = HOBJ, rt_data = RObj 1\<rparr> else if a = 6 then \<lparr>rt_kind = HOBJ, rt_data = RObj 2\<rparr>
     else \<lparr>rt_kind = HVOID, rt_data = RNone\<rparr>)"

definition class_objs :: "addr \<Rightarrow> rt_obj" where
  "class_objs a =
    (if a = 0 then \<lparr>ro_name = 0, ro_super = None, ro_fields = [sample_field 9 1 1, sample_field 9 2 2], ro_proto = [], ro_bindings = []\<rparr>
     else if a = 2 then \<lparr>ro_name = 2, ro_super = Some 5, ro_fields = [sample_field 9 4 3, sample_field 9 1 4], ro_proto = [], ro_bindings = []\<rparr>
     else \<lparr>ro_name = a, ro_super = None, ro_fields = [sample_field 9 1 5], ro_proto = [], ro_bindings = []\<rparr>)"

definition class_store :: rt_store where
  "class_store = \<lparr>st_type = class_types, st_obj = class_objs, st_virt = (\<lambda>_. []),
     st_enum = (\<lambda>_. \<lparr>re_name = None, re_constructs = []\<rparr>), st_str = (\<lambda>_. USTR ''f''), st_string_type = None\<rparr>"

definition class_kind :: "addr \<Rightarrow> hl_type_kind" where
  "class_kind x = (if x = 0 then HSTRUCT else HOBJ)"

lemma class_store_simps [simp]: "st_type class_store = class_types" "st_obj class_store = class_objs" "st_str class_store = (\<lambda>_. USTR ''f'')"
  "st_string_type class_store = None"
  by (simp_all add: class_store_def)

lemma class_store_wf: "classes_wf class_store [] (\<lambda>x. x) class_kind"
  unfolding classes_wf_def
  by (auto simp: objs_wf_def super_of_def class_types_def class_objs_def class_kind_def sample_field_def split: if_splits)

theorem obj_rt_layout_witness:
  "\<exists>rts' t fs. hl_get_obj_rt class_store [] 6 (\<lambda>_. None) = Some rts' \<and> rt_inv class_store class_kind rts' \<and> rts' 2 = Some t \<and>
    class_fields class_store 2 fs \<and> length (rto_indexes t) = length fs \<and> (\<forall>i<length fs. header class_kind 2 \<le> rto_indexes t ! i)"
proof -
  have "data_of class_store 6 = RObj 2" by (simp add: class_types_def)
  from obj_rt_layout [OF class_store_wf rt_inv_empty this] show ?thesis by blast
qed

theorem obj_rt_marks_witness:
  "\<exists>rts' t fs. hl_get_obj_rt class_store [] 6 (\<lambda>_. None) = Some rts' \<and> rts' 2 = Some t \<and> class_fields class_store 2 fs \<and>
    (rto_hasPtr t \<longleftrightarrow> (\<exists>f\<in>set fs. fpointer class_store rts' (rf_t f)))"
proof -
  have "data_of class_store 6 = RObj 2" by (simp add: class_types_def)
  from obj_rt_marks [OF class_store_wf rt_inv_empty this] show ?thesis by blast
qed

subsection \<open>Casts keep the layout\<close>

lemma rt_invD: "rt_inv st objk rts \<Longrightarrow> rts x = Some t \<Longrightarrow> \<exists>fs. rt_good st objk rts x fs t"
  by (simp add: rt_inv_def)

lemma extends_prefix:
  assumes "extends st x y" "rt_inv st objk rts" "rts x = Some t" "class_fields st x fs"
  shows "\<exists>u gs hs. rts y = Some u \<and> class_fields st y gs \<and> fs = gs @ hs \<and> rto_indexes u = take (length gs) (rto_indexes t) \<and> rto_size u \<le> rto_size t"
  using assms
proof (induction arbitrary: t fs rule: extends.induct)
  case (extends_refl x)
  obtain gs where g: "rt_good st objk rts x gs t" using rt_invD [OF extends_refl(1,2)] by blast
  then have "gs = fs" using extends_refl(3) class_fields_unique by (auto simp: rt_good_def)
  moreover have "length (rto_indexes t) = length gs" using g placed_length [OF layout_part_placed] unfolding rt_good_def by fastforce
  ultimately show ?case using extends_refl by auto
next
  case (extends_step x y z)
  obtain gs where g: "rt_good st objk rts x gs t" using rt_invD [OF extends_step(4,5)] by blast
  then obtain p where p: "rts y = Some p" "rto_indexes p = take (rto_nfields p) (rto_indexes t)" "rto_size p \<le> rto_size t"
    using extends_step(1) by (auto simp: rt_good_def)
  obtain ps where gp: "rt_good st objk rts y ps p" using rt_invD [OF extends_step(4) p(1)] by blast
  then have ps: "class_fields st y ps" "rto_nfields p = length ps" by (auto simp: rt_good_def)
  have fs: "fs = ps @ ro_fields (st_obj st x)"
    using class_fields_unique [OF extends_step(6) class_sub [OF extends_step(1) ps(1)]] .
  obtain u gs hs where "rts z = Some u" "class_fields st z gs" "ps = gs @ hs" "rto_indexes u = take (length gs) (rto_indexes p)" "rto_size u \<le> rto_size p"
    using extends_step.IH [OF extends_step(4) p(1) ps(1)] by blast
  then show ?case using p fs ps(2) by (intro exI [of _ u] exI [of _ gs] exI [of _ "hs @ ro_fields (st_obj st x)"]) (auto simp: min_def)
qed

lemma string_fields:
  assumes "is_string st t" "data_of st t = RObj x"
  shows "\<exists>f g. class_fields st x [f, g] \<and> kind_of st (rf_t f) = HBYTES \<and> kind_of st (rf_t g) = HI32"
proof -
  have s: "is_string_obj st (st_obj st x) = Some True" using assms by (simp add: is_string_def)
  then have n: "ro_super (st_obj st x) = None" "length (ro_fields (st_obj st x)) = 2" by (auto simp: is_string_obj_def split: if_splits)
  then obtain f g where "ro_fields (st_obj st x) = [f, g]" by (auto simp: length_Suc_conv numeral_2_eq_2)
  then show ?thesis using s n class_root [OF n(1)] by (auto simp: is_string_obj_def split: bind_splits)
qed

lemma same_kinds_same_layout:
  assumes g: "rt_good st objk rts x fs t" "rt_good st objk rts y gs u" and h: "objk x = HOBJ" "objk y = HOBJ"
    and k: "length fs = length gs" "\<forall>i<length fs. kind_of st (rf_t (fs ! i)) = kind_of st (rf_t (gs ! i)) \<and> kind_of st (rf_t (fs ! i)) \<noteq> HPACKED"
  shows "rto_indexes t = rto_indexes u \<and> rto_size t = rto_size u"
proof -
  have e: "\<forall>i<length fs. fsize st rts (rf_t (fs ! i)) = fsize st rts (rf_t (gs ! i)) \<and> falign st rts (rf_t (fs ! i)) = falign st rts (rf_t (gs ! i))"
    using k(2) by (auto simp: fsize_def falign_def hl_type_size_def align_of_def)
  have p: "placed (fsize st rts) (falign st rts) 8 (map rf_t fs) (rto_indexes t) (rto_size t - rto_pad_size t)"
    "placed (fsize st rts) (falign st rts) 8 (map rf_t gs) (rto_indexes u) (rto_size u - rto_pad_size u)"
    using g h layout_part_placed by (auto simp: rt_good_def header_def)
  have "rto_indexes t = rto_indexes u \<and> rto_size t - rto_pad_size t = rto_size u - rto_pad_size u"
    using placed_unique_end [OF p] k(1) e by simp
  moreover from this have "rto_size t = rto_size u"
    using g h by (intro aligned_unique [of 8 _ _ "rto_size t - rto_pad_size t"]) (auto simp: rt_good_def)
  ultimately show ?thesis by simp
qed


lemma class_types_wf: "store_wf class_store (\<lambda>a. if a = 4 then 1 else 0) (\<lambda>x. x)"
  unfolding store_wf_def types_wf_def objs_wf_def strings_wf_def
  by (auto simp: super_of_def class_types_def class_objs_def is_string_obj_def split: if_splits)


subsection \<open>Fetching a field\<close>

lemma fetch_loop_ok:
  assumes "class_fields st x fs" "rt_inv st objk rts" "rts x \<noteq> None" "i < length fs"
  shows "\<exists>y k. fetch_loop rts x i = Some (y, k) \<and> k < length (ro_fields (st_obj st y)) \<and> ro_fields (st_obj st y) ! k = fs ! i"
  using assms
proof (induction arbitrary: i rule: class_fields.induct)
  case (class_root x)
  then obtain t gs where t: "rts x = Some t" "rt_good st objk rts x gs t" using rt_invD by blast
  then have "rto_parent t = None" using class_root(1) by (simp add: rt_good_def super_of_def)
  then show ?case using t(1) class_root by (simp add: fetch_loop.simps [of rts x])
next
  case (class_sub x y fs)
  then obtain t gs where t: "rts x = Some t" "rt_good st objk rts x gs t" using rt_invD by blast
  then obtain p where p: "rts y = Some p" "rto_parent t = Some y" using class_sub(1) by (auto simp: rt_good_def)
  obtain hs where "rt_good st objk rts y hs p" using rt_invD [OF class_sub(4) p(1)] by blast
  then have n: "rto_nfields p = length fs" using class_fields_unique [OF class_sub(2)] by (auto simp: rt_good_def)
  show ?case
  proof (cases "i < length fs")
    case True
    then show ?thesis using class_sub.IH [OF class_sub(4) _ True] t(1) p n by (simp add: fetch_loop.simps [of rts x] nth_append)
  next
    case False
    then show ?thesis using t(1) p n class_sub(6) by (auto simp: fetch_loop.simps [of rts x] nth_append)
  qed
qed

text \<open>
  C16: \<open>hl_obj_field_fetch\<close> numbers the fields of a class and of its superclasses in one sequence: for a valid number it walks to the
  class that declares the field and returns it, and for any other number, or for a type that is no class, it returns \<open>NULL\<close>.
\<close>

theorem field_fetch_correct:
  assumes "classes_wf st fts ro objk" "rt_inv st objk rts" "data_of st t = RObj x"
  shows "\<exists>rts' fs. hl_obj_field_fetch st fts t fid rts = Some (if 0 \<le> fid \<and> fid < int (length fs) then Some (fs ! nat fid) else None, rts') \<and>
    class_fields st x fs \<and> rts \<subseteq>\<^sub>m rts' \<and> rt_inv st objk rts'"
proof -
  obtain rts' where r: "hl_get_obj_rt st fts t rts = Some rts'" "computes st ro objk rts (Suc (ro x)) rts'" "rts' x \<noteq> None"
    using hl_get_obj_rt_ok [OF assms] by blast
  then have c: "rts \<subseteq>\<^sub>m rts'" "rt_inv st objk rts'" by (auto simp: computes_def)
  obtain rt fs where rt: "rts' x = Some rt" "rt_good st objk rts' x fs rt" using r(3) rt_invD [OF c(2)] by blast
  then have fs: "class_fields st x fs" "rto_nfields rt = length fs" by (auto simp: rt_good_def)
  have k: "kind_of st t \<in> {HOBJ, HSTRUCT}" using classes_wfD(3,4) [OF assms(1)] assms(3) by simp
  have "hl_obj_field_fetch st fts t fid rts = Some (if 0 \<le> fid \<and> fid < int (length fs) then Some (fs ! nat fid) else None, rts')"
  proof (cases "0 \<le> fid \<and> fid < int (length fs)")
    case True
    then have "nat fid < length fs" by (simp add: nat_less_iff)
    then obtain y k where "fetch_loop rts' x (nat fid) = Some (y, k)" "k < length (ro_fields (st_obj st y))" "ro_fields (st_obj st y) ! k = fs ! nat fid"
      using fetch_loop_ok [OF fs(1) c(2) r(3)] by blast
    then show ?thesis using True k assms(3) r(1) rt(1) fs(2) by (simp add: hl_obj_field_fetch_def)
  next
    case False
    then show ?thesis using k assms(3) r(1) rt(1) fs(2) by (auto simp: hl_obj_field_fetch_def)
  qed
  with fs(1) c show ?thesis by blast
qed

theorem field_fetch_correct_witness:
  "\<exists>rts' fs. hl_obj_field_fetch class_store [] 6 1 (\<lambda>_. None) = Some (if 0 \<le> (1 :: int) \<and> 1 < int (length fs) then Some (fs ! nat 1) else None, rts') \<and>
    class_fields class_store 2 fs"
proof -
  have "data_of class_store 6 = RObj 2" by (simp add: class_types_def)
  from field_fetch_correct [OF class_store_wf rt_inv_empty this, of 1] show ?thesis by blast
qed

subsection \<open>obj.c: virtuals\<close>

record virtual_rt =
  vr_lookup :: "addr hl_field_lookup list"
  vr_indexes :: "int list"
  vr_dataSize :: int
  vr_mark :: "u32 list"

fun virtual_fields :: "rt_store \<Rightarrow> nat \<Rightarrow> rt_field list \<Rightarrow> addr hl_field_lookup list \<Rightarrow> int \<Rightarrow> int list \<Rightarrow> addr hl_field_lookup list \<times> int \<times> int list" where
  "virtual_fields st i [] l sz os = (l, sz, os)"
| "virtual_fields st i (f # fs) l sz os =
    (let off = sz + hl_pad_struct st sz (rf_t f) in
     virtual_fields st (i + 1) fs (fst (hl_lookup_insert l i (rf_hashed_name f) (rf_t f) (int i))) (off + hl_type_size st (rf_t f)) (os @ [off]))"

fun virtual_marks :: "rt_store \<Rightarrow> addr list \<Rightarrow> int list \<Rightarrow> u32 list \<Rightarrow> u32 list option" where
  "virtual_marks st (t # ts) (off # os) mark = do {
     mark \<leftarrow> (if hl_is_ptr st t then mark_bit 0 (off div HL_WSIZE) mark else Some mark);
     virtual_marks st ts os mark }"
| "virtual_marks st _ _ mark = Some mark"

definition hl_init_virtual :: "rt_store \<Rightarrow> addr \<Rightarrow> virtual_rt option" where
  "hl_init_virtual st vt = do {
     v \<leftarrow> virt_of (data_of st vt);
     let fs = st_virt st v;
     let vsize = 3 * HL_WSIZE + HL_WSIZE * int (length fs);
     let (l, sz, os) = virtual_fields st 0 fs [] vsize [];
     let mark = replicate (nat (hl_mark_size sz div 4)) 0;
     mark \<leftarrow> (if mark = [] then None else Some (mark[0 := 2 OR 4]));
     mark \<leftarrow> virtual_marks st (map rf_t fs) os mark;
     Some \<lparr>vr_lookup = l, vr_indexes = os, vr_dataSize = sz - vsize, vr_mark = mark\<rparr> }"

lemma virtual_fields_placed:
  "\<exists>l' sz' ps. virtual_fields st i fs l sz os = (l', sz', os @ ps) \<and> placed (hl_type_size st) (align_of st) sz (map rf_t fs) ps sz'"
proof (induction fs arbitrary: i l sz os)
  case (Cons f fs)
  define off where "off = sz + hl_pad_struct st sz (rf_t f)"
  obtain l' sz' ps where "virtual_fields st (i + 1) fs (fst (hl_lookup_insert l i (rf_hashed_name f) (rf_t f) (int i))) (off + hl_type_size st (rf_t f))
      (os @ [off]) = (l', sz', (os @ [off]) @ ps)" "placed (hl_type_size st) (align_of st) (off + hl_type_size st (rf_t f)) (map rf_t fs) ps sz'"
    using Cons by blast
  moreover have "sz \<le> off" "off < sz + align_of st (rf_t f)" "align_of st (rf_t f) dvd off"
    using hl_pad_struct_bounds [of st sz "rf_t f"] hl_pad_struct_aligned [of st "rf_t f" sz] by (auto simp: off_def)
  ultimately show ?case by (intro exI [of _ l'] exI [of _ sz'] exI [of _ "off # ps"]) (simp add: off_def Let_def)
qed simp

lemma virtual_marks_Some:
  assumes "length os = length ts" "\<And>i. i < length ts \<Longrightarrow> hl_is_ptr st (ts ! i) \<Longrightarrow> 0 \<le> os ! i div 8 \<and> os ! i div 8 < 32 * int (length mark)"
  shows "\<exists>m. virtual_marks st ts os mark = Some m \<and> length m = length mark \<and>
    (\<forall>p. word_marked m p \<longleftrightarrow> word_marked mark p \<or> (\<exists>i<length ts. hl_is_ptr st (ts ! i) \<and> int p = os ! i div 8))"
  using assms
proof (induction ts os arbitrary: mark rule: list_induct2')
  case (4 t ts x os)
  obtain m1 where m1: "(if hl_is_ptr st t then mark_bit 0 (x div HL_WSIZE) mark else Some mark) = Some m1" "length m1 = length mark"
    "\<forall>p. word_marked m1 p \<longleftrightarrow> word_marked mark p \<or> (hl_is_ptr st t \<and> int p = x div 8)"
  proof (cases "hl_is_ptr st t")
    case True
    then have r: "0 \<le> x div 8" "x div 8 < 32 * int (length mark)" using "4.prems"(2) [of 0] by auto
    obtain m where "mark_bit 0 (x div 8) mark = Some m" "length m = length mark" "\<forall>p. word_marked m p \<longleftrightarrow> word_marked mark p \<or> p = nat (x div 8)"
      using mark_bit_Some [of 0 "x div 8" mark] r by auto
    moreover have "p = nat (x div 8) \<longleftrightarrow> int p = x div 8" for p using r by auto
    ultimately show thesis using that True by (simp add: HL_WSIZE_def)
  qed (use that in auto)
  have "0 \<le> os ! i div 8 \<and> os ! i div 8 < 32 * int (length m1)" if "i < length ts" "hl_is_ptr st (ts ! i)" for i
    using "4.prems"(2) [of "Suc i"] that m1(2) by simp
  then obtain m where "virtual_marks st ts os m1 = Some m" "length m = length m1"
    "\<forall>p. word_marked m p \<longleftrightarrow> word_marked m1 p \<or> (\<exists>i<length ts. hl_is_ptr st (ts ! i) \<and> int p = os ! i div 8)"
    using "4.IH" [of m1] "4.prems"(1) by auto
  with m1 show ?case by (intro exI [of _ m]) (auto simp: Ex_less_Suc2)
qed auto

text \<open>
  C18: \<open>hl_init_virtual\<close> lays out virtuals correctly: behind the header and one word for each field, the data of the fields is aligned and
  does not overlap, and the mark array, which is never left, has a bit exactly for the words \<open>value\<close> and \<open>next\<close> and for the pointer fields.
\<close>

theorem init_virtual_layout:
  assumes "data_of st vt = RVirt v" "fs = st_virt st v" "\<forall>f\<in>set fs. kind_of st (rf_t f) \<noteq> HPACKED"
  shows "\<exists>vr. hl_init_virtual st vt = Some vr \<and> length (vr_indexes vr) = length fs \<and>
    (\<forall>i<length fs. align_of st (rf_t (fs ! i)) dvd vr_indexes vr ! i \<and> 24 + 8 * int (length fs) \<le> vr_indexes vr ! i \<and>
       vr_indexes vr ! i + hl_type_size st (rf_t (fs ! i)) \<le> 24 + 8 * int (length fs) + vr_dataSize vr \<and>
       (\<forall>j<i. vr_indexes vr ! j + hl_type_size st (rf_t (fs ! j)) \<le> vr_indexes vr ! i)) \<and>
    (\<forall>p. word_marked (vr_mark vr) p \<longleftrightarrow> p \<in> {1, 2} \<or> (\<exists>i<length fs. hl_is_ptr st (rf_t (fs ! i)) \<and> int p = vr_indexes vr ! i div 8))"
proof -
  define vsize where "vsize = 24 + 8 * int (length fs)"
  obtain l sz os where f: "virtual_fields st 0 fs [] vsize [] = (l, sz, os)" and p: "placed (hl_type_size st) (align_of st) vsize (map rf_t fs) os sz"
    using virtual_fields_placed [of st 0 fs "[]" vsize "[]"] by auto
  have len: "length os = length fs" using placed_length [OF p] by simp
  have le: "vsize \<le> sz" by (rule placed_le [OF p]) simp
  then have sz: "24 \<le> sz" by (simp add: vsize_def)
  define n where "n = nat (hl_mark_size sz div 4)"
  have n: "4 * int n = hl_mark_size sz" using sz by (simp add: n_def hl_mark_size_words)
  have n1: "0 < n" using mark_words_bound [of sz 0 n] sz n by simp
  define m0 where "m0 = (replicate n (0 :: u32))[0 := 2 OR 4]"
  have m0: "word_marked m0 q \<longleftrightarrow> q \<in> {1, 2}" for q
  proof -
    have b: "bit (2 ^ j :: u32) k \<longleftrightarrow> k = j" if "j < 32" for j k using that by (auto simp: bit_exp_iff)
    have "bit (2 OR 4 :: u32) k \<longleftrightarrow> k \<in> {1, 2}" for k
      using b [of 1 k] b [of 2 k] unfolding bit_or_iff by simp
    moreover define six where "six = (2 OR 4 :: u32)"
    ultimately have six: "bit six k \<longleftrightarrow> k \<in> {1, 2}" for k by simp
    show ?thesis
    proof (cases "q < 32")
      case True
      then show ?thesis using n1 six [of q] unfolding word_marked_def m0_def six_def [symmetric] by simp
    next
      case False
      then have "0 < q div 32" by (simp add: div_greater_zero_iff)
      then show ?thesis using False by (auto simp: word_marked_def m0_def)
    qed
  qed
  have words: "0 \<le> os ! i div 8 \<and> os ! i div 8 < 32 * int (length m0)" if "i < length (map rf_t fs)" "hl_is_ptr st (map rf_t fs ! i)" for i
  proof -
    have k: "kind_of st (rf_t (fs ! i)) \<noteq> HPACKED" using that assms(3) by simp
    have "vsize \<le> os ! i \<and> align_of st (map rf_t fs ! i) dvd os ! i \<and> os ! i + hl_type_size st (map rf_t fs ! i) \<le> sz"
      using placed_nth [OF p _ that(1)] by simp
    then have "8 dvd os ! i" "os ! i + 8 \<le> sz" "0 \<le> os ! i" using hl_is_ptr_size [OF _ k] that by (auto simp: vsize_def)
    then show ?thesis using mark_words_bound [of sz "os ! i div 8" n] n sz by (auto simp: m0_def)
  qed
  have "\<exists>m. virtual_marks st (map rf_t fs) os m0 = Some m \<and> length m = length m0 \<and>
      (\<forall>p. word_marked m p \<longleftrightarrow> word_marked m0 p \<or> (\<exists>i<length (map rf_t fs). hl_is_ptr st (map rf_t fs ! i) \<and> int p = os ! i div 8))"
    using len words by (intro virtual_marks_Some) auto
  then obtain m where m: "virtual_marks st (map rf_t fs) os m0 = Some m"
    "\<forall>p. word_marked m p \<longleftrightarrow> word_marked m0 p \<or> (\<exists>i<length fs. hl_is_ptr st (rf_t (fs ! i)) \<and> int p = os ! i div 8)" by (auto cong: conj_cong)
  have "hl_init_virtual st vt = Some \<lparr>vr_lookup = l, vr_indexes = os, vr_dataSize = sz - vsize, vr_mark = m\<rparr>"
  proof -
    have e: "(replicate n (0 :: u32))[0 := 6] = m0" "0 < hl_mark_size sz div 4" using n1 by (simp_all add: m0_def n_def)
    then show ?thesis using assms(1) f m(1) by (simp add: hl_init_virtual_def HL_WSIZE_def flip: assms(2) vsize_def n_def)
  qed
  then show ?thesis using len placed_nth [OF p hl_type_size_nonneg] m(2) m0 by (auto simp: vsize_def)
qed

theorem init_virtual_layout_witness:
  "\<exists>vr. hl_init_virtual sample_store 9 = Some vr \<and> length (vr_indexes vr) = 2"
proof -
  have "\<forall>f\<in>set (st_virt sample_store 0). kind_of sample_store (rf_t f) \<noteq> HPACKED"
    by (simp add: sample_store_def sample_field_def sample_types_def)
  moreover have "data_of sample_store 9 = RVirt 0" "length (st_virt sample_store 0) = 2" by (simp add: sample_types_def) (simp add: sample_store_def)
  ultimately show ?thesis using init_virtual_layout [of sample_store 9 0 "st_virt sample_store 0"] by fastforce
qed

end
