(* ===== verification/ObjScan.thy ===== *)
theory ObjScan
  imports ObjRuntime GcCollect
begin

unbundle bit_operations_syntax

text \<open>
  What the collector reads of an object. The mark bits that \<open>hl_get_obj_rt\<close> and \<open>hl_init_enum\<close> compute (theories \<open>ObjRuntime\<close> and \<open>DataLayout\<close>) are
  those that \<open>gc_flush_mark\<close> follows (theory \<open>GcMark\<close>), on blocks of the sizes that the allocator gives (theory \<open>GcPage\<close>).
\<close>

subsection \<open>Sizes of blocks\<close>

lemma round_up_8: "round_up sz 8 = 8 * ((sz + 7) div 8)"
  by (rule round_up_pow2 [of sz 3]) simp

lemma round_up_64: "round_up sz 64 = 64 * ((sz + 63) div 64)"
  by (rule round_up_pow2 [of sz 6]) simp

text \<open>The words of the block that is allocated for an object: exact for small objects, rounded up to eight words for medium ones.\<close>

lemma alloc_block_size:
  assumes a: "gc_allocator_alloc os sz kind oc h = Some (int blk, Some b, h')" and sz: "0 < sz" "sz < 64 * 254"
  shows "blk div 8 = (sz + 7) div 8 \<or> (2040 \<le> 8 * ((sz + 7) div 8) \<and> blk div 8 = 8 * (((sz + 7) div 8 + 7) div 8))"
proof -
  define w where "w = (sz + 7) div 8"
  have w: "0 < w" "w \<le> 8 * 254" using sz unfolding w_def by linarith+
  have r: "round_up sz 8 = 8 * w" by (simp add: round_up_8 w_def)
  have r8: "round_up (8 * w) 8 = 8 * w" by (simp add: round_up_8)
  have r64: "round_up (8 * w) 64 = 64 * ((w + 7) div 8)" unfolding round_up_64 by simp
  have small: "\<not> INT_LIMIT \<le> 8 * w" "\<not> GC_LARGE_BLOCK \<le> 8 * w" using w by (auto simp: INT_LIMIT_def GC_LARGE_BLOCK_def)
  show ?thesis
  proof (cases "8 * w \<le> 40 \<and> kind \<noteq> MEM_KIND_FINALIZER")
    case True
    then have "blk = GC_SIZES ! (drop_bit 3 (8 * w) - 1)"
      using a small w by (auto simp: gc_allocator_alloc_def Let_def r GC_SIZES_def GC_FIXED_PARTS_def)
    moreover have "GC_SIZES ! (drop_bit 3 (8 * w) - 1) = 8 * w"
    proof -
      have "drop_bit 3 (8 * w) = w" by (simp add: drop_bit_eq_div)
      moreover have "w \<in> {1, 2, 3, 4, 5}" using True w(1) by auto
      ultimately show ?thesis by (auto simp: GC_SIZES_def)
    qed
    ultimately show ?thesis by (simp flip: w_def)
  next
    case False
    have parts: "[GC_FIXED_PARTS..<GC_PARTITIONS] = [5, 6, 7, 8]" "GC_SIZES ! 5 = 8" "GC_SIZES ! 6 = 64" "GC_SIZES ! (GC_FIXED_PARTS - 1) = 40"
      by (simp_all add: GC_FIXED_PARTS_def GC_PARTITIONS_def GC_SIZES_def upt_conv_Cons)
    have f: "find (\<lambda>p. round_up (8 * w) (GC_SIZES ! p) < GC_SIZES ! p * 255) [GC_FIXED_PARTS..<GC_PARTITIONS] = Some (if 8 * w < 2040 then 5 else 6)"
    proof -
      have "(w + 7) div 8 < 255" using w(2) by linarith
      then show ?thesis by (simp add: parts r8 r64)
    qed
    have "blk = round_up (8 * w) (GC_SIZES ! (if 8 * w < 2040 then 5 else 6))"
      using a small False by (auto simp: gc_allocator_alloc_def Let_def r parts(4) [simplified] f)
    then have "blk = (if 8 * w < 2040 then 8 * w else 64 * ((w + 7) div 8))" by (simp add: parts r8 r64)
    then show ?thesis by (auto simp flip: w_def)
  qed
qed

lemma alloc_block_fits:
  assumes a: "gc_allocator_alloc os sz kind oc h = Some (int blk, Some b, h')" and sz: "0 < sz" "sz < 64 * 254"
  shows "sz \<le> 8 * (blk div 8)"
proof -
  define w where "w = (sz + 7) div 8"
  have "sz \<le> 8 * w" unfolding w_def by linarith
  moreover have "w \<le> 8 * ((w + 7) div 8)" by linarith
  moreover have "blk div 8 = w \<or> blk div 8 = 8 * ((w + 7) div 8)" using alloc_block_size [OF assms] unfolding w_def by blast
  ultimately show ?thesis by linarith
qed

subsection \<open>Scanning with mark bits\<close>

lemma scan_loop_marks:
  assumes "nwords \<le> 32 * length m"
  shows "scan_loop mem (Some m) block pos nwords = Some (map (\<lambda>p. word_at mem (block + 8 * (p - pos))) (filter (word_marked m) [pos..<nwords]))"
proof (induction "nwords - pos" arbitrary: block pos)
  case 0
  then show ?case by (simp add: scan_loop.simps [of mem "Some m" block pos])
next
  case (Suc n)
  then have lt: "pos < nwords" by simp
  then have l: "load (pos div 32) m = Some (m ! (pos div 32))" using assms by (simp add: load_def less_mult_imp_div_less mult.commute)
  have mk: "bit (m ! (pos div 32)) (pos mod 32) \<longleftrightarrow> word_marked m pos"
    using lt assms by (simp add: word_marked_def less_mult_imp_div_less mult.commute)
  have IH: "scan_loop mem (Some m) (block + 8) (pos + 1) nwords =
      Some (map (\<lambda>p. word_at mem (block + 8 + 8 * (p - (pos + 1)))) (filter (word_marked m) [pos + 1..<nwords]))"
    using Suc by (intro Suc.hyps(1)) simp
  have e: "map (\<lambda>p. word_at mem (block + 8 + 8 * (p - (pos + 1)))) (filter (word_marked m) [pos + 1..<nwords]) =
      map (\<lambda>p. word_at mem (block + 8 * (p - pos))) (filter (word_marked m) [pos + 1..<nwords])"
  proof (rule map_cong [OF refl])
    fix p assume "p \<in> set (filter (word_marked m) [pos + 1..<nwords])"
    then have "8 + 8 * (p - (pos + 1)) = 8 * (p - pos)" by auto
    then show "word_at mem (block + 8 + 8 * (p - (pos + 1))) = word_at mem (block + 8 * (p - pos))" by (simp add: add.assoc)
  qed
  show ?case using lt l mk IH unfolding e
    by (simp add: scan_loop.simps [of mem "Some m" block pos] upt_conv_Cons [OF lt])
qed

text \<open>The words that the mark bits of a class select, in an object of the size of the class.\<close>

lemma mark_array_covers:
  assumes "0 \<le> sz" "4 * int (length m) = hl_mark_size sz" "n = nat ((sz + 7) div 8) \<or> n = 8 * ((nat ((sz + 7) div 8) + 7) div 8)"
  shows "n \<le> 32 * length m"
proof -
  define w where "w = nat ((sz + 7) div 8)"
  have "int w = (sz + 7) div 8" using assms(1) by (simp add: w_def)
  then have "int (length m) = (int w + 31) div 32" using assms(2) by (simp add: hl_mark_size_words [OF assms(1)])
  then have "length m = (w + 31) div 32" by linarith
  moreover have "8 * ((w + 7) div 8) \<le> 32 * ((w + 31) div 32)" "w \<le> 32 * ((w + 31) div 32)"
  proof -
    define u where "u = (w + 31) div 32"
    have "w \<le> 32 * u" unfolding u_def by linarith
    then have "(w + 7) div 8 \<le> 4 * u" by linarith
    then show "8 * ((w + 7) div 8) \<le> 32 * u" by linarith
    show "w \<le> 32 * u" by fact
  qed
  ultimately show ?thesis using assms(3) by (auto simp flip: w_def)
qed

text \<open>The words of the fields lie behind the type pointer at the start of the object.\<close>

lemma layout_words_above:
  assumes l: "layout_part st rts lo fs hi t" and w: "w \<in> field_words st rts (map rf_t fs) (rto_indexes t)"
  shows "lo div 8 \<le> w"
proof -
  obtain i where i: "i < length fs" "w \<in> fwords st rts (rf_t (fs ! i)) (rto_indexes t ! i)" using w by (auto simp: field_words_def)
  have "lo \<le> rto_indexes t ! i"
    using placed_on(2) [OF layout_part_placed [OF l] layout_part_sizes [OF l], of i] i(1) by simp
  then have "lo div 8 \<le> rto_indexes t ! i div 8" by (rule zdiv_mono1) simp
  also have "\<dots> \<le> w" using i(2) by (auto simp: fwords_def split: if_splits option.splits)
  finally show ?thesis .
qed

definition class_type :: "rt_runtime \<Rightarrow> gc_type" where
  "class_type rt = \<lparr>t_is_fun = False, t_is_enum = False, t_mark_bits = rto_mark_bits rt\<rparr>"

text \<open>
  C9: The collector follows exactly the pointers of an object. For a class that has pointers and is smaller than \<open>254 * 64\<close> bytes, when the
  runtime data is computed by \<open>hl_get_obj_rt\<close> and a block of the size that \<open>gc_allocator_alloc\<close> gives to its objects is scanned, the scan does not
  leave the mark bits and reads the words of the pointers in own and inherited fields and in packed structures, and no other words.
\<close>

theorem obj_scan_exact:
  assumes "classes_wf st fts ro objk" "rt_inv st objk rts" "data_of st ot = RObj x" "kind_of st ot = HOBJ"
    "hl_get_obj_rt st fts ot rts = Some rts'" "rts' x = Some rt" "class_fields st x fs" "rto_hasPtr rt" "rto_size rt < 64 * 254"
    "gc_allocator_alloc os (nat (rto_size rt)) MEM_KIND_DYNAMIC oc h = Some (int blk, Some a, h')"
    "gc_allocator_fast_block_size page b = Some blk" "page_kind page = MEM_KIND_DYNAMIC"
    "word_at mem b \<noteq> 0" "type_at mem (word_at mem b) = class_type rt"
  shows "\<exists>ps. gc_scan mem page b = Some ps \<and>
    set ps = {word_at mem (b + 8 * p) | p. int p \<in> field_words st rts' (map rf_t fs) (rto_indexes rt)}"
proof -
  obtain rts'' where r: "hl_get_obj_rt st fts ot rts = Some rts''" "computes st ro objk rts (Suc (ro x)) rts''"
    using hl_get_obj_rt_ok [OF assms(1-3)] by blast
  then have i: "rt_inv st objk rts'" using assms(5) by (simp add: computes_def)
  obtain gs where "rt_good st objk rts' x gs rt" using rt_invD [OF i assms(6)] by blast
  then have g: "rt_good st objk rts' x fs rt" using class_fields_unique [OF assms(7)] by (auto simp: rt_good_def)
  have k: "objk x = HOBJ" using classes_wfD(4) [OF assms(1,3)] assms(4) by simp
  have lay: "layout_part st rts' 8 fs (rto_size rt - rto_pad_size rt) rt" "0 \<le> rto_pad_size rt" "class_marks_ok st rts' fs rt"
    using g k by (simp_all add: rt_good_def header_def)
  have sz: "8 \<le> rto_size rt" using layout_part_le [OF lay(1)] lay(2) by simp
  have fit: "\<forall>f\<in>set fs. words_fit st rts' (rf_t f)"
    using fields_fit [OF assms(1) i] class_fields_origin [OF assms(7)] layout_part_field [OF lay(1)] by blast
  obtain m where m: "rto_mark_bits rt = Some m" "4 * int (length m) = hl_mark_size (rto_size rt)"
    "\<And>p. word_marked m p \<longleftrightarrow> int p \<in> field_words st rts' (map rf_t fs) (rto_indexes rt)"
    using lay(3) assms(8) by (auto simp: class_marks_ok_def split: option.splits)
  have pw: "1 \<le> p \<and> p < blk div 8" if "word_marked m p" for p
  proof -
    have "8 * int p + 8 \<le> rto_size rt" "int p \<in> field_words st rts' (map rf_t fs) (rto_indexes rt)"
      using that m(3) layout_words_range [OF lay(1) fit, of "int p"] lay(2) by auto
    moreover have "nat (rto_size rt) \<le> 8 * (blk div 8)" using alloc_block_fits [OF assms(10)] sz assms(9) by simp
    moreover have "1 \<le> int p" using layout_words_above [OF lay(1) calculation(2)] by simp
    ultimately show ?thesis by linarith
  qed
  have "blk div 8 = nat ((rto_size rt + 7) div 8) \<or> blk div 8 = 8 * ((nat ((rto_size rt + 7) div 8) + 7) div 8)"
    using alloc_block_size [OF assms(10)] sz assms(9) by (auto simp: nat_div_distrib nat_add_distrib)
  then have cover: "blk div 8 \<le> 32 * length m" using mark_array_covers [OF _ m(2)] sz by simp
  have "gc_scan mem page b = scan_loop mem (Some m) (b + 8) 1 (blk div 8)"
    using assms(11-14) m(1) by (simp add: gc_scan_def class_type_def Let_def)
  also have "\<dots> = Some (map (\<lambda>p. word_at mem (b + 8 + 8 * (p - 1))) (filter (word_marked m) [1..<blk div 8]))"
    by (rule scan_loop_marks [OF cover])
  finally have "gc_scan mem page b = Some (map (\<lambda>p. word_at mem (b + 8 + 8 * (p - 1))) (filter (word_marked m) [1..<blk div 8]))" .
  moreover have "set (map (\<lambda>p. word_at mem (b + 8 + 8 * (p - 1))) (filter (word_marked m) [1..<blk div 8])) =
      (\<lambda>p. word_at mem (b + 8 * p)) ` {p. word_marked m p}"
  proof -
    have "set (filter (word_marked m) [1..<blk div 8]) = {p. word_marked m p}" using pw by auto
    moreover have "b + 8 + 8 * (p - 1) = b + 8 * p" if "word_marked m p" for p using pw [OF that] by linarith
    ultimately show ?thesis unfolding set_map by (intro image_cong) (simp_all only: mem_Collect_eq)
  qed
  ultimately show ?thesis using m(3) by (auto simp: image_def)
qed

text \<open>A class with one field, a pointer.\<close>

definition ptr_store :: rt_store where
  "ptr_store = class_store\<lparr>st_obj := (\<lambda>a. \<lparr>ro_name = a, ro_super = None, ro_fields = [sample_field 9 2 5], ro_proto = [], ro_bindings = []\<rparr>)\<rparr>"

lemma ptr_store_simps [simp]: "st_type ptr_store = class_types" "st_str ptr_store = (\<lambda>_. USTR ''f'')"
  "st_obj ptr_store a = \<lparr>ro_name = a, ro_super = None, ro_fields = [sample_field 9 2 5], ro_proto = [], ro_bindings = []\<rparr>"
  by (simp_all add: ptr_store_def)

lemma ptr_store_wf: "classes_wf ptr_store [] (\<lambda>x. x) class_kind"
  unfolding classes_wf_def
  by (auto simp: objs_wf_def super_of_def class_types_def class_kind_def sample_field_def split: if_splits)

lemma ptr_class_rt:
  obtains rts' rt where "hl_get_obj_rt ptr_store [] 5 (\<lambda>_. None) = Some rts'" "rts' 1 = Some rt" "class_fields ptr_store 1 [sample_field 9 2 5]"
    "rto_hasPtr rt" "8 \<le> rto_size rt" "rto_size rt < 64 * 254"
proof -
  have d: "data_of ptr_store 5 = RObj 1" by (simp add: class_types_def)
  obtain rts' where r: "hl_get_obj_rt ptr_store [] 5 (\<lambda>_. None) = Some rts'" "computes ptr_store (\<lambda>x. x) class_kind (\<lambda>_. None) (Suc 1) rts'" "rts' 1 \<noteq> None"
    using hl_get_obj_rt_ok [OF ptr_store_wf rt_inv_empty d] by blast
  then obtain rt fs where t: "rts' 1 = Some rt" "rt_good ptr_store class_kind rts' 1 fs rt" unfolding computes_def rt_inv_def by blast
  have f: "class_fields ptr_store 1 [sample_field 9 2 5]"
    using class_fields.intros [of ptr_store 1] by (auto simp: super_of_def)
  then have fs: "fs = [sample_field 9 2 5]" using t(2) class_fields_unique unfolding rt_good_def by blast
  have k: "kind_of ptr_store 2 = HBYTES" by (simp add: class_types_def)
  have g: "layout_part ptr_store rts' 8 fs (rto_size rt - rto_pad_size rt) rt" "0 \<le> rto_pad_size rt" "rto_pad_size rt < 8"
    using t(2) by (auto simp: rt_good_def header_def class_kind_def)
  have al: "falign ptr_store rts' 2 = 8" "fsize ptr_store rts' 2 = 8" "fpointer ptr_store rts' 2"
    using k by (simp_all add: falign_def align_of_def fsize_def fpointer_def hl_is_ptr_def T_IS_PTR_def hl_type_size_def T_SIZES_def HL_WSIZE_def)
  obtain x where "8 \<le> x" "x < 16" "x + 8 = rto_size rt - rto_pad_size rt"
    using layout_part_placed [OF g(1)] al by (cases "rto_indexes rt") (auto simp: fs sample_field_def neq_Nil_conv elim: placed.elims)
  then have "8 \<le> rto_size rt" "rto_size rt < 64 * 254" using g by linarith+
  moreover have "rto_hasPtr rt" using g(1) al(3) by (simp add: layout_part_def fs sample_field_def)
  ultimately show thesis using that r(1) t(1) f by blast
qed

theorem obj_scan_exact_witness:
  "\<exists>mem page b rts' rt ps. hl_get_obj_rt ptr_store [] 5 (\<lambda>_. None) = Some rts' \<and> rts' 1 = Some rt \<and> gc_scan mem page b = Some ps \<and>
    set ps = {word_at mem (b + 8 * p) | p. int p \<in> field_words ptr_store rts' [2] (rto_indexes rt)}"
proof -
  obtain rts' rt where r: "hl_get_obj_rt ptr_store [] 5 (\<lambda>_. None) = Some rts'" "rts' 1 = Some rt" "class_fields ptr_store 1 [sample_field 9 2 5]"
    "rto_hasPtr rt" "8 \<le> rto_size rt" "rto_size rt < 64 * 254" by (rule ptr_class_rt)
  obtain os where os: "fresh_memory os empty_heap" using fresh_memory_exists [OF empty_heap_ok(1)] by blast
  have small: "0 < nat (rto_size rt)" "nat (rto_size rt) + 2 * GC_PAGE_SIZE \<le> INT_LIMIT" "MEM_KIND_DYNAMIC < 4" "0 < GC_PAGE_CLASSES"
    "MEM_KIND_DYNAMIC = MEM_KIND_FINALIZER \<longrightarrow> round_up (nat (rto_size rt)) 8 < GC_LARGE_BLOCK"
    using r(5,6) by (simp_all add: GC_PAGE_SIZE_def INT_LIMIT_def GC_PAGE_CLASSES_def MEM_KIND_FINALIZER_def MEM_KIND_DYNAMIC_def)
  obtain blk a h' where al: "gc_allocator_alloc os (nat (rto_size rt)) MEM_KIND_DYNAMIC 0 empty_heap = Some (int blk, Some a, h')"
    by (rule gc_allocator_alloc_ok [OF empty_heap_ok(1) small os])
  define page where "page = small_page\<lparr>page_kind := MEM_KIND_DYNAMIC, block_size := blk\<rparr>"
  define mem where "mem = \<lparr>word_at = (\<lambda>_. 1), type_at = (\<lambda>_. class_type rt)\<rparr>"
  have d: "data_of ptr_store 5 = RObj 1" "kind_of ptr_store 5 = HOBJ" by (simp_all add: class_types_def)
  have p: "gc_allocator_fast_block_size page 0 = Some blk" "page_kind page = MEM_KIND_DYNAMIC" "word_at mem 0 \<noteq> 0" "type_at mem (word_at mem 0) = class_type rt"
    by (simp_all add: page_def mem_def small_page_def gc_allocator_fast_block_size_def)
  have "\<exists>ps. gc_scan mem page 0 = Some ps \<and>
      set ps = {word_at mem (0 + 8 * p) | p. int p \<in> field_words ptr_store rts' (map rf_t [sample_field 9 2 5]) (rto_indexes rt)}"
    by (rule obj_scan_exact [OF ptr_store_wf rt_inv_empty d r(1-4,6) al p])
  then show ?thesis using r(1,2) by (simp only: list.map sample_field_def rt_field.simps) blast
qed

end
