(* ===== verification/Spec2Isabelle.thy ===== *)
theory Spec2Isabelle
  imports Utf FieldHash Opcodes Reader CodeRead Identities CodeFormat CodeHash DataStruct HashMap ArmImmediate GcCollect
    StringBuffer RuntimeTypes DataLayout ObjRuntime ObjScan
begin

text \<open>
  A verification development of HashLink, the virtual machine for Haxe (C sources under \<^verbatim>\<open>src/src\<close>).

  \<^bold>\<open>The program.\<close> A bytecode file is read and checked by \<^verbatim>\<open>code.c\<close> into tables of types, strings, functions and opcodes. The
  module loader and the code generators (\<^verbatim>\<open>jit*.c\<close>) turn these tables into machine code; they keep their own data in the
  containers of \<^verbatim>\<open>data_struct.c\<close>, and for AArch64 they emit instructions through \<^verbatim>\<open>jit_aarch64_emit.c\<close>. A changed file is compared
  with the loaded one by hashes (\<^verbatim>\<open>code.c\<close>) so that code can be replaced while it runs. Running code allocates through
  \<^verbatim>\<open>gc.c\<close> and its block allocator \<^verbatim>\<open>allocator.c\<close>, and calls the standard library in \<^verbatim>\<open>std/\<close>: strings (\<^verbatim>\<open>ucs2.c\<close>, \<^verbatim>\<open>string.c\<close>), fields by
  name and the layout of objects (\<^verbatim>\<open>obj.c\<close>), type equality, casts and enums (\<^verbatim>\<open>types.c\<close>), string buffers (\<^verbatim>\<open>buffer.c\<close>) and hash maps
  (\<^verbatim>\<open>maps.c\<close>, \<^verbatim>\<open>maps.h\<close>). The collector reads the mark bits that the layout of objects computes.

  \<^bold>\<open>Conventions.\<close> A definition has the name of the C function it models, in the order of the source. A machine integer whose
  wrap-around matters is a word or is wrapped by \<open>i32\<close> (theory \<open>Prelude\<close>); an array is a list, and an access outside of it is
  \<open>None\<close>, as is undefined arithmetic and \<open>hl_fatal\<close>. The reader is a state monad over the record \<open>hl_reader\<close>, whose field \<open>r_error\<close> is
  the error that the source reports and whose field \<open>r_fault\<close> says that it has left its buffer. A loop is a recursive function with
  a measure; the marking loop of the collector and the probe loops of hash tables have fuel, and lemmas show that the fuel they are
  given is enough (the number of blocks of the heap; the size of the table). A recursion over types, which may be cyclic, is a
  \<open>partial_function\<close> whose value \<open>None\<close> means that it does not return; the theorems show that it returns.

  \<^bold>\<open>Theories.\<close>
  \<^item> \<open>Prelude\<close>: machine types, \<open>i32\<close>, the Hoare logic for the state monad and the lemmas on lists and words that the others share.
  \<^item> \<open>Utf\<close> (\<^verbatim>\<open>std/ucs2.c\<close>, \<^verbatim>\<open>std/string.c\<close>): the conversions between UTF-8 and UTF-16 as loops over buffers. Well-formed strings
    survive a round trip, the counting passes agree with the writing passes, and the inputs on which they do not are characterised.
  \<^item> \<open>FieldHash\<close> (\<^verbatim>\<open>std/obj.c\<close>): sorted field tables with binary search, the global cache of field names and the typed slots. Binary
    search is a linear scan; the hashes that the cache gives to names are injective and are mapped back to the names.
  \<^item> \<open>Opcodes\<close> (\<^verbatim>\<open>opcodes.h\<close>): the table of opcodes with their names and argument counts.
  \<^item> \<open>Reader\<close>, \<open>CodeRead\<close> (\<^verbatim>\<open>code.c\<close> up to \<open>hl_code_read\<close>, \<^verbatim>\<open>hlmodule.h\<close>): the reading of every part of a file and of the whole file.
    A code that is accepted is well-formed: lengths of tables, references to types and strings, opcodes, jump targets, debug tables.
  \<^item> \<open>Identities\<close>: the section of function identities uses an index and an open-addressing hash set; this is equivalent to scans over
    the functions and a mathematical set. The interface is the locale \<open>id_set\<close>, with the hash set as its instance.
  \<^item> \<open>CodeFormat\<close>: encoders for indices, opcodes and functions, in the format the reader expects. Reading an encoded value gives it
    back; reading any bytes stays in the buffer, except for the inputs of the error theorems.
  \<^item> \<open>CodeHash\<close> (\<^verbatim>\<open>code.c\<close> from \<open>crc32_table\<close> on): the hashes of types, functions and globals, and the renumbering of globals at a reload.
    The renumbering is injective and keeps the meaning of every opcode; the hashes do not depend on the order of the type table.
  \<^item> \<open>Contracts\<close>: what a container promises to its users, a finite set and a finite map, as locales with their lemmas on sequences of
    operations. \<open>DataStruct\<close> (\<^verbatim>\<open>data_struct.c\<close>), \<open>FreeList\<close> and \<open>HashMap\<close> (\<^verbatim>\<open>std/maps.c\<close>, \<^verbatim>\<open>std/maps.h\<close>) model the containers and interpret
    the locales: any sequence of operations gives what it gives on mathematical sets and maps, without leaving an array. The sizes are
    limited by the \<open>int\<close> range: \<open>size_limit\<close> (\<open>2 ^ 30\<close> elements) for the template, \<open>map_limit\<close> for the hash maps.
  \<^item> \<open>ArmEmit\<close>, \<open>ArmImmediate\<close> (\<^verbatim>\<open>jit_aarch64_emit.c\<close>): one definition for each encoder, the decoder of the architecture as the reference,
    logical immediates, and the loading of constants with a semantics of the instructions it emits. Encoded instructions decode to
    themselves; the code that is emitted for a constant loads it and changes nothing else.
  \<^item> \<open>GcPage\<close>, \<open>GcHeap\<close> (\<^verbatim>\<open>allocator.c\<close>, \<^verbatim>\<open>allocator.h\<close>): free lists, pages, the lazy sweep, and the allocation in size classes. A page has at
    most 65536 blocks, so that the positions in it do not overflow. The invariant \<open>heap_wf\<close> says that pages, objects and free runs do
    not overlap. An allocation never fails below the \<open>int\<close> limit and gives a block apart from all others.
  \<^item> \<open>GcMark\<close>, \<open>GcCollect\<close> (\<^verbatim>\<open>gc.c\<close>, \<^verbatim>\<open>allocator.c\<close>): pointer lookup, the mark phase with one marking thread, finalizers and the release of empty
    pages. The two ways to mark a word share the locale \<open>word_marker\<close>. Marking ends and marks exactly the reachable blocks; a collection
    keeps exactly the reachable objects. The step relation \<open>gc_run\<close> interleaves allocation and collection: objects in use never overlap.
  \<^item> \<open>StringBuffer\<close> (\<^verbatim>\<open>std/buffer.c\<close>, URL coding of \<^verbatim>\<open>std/string.c\<close>): the chain of items of a string buffer. The locale \<open>text_buffer\<close> says what its
    clients use: an append extends the text that the buffer holds. URL coding and the names of types are proved over it. Encoding and
    decoding is a round trip for all strings; decoding never reads behind the terminator. The sizes are limited by \<open>buffer_limit\<close>, for
    which the byte counts stay in the \<open>int\<close> range.
  \<^item> \<open>RuntimeTypes\<close> (\<^verbatim>\<open>std/types.c\<close>, \<^verbatim>\<open>hl.h\<close>): types as records in a store of addresses, so that classes and virtuals may be recursive. Type equality
    is an equivalence, casts are a preorder that keeps the representation, and the text of a type is finite.
  \<^item> \<open>DataLayout\<close>, \<open>ObjLayout\<close>, \<open>ObjRuntime\<close> (\<^verbatim>\<open>std/types.c\<close>, \<^verbatim>\<open>std/obj.c\<close>): the layout of enums, classes and virtuals. \<open>placed\<close> says that values are
    aligned and do not overlap; \<open>rt_inv\<close> is the invariant of the runtime data that \<open>hl_get_obj_rt\<close> computes class by class, with inherited
    fields and packed structures. The mark bits select exactly the words of pointers, and a cast between classes keeps the offsets.
  \<^item> \<open>ObjScan\<close>: the two together with the collector. On a block of the size that the allocator gives for an object, the collector stays within
    the mark bits and reads exactly the pointers of the object.

  \<^bold>\<open>Parameters.\<close> The memory that the operating system gives for a new page is an argument (\<open>gc_os\<close>); what is used of it is that it is not
  part of a page in use (\<open>fresh_memory\<close>). The contents of memory and the mark bits of types are an argument of the mark phase
  (\<open>gc_memory\<close>); what is used is that the mark bits of a type cover its objects (\<open>scannable\<close>).

  \<^bold>\<open>Not modelled.\<close> Marking with several threads, the incremental collector and write tracking (they interleave with threads and with
  signal handlers); the per-thread allocation buffers; the page map of the collector (it is the search for the page of an address);
  the code generators themselves and x86-64 (they would need a semantics of all opcodes and of the machine); modules, hot patching,
  debugger, profilers and the services of the operating system (input and output, native code); method tables, dynamic objects and access
  by name in \<^verbatim>\<open>std/obj.c\<close>, values on raw memory in \<^verbatim>\<open>std/cast.c\<close> and the printing of values; number formatting; the bindings under \<^verbatim>\<open>libs\<close> and vendored code.
\<close>

end
